(* ===== verification/Prelude.thy ===== *)
theory Prelude
  imports Main "HOL-Library.Word"
begin

text \<open>
  The vocabulary the component theories share: the machine integer types of the program's
  target (LP64: \<open>size_t\<close> and \<open>uint64_t\<close> are 64 bits wide), the ways a C++ operation can fail
  to return normally, collections of rewrite rules, and the lemmas on machine words and lists
  that more than one component needs.
\<close>

unbundle bit_operations_syntax

section \<open>Types\<close>

type_synonym size_t = "64 word"
type_synonym uint64_t = "64 word"
type_synonym int64_t = "64 word"

text \<open>
  Ways an operation does not return normally. The first group are the standard library's
  exceptions the sources throw or let through, the second those of the JSON library (with the
  numeric id of its exception classes), the last three are not exceptions: a failed
  \<^verbatim>\<open>assert\<close> aborts, an access the language leaves undefined is recorded as such, with
  a note on its kind, so that a theorem can say that it never happens, and a function may return false
  without having reported an error.
\<close>

datatype cpp_error =
    Invalid_argument string
  | Out_of_range string
  | Length_error string
  | Runtime_error string
  | Json_parse_error nat string
  | Json_type_error nat string
  | Json_out_of_range nat string
  | Json_invalid_iterator nat string
  | Json_other_error nat string
  | Assertion_failed string
  | Undefined_behaviour string
  | Returned_false

type_synonym 'a outcome = "cpp_error + 'a"

text \<open>A name in the single quotes of a message.\<close>

definition quoted :: "string \<Rightarrow> string" where
  "quoted s = CHR 0x27 # s @ [CHR 0x27]"

text \<open>A sequence of statements on a state, which the first error ends.\<close>

fun run_actions :: "('s \<Rightarrow> 's outcome) list \<Rightarrow> 's \<Rightarrow> 's outcome" where
  "run_actions [] s = Inr s"
| "run_actions (a # as) s = (case a s of Inl e \<Rightarrow> Inl e | Inr s1 \<Rightarrow> run_actions as s1)"

lemma run_actions_append:
  "run_actions (as @ bs) s = (case run_actions as s of Inl e \<Rightarrow> Inl e | Inr s1 \<Rightarrow> run_actions bs s1)"
  by (induction as arbitrary: s) (auto split: sum.split)

named_theorems wf_intros \<open>preservation of well-formedness by the operations\<close>
named_theorems abs_simps \<open>how the abstraction functions read the operations' results\<close>

section \<open>Powers of two and masks\<close>

lemma nat_and_pred_pow2:
  "0 < n \<Longrightarrow> n AND (n - 1) = 0 \<Longrightarrow> \<exists>k. n = 2 ^ k" for n :: nat
proof (induction n rule: less_induct)
  case (less n)
  show ?case
  proof (cases "even n")
    case True
    then obtain m where m: "n = 2 * m" by blast
    with less.prems have pos: "0 < m" by simp
    then have pred: "n - 1 = Suc (2 * (m - 1))" using m by simp
    have "(2 * m) AND Suc (2 * (m - 1)) = 2 * (m AND (m - 1))"
      using and_nat_unfold [of "2 * m" "Suc (2 * (m - 1))"] by simp
    then have "m AND (m - 1) = 0" using less.prems(2) m pred by simp
    then obtain k where "m = 2 ^ k" using less.IH [of m] m pos by auto
    then have "n = 2 ^ Suc k" using m by simp
    then show ?thesis ..
  next
    case False
    then obtain m where m: "n = Suc (2 * m)" by (metis oddE Suc_eq_plus1)
    have "Suc (2 * m) AND (2 * m) = 2 * m"
      using and_nat_unfold [of "Suc (2 * m)" "2 * m"] by simp
    then have "m = 0" using less.prems(2) m by simp
    then have "n = 2 ^ 0" using m by simp
    then show ?thesis ..
  qed
qed

lemma word_and_pred_pow2:
  assumes "w AND (w - 1) = 0" and "w \<noteq> (0 :: 64 word)"
  shows "\<exists>k<64. w = 2 ^ k"
proof -
  have pos: "0 < unat w" using assms(2) by (simp add: unat_gt_0)
  have "unat (w - 1) = unat w - 1" using assms(2) by (rule unat_minus_one)
  then have "unat w AND (unat w - 1) = 0"
    using arg_cong [OF assms(1), of unat] by (simp add: unsigned_and_eq)
  then obtain k where k: "unat w = 2 ^ k" using nat_and_pred_pow2 pos by blast
  then have "(2::nat) ^ k < 2 ^ 64" using unsigned_less [of w, where ?'a = nat] by simp
  then have "k < 64" by (simp only: power_strict_increasing_iff)
  moreover have "w = 2 ^ k" using k by (metis of_nat_numeral of_nat_power of_nat_unat ucast_id)
  ultimately show ?thesis by blast
qed

lemma unat_pow2_64: "k < 64 \<Longrightarrow> unat (2 ^ k :: 64 word) = 2 ^ k"
proof -
  assume "k < 64"
  then have "(2::nat) ^ k < 2 ^ 64" by (rule power_strict_increasing) simp
  then have "unat (of_nat (2 ^ k) :: 64 word) = 2 ^ k"
    by (simp add: unat_of_nat del: of_nat_power)
  then show ?thesis by simp
qed

lemma unat_and_pow2_pred:
  assumes "k < 64"
  shows "unat (w AND (2 ^ k - 1) :: 64 word) = unat w mod 2 ^ k"
proof -
  have "w AND (2 ^ k - 1) = take_bit k w"
    by (simp add: take_bit_eq_mask mask_eq_exp_minus_1)
  then show ?thesis by (simp only: unsigned_take_bit_eq) (simp add: take_bit_eq_mod)
qed

lemma and_pow2_pred_zero: "(2 ^ k :: 64 word) AND (2 ^ k - 1) = 0"
proof -
  have "(2 ^ k :: 64 word) AND (2 ^ k - 1) = take_bit k (2 ^ k)"
    by (simp add: take_bit_eq_mask mask_eq_exp_minus_1)
  then show ?thesis by (simp add: take_bit_eq_mod)
qed

lemma unat_plus_one_mod:
  assumes "k < 64"
  shows "unat (w + 1 :: 64 word) mod 2 ^ k = Suc (unat w) mod 2 ^ k"
proof -
  have dvd: "(2::nat) ^ k dvd 2 ^ 64" using assms by (intro le_imp_power_dvd) simp
  have "unat (w + 1) = (unat w + 1) mod 2 ^ 64" by (simp add: unat_word_ariths)
  then show ?thesis using dvd by (simp only: mod_mod_cancel) simp
qed

lemma unat_minus_mod:
  assumes "k < 64" and "unat h < 2 ^ k"
  shows "unat (t - h :: 64 word) mod 2 ^ k = (unat t + 2 ^ k - unat h) mod 2 ^ k"
proof -
  define K N :: nat where "K = 2 ^ k" and "N = 2 ^ 64"
  have "K dvd N" using assms(1) unfolding K_def N_def by (intro le_imp_power_dvd) simp
  then obtain c where c: "N = K * c" ..
  have "h \<le> t \<or> unat t < unat h"
    by (simp only: word_le_nat_alt) (rule le_less_linear)
  then have diff: "unat (t - h) = unat t - unat h \<and> unat h \<le> unat t
      \<or> unat (t - h) = unat t + N - unat h \<and> unat t < unat h"
    by (auto simp: unat_sub_if_size word_size word_le_nat_alt N_def)
  have hK: "unat h < K" using assms(2) by (simp add: K_def)
  have "c \<noteq> 0" using c by (cases c) (simp_all add: N_def)
  from diff have "unat (t - h) mod K = (unat t + K - unat h) mod K"
  proof
    assume "unat (t - h) = unat t - unat h \<and> unat h \<le> unat t"
    then show ?thesis by (metis Nat.add_diff_assoc2 mod_add_self2)
  next
    assume a: "unat (t - h) = unat t + N - unat h \<and> unat t < unat h"
    then have "unat t + N - unat h = unat t + K - unat h + K * (c - 1)"
      using c hK \<open>c \<noteq> 0\<close> by (cases c) auto
    with a show ?thesis by simp
  qed
  then show ?thesis by (simp add: K_def)
qed

section \<open>Shifts as arithmetic\<close>

lemma unat_drop_bit: "unat (drop_bit k w :: 'a::len word) = unat w div 2 ^ k"
  by (simp only: unsigned_drop_bit_eq) (simp add: drop_bit_eq_div take_bit_eq_mod)

lemma drop_bit_zero_iff: "drop_bit k w = 0 \<longleftrightarrow> unat w < 2 ^ k" for w :: "'a::len word"
  by (simp add: unat_eq_0 [symmetric] unat_drop_bit div_eq_0_iff del: unat_eq_0)

lemma unat_push_bit: "unat w * 2 ^ k < 2 ^ LENGTH('a) \<Longrightarrow> unat (push_bit k w :: 'a::len word) = unat w * 2 ^ k"
  by (simp only: unsigned_push_bit_eq) (simp add: take_bit_eq_mod push_bit_eq_mult)

lemma unat_take_bit: "unat (take_bit k w :: 'a::len word) = unat w mod 2 ^ k"
  by (simp only: unsigned_take_bit_eq) (simp add: take_bit_eq_mod)

lemma and_mask_take_bit:
  "(w :: 64 word) AND (push_bit s 1 - 1) = take_bit s w"
  "(w :: 64 word) AND (2 ^ s - 1) = take_bit s w"
  by (simp_all add: take_bit_eq_mask mask_eq_exp_minus_1 push_bit_eq_mult)

lemma word_add_within:
  fixes r d t :: "64 word"
  assumes "r < d" "t \<le> d - r"
  shows "unat (r + t) = unat r + unat t" "r + t \<le> d" 
proof -
  have le: "unat r + unat t \<le> unat d"
    using assms by (simp add: word_less_nat_alt word_le_nat_alt unat_sub_if_size)
  then have lt: "unat r + unat t < 2 ^ 64" using unsigned_less [of d, where ?'a = nat] by simp
  show u: "unat (r + t) = unat r + unat t" using lt by (simp add: unat_word_ariths)
  show "r + t \<le> d" using le u by (simp add: word_le_nat_alt)
qed

end
