(* ===== verification/Cpp_Numbers.thy ===== *)
theory Cpp_Numbers
  imports Prelude
begin

text \<open>
  The number conversions of the C++ standard library that the sources call: \<^verbatim>\<open>std::to_string\<close>
  on unsigned integers, \<^verbatim>\<open>std::stoi\<close>, \<^verbatim>\<open>std::strtoull\<close> and \<^verbatim>\<open>std::strtoll\<close> on digit strings,
  \<^verbatim>\<open>std::strtod\<close> on JSON number tokens (correctly rounded, ties to even), and the conversion of
  a double to \<^verbatim>\<open>uint64_t\<close>.
\<close>

section \<open>Decimal digits\<close>

definition char_nat :: "char \<Rightarrow> nat" where
  "char_nat c = of_char c"

definition is_digit :: "char \<Rightarrow> bool" where
  "is_digit c \<longleftrightarrow> 48 \<le> char_nat c \<and> char_nat c \<le> 57"

definition digit_val :: "char \<Rightarrow> nat" where
  "digit_val c = char_nat c - 48"

definition digit_char :: "nat \<Rightarrow> char" where
  "digit_char d = char_of (48 + d)"

fun to_string :: "nat \<Rightarrow> string" where
  "to_string n = (if n < 10 then [digit_char n] else to_string (n div 10) @ [digit_char (n mod 10)])"

declare to_string.simps [simp del]

definition dec_value :: "string \<Rightarrow> nat" where
  "dec_value cs = foldl (\<lambda>a c. 10 * a + digit_val c) 0 cs"

lemma char_nat_digit_char: "d < 10 \<Longrightarrow> char_nat (digit_char d) = 48 + d"
  by (simp add: char_nat_def digit_char_def of_char_of)

lemma is_digit_digit_char [simp]: "d < 10 \<Longrightarrow> is_digit (digit_char d)"
  by (simp add: is_digit_def char_nat_digit_char)

lemma digit_val_digit_char [simp]: "d < 10 \<Longrightarrow> digit_val (digit_char d) = d"
  by (simp add: digit_val_def char_nat_digit_char)

lemma dec_value_snoc [simp]: "dec_value (cs @ [c]) = 10 * dec_value cs + digit_val c"
  by (simp add: dec_value_def)

lemma dec_value_Nil [simp]: "dec_value [] = 0"
  by (simp add: dec_value_def)

lemma to_string_nonempty [simp]: "to_string n \<noteq> []"
  by (subst to_string.simps) simp

lemma to_string_digits: "c \<in> set (to_string n) \<Longrightarrow> is_digit c"
proof (induction n rule: to_string.induct)
  case (1 n)
  show ?case
  proof (cases "n < 10")
    case True
    with "1.prems" show ?thesis by (simp add: to_string.simps [of n])
  next
    case False
    with "1.prems" have "c = digit_char (n mod 10) \<or> c \<in> set (to_string (n div 10))"
      by (simp add: to_string.simps [of n])
    then show ?thesis using "1.IH" False by auto
  qed
qed

lemma dec_value_to_string: "dec_value (to_string n) = n"
proof (induction n rule: to_string.induct)
  case (1 n)
  show ?case
  proof (cases "n < 10")
    case True
    then show ?thesis using dec_value_snoc [of "[]" "digit_char n"]
      by (simp add: to_string.simps [of n])
  next
    case False
    then show ?thesis using "1.IH" by (simp add: to_string.simps [of n])
  qed
qed

lemma to_string_inject: "to_string m = to_string n \<longleftrightarrow> m = n"
  by (metis dec_value_to_string)

lemma to_string_hd: "0 < n \<Longrightarrow> hd (to_string n) \<noteq> CHR ''0''"
proof (induction n rule: to_string.induct)
  case (1 n)
  show ?case
  proof (cases "n < 10")
    case True
    then have "char_nat (digit_char n) \<noteq> char_nat CHR ''0''"
      using "1.prems" by (simp add: char_nat_digit_char) (simp add: char_nat_def)
    then show ?thesis using True by (auto simp: to_string.simps [of n])
  next
    case False
    then show ?thesis using "1.IH" by (simp add: to_string.simps [of n])
  qed
qed

section \<open>std::stoi\<close>

definition is_space :: "char \<Rightarrow> bool" where
  "is_space c \<longleftrightarrow> char_nat c = 32 \<or> (9 \<le> char_nat c \<and> char_nat c \<le> 13)"

definition int_min :: int where
  "int_min = - (2 ^ 31)"

definition int_max :: int where
  "int_max = 2 ^ 31 - 1"

definition stoi :: "string \<Rightarrow> int outcome" where
  "stoi str =
     (let cs = dropWhile is_space str;
          (neg, ds) = (case cs of
              c # r \<Rightarrow> if c = CHR ''-'' then (True, r) else if c = CHR ''+'' then (False, r)
                       else (False, cs)
            | [] \<Rightarrow> (False, []));
          digits = takeWhile is_digit ds;
          v = (if neg then - int (dec_value digits) else int (dec_value digits))
      in if digits = [] then Inl (Invalid_argument ''stoi'')
         else if v < int_min \<or> int_max < v then Inl (Out_of_range ''stoi'')
         else Inr v)"

lemma stoi_range: "stoi s = Inr v \<Longrightarrow> int_min \<le> v \<and> v \<le> int_max"
  by (auto simp: stoi_def Let_def split: if_splits prod.splits)

lemma takeWhile_digits [simp]: "takeWhile is_digit (to_string n) = to_string n"
  by (simp add: takeWhile_eq_all_conv to_string_digits)

lemma digit_not_special:
  "is_digit c \<Longrightarrow> \<not> is_space c \<and> c \<noteq> CHR ''-'' \<and> c \<noteq> CHR ''+'' \<and> c \<noteq> CHR ''.''"
  by (auto simp: is_digit_def is_space_def char_nat_def)

lemma stoi_to_string:
  assumes "int n \<le> int_max"
  shows "stoi (to_string n) = Inr (int n)"
proof -
  obtain c r where cr: "to_string n = c # r" by (meson neq_Nil_conv to_string_nonempty)
  then have "is_digit c" using to_string_digits [of c n] by simp
  then have "dropWhile is_space (to_string n) = to_string n"
    and "c \<noteq> CHR ''-''" "c \<noteq> CHR ''+''"
    using cr digit_not_special by auto
  then show ?thesis
    using assms cr takeWhile_digits [of n] dec_value_to_string [of n]
    by (simp add: stoi_def int_min_def)
qed

section \<open>Doubles\<close>

text \<open>
  A double is an infinity, \<open>(-1)\<^sup>s \<cdot> m \<cdot> 2\<^sup>e\<close>, or not a number, with a sign and the bits of its
  fraction; the conversions below only produce the mantissas and exponents of the format: zero has
  exponent 0, another number a mantissa of 53 bits, or fewer at the smallest exponent.
\<close>

datatype double = Double_inf bool | Double_nan bool nat | Double_fin bool nat int

fun bit_len :: "nat \<Rightarrow> nat" where
  "bit_len n = (if n = 0 then 0 else Suc (bit_len (n div 2)))"

declare bit_len.simps [simp del]

definition div_half_even :: "nat \<Rightarrow> nat \<Rightarrow> nat" where
  "div_half_even n d =
     (let q = n div d; r = n mod d
      in if 2 * r < d then q else if d < 2 * r then q + 1 else if even q then q else q + 1)"

text \<open>The double nearest to \<open>num / den\<close>, ties to even.\<close>

definition round_double :: "bool \<Rightarrow> nat \<Rightarrow> nat \<Rightarrow> double" where
  "round_double neg num den =
     (if num = 0 then Double_fin neg 0 0
      else
        let q0 = int (bit_len num) - int (bit_len den) - 53;
            q1 = (if 2 ^ 53 * den * 2 ^ nat q0 \<le> num * 2 ^ nat (- q0) then q0 + 1 else q0);
            q = max (- 1074) q1;
            m = div_half_even (num * 2 ^ nat (- q)) (den * 2 ^ nat q)
        in if 971 < q \<or> q = 971 \<and> 2 ^ 53 \<le> m then Double_inf neg
           else if m = 0 then Double_fin neg 0 0
           else if m = 2 ^ 53 then Double_fin neg (2 ^ 52) (q + 1)
           else Double_fin neg m q)"

text \<open>The double nearest to \<open>m \<cdot> 10\<^sup>e\<close>.\<close>

definition scaled_double :: "bool \<Rightarrow> nat \<Rightarrow> int \<Rightarrow> double" where
  "scaled_double neg m e = round_double neg (m * 10 ^ nat e) (10 ^ nat (- e))"

text \<open>
  \<^verbatim>\<open>std::strtod\<close> on a token of the form sign, digits, optional fraction, optional exponent.
\<close>

definition strtod :: "string \<Rightarrow> double" where
  "strtod str =
     (let neg = (case str of c # _ \<Rightarrow> c = CHR ''-'' | [] \<Rightarrow> False);
          body = (if neg then tl str else str);
          ip = takeWhile is_digit body;
          r1 = dropWhile is_digit body;
          (fp, r2) = (case r1 of
              c # r \<Rightarrow> if c = CHR ''.'' then (takeWhile is_digit r, dropWhile is_digit r)
                       else ([], r1)
            | [] \<Rightarrow> ([], []));
          ex = (case r2 of
              c # r \<Rightarrow> if c = CHR ''e'' \<or> c = CHR ''E''
                       then (case r of
                           d # ds \<Rightarrow> if d = CHR ''-'' then - int (dec_value ds)
                                     else if d = CHR ''+'' then int (dec_value ds)
                                     else int (dec_value r)
                         | [] \<Rightarrow> 0)
                       else 0
            | [] \<Rightarrow> 0);
          m = dec_value (ip @ fp);
          e = ex - int (length fp)
      in scaled_double neg m e)"

fun double_finite :: "double \<Rightarrow> bool" where
  "double_finite (Double_inf s) = False"
| "double_finite (Double_nan s f) = False"
| "double_finite (Double_fin s m e) = True"

text \<open>The mantissas and exponents of the finite doubles, and the fractions of those that are no numbers.\<close>

fun double_wf :: "double \<Rightarrow> bool" where
  "double_wf (Double_inf s) = True"
| "double_wf (Double_nan s f) = (0 < f \<and> f < 2 ^ 52)"
| "double_wf (Double_fin s m e) =
     (m < 2 ^ 53 \<and> (if m = 0 then e = 0 else - 1074 \<le> e \<and> e \<le> 971 \<and> (m < 2 ^ 52 \<longrightarrow> e = - 1074)))"

text \<open>
  \<^verbatim>\<open>static_cast<uint64_t>\<close> of a double truncates; a truncated value that does not fit is
  undefined behaviour.
\<close>

fun double_to_uint64 :: "double \<Rightarrow> uint64_t outcome" where
  "double_to_uint64 (Double_inf s) = Inl (Undefined_behaviour ''float to integer overflow'')"
| "double_to_uint64 (Double_nan s f) = Inl (Undefined_behaviour ''float to integer overflow'')"
| "double_to_uint64 (Double_fin s m e) =
     (let v = (m * 2 ^ nat e) div 2 ^ nat (- e)
      in if v = 0 then Inr 0
         else if s \<or> 2 ^ 64 \<le> v then Inl (Undefined_behaviour ''float to integer overflow'')
         else Inr (of_nat v))"

text \<open>
  A value of at least \<open>2\<^sup>1\<^sup>0\<^sup>2\<^sup>4\<close> overflows; this decides tokens with a large exponent without
  computing the power.
\<close>

lemma bit_len_greater: "2 ^ k \<le> n \<Longrightarrow> k < bit_len n"
proof (induction k arbitrary: n)
  case 0
  then show ?case by (simp add: bit_len.simps [of n])
next
  case (Suc k)
  then have "2 ^ k \<le> n div 2" by simp
  moreover have "0 < n" using Suc.prems by (metis zero_less_numeral zero_less_power less_le_trans)
  ultimately show ?case using Suc.IH [of "n div 2"] by (subst bit_len.simps) simp
qed

lemma round_double_inf:
  assumes "2 ^ 1024 \<le> num"
  shows "round_double neg num 1 = Double_inf neg"
proof -
  have len: "1024 < bit_len num" using assms by (rule bit_len_greater)
  have one: "bit_len 1 = 1" by (simp add: bit_len.simps)
  have nz: "num \<noteq> 0" using assms by (metis not_less power_not_zero zero_neq_numeral le_zero_eq)
  define q0 where "q0 = int (bit_len num) - int (bit_len 1) - 53"
  define q1 where "q1 = (if 2 ^ 53 * 1 * 2 ^ nat q0 \<le> num * 2 ^ nat (- q0) then q0 + 1 else q0)"
  have "971 < q1"
  proof (cases "bit_len num = 1025")
    case True
    then have "q0 = 971" unfolding q0_def one by simp
    then show ?thesis using assms by (simp add: q1_def)
  next
    case False
    then have "971 < q0" using len unfolding q0_def one by simp
    then show ?thesis by (simp add: q1_def)
  qed
  then show ?thesis
    using nz unfolding round_double_def Let_def q0_def [symmetric] q1_def [symmetric] by simp
qed

lemma round_double_huge:
  assumes "m \<noteq> 0" and "309 \<le> e"
  shows "round_double neg (m * 10 ^ nat e) (10 ^ nat (- e)) = Double_inf neg"
proof -
  have "(2::nat) ^ 1024 \<le> 10 ^ 309" by simp
  also have "(10::nat) ^ 309 \<le> 10 ^ nat e" using assms(2) by (intro power_increasing) auto
  also have "\<dots> \<le> m * 10 ^ nat e" using assms(1) by simp
  finally show ?thesis using round_double_inf assms(2) by simp
qed

lemma scaled_double_code [code]:
  "scaled_double neg m e =
     (if m \<noteq> 0 \<and> 309 \<le> e then Double_inf neg
      else round_double neg (m * 10 ^ nat e) (10 ^ nat (- e)))"
  using round_double_huge by (simp add: scaled_double_def)

lemma div_half_even_exact: "0 < d \<Longrightarrow> div_half_even (m * d) d = m"
  by (simp add: div_half_even_def)

end
