(* ===== verification/Json_Lexer.thy ===== *)
theory Json_Lexer
  imports Cpp_Numbers
begin

text \<open>
  The lexer of the JSON library the program parses its messages with
  (\<^verbatim>\<open>include/nlohmann/json.hpp\<close>, classes \<^verbatim>\<open>lexer_base\<close> and \<^verbatim>\<open>lexer\<close>), over the bytes of a
  \<^verbatim>\<open>std::string\<close>. The lexer object is the record \<open>lexer\<close>; every member function is a function
  from the record to the record and its result. The character type \<^verbatim>\<open>char_int_type\<close> is an
  optional byte, with \<open>None\<close> for \<^verbatim>\<open>eof()\<close>. The decimal point is the one of the C locale, which
  the program never changes. A lexer's \<open>lx_left\<close> is the number of bytes it can still deliver;
  it shows that the scanning loops end.
\<close>

unbundle bit_operations_syntax

section \<open>Tokens, positions, the lexer object\<close>

datatype token_type =
    Tok_uninitialized | Tok_literal_true | Tok_literal_false | Tok_literal_null
  | Tok_value_string | Tok_value_unsigned | Tok_value_integer | Tok_value_float
  | Tok_begin_array | Tok_begin_object | Tok_end_array | Tok_end_object
  | Tok_name_separator | Tok_value_separator | Tok_parse_error | Tok_end_of_input
  | Tok_literal_or_value

fun token_type_name :: "token_type \<Rightarrow> string" where
  "token_type_name Tok_uninitialized = ''<uninitialized>''"
| "token_type_name Tok_literal_true = ''true literal''"
| "token_type_name Tok_literal_false = ''false literal''"
| "token_type_name Tok_literal_null = ''null literal''"
| "token_type_name Tok_value_string = ''string literal''"
| "token_type_name Tok_value_unsigned = ''number literal''"
| "token_type_name Tok_value_integer = ''number literal''"
| "token_type_name Tok_value_float = ''number literal''"
| "token_type_name Tok_begin_array = quoted ''[''"
| "token_type_name Tok_begin_object = quoted ''{''"
| "token_type_name Tok_end_array = quoted '']''"
| "token_type_name Tok_end_object = quoted ''}''"
| "token_type_name Tok_name_separator = quoted '':''"
| "token_type_name Tok_value_separator = quoted '',''"
| "token_type_name Tok_parse_error = ''<parse error>''"
| "token_type_name Tok_end_of_input = ''end of input''"
| "token_type_name Tok_literal_or_value = quoted ''['' @ '', '' @ quoted ''{'' @ '', or a literal''"

record position_t =
  chars_read_total :: nat
  chars_read_current_line :: nat
  lines_read :: nat

record lexer =
  lx_input :: string
  lx_ignore_comments :: bool
  lx_current :: "char option"
  lx_next_unget :: bool
  lx_position :: position_t
  lx_token_string :: string
  lx_token_buffer :: string
  lx_error_message :: string
  lx_value_integer :: int64_t
  lx_value_unsigned :: uint64_t
  lx_value_float :: double

definition new_lexer :: "string \<Rightarrow> bool \<Rightarrow> lexer" where
  "new_lexer input ignore_comments =
     \<lparr>lx_input = input, lx_ignore_comments = ignore_comments, lx_current = None,
      lx_next_unget = False,
      lx_position = \<lparr>chars_read_total = 0, chars_read_current_line = 0, lines_read = 0\<rparr>,
      lx_token_string = [], lx_token_buffer = [], lx_error_message = [],
      lx_value_integer = 0, lx_value_unsigned = 0, lx_value_float = Double_fin False 0 0\<rparr>"

abbreviation newline :: char where
  "newline \<equiv> CHR 0x0A"

abbreviation bslash :: char where
  "bslash \<equiv> CHR 0x5C"

section \<open>Input management\<close>

text \<open>\<^verbatim>\<open>get_character\<close> of the iterator adapter: the next byte, or eof at the end.\<close>

definition get_character :: "string \<Rightarrow> char option \<times> string" where
  "get_character input = (case input of [] \<Rightarrow> (None, []) | c # cs \<Rightarrow> (Some c, cs))"

definition lx_get :: "lexer \<Rightarrow> lexer" where
  "lx_get s =
     (let p = lx_position s;
          p1 = p\<lparr>chars_read_total := chars_read_total p + 1,
                 chars_read_current_line := chars_read_current_line p + 1\<rparr>;
          s1 = (if lx_next_unget s then s\<lparr>lx_next_unget := False\<rparr>
                else (let (c, rest) = get_character (lx_input s)
                      in s\<lparr>lx_current := c, lx_input := rest\<rparr>));
          s2 = (case lx_current s1 of
                  None \<Rightarrow> s1
                | Some c \<Rightarrow> s1\<lparr>lx_token_string := lx_token_string s1 @ [c]\<rparr>);
          p2 = (if lx_current s2 = Some newline
                then p1\<lparr>lines_read := lines_read p1 + 1, chars_read_current_line := 0\<rparr> else p1)
      in s2\<lparr>lx_position := p2\<rparr>)"

definition lx_unget :: "lexer \<Rightarrow> lexer" where
  "lx_unget s =
     (let p = lx_position s;
          p1 = p\<lparr>chars_read_total := chars_read_total p - 1\<rparr>;
          p2 = (if chars_read_current_line p1 = 0
                then (if 0 < lines_read p1 then p1\<lparr>lines_read := lines_read p1 - 1\<rparr> else p1)
                else p1\<lparr>chars_read_current_line := chars_read_current_line p1 - 1\<rparr>)
      in s\<lparr>lx_next_unget := True, lx_position := p2,
           lx_token_string := (if lx_current s \<noteq> None then butlast (lx_token_string s)
                               else lx_token_string s)\<rparr>)"

definition lx_reset :: "lexer \<Rightarrow> lexer" where
  "lx_reset s =
     s\<lparr>lx_token_buffer := [],
       lx_token_string := [case lx_current s of None \<Rightarrow> CHR 0xFF | Some c \<Rightarrow> c]\<rparr>"

definition lx_add :: "char option \<Rightarrow> lexer \<Rightarrow> lexer" where
  "lx_add c s =
     s\<lparr>lx_token_buffer := lx_token_buffer s @ [case c of None \<Rightarrow> CHR 0xFF | Some c' \<Rightarrow> c']\<rparr>"

definition lx_adds :: "string \<Rightarrow> lexer \<Rightarrow> lexer" where
  "lx_adds cs s = fold (\<lambda>c. lx_add (Some c)) cs s"

definition lx_left :: "lexer \<Rightarrow> nat" where
  "lx_left s = length (lx_input s) + (if lx_next_unget s \<and> lx_current s \<noteq> None then 1 else 0)"

lemma lx_left_get_le: "lx_left (lx_get s) \<le> lx_left s"
  by (auto simp: lx_left_def lx_get_def get_character_def Let_def
      split: list.splits option.splits if_splits)

lemma lx_left_get_less: "lx_current (lx_get s) \<noteq> None \<Longrightarrow> lx_left (lx_get s) < lx_left s"
  by (auto simp: lx_left_def lx_get_def get_character_def Let_def
      split: list.splits option.splits if_splits)

lemma lx_next_unget_get [simp]: "\<not> lx_next_unget (lx_get s)"
  by (auto simp: lx_get_def get_character_def Let_def split: list.splits option.splits)

lemma lx_left_unget_get: "lx_left (lx_unget (lx_get s)) \<le> lx_left s"
  by (auto simp: lx_left_def lx_get_def lx_unget_def get_character_def Let_def
      split: list.splits option.splits if_splits)

lemma lx_left_updates [simp]:
  "lx_left (s\<lparr>lx_error_message := e\<rparr>) = lx_left s"
  "lx_left (s\<lparr>lx_token_buffer := b\<rparr>) = lx_left s"
  "lx_left (s\<lparr>lx_token_string := b\<rparr>) = lx_left s"
  "lx_left (s\<lparr>lx_value_unsigned := u\<rparr>) = lx_left s"
  "lx_left (s\<lparr>lx_value_integer := i\<rparr>) = lx_left s"
  "lx_left (s\<lparr>lx_value_float := f\<rparr>) = lx_left s"
  by (simp_all add: lx_left_def)

lemma lx_left_add [simp]: "lx_left (lx_add c s) = lx_left s"
  by (simp add: lx_add_def)

lemma lx_left_adds [simp]: "lx_left (lx_adds cs s) = lx_left s"
  unfolding lx_adds_def by (induction cs arbitrary: s) simp_all

lemma lx_left_reset [simp]: "lx_left (lx_reset s) = lx_left s"
  by (simp add: lx_reset_def)

section \<open>Strings\<close>

text \<open>Set the error message and return a parse error.\<close>

definition lx_fail :: "string \<Rightarrow> lexer \<Rightarrow> token_type option \<times> lexer" where
  "lx_fail msg s = (Some Tok_parse_error, s\<lparr>lx_error_message := msg\<rparr>)"

definition hex_digit :: "char option \<Rightarrow> nat option" where
  "hex_digit c = (case c of
       None \<Rightarrow> None
     | Some d \<Rightarrow>
         (let n = char_nat d
          in if 0x30 \<le> n \<and> n \<le> 0x39 then Some (n - 0x30)
             else if 0x41 \<le> n \<and> n \<le> 0x46 then Some (n - 0x37)
             else if 0x61 \<le> n \<and> n \<le> 0x66 then Some (n - 0x57)
             else None))"

fun lx_hex_loop :: "nat list \<Rightarrow> nat \<Rightarrow> lexer \<Rightarrow> nat option \<times> lexer" where
  "lx_hex_loop [] codepoint s = (Some codepoint, s)"
| "lx_hex_loop (factor # factors) codepoint s =
     (let s1 = lx_get s
      in case hex_digit (lx_current s1) of
           None \<Rightarrow> (None, s1)
         | Some d \<Rightarrow> lx_hex_loop factors (codepoint + push_bit factor d) s1)"

definition lx_get_codepoint :: "lexer \<Rightarrow> nat option \<times> lexer" where
  "lx_get_codepoint s = lx_hex_loop [12, 8, 4, 0] 0 s"

fun lx_range_loop :: "(nat \<times> nat) list \<Rightarrow> lexer \<Rightarrow> bool \<times> lexer" where
  "lx_range_loop [] s = (True, s)"
| "lx_range_loop ((lo, hi) # ranges) s =
     (let s1 = lx_get s
      in case lx_current s1 of
           None \<Rightarrow> (False, s1\<lparr>lx_error_message := ''invalid string: ill-formed UTF-8 byte''\<rparr>)
         | Some c \<Rightarrow>
             if lo \<le> char_nat c \<and> char_nat c \<le> hi
             then lx_range_loop ranges (lx_add (lx_current s1) s1)
             else (False, s1\<lparr>lx_error_message := ''invalid string: ill-formed UTF-8 byte''\<rparr>))"

definition lx_next_byte_in_range :: "(nat \<times> nat) list \<Rightarrow> lexer \<Rightarrow> bool \<times> lexer" where
  "lx_next_byte_in_range ranges s = lx_range_loop ranges (lx_add (lx_current s) s)"

text \<open>The bytes the code point of an escape is translated into.\<close>

definition utf8_bytes :: "nat \<Rightarrow> string" where
  "utf8_bytes cp =
     (if cp < 0x80 then [char_of cp]
      else if cp \<le> 0x7FF
      then [char_of (0xC0 OR drop_bit 6 cp), char_of (0x80 OR (cp AND 0x3F))]
      else if cp \<le> 0xFFFF
      then [char_of (0xE0 OR drop_bit 12 cp), char_of (0x80 OR (drop_bit 6 cp AND 0x3F)),
            char_of (0x80 OR (cp AND 0x3F))]
      else [char_of (0xF0 OR drop_bit 18 cp), char_of (0x80 OR (drop_bit 12 cp AND 0x3F)),
            char_of (0x80 OR (drop_bit 6 cp AND 0x3F)), char_of (0x80 OR (cp AND 0x3F))])"

definition msg_hex_digits :: string where
  "msg_hex_digits = ''invalid string: '' @ quoted (bslash # ''u'') @ '' must be followed by 4 hex digits''"

definition msg_high_surrogate :: string where
  "msg_high_surrogate =
     ''invalid string: surrogate U+D800..U+DBFF must be followed by U+DC00..U+DFFF''"

definition msg_low_surrogate :: string where
  "msg_low_surrogate =
     ''invalid string: surrogate U+DC00..U+DFFF must follow U+D800..U+DBFF''"

definition lx_unicode_escape :: "lexer \<Rightarrow> token_type option \<times> lexer" where
  "lx_unicode_escape s =
     (let (codepoint1, s1) = lx_get_codepoint s
      in case codepoint1 of
           None \<Rightarrow> lx_fail msg_hex_digits s1
         | Some cp1 \<Rightarrow>
             if 0xD800 \<le> cp1 \<and> cp1 \<le> 0xDBFF
             then (let s2 = lx_get s1
                   in if lx_current s2 = Some bslash
                      then (let s3 = lx_get s2
                            in if lx_current s3 = Some CHR ''u''
                               then (let (codepoint2, s4) = lx_get_codepoint s3
                                     in case codepoint2 of
                                          None \<Rightarrow> lx_fail msg_hex_digits s4
                                        | Some cp2 \<Rightarrow>
                                            if 0xDC00 \<le> cp2 \<and> cp2 \<le> 0xDFFF
                                            then (None, lx_adds (utf8_bytes
                                                    (push_bit 10 cp1 + cp2 - 0x35FDC00)) s4)
                                            else lx_fail msg_high_surrogate s4)
                               else lx_fail msg_high_surrogate s3)
                      else lx_fail msg_high_surrogate s2)
             else if 0xDC00 \<le> cp1 \<and> cp1 \<le> 0xDFFF then lx_fail msg_low_surrogate s1
             else (None, lx_adds (utf8_bytes cp1) s1))"

text \<open>The escape after a backslash.\<close>

definition lx_escape :: "lexer \<Rightarrow> token_type option \<times> lexer" where
  "lx_escape s =
     (let s1 = lx_get s; c = lx_current s1
      in if c = Some CHR 0x22 then (None, lx_add (Some CHR 0x22) s1)
         else if c = Some bslash then (None, lx_add (Some bslash) s1)
         else if c = Some CHR ''/'' then (None, lx_add (Some CHR ''/'') s1)
         else if c = Some CHR ''b'' then (None, lx_add (Some CHR 0x08) s1)
         else if c = Some CHR ''f'' then (None, lx_add (Some CHR 0x0C) s1)
         else if c = Some CHR ''n'' then (None, lx_add (Some CHR 0x0A) s1)
         else if c = Some CHR ''r'' then (None, lx_add (Some CHR 0x0D) s1)
         else if c = Some CHR ''t'' then (None, lx_add (Some CHR 0x09) s1)
         else if c = Some CHR ''u'' then lx_unicode_escape s1
         else lx_fail ''invalid string: forbidden character after backslash'' s1)"

definition hex_char :: "nat \<Rightarrow> char" where
  "hex_char d = (if d < 10 then char_of (48 + d) else char_of (55 + d))"

definition control_names :: "string list" where
  "control_names =
     [''NUL'', ''SOH'', ''STX'', ''ETX'', ''EOT'', ''ENQ'', ''ACK'', ''BEL'', ''BS'', ''HT'',
      ''LF'', ''VT'', ''FF'', ''CR'', ''SO'', ''SI'', ''DLE'', ''DC1'', ''DC2'', ''DC3'', ''DC4'',
      ''NAK'', ''SYN'', ''ETB'', ''CAN'', ''EM'', ''SUB'', ''ESC'', ''FS'', ''GS'', ''RS'', ''US'']"

definition hex4 :: "nat \<Rightarrow> string" where
  "hex4 n = [hex_char (n div 4096 mod 16), hex_char (n div 256 mod 16),
             hex_char (n div 16 mod 16), hex_char (n mod 16)]"

text \<open>The message for an unescaped control character \<open>n\<close>, at most \<^verbatim>\<open>0x1F\<close>.\<close>

definition control_message :: "nat \<Rightarrow> string" where
  "control_message n =
     ''invalid string: control character U+'' @ hex4 n @ '' ('' @ control_names ! n
       @ '') must be escaped to '' @ bslash # ''u'' @ hex4 n
       @ (if n = 8 then '' or '' @ bslash # ''b'' else if n = 9 then '' or '' @ bslash # ''t''
          else if n = 10 then '' or '' @ bslash # ''n'' else if n = 12 then '' or '' @ bslash # ''f''
          else if n = 13 then '' or '' @ bslash # ''r'' else [])"

text \<open>
  The byte ranges that may follow a lead byte \<open>n\<close> (at least \<^verbatim>\<open>0x80\<close>); none for a byte that no
  UTF-8 sequence starts with.
\<close>

definition utf8_tail_ranges :: "nat \<Rightarrow> (nat \<times> nat) list option" where
  "utf8_tail_ranges n =
     (if 0xC2 \<le> n \<and> n \<le> 0xDF then Some [(0x80, 0xBF)]
      else if n = 0xE0 then Some [(0xA0, 0xBF), (0x80, 0xBF)]
      else if 0xE1 \<le> n \<and> n \<le> 0xEC \<or> n = 0xEE \<or> n = 0xEF then Some [(0x80, 0xBF), (0x80, 0xBF)]
      else if n = 0xED then Some [(0x80, 0x9F), (0x80, 0xBF)]
      else if n = 0xF0 then Some [(0x90, 0xBF), (0x80, 0xBF), (0x80, 0xBF)]
      else if 0xF1 \<le> n \<and> n \<le> 0xF3 then Some [(0x80, 0xBF), (0x80, 0xBF), (0x80, 0xBF)]
      else if n = 0xF4 then Some [(0x80, 0x8F), (0x80, 0xBF), (0x80, 0xBF)]
      else None)"

definition lx_multibyte :: "nat \<Rightarrow> lexer \<Rightarrow> token_type option \<times> lexer" where
  "lx_multibyte n s =
     (case utf8_tail_ranges n of
        None \<Rightarrow> lx_fail ''invalid string: ill-formed UTF-8 byte'' s
      | Some ranges \<Rightarrow>
          (let (ok, s1) = lx_next_byte_in_range ranges s
           in (if ok then None else Some Tok_parse_error, s1)))"

text \<open>The bytes \<^verbatim>\<open>0x20\<close> to \<^verbatim>\<open>0x7F\<close> but quote and backslash: copied as they are.\<close>

definition plain_ascii :: "nat \<Rightarrow> bool" where
  "plain_ascii n \<longleftrightarrow> 0x20 \<le> n \<and> n \<le> 0x7F \<and> n \<noteq> 0x22 \<and> n \<noteq> 0x5C"

text \<open>One turn of the loop of \<^verbatim>\<open>scan_string\<close>: \<open>None\<close> goes on, \<open>Some\<close> returns.\<close>

definition lx_string_step :: "lexer \<Rightarrow> token_type option \<times> lexer" where
  "lx_string_step s =
     (let s1 = lx_get s
      in case lx_current s1 of
           None \<Rightarrow> lx_fail ''invalid string: missing closing quote'' s1
         | Some c \<Rightarrow>
             if c = CHR 0x22 then (Some Tok_value_string, s1)
             else if c = bslash then lx_escape s1
             else if char_nat c \<le> 0x1F then lx_fail (control_message (char_nat c)) s1
             else if plain_ascii (char_nat c) then (None, lx_add (lx_current s1) s1)
             else lx_multibyte (char_nat c) s1)"

lemma lx_hex_loop_left: "lx_left (snd (lx_hex_loop fs cp s)) \<le> lx_left s"
proof (induction fs arbitrary: cp s)
  case (Cons f fs)
  show ?case
    using Cons [of _ "lx_get s"] lx_left_get_le [of s]
    by (auto simp: Let_def split: option.splits intro: order_trans)
qed simp

lemma lx_range_loop_left: "lx_left (snd (lx_range_loop rs s)) \<le> lx_left s"
proof (induction rs arbitrary: s)
  case (Cons r rs)
  obtain lo hi where r: "r = (lo, hi)" by (cases r)
  have "lx_left (snd (lx_range_loop rs (lx_add c (lx_get s)))) \<le> lx_left s" for c
    using Cons [of "lx_add c (lx_get s)"] lx_left_get_le [of s] by simp
  then show ?case using lx_left_get_le [of s] by (auto simp: r Let_def split: option.splits)
qed simp

lemma lx_left_fail [simp]: "lx_left (snd (lx_fail m s)) = lx_left s"
  by (simp add: lx_fail_def)

lemma fst_lx_fail [simp]: "fst (lx_fail m s) = Some Tok_parse_error"
  by (simp add: lx_fail_def)

lemma lx_get_codepoint_left:
  "lx_get_codepoint s = (r, s') \<Longrightarrow> lx_left s' \<le> lx_left s"
  using lx_hex_loop_left [of "[12, 8, 4, 0]" 0 s] by (simp add: lx_get_codepoint_def)

lemma lx_unicode_escape_left: "lx_left (snd (lx_unicode_escape s)) \<le> lx_left s"
proof -
  obtain r1 s1 where 1: "lx_get_codepoint s = (r1, s1)" by fastforce
  obtain r2 s4 where 2: "lx_get_codepoint (lx_get (lx_get s1)) = (r2, s4)" by fastforce
  have le: "lx_left s1 \<le> lx_left s" "lx_left s4 \<le> lx_left s"
    "lx_left (lx_get s1) \<le> lx_left s" "lx_left (lx_get (lx_get s1)) \<le> lx_left s"
    using lx_get_codepoint_left [OF 1] lx_get_codepoint_left [OF 2] lx_left_get_le [of s1]
      lx_left_get_le [of "lx_get s1"] by linarith+
  then show ?thesis
    by (simp add: lx_unicode_escape_def 1 2 Let_def split: option.split)
qed

lemma lx_escape_left: "lx_left (snd (lx_escape s)) \<le> lx_left s"
  using lx_unicode_escape_left [of "lx_get s"] lx_left_get_le [of s]
  by (simp add: lx_escape_def Let_def)

lemma lx_multibyte_left: "lx_left (snd (lx_multibyte n s)) \<le> lx_left s"
  using lx_range_loop_left [of _ "lx_add (lx_current s) s"]
  by (auto simp: lx_multibyte_def lx_next_byte_in_range_def split: option.split prod.split)
    (metis lx_left_add snd_conv)+

lemma lx_string_step_left:
  "lx_left (snd (lx_string_step s)) \<le> lx_left s"
  "fst (lx_string_step s) = None \<Longrightarrow> lx_left (snd (lx_string_step s)) < lx_left s"
proof -
  have a: "lx_left (snd (lx_escape (lx_get s))) \<le> lx_left (lx_get s)"
    "lx_left (snd (lx_multibyte n (lx_get s))) \<le> lx_left (lx_get s)" for n
    by (rule lx_escape_left lx_multibyte_left)+
  show "lx_left (snd (lx_string_step s)) \<le> lx_left s"
    using a lx_left_get_le [of s]
    by (auto simp: lx_string_step_def Let_def split: option.split intro: order_trans)
  show "lx_left (snd (lx_string_step s)) < lx_left s" if "fst (lx_string_step s) = None"
  proof (cases "lx_current (lx_get s)")
    case None
    then show ?thesis using that by (simp add: lx_string_step_def Let_def)
  next
    case (Some c)
    then have "lx_left (lx_get s) < lx_left s" using lx_left_get_less [of s] by simp
    then show ?thesis
      using a Some by (auto simp: lx_string_step_def Let_def intro: le_less_trans)
  qed
qed

function lx_string_loop :: "lexer \<Rightarrow> token_type \<times> lexer" where
  "lx_string_loop s =
     (case lx_string_step s of
        (Some t, s1) \<Rightarrow> (t, s1)
      | (None, s1) \<Rightarrow> lx_string_loop s1)"
  by pat_completeness auto
termination
  by (relation "measure lx_left") (auto, metis fst_conv snd_conv lx_string_step_left(2))

declare lx_string_loop.simps [simp del]

definition lx_scan_string :: "lexer \<Rightarrow> token_type \<times> lexer" where
  "lx_scan_string s = lx_string_loop (lx_reset s)"

section \<open>Numbers\<close>

text \<open>The states of the number automaton, one per label of \<^verbatim>\<open>scan_number\<close>.\<close>

datatype num_state =
  NMinus | NZero | NAny1 | NDecimal1 | NDecimal2 | NExponent | NSign | NAny2 | NDone

definition is_opt_digit :: "char option \<Rightarrow> bool" where
  "is_opt_digit c \<longleftrightarrow> (case c of None \<Rightarrow> False | Some d \<Rightarrow> is_digit d)"

definition is_opt_exp :: "char option \<Rightarrow> bool" where
  "is_opt_exp c \<longleftrightarrow> c = Some CHR ''e'' \<or> c = Some CHR ''E''"

text \<open>The successor on the character just read, or the message of a parse error.\<close>

fun num_next :: "num_state \<Rightarrow> char option \<Rightarrow> string + num_state" where
  "num_next NMinus c =
     (if c = Some CHR ''0'' then Inr NZero
      else if is_opt_digit c then Inr NAny1
      else Inl (''invalid number; expected digit after '' @ quoted ''-''))"
| "num_next NZero c =
     (if c = Some CHR ''.'' then Inr NDecimal1
      else if is_opt_exp c then Inr NExponent
      else Inr NDone)"
| "num_next NAny1 c =
     (if is_opt_digit c then Inr NAny1
      else if c = Some CHR ''.'' then Inr NDecimal1
      else if is_opt_exp c then Inr NExponent
      else Inr NDone)"
| "num_next NDecimal1 c =
     (if is_opt_digit c then Inr NDecimal2
      else Inl (''invalid number; expected digit after '' @ quoted ''.''))"
| "num_next NDecimal2 c =
     (if is_opt_digit c then Inr NDecimal2
      else if is_opt_exp c then Inr NExponent
      else Inr NDone)"
| "num_next NExponent c =
     (if c = Some CHR ''+'' \<or> c = Some CHR ''-'' then Inr NSign
      else if is_opt_digit c then Inr NAny2
      else Inl (''invalid number; expected '' @ quoted ''+'' @ '', '' @ quoted ''-'' @
                '', or digit after exponent''))"
| "num_next NSign c =
     (if is_opt_digit c then Inr NAny2
      else Inl ''invalid number; expected digit after exponent sign'')"
| "num_next NAny2 c = (if is_opt_digit c then Inr NAny2 else Inr NDone)"
| "num_next NDone c = Inr NDone"

text \<open>Entering a state may change the type of the number.\<close>

fun num_enter :: "num_state \<Rightarrow> token_type \<Rightarrow> token_type" where
  "num_enter NMinus t = Tok_value_integer"
| "num_enter NDecimal1 t = Tok_value_float"
| "num_enter NExponent t = Tok_value_float"
| "num_enter _ t = t"

text \<open>What happens at the label \<^verbatim>\<open>scan_number_done\<close>.\<close>

definition lx_as_float :: "lexer \<Rightarrow> token_type \<times> lexer" where
  "lx_as_float s = (Tok_value_float, s\<lparr>lx_value_float := strtod (lx_token_buffer s)\<rparr>)"

definition lx_number_done :: "token_type \<Rightarrow> lexer \<Rightarrow> token_type \<times> lexer" where
  "lx_number_done number_type s =
     (let s1 = lx_unget s;
          buf = lx_token_buffer s1
      in if number_type = Tok_value_unsigned
         then (let x = int (dec_value buf)
               in if x < 2 ^ 64
                  then (Tok_value_unsigned, s1\<lparr>lx_value_unsigned := of_int x\<rparr>)
                  else lx_as_float s1)
         else if number_type = Tok_value_integer
         then (let x = - int (dec_value (tl buf))
               in if - (2 ^ 63) \<le> x
                  then (Tok_value_integer, s1\<lparr>lx_value_integer := of_int x\<rparr>)
                  else lx_as_float s1)
         else lx_as_float s1)"

lemma num_next_progress:
  "num_next st None = Inr st' \<Longrightarrow> st' = NDone"
  by (cases st) (auto simp: is_opt_digit_def is_opt_exp_def split: if_splits)

function lx_number_loop :: "num_state \<Rightarrow> token_type \<Rightarrow> lexer \<Rightarrow> token_type \<times> lexer" where
  "lx_number_loop st number_type s =
     (let ty = num_enter st number_type; s1 = lx_get s
      in case num_next st (lx_current s1) of
           Inl msg \<Rightarrow> (Tok_parse_error, s1\<lparr>lx_error_message := msg\<rparr>)
         | Inr st' \<Rightarrow>
             if st' = NDone then lx_number_done ty s1
             else lx_number_loop st' ty (lx_add (lx_current s1) s1))"
  by pat_completeness auto
termination
proof (relation "measure (\<lambda>(st, ty, s). lx_left s)", goal_cases)
  case (2 st ty s x s1 st')
  then have "lx_current (lx_get s) \<noteq> None" using num_next_progress by metis
  then show ?case using 2 lx_left_get_less by simp
qed simp

declare lx_number_loop.simps [simp del]

text \<open>
  \<^verbatim>\<open>scan_number\<close>, entered with the first character of the number as the current one. Every
  caller passes a minus sign or a digit; the \<^verbatim>\<open>default\<close> branch is a failed assertion there.
\<close>

definition lx_scan_number :: "lexer \<Rightarrow> token_type \<times> lexer" where
  "lx_scan_number s =
     (let s1 = lx_reset s; c = lx_current s1
      in if c = Some CHR ''-'' then lx_number_loop NMinus Tok_value_unsigned (lx_add c s1)
         else if c = Some CHR ''0'' then lx_number_loop NZero Tok_value_unsigned (lx_add c s1)
         else lx_number_loop NAny1 Tok_value_unsigned (lx_add c s1))"

section \<open>Literals, byte order mark, white space, comments\<close>

fun lx_literal_loop :: "string \<Rightarrow> token_type \<Rightarrow> lexer \<Rightarrow> token_type \<times> lexer" where
  "lx_literal_loop [] return_type s = (return_type, s)"
| "lx_literal_loop (c # cs) return_type s =
     (let s1 = lx_get s
      in if lx_current s1 = Some c then lx_literal_loop cs return_type s1
         else (Tok_parse_error, s1\<lparr>lx_error_message := ''invalid literal''\<rparr>))"

text \<open>\<^verbatim>\<open>scan_literal\<close>, entered with the literal's first character as the current one.\<close>

definition lx_scan_literal :: "string \<Rightarrow> token_type \<Rightarrow> lexer \<Rightarrow> token_type \<times> lexer" where
  "lx_scan_literal literal_text return_type s = lx_literal_loop (tl literal_text) return_type s"

definition lx_skip_bom :: "lexer \<Rightarrow> bool \<times> lexer" where
  "lx_skip_bom s =
     (let s1 = lx_get s
      in if lx_current s1 = Some CHR 0xEF
         then (let s2 = lx_get s1
               in if lx_current s2 = Some CHR 0xBB
                  then (let s3 = lx_get s2 in (lx_current s3 = Some CHR 0xBF, s3))
                  else (False, s2))
         else (True, lx_unget s1))"

definition is_ws :: "char option \<Rightarrow> bool" where
  "is_ws c \<longleftrightarrow> c = Some CHR '' '' \<or> c = Some CHR 0x09 \<or> c = Some newline \<or> c = Some CHR 0x0D"

function lx_skip_whitespace :: "lexer \<Rightarrow> lexer" where
  "lx_skip_whitespace s =
     (let s1 = lx_get s in if is_ws (lx_current s1) then lx_skip_whitespace s1 else s1)"
  by pat_completeness auto
termination
  by (relation "measure lx_left") (auto simp: is_ws_def intro!: lx_left_get_less)

declare lx_skip_whitespace.simps [simp del]

lemma lx_skip_whitespace_left: "lx_left (lx_skip_whitespace s) \<le> lx_left s"
proof (induction s rule: lx_skip_whitespace.induct)
  case (1 s)
  then show ?case
    using lx_left_get_le [of s] by (auto simp: lx_skip_whitespace.simps [of s] Let_def intro: order_trans)
qed

function lx_line_comment :: "lexer \<Rightarrow> lexer" where
  "lx_line_comment s =
     (let s1 = lx_get s
      in if lx_current s1 \<in> {Some newline, Some CHR 0x0D, None, Some CHR 0x00} then s1
         else lx_line_comment s1)"
  by pat_completeness auto
termination
  by (relation "measure lx_left") (auto intro!: lx_left_get_less)

declare lx_line_comment.simps [simp del]

function lx_block_comment :: "lexer \<Rightarrow> bool \<times> lexer" where
  "lx_block_comment s =
     (let s1 = lx_get s
      in if lx_current s1 = None \<or> lx_current s1 = Some CHR 0x00
         then (False, s1\<lparr>lx_error_message := ''invalid comment; missing closing '' @ quoted ''*/''\<rparr>)
         else if lx_current s1 = Some CHR ''*''
         then (let s2 = lx_get s1
               in if lx_current s2 = Some CHR ''/'' then (True, s2)
                  else lx_block_comment (lx_unget s2))
         else lx_block_comment s1)"
  by pat_completeness auto
termination
  by (relation "measure lx_left")
    (auto intro!: lx_left_get_less intro: le_less_trans [OF lx_left_unget_get lx_left_get_less])

declare lx_block_comment.simps [simp del]

lemma lx_line_comment_left: "lx_left (lx_line_comment s) \<le> lx_left s"
proof (induction s rule: lx_line_comment.induct)
  case (1 s)
  then show ?case
    using lx_left_get_le [of s] by (auto simp: lx_line_comment.simps [of s] Let_def intro: order_trans)
qed

lemma lx_block_comment_left: "lx_left (snd (lx_block_comment s)) \<le> lx_left s"
proof (induction s rule: lx_block_comment.induct)
  case (1 s)
  let ?s1 = "lx_get s" and ?s2 = "lx_get (lx_get s)"
  have le: "lx_left ?s1 \<le> lx_left s" "lx_left ?s2 \<le> lx_left s" "lx_left (lx_unget ?s2) \<le> lx_left s"
    using lx_left_get_le [of s] lx_left_get_le [of ?s1] lx_left_unget_get [of ?s1] by simp_all
  show ?case
  proof (cases "lx_current ?s1 = None \<or> lx_current ?s1 = Some CHR 0x00")
    case True
    then show ?thesis using le by (simp add: lx_block_comment.simps [of s] Let_def)
  next
    case False
    then show ?thesis
      using le "1" by (auto simp: lx_block_comment.simps [of s] Let_def intro: order_trans)
  qed
qed

definition lx_scan_comment :: "lexer \<Rightarrow> bool \<times> lexer" where
  "lx_scan_comment s =
     (let s1 = lx_get s
      in if lx_current s1 = Some CHR ''/'' then (True, lx_line_comment s1)
         else if lx_current s1 = Some CHR ''*'' then lx_block_comment s1
         else (False, s1\<lparr>lx_error_message :=
                 ''invalid comment; expecting '' @ quoted ''/'' @ '' or '' @ quoted ''*'' @
                 '' after '' @ quoted ''/''\<rparr>))"

lemma lx_scan_comment_left:
  "lx_left (snd (lx_scan_comment s)) \<le> lx_left s"
  "fst (lx_scan_comment s) \<Longrightarrow> lx_left (snd (lx_scan_comment s)) < lx_left s"
proof -
  have le: "lx_left (lx_line_comment (lx_get s)) \<le> lx_left (lx_get s)"
    "lx_left (snd (lx_block_comment (lx_get s))) \<le> lx_left (lx_get s)"
    by (rule lx_line_comment_left lx_block_comment_left)+
  show "lx_left (snd (lx_scan_comment s)) \<le> lx_left s"
    using le lx_left_get_le [of s] by (simp add: lx_scan_comment_def Let_def)
  show "lx_left (snd (lx_scan_comment s)) < lx_left s" if "fst (lx_scan_comment s)"
    using le that lx_left_get_less [of s]
    by (simp add: lx_scan_comment_def Let_def split: if_splits)
qed

text \<open>The loop of \<^verbatim>\<open>scan\<close> that skips comments, where the lexer is told to.\<close>

function lx_skip_comments :: "lexer \<Rightarrow> bool \<times> lexer" where
  "lx_skip_comments s =
     (if lx_ignore_comments s \<and> lx_current s = Some CHR ''/''
      then (let (ok, s1) = lx_scan_comment s
            in if ok then lx_skip_comments (lx_skip_whitespace s1) else (False, s1))
      else (True, s))"
  by pat_completeness auto
termination
proof (relation "measure lx_left", goal_cases)
  case (2 s x ok s1)
  then have "lx_left s1 < lx_left s" using lx_scan_comment_left(2) [of s] by (metis fst_conv snd_conv)
  then show ?case using lx_skip_whitespace_left [of s1] by simp
qed simp

declare lx_skip_comments.simps [simp del]

section \<open>The scanner\<close>

definition lx_scan_token :: "lexer \<Rightarrow> token_type \<times> lexer" where
  "lx_scan_token s =
     (case lx_current s of
        None \<Rightarrow> (Tok_end_of_input, s)
      | Some c \<Rightarrow>
          if c = CHR ''['' then (Tok_begin_array, s)
          else if c = CHR '']'' then (Tok_end_array, s)
          else if c = CHR ''{'' then (Tok_begin_object, s)
          else if c = CHR ''}'' then (Tok_end_object, s)
          else if c = CHR '':'' then (Tok_name_separator, s)
          else if c = CHR '','' then (Tok_value_separator, s)
          else if c = CHR ''t'' then lx_scan_literal ''true'' Tok_literal_true s
          else if c = CHR ''f'' then lx_scan_literal ''false'' Tok_literal_false s
          else if c = CHR ''n'' then lx_scan_literal ''null'' Tok_literal_null s
          else if c = CHR 0x22 then lx_scan_string s
          else if c = CHR ''-'' \<or> is_digit c then lx_scan_number s
          else if c = CHR 0x00 then (Tok_end_of_input, s)
          else (Tok_parse_error, s\<lparr>lx_error_message := ''invalid literal''\<rparr>))"

definition lx_scan :: "lexer \<Rightarrow> token_type \<times> lexer" where
  "lx_scan s =
     (let (bom_ok, s1) = (if chars_read_total (lx_position s) = 0 then lx_skip_bom s else (True, s))
      in if \<not> bom_ok
         then (Tok_parse_error,
               s1\<lparr>lx_error_message := ''invalid BOM; must be 0xEF 0xBB 0xBF if given''\<rparr>)
         else (let s2 = lx_skip_whitespace s1;
                   (comments_ok, s3) = lx_skip_comments s2
               in if \<not> comments_ok then (Tok_parse_error, s3) else lx_scan_token s3))"

text \<open>The token as quoted in error messages: control characters are spelled out.\<close>

definition lx_get_token_string :: "lexer \<Rightarrow> string" where
  "lx_get_token_string s =
     concat (map (\<lambda>c. if char_nat c \<le> 0x1F then ''<U+'' @ hex4 (char_nat c) @ ''>'' else [c])
       (lx_token_string s))"

section \<open>Scanning makes progress\<close>

lemma lx_string_loop_left: "lx_left (snd (lx_string_loop s)) \<le> lx_left s"
proof (induction s rule: lx_string_loop.induct)
  case (1 s)
  obtain r s1 where r: "lx_string_step s = (r, s1)" by fastforce
  then have "lx_left s1 \<le> lx_left s" using lx_string_step_left(1) [of s] by simp
  then show ?case
    using "1" [OF r [symmetric]] r by (cases r) (auto simp: lx_string_loop.simps [of s])
qed

lemma lx_left_number_done: "lx_left (snd (lx_number_done ty (lx_get s))) \<le> lx_left s"
  using lx_left_unget_get [of s] by (auto simp: lx_number_done_def lx_as_float_def Let_def)

lemma lx_number_loop_left: "lx_left (snd (lx_number_loop st ty s)) \<le> lx_left s"
proof (induction st ty s rule: lx_number_loop.induct)
  case (1 st ty s)
  have g: "lx_left (lx_get s) \<le> lx_left s" by (rule lx_left_get_le)
  show ?case
  proof (cases "num_next st (lx_current (lx_get s))")
    case (Inl m)
    then show ?thesis using g by (simp add: lx_number_loop.simps [of st] Let_def)
  next
    case (Inr st')
    then show ?thesis
      using g "1" [OF refl refl Inr] lx_left_number_done [of "num_enter st ty" s]
      by (auto simp: lx_number_loop.simps [of st] Let_def)
  qed
qed

lemma lx_literal_loop_left: "lx_left (snd (lx_literal_loop cs t s)) \<le> lx_left s"
proof (induction cs t s rule: lx_literal_loop.induct)
  case (2 c cs t s)
  then show ?case using lx_left_get_le [of s] by (auto simp: Let_def)
qed simp

lemma lx_scan_token_left: "lx_left (snd (lx_scan_token s)) \<le> lx_left s"
proof -
  have "lx_left (snd (lx_scan_number s)) \<le> lx_left s"
    using lx_number_loop_left [of _ _ "lx_add (lx_current (lx_reset s)) (lx_reset s)"]
    by (auto simp: lx_scan_number_def Let_def)
  moreover have "lx_left (snd (lx_scan_string s)) \<le> lx_left s"
    using lx_string_loop_left [of "lx_reset s"] by (simp add: lx_scan_string_def)
  moreover have "lx_left (snd (lx_scan_literal l t s)) \<le> lx_left s" for l t
    by (simp add: lx_scan_literal_def lx_literal_loop_left)
  ultimately show ?thesis by (simp add: lx_scan_token_def split: option.split)
qed

lemma lx_skip_whitespace_less:
  "lx_current (lx_skip_whitespace s) \<noteq> None \<Longrightarrow> lx_left (lx_skip_whitespace s) < lx_left s"
proof (induction s rule: lx_skip_whitespace.induct)
  case (1 s)
  show ?case
  proof (cases "is_ws (lx_current (lx_get s))")
    case True
    then have "lx_left (lx_get s) < lx_left s"
      by (intro lx_left_get_less) (auto simp: is_ws_def)
    then show ?thesis
      using True lx_skip_whitespace_left [of "lx_get s"]
      by (simp add: lx_skip_whitespace.simps [of s] Let_def)
  next
    case False
    then show ?thesis
      using "1.prems" lx_left_get_less [of s] by (simp add: lx_skip_whitespace.simps [of s] Let_def)
  qed
qed

lemma lx_skip_comments_left: "lx_left (snd (lx_skip_comments s)) \<le> lx_left s"
proof (induction s rule: lx_skip_comments.induct)
  case (1 s)
  obtain ok s1 where r: "lx_scan_comment s = (ok, s1)" by fastforce
  then have le: "lx_left s1 \<le> lx_left s" using lx_scan_comment_left(1) [of s] by simp
  show ?case
  proof (cases "lx_ignore_comments s \<and> lx_current s = Some CHR ''/'' \<and> ok")
    case True
    then have "lx_left (snd (lx_skip_comments (lx_skip_whitespace s1))) \<le> lx_left s"
      using "1" [OF _ r [symmetric] refl] le lx_skip_whitespace_left [of s1] by auto
    then show ?thesis using True r by (simp add: lx_skip_comments.simps [of s])
  next
    case False
    then show ?thesis using le r by (auto simp: lx_skip_comments.simps [of s])
  qed
qed

lemma lx_skip_bom_left: "lx_left (snd (lx_skip_bom s)) \<le> lx_left s"
  using lx_left_get_le [of s] lx_left_get_le [of "lx_get s"] lx_left_get_le [of "lx_get (lx_get s)"]
    lx_left_unget_get [of s]
  by (auto simp: lx_skip_bom_def Let_def)

lemma lx_scan_left:
  "lx_left (snd (lx_scan s)) \<le> lx_left s"
  "fst (lx_scan s) \<notin> {Tok_end_of_input, Tok_parse_error} \<Longrightarrow> lx_left (snd (lx_scan s)) < lx_left s"
proof -
  define b where "b = (if chars_read_total (lx_position s) = 0 then lx_skip_bom s else (True, s))"
  obtain ok1 s1 where b1: "b = (ok1, s1)" by fastforce
  define s2 where "s2 = lx_skip_whitespace s1"
  obtain ok3 s3 where b3: "lx_skip_comments s2 = (ok3, s3)" by fastforce
  have scan: "lx_scan s =
      (if \<not> ok1 then (Tok_parse_error,
          s1\<lparr>lx_error_message := ''invalid BOM; must be 0xEF 0xBB 0xBF if given''\<rparr>)
       else if \<not> ok3 then (Tok_parse_error, s3) else lx_scan_token s3)"
    using b3 by (simp add: lx_scan_def b_def [symmetric] b1 s2_def [symmetric])
  have le: "lx_left s1 \<le> lx_left s"
    using lx_skip_bom_left [of s] b1 by (auto simp: b_def split: if_splits)
  have le2: "lx_left s2 \<le> lx_left s1" unfolding s2_def by (rule lx_skip_whitespace_left)
  have le3: "lx_left s3 \<le> lx_left s2" using lx_skip_comments_left [of s2] b3 by simp
  have le4: "lx_left (snd (lx_scan_token s3)) \<le> lx_left s3" by (rule lx_scan_token_left)
  show "lx_left (snd (lx_scan s)) \<le> lx_left s" using le le2 le3 le4 by (simp add: scan)
  show "lx_left (snd (lx_scan s)) < lx_left s"
    if t: "fst (lx_scan s) \<notin> {Tok_end_of_input, Tok_parse_error}"
  proof -
    have ok: "ok1" "ok3" "fst (lx_scan_token s3) \<noteq> Tok_end_of_input"
      using t by (auto simp: scan split: if_splits)
    moreover have "fst (lx_scan_token s3) = Tok_end_of_input" if "lx_current s3 = None"
      by (simp add: lx_scan_token_def that)
    ultimately have "lx_current s3 \<noteq> None" by blast
    moreover have "s3 = s2 \<or> lx_current s2 \<noteq> None"
      using b3 by (auto simp: lx_skip_comments.simps [of s2] split: if_splits)
    ultimately have "lx_current s2 \<noteq> None" by auto
    then have "lx_left s2 < lx_left s1" unfolding s2_def by (rule lx_skip_whitespace_less)
    then show ?thesis using ok le le3 le4 by (simp add: scan)
  qed
qed

end
