(* ===== verification/Json_Value.thy ===== *)
theory Json_Value
  imports Cpp_Numbers "HOL-Library.Char_ord" "HOL-Library.List_Lexorder"
begin

text \<open>
  JSON values (\<^verbatim>\<open>class basic_json\<close> of \<^verbatim>\<open>include/nlohmann/json.hpp\<close>) and the accessors the
  program uses on them: \<^verbatim>\<open>operator[]\<close> with a string key (mutable and const), the conversion to
  \<^verbatim>\<open>uint64_t\<close>, and what the parser needs to build a value. An object is a \<^verbatim>\<open>std::map\<close> from
  strings, kept here as an association list with strictly increasing keys (\<open>json_wf\<close>); strings
  compare bytewise.
\<close>

section \<open>Values and their types\<close>

datatype json =
    JNull
  | JObject "(string \<times> json) list"
  | JArray "json list"
  | JString string
  | JBoolean bool
  | JInteger int64_t
  | JUnsigned uint64_t
  | JFloat double
  | JBinary string "nat option"
  | JDiscarded

datatype value_t =
    VT_null | VT_object | VT_array | VT_string | VT_boolean
  | VT_number_integer | VT_number_unsigned | VT_number_float | VT_binary | VT_discarded

fun json_type :: "json \<Rightarrow> value_t" where
  "json_type JNull = VT_null"
| "json_type (JObject kvs) = VT_object"
| "json_type (JArray xs) = VT_array"
| "json_type (JString s) = VT_string"
| "json_type (JBoolean b) = VT_boolean"
| "json_type (JInteger i) = VT_number_integer"
| "json_type (JUnsigned u) = VT_number_unsigned"
| "json_type (JFloat d) = VT_number_float"
| "json_type (JBinary b t) = VT_binary"
| "json_type JDiscarded = VT_discarded"

text \<open>\<^verbatim>\<open>operator<\<close> on types: a table of ranks; discarded values compare with nothing.\<close>

fun value_rank :: "value_t \<Rightarrow> nat option" where
  "value_rank VT_null = Some 0"
| "value_rank VT_object = Some 3"
| "value_rank VT_array = Some 4"
| "value_rank VT_string = Some 5"
| "value_rank VT_boolean = Some 1"
| "value_rank VT_number_integer = Some 2"
| "value_rank VT_number_unsigned = Some 2"
| "value_rank VT_number_float = Some 2"
| "value_rank VT_binary = Some 6"
| "value_rank VT_discarded = None"

definition value_t_less :: "value_t \<Rightarrow> value_t \<Rightarrow> bool" where
  "value_t_less l r =
     (case (value_rank l, value_rank r) of (Some a, Some b) \<Rightarrow> a < b | _ \<Rightarrow> False)"

instantiation value_t :: ord
begin

definition less_value_t :: "value_t \<Rightarrow> value_t \<Rightarrow> bool" where
  "l < r \<longleftrightarrow> value_t_less l r"

definition less_eq_value_t :: "value_t \<Rightarrow> value_t \<Rightarrow> bool" where
  "l \<le> r \<longleftrightarrow> value_t_less l r \<or> l = r"

instance ..

end

fun type_name :: "value_t \<Rightarrow> string" where
  "type_name VT_null = ''null''"
| "type_name VT_object = ''object''"
| "type_name VT_array = ''array''"
| "type_name VT_string = ''string''"
| "type_name VT_boolean = ''boolean''"
| "type_name VT_binary = ''binary''"
| "type_name VT_discarded = ''discarded''"
| "type_name VT_number_integer = ''number''"
| "type_name VT_number_unsigned = ''number''"
| "type_name VT_number_float = ''number''"

section \<open>Exceptions\<close>

definition exn_name :: "string \<Rightarrow> nat \<Rightarrow> string" where
  "exn_name ename i = ''[json.exception.'' @ ename @ ''.'' @ to_string i @ ''] ''"

definition type_error :: "nat \<Rightarrow> string \<Rightarrow> cpp_error" where
  "type_error i what_arg = Json_type_error i (exn_name ''type_error'' i @ what_arg)"

definition json_out_of_range :: "nat \<Rightarrow> string \<Rightarrow> cpp_error" where
  "json_out_of_range i what_arg = Json_out_of_range i (exn_name ''out_of_range'' i @ what_arg)"

section \<open>Objects as sorted maps\<close>

fun map_find :: "string \<Rightarrow> (string \<times> 'v) list \<Rightarrow> 'v option" where
  "map_find k [] = None"
| "map_find k ((k', v) # kvs) = (if k = k' then Some v else map_find k kvs)"

text \<open>\<^verbatim>\<open>std::map::emplace\<close>: an existing entry stays as it is.\<close>

fun map_emplace :: "string \<Rightarrow> 'v \<Rightarrow> (string \<times> 'v) list \<Rightarrow> (string \<times> 'v) list" where
  "map_emplace k v [] = [(k, v)]"
| "map_emplace k v ((k', v') # kvs) =
     (if k = k' then (k', v') # kvs
      else if k < k' then (k, v) # (k', v') # kvs
      else (k', v') # map_emplace k v kvs)"

text \<open>Writing through the reference to an entry.\<close>

fun map_adjust :: "string \<Rightarrow> ('v \<Rightarrow> 'v) \<Rightarrow> (string \<times> 'v) list \<Rightarrow> (string \<times> 'v) list" where
  "map_adjust k f [] = []"
| "map_adjust k f ((k', v) # kvs) = (if k = k' then (k', f v) # kvs else (k', v) # map_adjust k f kvs)"

lemma map_find_None: "map_find k kvs = None \<longleftrightarrow> k \<notin> set (map fst kvs)"
  by (induction k kvs rule: map_find.induct) auto

lemma map_find_below:
  "sorted_wrt (<) (a # map fst kvs) \<Longrightarrow> x < a \<Longrightarrow> map_find x kvs = None"
  by (auto simp: map_find_None dest: less_trans)

lemma map_find_emplace [simp]:
  "map_find k' (map_emplace k v kvs) =
     (if k' = k \<and> map_find k kvs = None then Some v else map_find k' kvs)"
  if "sorted_wrt (<) (map fst kvs)"
  using that
proof (induction kvs)
  case (Cons p kvs)
  obtain a b where p: "p = (a, b)" by (cases p)
  have "map_find x kvs = None" if "x < a" for x
    using Cons.prems that map_find_below [of a kvs x] by (simp add: p)
  then show ?case using Cons by (auto simp: p)
qed simp

lemma map_find_adjust [simp]:
  "map_find k' (map_adjust k f kvs) = (if k' = k then map_option f (map_find k kvs) else map_find k' kvs)"
  by (induction kvs) auto

lemma keys_adjust [simp]: "map fst (map_adjust k f kvs) = map fst kvs"
  by (induction kvs) auto

lemma keys_emplace: "set (map fst (map_emplace k v kvs)) = insert k (set (map fst kvs))"
  by (induction k v kvs rule: map_emplace.induct) auto

lemma sorted_emplace [wf_intros]:
  "sorted_wrt (<) (map fst kvs) \<Longrightarrow> sorted_wrt (<) (map fst (map_emplace k v kvs))"
proof (induction kvs)
  case (Cons p kvs)
  obtain a b where p: "p = (a, b)" by (cases p)
  have "a < x" if "x \<in> set (map fst (map_emplace k v kvs))" "\<not> k < a" "k \<noteq> a" for x
    using Cons.prems that keys_emplace [of k v kvs] by (auto simp: p)
  then show ?case using Cons by (auto simp: p)
qed simp

fun json_wf :: "json \<Rightarrow> bool" where
  "json_wf (JObject kvs) \<longleftrightarrow>
     sorted_wrt (<) (map fst kvs) \<and> list_all (\<lambda>kv. json_wf (snd kv)) kvs"
| "json_wf (JArray xs) \<longleftrightarrow> list_all json_wf xs"
| "json_wf _ \<longleftrightarrow> True"

section \<open>Access by key\<close>

text \<open>
  \<^verbatim>\<open>reference operator[](key)\<close>: a null value becomes an empty object, a missing entry becomes a
  null entry. The result is the value the reference points to and the changed container.
\<close>

definition json_index_mut :: "string \<Rightarrow> json \<Rightarrow> (json \<times> json) outcome" where
  "json_index_mut key j =
     (let j1 = (if j = JNull then JObject [] else j)
      in case j1 of
           JObject kvs \<Rightarrow>
             (let kvs' = map_emplace key JNull kvs
              in Inr (case map_find key kvs' of Some v \<Rightarrow> v | None \<Rightarrow> JNull, JObject kvs'))
         | _ \<Rightarrow> Inl (type_error 305
                 (''cannot use operator[] with a string argument with '' @ type_name (json_type j1))))"

text \<open>
  \<^verbatim>\<open>const_reference operator[](key) const\<close>: a missing entry fails the library's assertion (the
  build does not define \<^verbatim>\<open>NDEBUG\<close>).
\<close>

definition json_index_const :: "string \<Rightarrow> json \<Rightarrow> json outcome" where
  "json_index_const key j =
     (case j of
        JObject kvs \<Rightarrow>
          (case map_find key kvs of
             None \<Rightarrow> Inl (Assertion_failed ''it != m_data.m_value.object->end()'')
           | Some v \<Rightarrow> Inr v)
      | _ \<Rightarrow> Inl (type_error 305
              (''cannot use operator[] with a string argument with '' @ type_name (json_type j))))"

section \<open>Conversion to uint64_t\<close>

text \<open>
  \<^verbatim>\<open>get_arithmetic_value\<close> at \<^verbatim>\<open>uint64_t\<close>: a signed integer is taken modulo \<open>2\<^sup>6\<^sup>4\<close>, which on the
  two's complement word is the word itself.
\<close>

definition json_to_uint64 :: "json \<Rightarrow> uint64_t outcome" where
  "json_to_uint64 j =
     (case j of
        JUnsigned u \<Rightarrow> Inr u
      | JInteger i \<Rightarrow> Inr i
      | JFloat d \<Rightarrow> double_to_uint64 d
      | _ \<Rightarrow> Inl (type_error 302 (''type must be number, but is '' @ type_name (json_type j))))"

text \<open>
  The two together, as in \<^verbatim>\<open>uint64_t(j["key"])\<close> on a value that is not const: the outcome of the
  conversion, and the container, which the access may have changed even if the conversion throws.
\<close>

definition json_uint64_at :: "string \<Rightarrow> json \<Rightarrow> uint64_t outcome \<times> json" where
  "json_uint64_at key j =
     (case json_index_mut key j of
        Inl e \<Rightarrow> (Inl e, j)
      | Inr (v, j') \<Rightarrow> (json_to_uint64 v, j'))"

section \<open>References into a value\<close>

text \<open>
  A pointer into a JSON tree is the path from the root to the value it points to.
\<close>

datatype step = Key string | Index nat

type_synonym path = "step list"

fun json_step :: "step \<Rightarrow> json \<Rightarrow> json option" where
  "json_step (Key k) (JObject kvs) = map_find k kvs"
| "json_step (Index i) (JArray xs) = (if i < length xs then Some (xs ! i) else None)"
| "json_step _ _ = None"

fun json_at :: "path \<Rightarrow> json \<Rightarrow> json option" where
  "json_at [] j = Some j"
| "json_at (s # p) j = (case json_step s j of None \<Rightarrow> None | Some j' \<Rightarrow> json_at p j')"

fun json_modify_step :: "step \<Rightarrow> (json \<Rightarrow> json) \<Rightarrow> json \<Rightarrow> json" where
  "json_modify_step (Key k) f (JObject kvs) = JObject (map_adjust k f kvs)"
| "json_modify_step (Index i) f (JArray xs) = (if i < length xs then JArray (xs[i := f (xs ! i)]) else JArray xs)"
| "json_modify_step _ f j = j"

fun json_modify :: "path \<Rightarrow> (json \<Rightarrow> json) \<Rightarrow> json \<Rightarrow> json" where
  "json_modify [] f j = f j"
| "json_modify (s # p) f j = json_modify_step s (json_modify p f) j"

lemma json_step_modify_step [simp]:
  "json_step s (json_modify_step s f j) = map_option f (json_step s j)"
  by (cases "(s, j)" rule: json_step.cases) auto

lemma json_at_modify_same [simp]:
  "json_at p (json_modify p f j) = map_option f (json_at p j)"
  by (induction p arbitrary: j) (auto split: option.split)

lemma json_at_append: "json_at (p @ q) j = (case json_at p j of None \<Rightarrow> None | Some j' \<Rightarrow> json_at q j')"
  by (induction p arbitrary: j) (auto split: option.split)

lemma json_modify_append: "json_modify (p @ q) f j = json_modify p (json_modify q f) j"
proof (induction p arbitrary: j)
  case (Cons s p)
  then have "json_modify (p @ q) f = json_modify p (json_modify q f)" by blast
  then show ?case by simp
qed simp

lemma json_step_modify_other:
  "s' \<noteq> s \<Longrightarrow> json_step s' (json_modify_step s f j) = json_step s' j"
  by (cases "(s, j)" rule: json_step.cases; cases s') auto

lemma json_type_modify_step [simp]: "json_type (json_modify_step s f j) = json_type j"
  by (cases "(s, j)" rule: json_step.cases) auto

lemma json_modify_modify [simp]: "json_modify p f (json_modify p g j) = json_modify p (f \<circ> g) j"
proof (induction p arbitrary: j)
  case (Cons s p)
  have "map_adjust k f' (map_adjust k g' kvs) = map_adjust k (f' \<circ> g') kvs" for k f' g' kvs
    by (induction kvs) auto
  then have "json_modify_step s f' (json_modify_step s g' j) = json_modify_step s (f' \<circ> g') j" for f' g'
    by (cases "(s, j)" rule: json_step.cases) auto
  moreover have "json_modify p f \<circ> json_modify p g = json_modify p (f \<circ> g)"
    by (intro ext) (simp add: Cons comp_def)
  ultimately show ?case by (simp only: json_modify.simps)
qed simp

text \<open>A proper prefix of the place of a change keeps its type.\<close>

lemma json_at_modify_below:
  "json_at p j = Some v \<Longrightarrow> json_at p (json_modify (p @ s # q) f j) = Some (json_modify (s # q) f v)"
  by (simp add: json_modify_append)

lemma json_wf_step: "json_wf j \<Longrightarrow> json_step s j = Some v \<Longrightarrow> json_wf v"
proof (cases "(s, j)" rule: json_step.cases)
  case (1 k kvs)
  assume "json_wf j" "json_step s j = Some v"
  then have "list_all (\<lambda>kv. json_wf (snd kv)) kvs" "map_find k kvs = Some v" using 1 by auto
  then show ?thesis by (induction kvs) (auto split: if_splits)
qed (auto simp: list_all_length split: if_splits)

lemma json_wf_at: "json_wf j \<Longrightarrow> json_at p j = Some v \<Longrightarrow> json_wf v"
  by (induction p arbitrary: j) (auto split: option.splits dest: json_wf_step)

lemma json_wf_modify_step:
  assumes "json_wf j" and "\<And>v. json_step s j = Some v \<Longrightarrow> json_wf (f v)"
  shows "json_wf (json_modify_step s f j)"
proof (cases "(s, j)" rule: json_step.cases)
  case (1 k kvs)
  then have "list_all (\<lambda>kv. json_wf (snd kv)) kvs" "\<And>v. map_find k kvs = Some v \<Longrightarrow> json_wf (f v)"
    using assms by auto
  then have "list_all (\<lambda>kv. json_wf (snd kv)) (map_adjust k f kvs)"
    by (induction kvs) auto
  then show ?thesis using 1 assms(1) by simp
next
  case (2 i xs)
  then show ?thesis using assms by (auto simp: list_all_length nth_list_update)
qed (use assms in auto)

lemma json_wf_modify [wf_intros]:
  assumes "json_wf j" and "\<And>v. json_at p j = Some v \<Longrightarrow> json_wf (f v)"
  shows "json_wf (json_modify p f j)"
  using assms
proof (induction p arbitrary: j)
  case (Cons s p)
  have "json_wf (json_modify p f v)" if "json_step s j = Some v" for v
    using Cons that json_wf_step by auto
  then show ?case using Cons.prems(1) json_wf_modify_step by simp
qed simp

section \<open>Facts on access\<close>

lemma json_index_mut_wf [wf_intros]:
  assumes "json_wf j" and "json_index_mut k j = Inr (v, j')"
  shows "json_wf j' \<and> json_wf v"
proof -
  have "list_all P (map_emplace k JNull kvs) \<longleftrightarrow>
      list_all P kvs \<and> (map_find k kvs = None \<longrightarrow> P (k, JNull))" if "sorted_wrt (<) (map fst kvs)"
    for P :: "string \<times> json \<Rightarrow> bool" and kvs
    using that
  proof (induction kvs)
    case (Cons p kvs)
    obtain a b where p: "p = (a, b)" by (cases p)
    have "map_find x kvs = None" if "x < a" for x
      using Cons.prems that map_find_below [of a kvs x] by (simp add: p)
    then show ?case using Cons by (auto simp: p)
  qed auto
  then have "json_wf j'"
    using assms sorted_emplace
    by (auto simp: json_index_mut_def Let_def split: json.splits if_splits)
  moreover have "json_step (Key k) j' = Some v \<or> v = JNull"
    using assms(2)
    by (auto simp: json_index_mut_def Let_def split: json.splits if_splits option.splits)
  ultimately show ?thesis using json_wf_step by auto
qed

end
