(* ===== verification/Json_Parser.thy ===== *)
theory Json_Parser
  imports Json_Lexer Json_Value
begin

text \<open>
  The parser of \<^verbatim>\<open>include/nlohmann/json.hpp\<close>: the SAX handler that builds the value
  (\<^verbatim>\<open>class json_sax_dom_parser\<close>), the loop that turns tokens into SAX events
  (\<^verbatim>\<open>parser::sax_parse_internal\<close>), and \<^verbatim>\<open>basic_json::parse\<close> as the program calls it: strict, with
  exceptions, without a callback, comments not skipped. The handler's pointers into the value
  under construction are paths from its root.
\<close>

section \<open>The SAX handler that builds the value\<close>

text \<open>\<open>dom_stack\<close> is \<^verbatim>\<open>ref_stack\<close> with its back first.\<close>

record dom =
  dom_root :: json
  dom_stack :: "path list"
  dom_element :: "path option"

definition new_dom :: "json \<Rightarrow> dom" where
  "new_dom r = \<lparr>dom_root = r, dom_stack = [], dom_element = None\<rparr>"

definition dom_handle_value :: "json \<Rightarrow> dom \<Rightarrow> (path \<times> dom) outcome" where
  "dom_handle_value v d =
     (case dom_stack d of
        [] \<Rightarrow> Inr ([], d\<lparr>dom_root := v\<rparr>)
      | p # _ \<Rightarrow>
          (case json_at p (dom_root d) of
             Some (JArray xs) \<Rightarrow>
               Inr (p @ [Index (length xs)],
                    d\<lparr>dom_root := json_modify p (\<lambda>_. JArray (xs @ [v])) (dom_root d)\<rparr>)
           | Some (JObject kvs) \<Rightarrow>
               (case dom_element d of
                  None \<Rightarrow> Inl (Assertion_failed ''object_element'')
                | Some q \<Rightarrow> Inr (q, d\<lparr>dom_root := json_modify q (\<lambda>_. v) (dom_root d)\<rparr>))
           | _ \<Rightarrow> Inl (Assertion_failed
                   ''ref_stack.back()->is_array() || ref_stack.back()->is_object()'')))"

definition dom_value :: "json \<Rightarrow> dom \<Rightarrow> dom outcome" where
  "dom_value v d = (case dom_handle_value v d of Inl e \<Rightarrow> Inl e | Inr (_, d1) \<Rightarrow> Inr d1)"

definition dom_start_object :: "dom \<Rightarrow> dom outcome" where
  "dom_start_object d =
     (case dom_handle_value (JObject []) d of
        Inl e \<Rightarrow> Inl e
      | Inr (p, d1) \<Rightarrow> Inr (d1\<lparr>dom_stack := p # dom_stack d1\<rparr>))"

definition dom_key :: "string \<Rightarrow> dom \<Rightarrow> dom outcome" where
  "dom_key k d =
     (case dom_stack d of
        [] \<Rightarrow> Inl (Assertion_failed ''!ref_stack.empty()'')
      | p # _ \<Rightarrow>
          (case json_at p (dom_root d) of
             Some (JObject kvs) \<Rightarrow>
               Inr (d\<lparr>dom_root := json_modify p (\<lambda>_. JObject (map_emplace k JNull kvs)) (dom_root d),
                      dom_element := Some (p @ [Key k])\<rparr>)
           | _ \<Rightarrow> Inl (Assertion_failed ''ref_stack.back()->is_object()'')))"

definition dom_end_object :: "dom \<Rightarrow> dom outcome" where
  "dom_end_object d =
     (case dom_stack d of
        [] \<Rightarrow> Inl (Assertion_failed ''!ref_stack.empty()'')
      | p # ps \<Rightarrow>
          (case json_at p (dom_root d) of
             Some (JObject _) \<Rightarrow> Inr (d\<lparr>dom_stack := ps\<rparr>)
           | _ \<Rightarrow> Inl (Assertion_failed ''ref_stack.back()->is_object()'')))"

definition dom_start_array :: "dom \<Rightarrow> dom outcome" where
  "dom_start_array d =
     (case dom_handle_value (JArray []) d of
        Inl e \<Rightarrow> Inl e
      | Inr (p, d1) \<Rightarrow> Inr (d1\<lparr>dom_stack := p # dom_stack d1\<rparr>))"

definition dom_end_array :: "dom \<Rightarrow> dom outcome" where
  "dom_end_array d =
     (case dom_stack d of
        [] \<Rightarrow> Inl (Assertion_failed ''!ref_stack.empty()'')
      | p # ps \<Rightarrow>
          (case json_at p (dom_root d) of
             Some (JArray _) \<Rightarrow> Inr (d\<lparr>dom_stack := ps\<rparr>)
           | _ \<Rightarrow> Inl (Assertion_failed ''ref_stack.back()->is_array()'')))"

section \<open>The parser object\<close>

record parser =
  ps_lexer :: lexer
  ps_last_token :: token_type
  ps_dom :: dom

definition ps_get_token :: "parser \<Rightarrow> parser" where
  "ps_get_token p =
     (let (t, l) = lx_scan (ps_lexer p) in p\<lparr>ps_last_token := t, ps_lexer := l\<rparr>)"

definition new_parser :: "string \<Rightarrow> parser" where
  "new_parser input =
     ps_get_token \<lparr>ps_lexer = new_lexer input False, ps_last_token = Tok_uninitialized,
                   ps_dom = new_dom JNull\<rparr>"

definition exception_message :: "parser \<Rightarrow> token_type \<Rightarrow> string \<Rightarrow> string" where
  "exception_message p expected ctx =
     ''syntax error ''
       @ (if ctx \<noteq> [] then ''while parsing '' @ ctx @ '' '' else [])
       @ ''- ''
       @ (if ps_last_token p = Tok_parse_error
          then lx_error_message (ps_lexer p) @ ''; last read: ''
                 @ quoted (lx_get_token_string (ps_lexer p))
          else ''unexpected '' @ token_type_name (ps_last_token p))
       @ (if expected \<noteq> Tok_uninitialized then ''; expected '' @ token_type_name expected else [])"

definition position_string :: "position_t \<Rightarrow> string" where
  "position_string pos =
     '' at line '' @ to_string (lines_read pos + 1)
       @ '', column '' @ to_string (chars_read_current_line pos)"

definition parse_error_create :: "nat \<Rightarrow> position_t \<Rightarrow> string \<Rightarrow> cpp_error" where
  "parse_error_create i pos what_arg =
     Json_parse_error i
       (exn_name ''parse_error'' i @ ''parse error'' @ position_string pos @ '': '' @ what_arg)"

text \<open>The handler's \<^verbatim>\<open>parse_error\<close> throws, since exceptions are allowed.\<close>

definition syntax_error :: "parser \<Rightarrow> token_type \<Rightarrow> string \<Rightarrow> cpp_error" where
  "syntax_error p expected ctx =
     parse_error_create 101 (lx_position (ps_lexer p)) (exception_message p expected ctx)"

definition on_dom :: "parser \<Rightarrow> dom outcome \<Rightarrow> parser outcome" where
  "on_dom p r = (case r of Inl e \<Rightarrow> Inl e | Inr d \<Rightarrow> Inr (p\<lparr>ps_dom := d\<rparr>))"

section \<open>The parse loop\<close>

text \<open>
  One turn of the loop of \<^verbatim>\<open>sax_parse_internal\<close> has two halves, the switch on the last token and
  the evaluation of the innermost open container. The stack \<^verbatim>\<open>states\<close> has its back first;
  \<open>True\<close> is an array, \<open>False\<close> an object.

  The result of the first half says whether it ends in \<^verbatim>\<open>continue\<close> (\<open>True\<close>) or falls through to
  the second half (\<open>False\<close>).
\<close>

definition parse_key :: "parser \<Rightarrow> parser outcome" where
  "parse_key p =
     (if ps_last_token p \<noteq> Tok_value_string
      then Inl (syntax_error p Tok_value_string ''object key'')
      else case on_dom p (dom_key (lx_token_buffer (ps_lexer p)) (ps_dom p)) of
             Inl e \<Rightarrow> Inl e
           | Inr p1 \<Rightarrow>
               (let p2 = ps_get_token p1
                in if ps_last_token p2 \<noteq> Tok_name_separator
                   then Inl (syntax_error p2 Tok_name_separator ''object separator'')
                   else Inr p2))"

definition sax_scalar :: "parser \<Rightarrow> json \<Rightarrow> bool list \<Rightarrow> (bool \<times> bool list \<times> parser) outcome" where
  "sax_scalar p v states =
     (case on_dom p (dom_value v (ps_dom p)) of
        Inl e \<Rightarrow> Inl e
      | Inr p1 \<Rightarrow> Inr (False, states, p1))"

definition sax_begin_object ::
  "bool list \<Rightarrow> parser \<Rightarrow> (bool \<times> bool list \<times> parser) outcome" where
  "sax_begin_object states p =
     (case on_dom p (dom_start_object (ps_dom p)) of
        Inl e \<Rightarrow> Inl e
      | Inr p1 \<Rightarrow>
          (let p2 = ps_get_token p1
           in if ps_last_token p2 = Tok_end_object
              then (case on_dom p2 (dom_end_object (ps_dom p2)) of
                      Inl e \<Rightarrow> Inl e
                    | Inr p3 \<Rightarrow> Inr (False, states, p3))
              else (case parse_key p2 of
                      Inl e \<Rightarrow> Inl e
                    | Inr p3 \<Rightarrow> Inr (True, False # states, ps_get_token p3))))"

definition sax_begin_array ::
  "bool list \<Rightarrow> parser \<Rightarrow> (bool \<times> bool list \<times> parser) outcome" where
  "sax_begin_array states p =
     (case on_dom p (dom_start_array (ps_dom p)) of
        Inl e \<Rightarrow> Inl e
      | Inr p1 \<Rightarrow>
          (let p2 = ps_get_token p1
           in if ps_last_token p2 = Tok_end_array
              then (case on_dom p2 (dom_end_array (ps_dom p2)) of
                      Inl e \<Rightarrow> Inl e
                    | Inr p3 \<Rightarrow> Inr (False, states, p3))
              else Inr (True, True # states, p2)))"

definition sax_value_step ::
  "bool list \<Rightarrow> parser \<Rightarrow> (bool \<times> bool list \<times> parser) outcome" where
  "sax_value_step states p =
     (let l = ps_lexer p
      in case ps_last_token p of
           Tok_begin_object \<Rightarrow> sax_begin_object states p
         | Tok_begin_array \<Rightarrow> sax_begin_array states p
         | Tok_value_float \<Rightarrow>
             if \<not> double_finite (lx_value_float l)
             then Inl (json_out_of_range 406
                    (''number overflow parsing '' @ quoted (lx_get_token_string l)))
             else sax_scalar p (JFloat (lx_value_float l)) states
         | Tok_literal_false \<Rightarrow> sax_scalar p (JBoolean False) states
         | Tok_literal_null \<Rightarrow> sax_scalar p JNull states
         | Tok_literal_true \<Rightarrow> sax_scalar p (JBoolean True) states
         | Tok_value_integer \<Rightarrow> sax_scalar p (JInteger (lx_value_integer l)) states
         | Tok_value_string \<Rightarrow> sax_scalar p (JString (lx_token_buffer l)) states
         | Tok_value_unsigned \<Rightarrow> sax_scalar p (JUnsigned (lx_value_unsigned l)) states
         | Tok_parse_error \<Rightarrow> Inl (syntax_error p Tok_uninitialized ''value'')
         | Tok_end_of_input \<Rightarrow>
             if chars_read_total (lx_position l) = 1
             then Inl (parse_error_create 101 (lx_position l)
                    ''attempting to parse an empty input; check that your input string or stream contains the expected JSON'')
             else Inl (syntax_error p Tok_literal_or_value ''value'')
         | _ \<Rightarrow> Inl (syntax_error p Tok_literal_or_value ''value''))"

text \<open>The second half: \<open>None\<close> is \<^verbatim>\<open>return true\<close>, \<open>Some\<close> the new \<^verbatim>\<open>skip_to_state_evaluation\<close>.\<close>

definition sax_state_step ::
  "bool list \<Rightarrow> parser \<Rightarrow> (bool option \<times> bool list \<times> parser) outcome" where
  "sax_state_step states p =
     (case states of
        [] \<Rightarrow> Inr (None, [], p)
      | is_array # rest \<Rightarrow>
          (let p1 = ps_get_token p
           in if is_array
              then if ps_last_token p1 = Tok_value_separator
                   then Inr (Some False, states, ps_get_token p1)
                   else if ps_last_token p1 = Tok_end_array
                   then (case on_dom p1 (dom_end_array (ps_dom p1)) of
                           Inl e \<Rightarrow> Inl e
                         | Inr p2 \<Rightarrow> Inr (Some True, rest, p2))
                   else Inl (syntax_error p1 Tok_end_array ''array'')
              else if ps_last_token p1 = Tok_value_separator
                   then (case parse_key (ps_get_token p1) of
                           Inl e \<Rightarrow> Inl e
                         | Inr p2 \<Rightarrow> Inr (Some False, states, ps_get_token p2))
                   else if ps_last_token p1 = Tok_end_object
                   then (case on_dom p1 (dom_end_object (ps_dom p1)) of
                           Inl e \<Rightarrow> Inl e
                         | Inr p2 \<Rightarrow> Inr (Some True, rest, p2))
                   else Inl (syntax_error p1 Tok_end_object ''object'')))"

definition sax_step ::
  "bool \<Rightarrow> bool list \<Rightarrow> parser \<Rightarrow> (bool option \<times> bool list \<times> parser) outcome" where
  "sax_step skip states p =
     (if skip then sax_state_step states p
      else case sax_value_step states p of
             Inl e \<Rightarrow> Inl e
           | Inr (continue, states1, p1) \<Rightarrow>
               if continue then Inr (Some False, states1, p1) else sax_state_step states1 p1)"

text \<open>
  Every turn that goes on has consumed a token, or has moved on to a token that ends the parse.
\<close>

definition ps_left :: "parser \<Rightarrow> nat" where
  "ps_left p = 2 * lx_left (ps_lexer p)
     + (if ps_last_token p \<in> {Tok_end_of_input, Tok_parse_error} then 0 else 1)"

lemma ps_left_dom [simp]: "ps_left (p\<lparr>ps_dom := d\<rparr>) = ps_left p"
  by (simp add: ps_left_def)

lemma ps_get_token_sel [simp]:
  "ps_last_token (ps_get_token p) = fst (lx_scan (ps_lexer p))"
  "ps_lexer (ps_get_token p) = snd (lx_scan (ps_lexer p))"
  "ps_dom (ps_get_token p) = ps_dom p"
  by (simp_all add: ps_get_token_def split: prod.split)

lemma ps_left_get_token: "ps_left (ps_get_token p) \<le> ps_left p"
  using lx_scan_left [of "ps_lexer p"] by (auto simp: ps_left_def)

lemma ps_left_get_token_less:
  "ps_last_token p \<notin> {Tok_end_of_input, Tok_parse_error} \<or>
     ps_last_token (ps_get_token p) \<notin> {Tok_end_of_input, Tok_parse_error}
   \<Longrightarrow> ps_left (ps_get_token p) < ps_left p"
  using lx_scan_left [of "ps_lexer p"] by (auto simp: ps_left_def)

lemma on_dom_left: "on_dom p r = Inr p' \<Longrightarrow> ps_left p' = ps_left p \<and> ps_last_token p' = ps_last_token p"
  by (auto simp: on_dom_def split: sum.splits)

lemma parse_key_left: "parse_key p = Inr p' \<Longrightarrow> ps_left p' \<le> ps_left p"
  using ps_left_get_token
  by (auto simp: parse_key_def Let_def on_dom_def split: if_splits sum.splits intro: order_trans)
    (metis ps_left_dom ps_left_get_token)

lemma sax_value_step_left:
  assumes "sax_value_step states p = Inr (c, states', p')"
  shows "ps_left p' \<le> ps_left p" and "c \<Longrightarrow> ps_left p' < ps_left p"
proof -
  have obj: "ps_left p' < ps_left p \<or> \<not> c \<and> ps_left p' \<le> ps_left p"
    if tok: "ps_last_token p = Tok_begin_object" and r: "sax_begin_object states p = Inr (c, states', p')"
  proof -
    obtain p1 where p1: "ps_left p1 = ps_left p" "ps_last_token p1 = ps_last_token p"
      and r1: "(let p2 = ps_get_token p1
           in if ps_last_token p2 = Tok_end_object
              then (case on_dom p2 (dom_end_object (ps_dom p2)) of
                      Inl e \<Rightarrow> Inl e | Inr p3 \<Rightarrow> Inr (False, states, p3))
              else (case parse_key p2 of
                      Inl e \<Rightarrow> Inl e | Inr p3 \<Rightarrow> Inr (True, False # states, ps_get_token p3)))
           = Inr (c, states', p')"
      using r by (auto simp: sax_begin_object_def split: sum.splits dest: on_dom_left)
    have less: "ps_left (ps_get_token p1) < ps_left p"
      using ps_left_get_token_less [of p1] p1 tok by simp
    then show ?thesis
      using r1 ps_left_get_token
      by (auto simp: Let_def split: if_splits sum.splits
          dest!: on_dom_left parse_key_left intro: le_less_trans order_trans)
  qed
  have arr: "ps_left p' < ps_left p"
    if tok: "ps_last_token p = Tok_begin_array" and r: "sax_begin_array states p = Inr (c, states', p')"
  proof -
    obtain p1 where p1: "ps_left p1 = ps_left p" "ps_last_token p1 = ps_last_token p"
      and r1: "(let p2 = ps_get_token p1
           in if ps_last_token p2 = Tok_end_array
              then (case on_dom p2 (dom_end_array (ps_dom p2)) of
                      Inl e \<Rightarrow> Inl e | Inr p3 \<Rightarrow> Inr (False, states, p3))
              else Inr (True, True # states, p2)) = Inr (c, states', p')"
      using r by (auto simp: sax_begin_array_def split: sum.splits dest: on_dom_left)
    have less: "ps_left (ps_get_token p1) < ps_left p"
      using ps_left_get_token_less [of p1] p1 tok by simp
    then show ?thesis
      using r1 by (auto simp: Let_def split: if_splits sum.splits dest!: on_dom_left)
  qed
  have sc: "\<not> c \<and> ps_left p' = ps_left p" if "sax_scalar p v states = Inr (c, states', p')" for v
    using that by (auto simp: sax_scalar_def split: sum.splits dest: on_dom_left)
  have "ps_left p' < ps_left p \<or> \<not> c \<and> ps_left p' \<le> ps_left p"
    using assms obj arr sc
    by (simp add: sax_value_step_def Let_def split: token_type.splits if_splits)
      (meson order_refl sc eq_imp_le)+
  then show "ps_left p' \<le> ps_left p" and "c \<Longrightarrow> ps_left p' < ps_left p" by auto
qed

lemma sax_state_step_left:
  assumes "sax_state_step states p = Inr (Some skip, states', p')"
  shows "ps_left p' < ps_left p"
proof -
  obtain is_array rest where st: "states = is_array # rest"
    using assms by (cases states) (auto simp: sax_state_step_def)
  have less: "ps_left (ps_get_token p) < ps_left p"
    if "ps_last_token (ps_get_token p) \<in> {Tok_value_separator, Tok_end_array, Tok_end_object}"
    using that ps_left_get_token_less [of p] by auto
  have "ps_left (ps_get_token (ps_get_token p)) \<le> ps_left (ps_get_token p)"
    by (rule ps_left_get_token)
  then show ?thesis
    using assms less ps_left_get_token
    by (auto simp: st sax_state_step_def Let_def split: if_splits sum.splits
        dest!: on_dom_left parse_key_left intro: le_less_trans order_trans)
qed

lemma sax_step_left:
  assumes "sax_step skip states p = Inr (Some skip', states', p')"
  shows "ps_left p' < ps_left p"
  using assms sax_value_step_left sax_state_step_left
  by (fastforce simp: sax_step_def split: if_splits sum.splits intro: less_le_trans)

function sax_loop :: "bool \<Rightarrow> bool list \<Rightarrow> parser \<Rightarrow> parser outcome" where
  "sax_loop skip states p =
     (case sax_step skip states p of
        Inl e \<Rightarrow> Inl e
      | Inr (None, _, p1) \<Rightarrow> Inr p1
      | Inr (Some skip1, states1, p1) \<Rightarrow> sax_loop skip1 states1 p1)"
  by pat_completeness auto
termination
  by (relation "measure (\<lambda>(skip, states, p). ps_left p)") (auto dest: sax_step_left)

declare sax_loop.simps [simp del]

definition sax_parse_internal :: "parser \<Rightarrow> parser outcome" where
  "sax_parse_internal p = sax_loop False [] p"

text \<open>\<^verbatim>\<open>parser::parse\<close>, strict and without a callback.\<close>

definition parser_parse :: "parser \<Rightarrow> json outcome" where
  "parser_parse p =
     (case sax_parse_internal p of
        Inl e \<Rightarrow> Inl e
      | Inr p1 \<Rightarrow>
          (let p2 = ps_get_token p1
           in if ps_last_token p2 \<noteq> Tok_end_of_input
              then Inl (syntax_error p2 Tok_end_of_input ''value'')
              else Inr (dom_root (ps_dom p2))))"

definition json_parse :: "string \<Rightarrow> json outcome" where
  "json_parse input = parser_parse (new_parser input)"

end
