(* ===== verification/Json_Dom.thy ===== *)
theory Json_Dom
  imports Json_Parser
begin

text \<open>
  Correctness of the parser of \<^verbatim>\<open>include/nlohmann/json.hpp\<close> as the program runs it: the stack of open
  containers of the parse loop and the stack of pointers of the SAX handler agree at every turn, so
  no assertion of the handler fails, and a parse ends with a well formed value or with one of two
  kinds of error.
\<close>

section \<open>Agreement of the two stacks\<close>

definition container :: "bool \<Rightarrow> json option \<Rightarrow> bool" where
  "container is_array v \<longleftrightarrow>
     map_option json_type v = Some (if is_array then VT_array else VT_object)"

text \<open>A pointer of the stack points to a child of what the pointer below it points to.\<close>

fun child_of :: "path \<Rightarrow> path list \<Rightarrow> bool" where
  "child_of p [] \<longleftrightarrow> p = []"
| "child_of p (q # qs) \<longleftrightarrow> p \<noteq> [] \<and> butlast p = q"

fun stack_ok :: "bool list \<Rightarrow> path list \<Rightarrow> json \<Rightarrow> bool" where
  "stack_ok [] [] r \<longleftrightarrow> True"
| "stack_ok (b # bs) (p # ps) r \<longleftrightarrow> container b (json_at p r) \<and> child_of p ps \<and> stack_ok bs ps r"
| "stack_ok _ _ r \<longleftrightarrow> False"

text \<open>
  \<open>want\<close>: the loop is about to handle a value. In an object the key it belongs to was then read.
\<close>

definition dom_inv :: "bool \<Rightarrow> bool list \<Rightarrow> dom \<Rightarrow> bool" where
  "dom_inv want states d \<longleftrightarrow> stack_ok states (dom_stack d) (dom_root d) \<and> json_wf (dom_root d)
     \<and> (case states of
          False # _ \<Rightarrow> want \<longrightarrow>
            (case dom_element d of
               None \<Rightarrow> False
             | Some q \<Rightarrow> child_of q (dom_stack d) \<and> json_at q (dom_root d) \<noteq> None)
        | _ \<Rightarrow> True)"

lemma child_of_prefix:
  "child_of q (p # ps) \<Longrightarrow> \<exists>s. q = p @ [s]"
  by (metis append_butlast_last_id child_of.simps(2))

lemma stack_below:
  "stack_ok bs (p # ps) r \<Longrightarrow> p' \<in> set ps \<Longrightarrow> \<exists>s t. p = p' @ s # t"
proof (induction bs "p # ps" r arbitrary: p ps rule: stack_ok.induct)
  case (2 b bs p ps r)
  then obtain q qs where ps: "ps = q # qs" by (cases ps) auto
  then obtain s where s: "p = q @ [s]" using 2 child_of_prefix by auto
  show ?case
  proof (cases "p' = q")
    case False
    then have "\<exists>s t. q = p' @ s # t" using 2 ps by auto
    then show ?thesis using s by auto
  qed (use s in simp)
qed simp_all

lemma stack_ok_cong:
  assumes "\<And>p. p \<in> set ps \<Longrightarrow> map_option json_type (json_at p r') = map_option json_type (json_at p r)"
  shows "stack_ok bs ps r' = stack_ok bs ps r"
  using assms by (induction bs ps r rule: stack_ok.induct) (auto simp: container_def)

lemma type_at_modify_below:
  "map_option json_type (json_at p (json_modify (p @ s # q) f r)) = map_option json_type (json_at p r)"
  by (cases "json_at p r") (simp_all add: json_modify_append)

text \<open>Changing a child of the innermost container, or the container within its type.\<close>

lemma stack_ok_modify_child:
  assumes "stack_ok bs ps r" and "child_of q ps"
  shows "stack_ok bs ps (json_modify q f r)"
proof (cases ps)
  case Nil
  then show ?thesis using assms by (cases bs) auto
next
  case (Cons p ps')
  obtain s where q: "q = p @ [s]" using assms(2) Cons child_of_prefix by blast
  have "\<exists>s t. q = p' @ s # t" if "p' \<in> set ps" for p'
    using that stack_below [of bs p ps' r p'] assms(1) Cons q by fastforce
  then show ?thesis
    using stack_ok_cong [of ps "json_modify q f r" r bs] assms(1) type_at_modify_below by metis
qed

lemma stack_ok_modify_top:
  assumes "stack_ok bs (p # ps) r" and "\<And>v. json_at p r = Some v \<Longrightarrow> json_type (f v) = json_type v"
  shows "stack_ok bs (p # ps) (json_modify p f r)"
proof -
  have "map_option json_type (json_at p' (json_modify p f r)) = map_option json_type (json_at p' r)"
    if "p' \<in> set (p # ps)" for p'
  proof (cases "p' = p")
    case True
    then show ?thesis using assms(2) by (cases "json_at p r") auto
  next
    case False
    then have "p' \<in> set ps" using that by simp
    then obtain s t where "p = p' @ s # t" using stack_below [OF assms(1)] by blast
    then show ?thesis using type_at_modify_below by metis
  qed
  then show ?thesis using stack_ok_cong assms(1) by metis
qed

lemma stack_ok_array:
  assumes "stack_ok (True # bs) ps r"
  obtains p ps' xs where "ps = p # ps'" "json_at p r = Some (JArray xs)"
proof -
  obtain p ps' v where "ps = p # ps'" "json_at p r = Some v" "json_type v = VT_array"
    using assms by (cases ps) (auto simp: container_def)
  then show ?thesis using that by (cases v) auto
qed

lemma stack_ok_object:
  assumes "stack_ok (False # bs) ps r"
  obtains p ps' kvs where "ps = p # ps'" "json_at p r = Some (JObject kvs)"
proof -
  obtain p ps' v where "ps = p # ps'" "json_at p r = Some v" "json_type v = VT_object"
    using assms by (cases ps) (auto simp: container_def)
  then show ?thesis using that by (cases v) auto
qed

section \<open>The operations of the handler\<close>

text \<open>
  \<open>handle_value\<close> returns a pointer to the value it stored, below the innermost open container.
\<close>

lemma dom_handle_value_ok:
  assumes inv: "dom_inv True states d" and v: "json_wf v"
  shows "\<exists>q d'. dom_handle_value v d = Inr (q, d') \<and> dom_inv False states d' \<and> dom_stack d' = dom_stack d
    \<and> child_of q (dom_stack d') \<and> json_at q (dom_root d') = Some v"
proof (cases states)
  case Nil
  then have "dom_stack d = []" using inv by (cases "dom_stack d") (auto simp: dom_inv_def)
  then show ?thesis using Nil v by (simp add: dom_handle_value_def dom_inv_def)
next
  case (Cons b bs)
  have ok: "stack_ok (b # bs) (dom_stack d) (dom_root d)" "json_wf (dom_root d)"
    using inv Cons by (auto simp: dom_inv_def)
  show ?thesis
  proof (cases b)
    case True
    obtain p ps xs where p: "dom_stack d = p # ps" "json_at p (dom_root d) = Some (JArray xs)"
      using stack_ok_array ok(1) True by metis
    let ?f = "\<lambda>_. JArray (xs @ [v])"
    have "json_wf (JArray xs)" using json_wf_at [OF ok(2) p(2)] .
    then have "json_wf (json_modify p ?f (dom_root d))" using ok(2) v by (intro json_wf_modify) auto
    moreover have "stack_ok states (dom_stack d) (json_modify p ?f (dom_root d))"
      using stack_ok_modify_top [of states p ps "dom_root d" ?f] ok(1) p Cons by simp
    ultimately show ?thesis
      using p Cons True by (simp add: dom_handle_value_def dom_inv_def json_at_append)
  next
    case False
    obtain p ps kvs where p: "dom_stack d = p # ps" "json_at p (dom_root d) = Some (JObject kvs)"
      using stack_ok_object ok(1) False by metis
    obtain q where q: "dom_element d = Some q" "child_of q (dom_stack d)" "json_at q (dom_root d) \<noteq> None"
      using inv Cons False by (auto simp: dom_inv_def split: option.splits)
    have "json_wf (json_modify q (\<lambda>_. v) (dom_root d))" using ok(2) v by (intro json_wf_modify) auto
    moreover have "stack_ok states (dom_stack d) (json_modify q (\<lambda>_. v) (dom_root d))"
      using stack_ok_modify_child [OF ok(1) q(2)] Cons by simp
    ultimately show ?thesis
      using p q Cons False by (auto simp: dom_handle_value_def dom_inv_def)
  qed
qed

lemma dom_value_ok:
  "dom_inv True states d \<Longrightarrow> json_wf v \<Longrightarrow> \<exists>d'. dom_value v d = Inr d' \<and> dom_inv False states d'"
  using dom_handle_value_ok [of states d v] by (auto simp: dom_value_def)

lemma dom_start_array_ok:
  assumes "dom_inv True states d"
  shows "\<exists>d'. dom_start_array d = Inr d' \<and> dom_inv True (True # states) d' \<and> dom_inv False (True # states) d'"
  using dom_handle_value_ok [OF assms, of "JArray []"]
  by (auto simp: dom_start_array_def dom_inv_def container_def)

lemma dom_start_object_ok:
  assumes "dom_inv True states d"
  shows "\<exists>d'. dom_start_object d = Inr d' \<and> dom_inv False (False # states) d'"
  using dom_handle_value_ok [OF assms, of "JObject []"]
  by (auto simp: dom_start_object_def dom_inv_def container_def)

lemma dom_inv_pop:
  assumes "dom_inv False (b # bs) d" and "dom_stack d = p # ps"
  shows "dom_inv False bs (d\<lparr>dom_stack := ps\<rparr>)"
  using assms by (auto simp: dom_inv_def split: list.split bool.split)

lemma dom_end_array_ok:
  assumes "dom_inv False (True # bs) d"
  shows "\<exists>d'. dom_end_array d = Inr d' \<and> dom_inv False bs d'"
proof -
  obtain p ps xs where "dom_stack d = p # ps" "json_at p (dom_root d) = Some (JArray xs)"
    using stack_ok_array assms by (metis dom_inv_def)
  then show ?thesis using dom_inv_pop [OF assms] by (simp add: dom_end_array_def)
qed

lemma dom_end_object_ok:
  assumes "dom_inv False (False # bs) d"
  shows "\<exists>d'. dom_end_object d = Inr d' \<and> dom_inv False bs d'"
proof -
  obtain p ps kvs where "dom_stack d = p # ps" "json_at p (dom_root d) = Some (JObject kvs)"
    using stack_ok_object assms by (metis dom_inv_def)
  then show ?thesis using dom_inv_pop [OF assms] by (simp add: dom_end_object_def)
qed

lemma dom_key_ok:
  assumes "dom_inv False (False # bs) d"
  shows "\<exists>d'. dom_key k d = Inr d' \<and> dom_inv True (False # bs) d'"
proof -
  have ok: "stack_ok (False # bs) (dom_stack d) (dom_root d)" "json_wf (dom_root d)"
    using assms by (auto simp: dom_inv_def)
  obtain p ps kvs where p: "dom_stack d = p # ps" "json_at p (dom_root d) = Some (JObject kvs)"
    using stack_ok_object ok(1) by metis
  let ?kvs = "map_emplace k JNull kvs"
  let ?r = "json_modify p (\<lambda>_. JObject ?kvs) (dom_root d)"
  have kvs: "json_wf (JObject kvs)" using json_wf_at [OF ok(2) p(2)] .
  then have "json_index_mut k (JObject kvs) = Inr (the (map_find k ?kvs), JObject ?kvs)"
    by (auto simp: json_index_mut_def Let_def split: option.split)
  then have wf: "json_wf (JObject ?kvs)" using json_index_mut_wf [OF kvs] by blast
  have "json_wf ?r" using ok(2) wf by (intro json_wf_modify) auto
  moreover have "stack_ok (False # bs) (dom_stack d) ?r"
    using stack_ok_modify_top [of "False # bs" p ps "dom_root d" "\<lambda>_. JObject ?kvs"] ok(1) p by simp
  moreover have "map_find k ?kvs \<noteq> None" using kvs by (cases "map_find k kvs") auto
  ultimately show ?thesis
    using p by (auto simp: dom_key_def dom_inv_def json_at_append)
qed

section \<open>The parse loop\<close>

text \<open>The two kinds of exception a parse may end with.\<close>

definition parse_failure :: "cpp_error \<Rightarrow> bool" where
  "parse_failure e =
     (case e of Json_parse_error i m \<Rightarrow> i = 101 | Json_out_of_range i m \<Rightarrow> i = 406 | _ \<Rightarrow> False)"

lemma syntax_error_failure [simp]:
  "parse_failure (syntax_error p t c)" "parse_failure (parse_error_create 101 pos m)"
  by (simp_all add: parse_failure_def syntax_error_def parse_error_create_def)

lemma overflow_failure [simp]: "parse_failure (json_out_of_range 406 m)"
  by (simp add: parse_failure_def json_out_of_range_def)

lemma parse_key_ok:
  assumes "dom_inv False (False # bs) (ps_dom p)"
  shows "case parse_key p of
      Inl e \<Rightarrow> parse_failure e | Inr p' \<Rightarrow> dom_inv True (False # bs) (ps_dom p')"
  using dom_key_ok [OF assms, of "lx_token_buffer (ps_lexer p)"]
  by (auto simp: parse_key_def on_dom_def Let_def)

definition value_step_ok :: "(bool \<times> bool list \<times> parser) outcome \<Rightarrow> bool" where
  "value_step_ok r =
     (case r of Inl e \<Rightarrow> parse_failure e | Inr (c, states, p) \<Rightarrow> dom_inv c states (ps_dom p))"

lemma value_step_ok_simps [simp]:
  "value_step_ok (Inl e) \<longleftrightarrow> parse_failure e"
  "value_step_ok (Inr (c, states, p)) \<longleftrightarrow> dom_inv c states (ps_dom p)"
  by (simp_all add: value_step_ok_def)

lemma sax_scalar_ok:
  assumes "dom_inv True states (ps_dom p)" and "json_wf v"
  shows "value_step_ok (sax_scalar p v states)"
  using dom_value_ok [OF assms] by (auto simp: sax_scalar_def on_dom_def)

lemma sax_begin_object_ok:
  assumes "dom_inv True states (ps_dom p)"
  shows "value_step_ok (sax_begin_object states p)"
proof -
  obtain d where d: "dom_start_object (ps_dom p) = Inr d" "dom_inv False (False # states) d"
    using dom_start_object_ok [OF assms] by blast
  let ?p2 = "ps_get_token (p\<lparr>ps_dom := d\<rparr>)"
  have "case parse_key ?p2 of Inl e \<Rightarrow> parse_failure e | Inr p' \<Rightarrow> dom_inv True (False # states) (ps_dom p')"
    using d by (intro parse_key_ok) simp
  then show ?thesis
    using d dom_end_object_ok [OF d(2)]
    by (auto simp: sax_begin_object_def on_dom_def Let_def split: sum.split)
qed

lemma sax_begin_array_ok:
  assumes "dom_inv True states (ps_dom p)"
  shows "value_step_ok (sax_begin_array states p)"
proof -
  obtain d where d: "dom_start_array (ps_dom p) = Inr d" "dom_inv True (True # states) d"
    "dom_inv False (True # states) d"
    using dom_start_array_ok [OF assms] by blast
  then show ?thesis
    using dom_end_array_ok [OF d(3)] by (auto simp: sax_begin_array_def on_dom_def Let_def)
qed

lemma sax_value_step_ok:
  assumes "dom_inv True states (ps_dom p)"
  shows "value_step_ok (sax_value_step states p)"
  using sax_scalar_ok [OF assms] sax_begin_object_ok [OF assms] sax_begin_array_ok [OF assms]
  by (cases "ps_last_token p") (simp_all add: sax_value_step_def Let_def)

definition state_step_ok :: "(bool option \<times> bool list \<times> parser) outcome \<Rightarrow> bool" where
  "state_step_ok r =
     (case r of
        Inl e \<Rightarrow> parse_failure e
      | Inr (None, states, p) \<Rightarrow> dom_inv False [] (ps_dom p)
      | Inr (Some skip, states, p) \<Rightarrow> dom_inv (\<not> skip) states (ps_dom p))"

lemma state_step_ok_simps [simp]:
  "state_step_ok (Inl e) \<longleftrightarrow> parse_failure e"
  "state_step_ok (Inr (None, states, p)) \<longleftrightarrow> dom_inv False [] (ps_dom p)"
  "state_step_ok (Inr (Some skip, states, p)) \<longleftrightarrow> dom_inv (\<not> skip) states (ps_dom p)"
  by (simp_all add: state_step_ok_def)

lemma dom_inv_array: "dom_inv False (True # bs) d \<Longrightarrow> dom_inv want (True # bs) d"
  by (simp add: dom_inv_def)

lemma sax_state_step_ok:
  assumes "dom_inv False states (ps_dom p)"
  shows "state_step_ok (sax_state_step states p)"
proof (cases states)
  case Nil
  then show ?thesis using assms by (simp add: sax_state_step_def)
next
  case (Cons b bs)
  show ?thesis
  proof (cases b)
    case True
    then have inv: "dom_inv False (True # bs) (ps_dom p)" using assms Cons by simp
    then show ?thesis
      using Cons True dom_end_array_ok [OF inv] dom_inv_array [OF inv]
      by (auto simp: sax_state_step_def on_dom_def Let_def)
  next
    case False
    then have inv: "dom_inv False (False # bs) (ps_dom p)" using assms Cons by simp
    have "case parse_key (ps_get_token (ps_get_token p)) of
        Inl e \<Rightarrow> parse_failure e | Inr p' \<Rightarrow> dom_inv True (False # bs) (ps_dom p')"
      using inv by (intro parse_key_ok) simp
    then show ?thesis
      using Cons False dom_end_object_ok [OF inv]
      by (auto simp: sax_state_step_def on_dom_def Let_def split: sum.splits)
  qed
qed

lemma sax_step_ok:
  assumes "dom_inv (\<not> skip) states (ps_dom p)"
  shows "state_step_ok (sax_step skip states p)"
proof (cases skip)
  case True
  then show ?thesis using assms sax_state_step_ok by (simp add: sax_step_def)
next
  case False
  then have "value_step_ok (sax_value_step states p)" using assms sax_value_step_ok by simp
  then show ?thesis
    using False sax_state_step_ok
    by (auto simp: sax_step_def value_step_ok_def split: sum.splits)
qed

lemma sax_loop_ok:
  "dom_inv (\<not> skip) states (ps_dom p) \<Longrightarrow>
     (case sax_loop skip states p of
        Inl e \<Rightarrow> parse_failure e | Inr p' \<Rightarrow> dom_inv False [] (ps_dom p'))"
proof (induction skip states p rule: sax_loop.induct)
  case (1 skip states p)
  have ok: "state_step_ok (sax_step skip states p)" using sax_step_ok [OF "1.prems"] .
  show ?case
  proof (cases "sax_step skip states p")
    case (Inl e)
    then show ?thesis using ok by (simp add: sax_loop.simps [of skip])
  next
    case (Inr x)
    obtain o1 states1 p1 where x: "x = (o1, states1, p1)" by (cases x)
    show ?thesis
    proof (cases o1)
      case None
      then show ?thesis using ok Inr x by (simp add: sax_loop.simps [of skip])
    next
      case (Some skip1)
      then have "dom_inv (\<not> skip1) states1 (ps_dom p1)" using ok Inr x by simp
      then show ?thesis
        using "1.IH" [OF Inr x [symmetric] Some refl] Inr x Some by (simp add: sax_loop.simps [of skip states])
    qed
  qed
qed

lemma json_parse_result:
  "case json_parse input of Inl e \<Rightarrow> parse_failure e | Inr j \<Rightarrow> json_wf j"
proof -
  have "dom_inv True [] (ps_dom (new_parser input))"
    by (simp add: new_parser_def new_dom_def dom_inv_def)
  then have "case sax_loop False [] (new_parser input) of
      Inl e \<Rightarrow> parse_failure e | Inr p' \<Rightarrow> dom_inv False [] (ps_dom p')"
    using sax_loop_ok [of False] by simp
  then show ?thesis
    by (auto simp: json_parse_def parser_parse_def sax_parse_internal_def Let_def dom_inv_def
        split: sum.splits)
qed

section \<open>The property of the parser\<close>

text \<open>
  C7: \<open>json::parse\<close> on any text returns or throws, and never fails one of the assertions of the SAX
  handler: what it throws is the parse error 101 or the overflow error 406, and what it returns is a
  well formed value, in which the keys of every object are distinct and sorted.
\<close>

theorem json_parse_safe:
  "case json_parse input of Inl e \<Rightarrow> parse_failure e | Inr j \<Rightarrow> json_wf j"
  by (rule json_parse_result)

end
