(* ===== verification/Message.thy ===== *)
theory Message
  imports Json_Dom
begin

text \<open>
  The messages that travel from the connections to the consumer (\<^verbatim>\<open>include/common.h\<close>) and the
  parsing of their text (\<^verbatim>\<open>include/utils/parser.h\<close>). \<^verbatim>\<open>OrderBook\<close> is the only class derived from
  \<^verbatim>\<open>BaseData\<close>, so a \<^verbatim>\<open>shared_ptr<BaseData>\<close> is an optional order book. What is written to
  \<^verbatim>\<open>std::cerr\<close> is not modelled.
\<close>

section \<open>parseJsonString\<close>

text \<open>Only \<^verbatim>\<open>json::parse_error\<close> is caught; every other exception passes through.\<close>

definition parseJsonString :: "string \<Rightarrow> json outcome" where
  "parseJsonString jsonString =
     (case json_parse jsonString of
        Inr j \<Rightarrow> Inr j
      | Inl (Json_parse_error i w) \<Rightarrow> Inr JNull
      | Inl e \<Rightarrow> Inl e)"

section \<open>OrderBook\<close>

record orderbook =
  ob_symbol :: string
  ob_data :: json

definition OrderBook :: "string \<Rightarrow> string \<Rightarrow> orderbook outcome" where
  "OrderBook symbol data =
     (case parseJsonString data of
        Inl e \<Rightarrow> Inl e
      | Inr j \<Rightarrow> Inr \<lparr>ob_symbol = symbol, ob_data = j\<rparr>)"

text \<open>
  \<^verbatim>\<open>hash\<close>: the standard's string hash is the parameter \<open>string_hash\<close>. The three accesses go
  through the mutable \<^verbatim>\<open>operator[]\<close> and may add entries to the order book, also when a conversion
  throws; any exception gives -1. The operands are evaluated from left to right.
\<close>

definition ob_hash :: "(string \<Rightarrow> int64_t) \<Rightarrow> orderbook \<Rightarrow> int64_t \<times> orderbook" where
  "ob_hash string_hash ob =
     (case json_uint64_at ''U'' (ob_data ob) of
        (Inl e, d1) \<Rightarrow> (- 1, ob\<lparr>ob_data := d1\<rparr>)
      | (Inr a, d1) \<Rightarrow>
          (case json_uint64_at ''u'' d1 of
             (Inl e, d2) \<Rightarrow> (- 1, ob\<lparr>ob_data := d2\<rparr>)
           | (Inr b, d2) \<Rightarrow>
               (case json_uint64_at ''pu'' d2 of
                  (Inl e, d3) \<Rightarrow> (- 1, ob\<lparr>ob_data := d3\<rparr>)
                | (Inr c, d3) \<Rightarrow>
                    (string_hash (to_string (unat a) @ to_string (unat b) @ to_string (unat c)),
                     ob\<lparr>ob_data := d3\<rparr>))))"

section \<open>Msg\<close>

datatype msg_type = MT_None | MT_OrderBook | MT_Order | MT_Trade | MT_Account | MT_Position

datatype msg_source = MS_None | MS_RestApi | MS_WebSocket

record msg =
  msg_type :: msg_type
  msg_source :: msg_source
  msg_data :: "orderbook option"

definition default_msg :: msg where
  "default_msg = \<lparr>msg_type = MT_None, msg_source = MS_None, msg_data = None\<rparr>"

definition createMsg :: "msg_source \<Rightarrow> msg_type \<Rightarrow> string \<Rightarrow> string \<Rightarrow> msg outcome" where
  "createMsg source type symbol data =
     (let m = default_msg\<lparr>msg_type := type, msg_source := source\<rparr>
      in if type = MT_OrderBook
         then (case OrderBook symbol data of
                 Inl e \<Rightarrow> Inl e
               | Inr ob \<Rightarrow> Inr (m\<lparr>msg_data := Some ob\<rparr>))
         else Inr m)"

definition msg_valid :: "msg \<Rightarrow> bool" where
  "msg_valid m \<longleftrightarrow> msg_type m \<noteq> MT_None \<and> msg_source m \<noteq> MS_None \<and> msg_data m \<noteq> None"

section \<open>Facts\<close>

lemma createMsg_orderbook:
  "createMsg src MT_OrderBook symb data =
     (case parseJsonString data of
        Inl e \<Rightarrow> Inl e
      | Inr j \<Rightarrow> Inr \<lparr>msg_type = MT_OrderBook, msg_source = src,
                     msg_data = Some \<lparr>ob_symbol = symb, ob_data = j\<rparr>\<rparr>)"
  by (simp add: createMsg_def OrderBook_def default_msg_def split: sum.split)

lemma createMsg_valid:
  "createMsg src MT_OrderBook symb data = Inr m \<Longrightarrow> msg_valid m \<longleftrightarrow> src \<noteq> MS_None"
  by (auto simp: createMsg_orderbook msg_valid_def split: sum.splits)

section \<open>Properties of messages\<close>

lemma parseJsonString_result:
  "case parseJsonString input of Inl e \<Rightarrow> (\<exists>m. e = Json_out_of_range 406 m) | Inr j \<Rightarrow> json_wf j"
  using json_parse_result [of input]
  by (auto simp: parseJsonString_def parse_failure_def split: sum.splits cpp_error.splits)

lemma overflow_text:
  "parseJsonString ''1e999'' =
     Inl (json_out_of_range 406 (''number overflow parsing '' @ quoted ''1e999''))"
  by code_simp

text \<open>
  \<open>parseJsonString\<close> gives a well formed value for every text, a null value where the text is not
  JSON; the one exception it lets through is the library's overflow error 406, and it does let it
  through, for example for the text 1e999.
\<close>

theorem parse_text:
  "(case parseJsonString input of Inl e \<Rightarrow> (\<exists>m. e = Json_out_of_range 406 m) | Inr j \<Rightarrow> json_wf j)
   \<and> (\<forall>i m. json_parse input = Inl (Json_parse_error i m) \<longrightarrow> parseJsonString input = Inr JNull)
   \<and> (\<exists>m. parseJsonString ''1e999'' = Inl (Json_out_of_range 406 m))"
  using parseJsonString_result [of input] overflow_text
  by (simp add: parseJsonString_def json_out_of_range_def)

theorem parse_text_witness:
  "\<exists>m. json_parse ''{'' = Inl (Json_parse_error 101 m) \<and> parseJsonString ''{'' = Inr JNull"
proof -
  have "case json_parse ''{'' of Inl (Json_parse_error i m) \<Rightarrow> i = 101 | _ \<Rightarrow> False" by code_simp
  then obtain m where "json_parse ''{'' = Inl (Json_parse_error 101 m)"
    by (auto split: sum.splits cpp_error.splits)
  then show ?thesis using parse_text [of "''{''"] by blast
qed

text \<open>Looking up a key that is there with the mutable \<open>operator[]\<close> adds nothing.\<close>

lemma map_emplace_present:
  assumes "json_wf (JObject kvs)" and "map_find k kvs \<noteq> None"
  shows "map_emplace k v kvs = kvs"
  using assms(2,1)
proof (induction kvs)
  case (Cons p kvs)
  obtain x y where p: "p = (x, y)" by (cases p)
  have "map_find z kvs = None" if "z < x" for z
    using Cons.prems that map_find_below [of x kvs z] by (simp add: p)
  then show ?case using Cons by (auto simp: p split: if_splits)
qed simp

text \<open>
  \<open>hash\<close> of an order book whose data has the three ids as unsigned numbers is the string hash of
  their decimal digits one after the other, and it leaves the order book as it is; of an order book
  that is neither an object nor null it is -1.
\<close>

theorem order_book_hash:
  assumes "ob_data ob = JObject kvs" and "json_wf (JObject kvs)"
    and "map_find ''U'' kvs = Some (JUnsigned a)" and "map_find ''u'' kvs = Some (JUnsigned b)"
    and "map_find ''pu'' kvs = Some (JUnsigned c)"
  shows "ob_hash string_hash ob =
      (string_hash (to_string (unat a) @ to_string (unat b) @ to_string (unat c)), ob)
    \<and> (j \<notin> {JNull} \<union> range JObject \<longrightarrow> ob_hash string_hash (ob\<lparr>ob_data := j\<rparr>) = (- 1, ob\<lparr>ob_data := j\<rparr>))"
proof -
  have at: "json_uint64_at k (JObject kvs) = (Inr v, JObject kvs)"
    if "map_find k kvs = Some (JUnsigned v)" for k v
    using that map_emplace_present [OF assms(2), of k] by (simp add: json_uint64_at_def json_index_mut_def Let_def json_to_uint64_def)
  have "ob\<lparr>ob_data := JObject kvs\<rparr> = ob" using assms(1) by simp
  then have "ob_hash string_hash ob =
      (string_hash (to_string (unat a) @ to_string (unat b) @ to_string (unat c)), ob)"
    using assms at by (simp add: ob_hash_def)
  moreover have "ob_hash string_hash (ob\<lparr>ob_data := j\<rparr>) = (- 1, ob\<lparr>ob_data := j\<rparr>)"
    if "j \<notin> {JNull} \<union> range JObject"
    using that by (cases j) (auto simp: ob_hash_def json_uint64_at_def json_index_mut_def Let_def)
  ultimately show ?thesis by blast
qed

theorem order_book_hash_witness:
  "ob_hash (\<lambda>s. of_nat (length s))
     \<lparr>ob_symbol = ''btcusdt'', ob_data =
        JObject [(''U'', JUnsigned 15), (''pu'', JUnsigned 9), (''u'', JUnsigned 17)]\<rparr>
   = (5, \<lparr>ob_symbol = ''btcusdt'', ob_data =
        JObject [(''U'', JUnsigned 15), (''pu'', JUnsigned 9), (''u'', JUnsigned 17)]\<rparr>)"
proof -
  let ?kvs = "[(''U'', JUnsigned 15), (''pu'', JUnsigned 9), (''u'', JUnsigned 17)]"
  have "json_wf (JObject ?kvs)" by (simp add: less_list_code)
  then show ?thesis
    using order_book_hash [of "\<lparr>ob_symbol = ''btcusdt'', ob_data = JObject ?kvs\<rparr>" ?kvs 15 17 9
        "\<lambda>s. of_nat (length s)" JNull]
    by (simp add: to_string.simps)
qed

end
