(* ===== verification/Lock_Free_Queue.thy ===== *)
theory Lock_Free_Queue
  imports Prelude
begin

text \<open>
  The ring buffer of \<^verbatim>\<open>include/utils/queue.h\<close>, run by one thread at a time (the theory
  \<^verbatim>\<open>Queue_Threads\<close> interleaves its atomic accesses). The interface \<open>bounded_queue\<close> says what
  a client may rely on; the interpretation \<open>lfq\<close> shows that the ring buffer provides it, with the
  list \<open>q_list\<close> of the stored items as its abstract value.
\<close>

section \<open>The class LockFreeQueue\<close>

record 'a lfq =
  q_buffer :: "'a list"
  q_capacity :: size_t
  q_head :: size_t
  q_tail :: size_t

text \<open>
  The constructor; \<open>dflt\<close> is the default-constructed item that \<^verbatim>\<open>resize\<close> fills the vector with.
\<close>

definition LockFreeQueue :: "'a \<Rightarrow> size_t \<Rightarrow> 'a lfq outcome" where
  "LockFreeQueue dflt cap =
     (if cap AND (cap - 1) \<noteq> 0
      then Inl (Invalid_argument ''Capacity must be a power of 2'')
      else Inr \<lparr>q_buffer = replicate (unat cap) dflt, q_capacity = cap, q_head = 0, q_tail = 0\<rparr>)"

definition q_enqueue :: "'a \<Rightarrow> 'a lfq \<Rightarrow> (bool \<times> 'a lfq) outcome" where
  "q_enqueue item q =
     (let tail = q_tail q;
          next_tail = (tail + 1) AND (q_capacity q - 1)
      in if next_tail = q_head q then Inr (False, q)
         else if unat tail < length (q_buffer q)
         then Inr (True, q\<lparr>q_buffer := (q_buffer q)[unat tail := item], q_tail := next_tail\<rparr>)
         else Inl (Undefined_behaviour ''vector index out of range''))"

definition q_dequeue :: "'a lfq \<Rightarrow> ('a option \<times> 'a lfq) outcome" where
  "q_dequeue q =
     (let head = q_head q
      in if head = q_tail q then Inr (None, q)
         else if unat head < length (q_buffer q)
         then Inr (Some (q_buffer q ! unat head),
                   q\<lparr>q_head := (head + 1) AND (q_capacity q - 1)\<rparr>)
         else Inl (Undefined_behaviour ''vector index out of range''))"

definition q_size :: "'a lfq \<Rightarrow> size_t" where
  "q_size q = (q_tail q - q_head q) AND (q_capacity q - 1)"

section \<open>Ring arithmetic\<close>

definition ring :: "nat \<Rightarrow> 'a list \<Rightarrow> nat \<Rightarrow> nat \<Rightarrow> 'a list" where
  "ring K b h t = map (\<lambda>i. b ! ((h + i) mod K)) [0..<(t + K - h) mod K]"

lemma length_ring: "length (ring K b h t) = (t + K - h) mod K"
  by (simp add: ring_def)

lemma ring_dist:
  assumes "h < K" and "t < (K :: nat)"
  shows "(t + K - h) mod K = (if h \<le> t then t - h else t + K - h)"
proof (cases "h \<le> t")
  case True
  then have "t + K - h = t - h + K" using assms by arith
  then have "(t + K - h) mod K = (t - h) mod K" by (simp only: mod_add_self2)
  with True assms show ?thesis by simp
next
  case False
  with assms show ?thesis by simp
qed

lemma ring_wrap: "x < 2 * K \<Longrightarrow> x mod K = (if x < K then x else x - K)" for x :: nat
  by (simp add: mod_if)

lemma ring_enqueue:
  assumes "h < K" "t < K" "length b = K" "Suc t mod K \<noteq> h"
  shows "ring K (b[t := x]) h (Suc t mod K) = ring K b h t @ [x]"
proof -
  define n where "n = (t + K - h) mod K"
  have n: "n = (if h \<le> t then t - h else t + K - h)"
    unfolding n_def using assms ring_dist by blast
  have next_t: "Suc t mod K = (if Suc t < K then Suc t else 0)"
    using assms(2) by (simp add: mod_if)
  have n1: "(Suc t mod K + K - h) mod K = Suc n"
    using assms ring_dist [of h K "Suc t mod K"] by (auto simp: n next_t split: if_splits)
  have at: "(h + n) mod K = t"
    using assms by (subst ring_wrap) (auto simp: n split: if_splits)
  have other: "(h + i) mod K \<noteq> t" if "i < n" for i
    using assms that by (subst ring_wrap) (auto simp: n split: if_splits)
  show ?thesis
    unfolding ring_def n1 n_def [symmetric] using assms other at
    by (auto simp: nth_list_update_neq [OF not_sym])
qed

lemma ring_dequeue:
  assumes "h < K" "t < K" "h \<noteq> t"
  shows "ring K b h t = b ! h # ring K b (Suc h mod K) t"
proof -
  define n where "n = (t + K - Suc h mod K) mod K"
  have next_h: "Suc h mod K = (if Suc h < K then Suc h else 0)"
    using assms(1) by (simp add: mod_if)
  have n: "(t + K - h) mod K = Suc n"
    using assms ring_dist [of h K t] ring_dist [of "Suc h mod K" K t]
    by (auto simp: n_def next_h split: if_splits)
  have "(h + Suc i) mod K = (Suc h mod K + i) mod K" for i
    by (simp add: mod_simps)
  then show ?thesis
    unfolding ring_def n n_def [symmetric] using assms
    by (simp add: upt_conv_Cons map_Suc_upt [symmetric] del: upt_Suc map_Suc_upt)
qed

lemma ring_empty: "h < K \<Longrightarrow> t < K \<Longrightarrow> ring K b h t = [] \<longleftrightarrow> h = t"
  by (auto simp: ring_def ring_dist)

section \<open>Abstract value and well-formedness\<close>

definition q_list :: "'a lfq \<Rightarrow> 'a list" where
  "q_list q = ring (unat (q_capacity q)) (q_buffer q) (unat (q_head q)) (unat (q_tail q))"

definition q_wf :: "'a lfq \<Rightarrow> bool" where
  "q_wf q \<longleftrightarrow> (\<exists>k<64. q_capacity q = 2 ^ k) \<and> length (q_buffer q) = unat (q_capacity q)
     \<and> unat (q_head q) < unat (q_capacity q) \<and> unat (q_tail q) < unat (q_capacity q)"

text \<open>One slot always stays free, so that a full buffer differs from an empty one.\<close>

definition q_room :: "'a lfq \<Rightarrow> nat" where
  "q_room q = unat (q_capacity q) - 1"

lemma q_wf_mask:
  assumes "q_wf q"
  shows "unat (w AND (q_capacity q - 1)) = unat w mod unat (q_capacity q)"
  using assms by (auto simp: q_wf_def unat_and_pow2_pred unat_pow2_64)

lemma q_wf_next:
  assumes "q_wf q"
  shows "unat ((w + 1) AND (q_capacity q - 1)) = Suc (unat w) mod unat (q_capacity q)"
  using assms by (auto simp: q_wf_def unat_and_pow2_pred unat_pow2_64 unat_plus_one_mod)

lemma q_size_length:
  assumes "q_wf q"
  shows "unat (q_size q) = length (q_list q)"
  using assms
  by (auto simp: q_wf_def q_size_def q_list_def length_ring unat_and_pow2_pred unat_pow2_64
      unat_minus_mod)

lemma q_length_le:
  assumes "q_wf q"
  shows "length (q_list q) \<le> q_room q"
proof -
  have "0 < unat (q_capacity q)" using assms by (auto simp: q_wf_def)
  then have "(m mod unat (q_capacity q)) \<le> q_room q" for m
    unfolding q_room_def using mod_less_divisor [of "unat (q_capacity q)" m] by linarith
  then show ?thesis by (simp add: q_list_def length_ring)
qed

section \<open>What each operation does\<close>

lemma q_enqueue_room:
  assumes wf: "q_wf q" and room: "length (q_list q) < q_room q"
  shows "\<exists>q'. q_enqueue x q = Inr (True, q') \<and> q_wf q' \<and> q_list q' = q_list q @ [x]
           \<and> q_room q' = q_room q"
proof -
  let ?K = "unat (q_capacity q)" and ?h = "unat (q_head q)" and ?t = "unat (q_tail q)"
  let ?n = "(q_tail q + 1) AND (q_capacity q - 1)"
  have b: "?h < ?K" "?t < ?K" "length (q_buffer q) = ?K" using wf by (auto simp: q_wf_def)
  have n: "unat ?n = Suc ?t mod ?K" using wf by (rule q_wf_next)
  have ne: "Suc ?t mod ?K \<noteq> ?h"
  proof
    assume eq: "Suc ?t mod ?K = ?h"
    have "(?t + ?K - ?h) mod ?K = ?K - 1"
      using b eq ring_dist [of ?h ?K ?t] by (auto simp: mod_Suc split: if_splits)
    with room show False by (simp add: q_list_def length_ring q_room_def)
  qed
  then have "?n \<noteq> q_head q" using n by auto
  moreover have "unat ?n < ?K" using b n by simp
  ultimately show ?thesis
    using wf b ring_enqueue [OF b(1,2,3) ne] n
    by (auto simp: q_enqueue_def Let_def q_wf_def q_list_def q_room_def)
qed

lemma q_enqueue_full:
  assumes wf: "q_wf q" and full: "length (q_list q) = q_room q"
  shows "q_enqueue x q = Inr (False, q)"
proof -
  let ?K = "unat (q_capacity q)" and ?h = "unat (q_head q)" and ?t = "unat (q_tail q)"
  let ?n = "(q_tail q + 1) AND (q_capacity q - 1)"
  have b: "?h < ?K" "?t < ?K" using wf by (auto simp: q_wf_def)
  have "(?t + ?K - ?h) mod ?K = ?K - 1"
    using full by (simp add: q_list_def length_ring q_room_def)
  then have "Suc ?t mod ?K = ?h"
    using b ring_dist [of ?h ?K ?t] by (auto simp: mod_Suc split: if_splits)
  then have "?n = q_head q" using q_wf_next [OF wf, of "q_tail q"] by (simp add: unsigned_word_eqI)
  then show ?thesis by (simp add: q_enqueue_def)
qed

lemma q_dequeue_empty: "q_wf q \<Longrightarrow> q_list q = [] \<Longrightarrow> q_dequeue q = Inr (None, q)"
  by (auto simp: q_dequeue_def Let_def q_wf_def q_list_def ring_empty dest: unsigned_word_eqI)

lemma q_dequeue_nonempty:
  assumes wf: "q_wf q" and ne: "q_list q = x # xs"
  shows "\<exists>q'. q_dequeue q = Inr (Some x, q') \<and> q_wf q' \<and> q_list q' = xs \<and> q_room q' = q_room q"
proof -
  let ?K = "unat (q_capacity q)" and ?h = "unat (q_head q)" and ?t = "unat (q_tail q)"
  have b: "?h < ?K" "?t < ?K" "length (q_buffer q) = ?K" using wf by (auto simp: q_wf_def)
  have "?h \<noteq> ?t" using ne b ring_empty [of ?h ?K ?t "q_buffer q"] by (auto simp: q_list_def)
  moreover have "unat ((q_head q + 1) AND (q_capacity q - 1)) = Suc ?h mod ?K"
    using wf by (rule q_wf_next)
  ultimately show ?thesis
    using wf ne b ring_dequeue [of ?h ?K ?t "q_buffer q"]
    by (auto simp: q_dequeue_def Let_def q_wf_def q_list_def q_room_def)
qed

lemma LockFreeQueue_wf [wf_intros]:
  assumes "LockFreeQueue d cap = Inr q" and "cap \<noteq> 0"
  shows "q_wf q"
proof -
  have z: "cap AND (cap - 1) = 0"
    and q: "q = \<lparr>q_buffer = replicate (unat cap) d, q_capacity = cap, q_head = 0, q_tail = 0\<rparr>"
    using assms(1) by (auto simp: LockFreeQueue_def split: if_splits)
  show ?thesis using word_and_pred_pow2 [OF z assms(2)] assms(2) by (auto simp: q q_wf_def unat_gt_0)
qed

lemma LockFreeQueue_list [abs_simps]:
  assumes "LockFreeQueue d cap = Inr q"
  shows "q_list q = []" and "q_room q = unat cap - 1" and "q_size q = 0"
  using assms
  by (auto simp: LockFreeQueue_def q_list_def q_room_def q_size_def ring_def split: if_splits)

section \<open>The interface of a bounded queue\<close>

datatype 'a queue_op = Enqueue 'a | Dequeue

text \<open>
  A run of operations; the two lists collect the items accepted by \<open>Enqueue\<close> and the items
  handed out by \<open>Dequeue\<close>, in order.
\<close>

fun queue_run ::
  "('a \<Rightarrow> 'q \<Rightarrow> (bool \<times> 'q) outcome) \<Rightarrow> ('q \<Rightarrow> ('a option \<times> 'q) outcome)
     \<Rightarrow> 'a queue_op list \<Rightarrow> 'q \<Rightarrow> (('a list \<times> 'a list) \<times> 'q) outcome" where
  "queue_run enq deq [] q = Inr (([], []), q)"
| "queue_run enq deq (Enqueue x # ops) q =
     (case enq x q of
        Inl e \<Rightarrow> Inl e
      | Inr (ok, q1) \<Rightarrow>
          (case queue_run enq deq ops q1 of
             Inl e \<Rightarrow> Inl e
           | Inr ((ins, outs), q2) \<Rightarrow> Inr ((if ok then x # ins else ins, outs), q2)))"
| "queue_run enq deq (Dequeue # ops) q =
     (case deq q of
        Inl e \<Rightarrow> Inl e
      | Inr (r, q1) \<Rightarrow>
          (case queue_run enq deq ops q1 of
             Inl e \<Rightarrow> Inl e
           | Inr ((ins, outs), q2) \<Rightarrow>
               Inr ((ins, case r of None \<Rightarrow> outs | Some x \<Rightarrow> x # outs), q2)))"

locale bounded_queue =
  fixes enq :: "'a \<Rightarrow> 'q \<Rightarrow> (bool \<times> 'q) outcome"
    and deq :: "'q \<Rightarrow> ('a option \<times> 'q) outcome"
    and items :: "'q \<Rightarrow> 'a list"
    and room :: "'q \<Rightarrow> nat"
    and wf :: "'q \<Rightarrow> bool"
  assumes enq_room: "wf q \<Longrightarrow> length (items q) < room q \<Longrightarrow>
      \<exists>q'. enq x q = Inr (True, q') \<and> wf q' \<and> items q' = items q @ [x] \<and> room q' = room q"
    and enq_full: "wf q \<Longrightarrow> length (items q) = room q \<Longrightarrow> enq x q = Inr (False, q)"
    and deq_empty: "wf q \<Longrightarrow> items q = [] \<Longrightarrow> deq q = Inr (None, q)"
    and deq_nonempty: "wf q \<Longrightarrow> items q = x # xs \<Longrightarrow>
      \<exists>q'. deq q = Inr (Some x, q') \<and> wf q' \<and> items q' = xs \<and> room q' = room q"
    and items_room: "wf q \<Longrightarrow> length (items q) \<le> room q"
begin

lemma enq_cases:
  assumes "wf q"
  obtains q' where "length (items q) < room q" "enq x q = Inr (True, q')" "wf q'"
      "items q' = items q @ [x]" "room q' = room q"
    | "length (items q) = room q" "enq x q = Inr (False, q)"
  using assms enq_room [of q x] enq_full [of q x] items_room [of q] by (metis le_neq_implies_less)

lemma deq_cases:
  assumes "wf q"
  obtains "items q = []" "deq q = Inr (None, q)"
    | x xs q' where "items q = x # xs" "deq q = Inr (Some x, q')" "wf q'" "items q' = xs"
      "room q' = room q"
  using assms deq_empty [of q] deq_nonempty [of q] by (metis list.exhaust)

lemma run_fifo:
  "wf q \<Longrightarrow> \<exists>ins outs q'. queue_run enq deq ops q = Inr ((ins, outs), q') \<and> wf q'
     \<and> items q @ ins = outs @ items q' \<and> room q' = room q"
proof (induction ops arbitrary: q)
  case Nil
  then show ?case by simp
next
  case (Cons op ops)
  show ?case
  proof (cases op)
    case (Enqueue x)
    show ?thesis
    proof (rule enq_cases [OF Cons.prems, of x])
      fix q1 assume q1: "enq x q = Inr (True, q1)" "wf q1" "items q1 = items q @ [x]"
        "room q1 = room q"
      show ?thesis using Cons.IH [OF q1(2)] q1 Enqueue by auto
    next
      assume "enq x q = Inr (False, q)"
      then show ?thesis using Cons.IH [OF Cons.prems] Enqueue by auto
    qed
  next
    case Dequeue
    show ?thesis
    proof (rule deq_cases [OF Cons.prems])
      assume "deq q = Inr (None, q)"
      then show ?thesis using Cons.IH [OF Cons.prems] Dequeue by auto
    next
      fix x xs q1 assume q1: "items q = x # xs" "deq q = Inr (Some x, q1)" "wf q1"
        "items q1 = xs" "room q1 = room q"
      show ?thesis using Cons.IH [OF q1(3)] q1 Dequeue by auto
    qed
  qed
qed

end

interpretation lfq: bounded_queue q_enqueue q_dequeue q_list q_room q_wf
  by unfold_locales
    (fact q_enqueue_room q_enqueue_full q_dequeue_empty q_dequeue_nonempty q_length_le)+

section \<open>Properties of the queue\<close>

lemma queue_capacity_eq:
  "LockFreeQueue d cap =
     (if cap = 0 \<or> (\<exists>k<64. cap = 2 ^ k)
      then Inr \<lparr>q_buffer = replicate (unat cap) d, q_capacity = cap, q_head = 0, q_tail = 0\<rparr>
      else Inl (Invalid_argument ''Capacity must be a power of 2''))"
proof -
  have "cap AND (cap - 1) = 0 \<longleftrightarrow> cap = 0 \<or> (\<exists>k<64. cap = 2 ^ k)"
    using word_and_pred_pow2 [of cap] and_pow2_pred_zero by auto
  then show ?thesis by (simp add: LockFreeQueue_def)
qed

lemma queue_fill_aux:
  assumes "q_wf q"
  shows "\<exists>q'. queue_run q_enqueue q_dequeue (map Enqueue xs) q
      = Inr ((take (q_room q - length (q_list q)) xs, []), q')
    \<and> q_wf q' \<and> q_list q' = q_list q @ take (q_room q - length (q_list q)) xs"
  using assms
proof (induction xs arbitrary: q)
  case (Cons x xs)
  show ?case
  proof (rule lfq.enq_cases [OF Cons.prems, of x])
    fix q1 assume q1: "length (q_list q) < q_room q" "q_enqueue x q = Inr (True, q1)" "q_wf q1"
      "q_list q1 = q_list q @ [x]" "q_room q1 = q_room q"
    then have "q_room q - length (q_list q) = Suc (q_room q1 - length (q_list q1))" by simp
    then show ?thesis using Cons.IH [OF q1(3)] q1 by auto
  next
    assume "length (q_list q) = q_room q" "q_enqueue x q = Inr (False, q)"
    then show ?thesis using Cons.IH [OF Cons.prems] by auto
  qed
qed simp

text \<open>
  C21: In any sequence of \<open>enqueue\<close> and \<open>dequeue\<close> calls of one thread on a well formed queue no
  access leaves the vector, and the items come out in the order in which they were accepted, none
  lost and none twice: what was stored before followed by what was accepted is what was handed out
  followed by what is still stored.
\<close>

theorem queue_fifo:
  assumes "q_wf q"
  shows "\<exists>ins outs q'. queue_run q_enqueue q_dequeue ops q = Inr ((ins, outs), q') \<and> q_wf q'
    \<and> q_list q @ ins = outs @ q_list q'"
  using lfq.run_fifo [OF assms] by blast

definition sample_queue :: "nat lfq" where
  "sample_queue = \<lparr>q_buffer = [7, 8, 9, 6], q_capacity = 4, q_head = 3, q_tail = 1\<rparr>"

lemma sample_queue_wf: "q_wf sample_queue"
  by (simp add: q_wf_def sample_queue_def) (rule exI [of _ 2], simp)

theorem queue_fifo_witness:
  "\<exists>ins outs q'. queue_run q_enqueue q_dequeue [Dequeue, Enqueue 5, Enqueue 3, Dequeue] sample_queue
      = Inr ((ins, outs), q') \<and> q_wf q' \<and> q_list sample_queue @ ins = outs @ q_list q'"
  using queue_fifo [OF sample_queue_wf] .

text \<open>
  A queue of capacity 2^k holds 2^k - 1 items: of any list of items enqueued into a new queue
  exactly the first 2^k - 1 are accepted, and \<open>size\<close> is then the number of items stored.
\<close>

theorem queue_room:
  assumes "LockFreeQueue d (2 ^ k) = Inr q" and "k < 64"
  shows "\<exists>q'. queue_run q_enqueue q_dequeue (map Enqueue xs) q = Inr ((take (2 ^ k - 1) xs, []), q')
    \<and> q_list q' = take (2 ^ k - 1) xs \<and> unat (q_size q') = min (length xs) (2 ^ k - 1)"
proof -
  have u: "unat (2 ^ k :: 64 word) = 2 ^ k" using assms(2) by (rule unat_pow2_64)
  then have nz: "(2 ^ k :: 64 word) \<noteq> 0" by (metis power_not_zero unat_0 zero_neq_numeral)
  have wf: "q_wf q" using LockFreeQueue_wf [OF assms(1) nz] .
  note l = LockFreeQueue_list [OF assms(1)]
  obtain q' where "queue_run q_enqueue q_dequeue (map Enqueue xs) q = Inr ((take (2 ^ k - 1) xs, []), q')"
    "q_wf q'" "q_list q' = take (2 ^ k - 1) xs"
    using queue_fill_aux [OF wf, of xs] by (auto simp: l u)
  then show ?thesis using q_size_length [of q'] by auto
qed

theorem queue_room_witness:
  "\<exists>q q'. LockFreeQueue (0::nat) 4 = Inr q
    \<and> queue_run q_enqueue q_dequeue (map Enqueue [1, 2, 3, 4, 5]) q = Inr (([1, 2, 3], []), q')
    \<and> q_list q' = [1, 2, 3] \<and> unat (q_size q') = 3"
proof -
  let ?q = "\<lparr>q_buffer = [0, 0, 0, 0], q_capacity = 4, q_head = 0, q_tail = 0\<rparr> :: nat lfq"
  have "replicate 4 (0::nat) = [0, 0, 0, 0]" by (simp add: numeral_eq_Suc)
  then have "LockFreeQueue (0::nat) (2 ^ 2) = Inr ?q" by (simp add: LockFreeQueue_def)
  from queue_room [OF this, of "[1, 2, 3, 4, 5]"] this show ?thesis by auto
qed

text \<open>
  A queue constructed with capacity zero is broken: it looks empty, has room for no item, and
  \<open>enqueue\<close> does not report it full but writes behind the empty vector.
\<close>

theorem queue_capacity_zero:
  assumes "LockFreeQueue d 0 = Inr q"
  shows "q_enqueue x q = Inl (Undefined_behaviour ''vector index out of range'')
    \<and> q_dequeue q = Inr (None, q) \<and> q_size q = 0"
  using assms by (auto simp: LockFreeQueue_def q_enqueue_def q_dequeue_def q_size_def)

theorem queue_capacity_zero_witness:
  "\<exists>q. LockFreeQueue (1::nat) 0 = Inr q
    \<and> q_enqueue 5 q = Inl (Undefined_behaviour ''vector index out of range'')"
proof -
  have "LockFreeQueue (1::nat) 0 = Inr \<lparr>q_buffer = [], q_capacity = 0, q_head = 0, q_tail = 0\<rparr>"
    by (simp add: LockFreeQueue_def)
  with queue_capacity_zero [OF this, of 5] show ?thesis by blast
qed

end
