(* ===== verification/Message_Cache.thy ===== *)
theory Message_Cache
  imports Message Lock_Free_Queue
begin

text \<open>
  The cache between the connections and the consumer (\<^verbatim>\<open>include/cache.h\<close>, \<^verbatim>\<open>src/cache.cpp\<close>):
  a ring buffer of messages and the last update id \<^verbatim>\<open>U_\<close> seen on a web socket. The constructor
  does not initialise \<^verbatim>\<open>U_\<close>; its value there is the argument \<open>u0\<close> of the model. The interface
  \<open>message_cache\<close> states what the connections and the consumer rely on.
\<close>

section \<open>The class Cache\<close>

record cache =
  c_U :: uint64_t
  c_queue :: "msg lfq"

definition Cache :: "uint64_t \<Rightarrow> int \<Rightarrow> cache outcome" where
  "Cache u0 capacity =
     (case LockFreeQueue default_msg (of_int capacity) of
        Inl e \<Rightarrow> Inl e
      | Inr q \<Rightarrow> Inr \<lparr>c_U = u0, c_queue = q\<rparr>)"

definition cache_size :: "cache \<Rightarrow> size_t" where
  "cache_size c = q_size (c_queue c)"

definition cache_enqueue :: "msg \<Rightarrow> cache \<Rightarrow> (bool \<times> cache) outcome" where
  "cache_enqueue m c =
     (case q_enqueue m (c_queue c) of
        Inl e \<Rightarrow> Inl e
      | Inr (ok, q) \<Rightarrow> Inr (ok, c\<lparr>c_queue := q\<rparr>))"

definition encache :: "msg \<Rightarrow> cache \<Rightarrow> (bool \<times> cache) outcome" where
  "encache m c =
     (case msg_data m of
        None \<Rightarrow> Inl (Undefined_behaviour ''null pointer dereference'')
      | Some ob \<Rightarrow>
          if msg_source m = MS_WebSocket
          then (case fst (json_uint64_at ''U'' (ob_data ob)) of
                  Inl e \<Rightarrow> Inl e
                | Inr U \<Rightarrow>
                    if U \<le> c_U c then Inr (False, c)
                    else cache_enqueue m (c\<lparr>c_U := U\<rparr>))
          else cache_enqueue m c)"

definition decache :: "cache \<Rightarrow> (msg option \<times> cache) outcome" where
  "decache c =
     (case q_dequeue (c_queue c) of
        Inl e \<Rightarrow> Inl e
      | Inr (r, q) \<Rightarrow> Inr (r, c\<lparr>c_queue := q\<rparr>))"

section \<open>Abstract value\<close>

definition c_wf :: "cache \<Rightarrow> bool" where
  "c_wf c \<longleftrightarrow> q_wf (c_queue c)"

definition c_items :: "cache \<Rightarrow> msg list" where
  "c_items c = q_list (c_queue c)"

definition c_room :: "cache \<Rightarrow> nat" where
  "c_room c = q_room (c_queue c)"

text \<open>The update id by which \<open>encache\<close> filters a message: none for a REST message.\<close>

definition update_id :: "msg \<Rightarrow> uint64_t option outcome" where
  "update_id m =
     (case msg_data m of
        None \<Rightarrow> Inl (Undefined_behaviour ''null pointer dereference'')
      | Some ob \<Rightarrow>
          if msg_source m = MS_WebSocket
          then (case fst (json_uint64_at ''U'' (ob_data ob)) of Inl e \<Rightarrow> Inl e | Inr U \<Rightarrow> Inr (Some U))
          else Inr None)"

text \<open>
  The specification: a bounded list of messages and the last id; a message whose id is not above
  the last one is refused, an accepted id becomes the last one even when the list is full.
\<close>

record spec_cache =
  sp_U :: uint64_t
  sp_items :: "msg list"
  sp_room :: nat

definition sp_push :: "msg \<Rightarrow> spec_cache \<Rightarrow> bool \<times> spec_cache" where
  "sp_push m s =
     (if length (sp_items s) < sp_room s then (True, s\<lparr>sp_items := sp_items s @ [m]\<rparr>) else (False, s))"

definition sp_encache :: "msg \<Rightarrow> spec_cache \<Rightarrow> (bool \<times> spec_cache) outcome" where
  "sp_encache m s =
     (case update_id m of
        Inl e \<Rightarrow> Inl e
      | Inr None \<Rightarrow> Inr (sp_push m s)
      | Inr (Some U) \<Rightarrow> if U \<le> sp_U s then Inr (False, s) else Inr (sp_push m (s\<lparr>sp_U := U\<rparr>)))"

definition sp_decache :: "spec_cache \<Rightarrow> (msg option \<times> spec_cache) outcome" where
  "sp_decache s =
     (case sp_items s of
        [] \<Rightarrow> Inr (None, s)
      | m # ms \<Rightarrow> Inr (Some m, s\<lparr>sp_items := ms\<rparr>))"

definition c_abs :: "cache \<Rightarrow> spec_cache" where
  "c_abs c = \<lparr>sp_U = c_U c, sp_items = c_items c, sp_room = c_room c\<rparr>"

lemmas cache_abs_defs = c_wf_def c_items_def c_room_def c_abs_def

text \<open>One operation of the implementation against one of the specification.\<close>

definition refines ::
  "('r \<times> cache) outcome \<Rightarrow> ('r \<times> spec_cache) outcome \<Rightarrow> bool" where
  "refines r s \<longleftrightarrow>
     (case r of
        Inl e \<Rightarrow> s = Inl e
      | Inr (x, c) \<Rightarrow> c_wf c \<and> s = Inr (x, c_abs c))"

lemma cache_enqueue_refines:
  assumes "c_wf c"
  shows "refines (cache_enqueue m c) (Inr (sp_push m (c_abs c)))"
proof -
  have wf: "q_wf (c_queue c)" using assms by (simp add: c_wf_def)
  show ?thesis
    by (rule lfq.enq_cases [OF wf, of m])
      (auto simp: refines_def cache_enqueue_def sp_push_def cache_abs_defs wf)
qed

lemma encache_refines_aux:
  assumes "c_wf c"
  shows "refines (encache m c) (sp_encache m (c_abs c))"
proof -
  have a: "refines (cache_enqueue m (c\<lparr>c_U := U\<rparr>)) (Inr (sp_push m (c_abs c\<lparr>sp_U := U\<rparr>)))" for U
    using cache_enqueue_refines [of "c\<lparr>c_U := U\<rparr>" m] assms by (simp add: cache_abs_defs)
  show ?thesis
    using a cache_enqueue_refines [OF assms, of m] assms
    by (simp add: encache_def sp_encache_def update_id_def split: option.split sum.split)
      (simp add: refines_def c_abs_def)
qed

lemma decache_refines_aux:
  assumes "c_wf c"
  shows "refines (decache c) (sp_decache (c_abs c))"
proof -
  have wf: "q_wf (c_queue c)" using assms by (simp add: c_wf_def)
  show ?thesis
    by (rule lfq.deq_cases [OF wf])
      (auto simp: refines_def decache_def sp_decache_def cache_abs_defs wf)
qed

section \<open>The interface of the cache\<close>

datatype cache_op = Encache msg | Decache

text \<open>A run of operations, collecting the accepted and the delivered messages in order.\<close>

fun cache_run ::
  "(msg \<Rightarrow> 'c \<Rightarrow> (bool \<times> 'c) outcome) \<Rightarrow> ('c \<Rightarrow> (msg option \<times> 'c) outcome)
     \<Rightarrow> cache_op list \<Rightarrow> 'c \<Rightarrow> ((msg list \<times> msg list) \<times> 'c) outcome" where
  "cache_run enc dec [] c = Inr (([], []), c)"
| "cache_run enc dec (Encache m # ops) c =
     (case enc m c of
        Inl e \<Rightarrow> Inl e
      | Inr (ok, c1) \<Rightarrow>
          (case cache_run enc dec ops c1 of
             Inl e \<Rightarrow> Inl e
           | Inr ((ins, outs), c2) \<Rightarrow> Inr ((if ok then m # ins else ins, outs), c2)))"
| "cache_run enc dec (Decache # ops) c =
     (case dec c of
        Inl e \<Rightarrow> Inl e
      | Inr (r, c1) \<Rightarrow>
          (case cache_run enc dec ops c1 of
             Inl e \<Rightarrow> Inl e
           | Inr ((ins, outs), c2) \<Rightarrow>
               Inr ((ins, case r of None \<Rightarrow> outs | Some m \<Rightarrow> m # outs), c2)))"

text \<open>The update ids of the web socket messages in a list.\<close>

definition ws_id :: "msg \<Rightarrow> uint64_t option" where
  "ws_id m = (case update_id m of Inr (Some u) \<Rightarrow> Some u | _ \<Rightarrow> None)"

definition ws_ids :: "msg list \<Rightarrow> uint64_t list" where
  "ws_ids ms = List.map_filter ws_id ms"

definition readable :: "msg \<Rightarrow> bool" where
  "readable m = (case update_id m of Inl e \<Rightarrow> False | Inr u \<Rightarrow> True)"

fun op_readable :: "cache_op \<Rightarrow> bool" where
  "op_readable (Encache m) \<longleftrightarrow> readable m"
| "op_readable Decache \<longleftrightarrow> True"

lemma ws_ids_simps [simp]:
  "ws_ids [] = []"
  "ws_ids (m # ms) = (case ws_id m of None \<Rightarrow> ws_ids ms | Some u \<Rightarrow> u # ws_ids ms)"
  by (simp_all add: ws_ids_def map_filter_simps split: option.split)

locale message_cache =
  fixes enc :: "msg \<Rightarrow> 'c \<Rightarrow> (bool \<times> 'c) outcome"
    and dec :: "'c \<Rightarrow> (msg option \<times> 'c) outcome"
    and wf :: "'c \<Rightarrow> bool"
    and items :: "'c \<Rightarrow> msg list"
    and last_id :: "'c \<Rightarrow> uint64_t"
    and room :: "'c \<Rightarrow> nat"
  assumes enc_unreadable: "wf c \<Longrightarrow> update_id m = Inl e \<Longrightarrow> enc m c = Inl e"
    and enc_readable: "wf c \<Longrightarrow> update_id m = Inr u \<Longrightarrow>
      \<exists>ok c'. enc m c = Inr (ok, c') \<and> wf c' \<and> room c' = room c
        \<and> items c' = (if ok then items c @ [m] else items c)
        \<and> (ok \<longleftrightarrow> length (items c) < room c \<and> (\<forall>x. u = Some x \<longrightarrow> last_id c < x))
        \<and> last_id c' = (case u of None \<Rightarrow> last_id c | Some x \<Rightarrow> max (last_id c) x)"
    and dec_empty: "wf c \<Longrightarrow> items c = [] \<Longrightarrow> dec c = Inr (None, c)"
    and dec_nonempty: "wf c \<Longrightarrow> items c = m # ms \<Longrightarrow>
      \<exists>c'. dec c = Inr (Some m, c') \<and> wf c' \<and> items c' = ms \<and> last_id c' = last_id c
        \<and> room c' = room c"
begin

lemma enc_cases:
  assumes "wf c"
  obtains e where "update_id m = Inl e" "enc m c = Inl e"
    | c' where "readable m" "enc m c = Inr (True, c')" "wf c'" "room c' = room c"
      "items c' = items c @ [m]" "length (items c) < room c"
      "last_id c' = (case ws_id m of None \<Rightarrow> last_id c | Some x \<Rightarrow> x)"
      "\<forall>x. ws_id m = Some x \<longrightarrow> last_id c < x"
    | c' where "readable m" "enc m c = Inr (False, c')" "wf c'" "room c' = room c"
      "items c' = items c" "last_id c \<le> last_id c'"
      "length (items c) < room c \<longrightarrow> (\<exists>x. ws_id m = Some x \<and> x \<le> last_id c)"
proof (cases "update_id m")
  case (Inl e)
  then show ?thesis using that(1) enc_unreadable [OF assms Inl] by blast
next
  case (Inr u)
  then have u: "ws_id m = u" "readable m" by (auto simp: ws_id_def readable_def split: option.split)
  obtain ok c' where r: "enc m c = Inr (ok, c')" "wf c'" "room c' = room c"
    "items c' = (if ok then items c @ [m] else items c)"
    "ok \<longleftrightarrow> length (items c) < room c \<and> (\<forall>x. u = Some x \<longrightarrow> last_id c < x)"
    "last_id c' = (case u of None \<Rightarrow> last_id c | Some x \<Rightarrow> max (last_id c) x)"
    using enc_readable [OF assms Inr] by blast
  show ?thesis
  proof (cases ok)
    case True
    then show ?thesis using that(2) [of c'] r u by (auto simp: max.absorb2 less_imp_le split: option.splits)
  next
    case False
    then have "enc m c = Inr (False, c')" "items c' = items c" using r by simp_all
    moreover have "last_id c \<le> last_id c'" using r(6) by (simp split: option.split)
    moreover have "length (items c) < room c \<longrightarrow> (\<exists>x. ws_id m = Some x \<and> x \<le> last_id c)"
      using r(5) False u(1) by (auto simp: not_less)
    ultimately show ?thesis using that(3) [of c'] r(2,3) u(2) by blast
  qed
qed

lemma dec_cases:
  assumes "wf c"
  obtains "items c = []" "dec c = Inr (None, c)"
    | m ms c' where "items c = m # ms" "dec c = Inr (Some m, c')" "wf c'" "items c' = ms"
      "last_id c' = last_id c" "room c' = room c"
  using assms dec_empty [of c] dec_nonempty [of c] by (metis list.exhaust)

lemma run_ok:
  "wf c \<Longrightarrow> list_all op_readable ops \<Longrightarrow>
     \<exists>ins outs c'. cache_run enc dec ops c = Inr ((ins, outs), c') \<and> wf c' \<and> room c' = room c
       \<and> items c @ ins = outs @ items c' \<and> sorted_wrt (<) (last_id c # ws_ids ins)
       \<and> last_id c \<le> last_id c' \<and> (\<forall>u \<in> set (ws_ids ins). u \<le> last_id c')"
proof (induction ops arbitrary: c)
  case Nil
  then show ?case by simp
next
  case (Cons op ops)
  show ?case
  proof (cases op)
    case (Encache m)
    show ?thesis
    proof (rule enc_cases [OF Cons.prems(1), of m])
      fix e assume "update_id m = Inl e"
      then show ?thesis using Cons.prems(2) Encache by (simp add: readable_def)
    next
      fix c1 assume c1: "enc m c = Inr (True, c1)" "wf c1" "room c1 = room c"
        "items c1 = items c @ [m]" "last_id c1 = (case ws_id m of None \<Rightarrow> last_id c | Some x \<Rightarrow> x)"
        "\<forall>x. ws_id m = Some x \<longrightarrow> last_id c < x"
      obtain ins outs c2 where r: "cache_run enc dec ops c1 = Inr ((ins, outs), c2)" "wf c2"
        "room c2 = room c1" "items c1 @ ins = outs @ items c2"
        "sorted_wrt (<) (last_id c1 # ws_ids ins)" "last_id c1 \<le> last_id c2"
        "\<forall>u \<in> set (ws_ids ins). u \<le> last_id c2"
        using Cons.IH [OF c1(2)] Cons.prems(2) by auto
      then show ?thesis
        using c1 Encache by (auto split: option.splits intro: less_trans less_imp_le)
    next
      fix c1 assume c1: "enc m c = Inr (False, c1)" "wf c1" "room c1 = room c"
        "items c1 = items c" "last_id c \<le> last_id c1"
      obtain ins outs c2 where r: "cache_run enc dec ops c1 = Inr ((ins, outs), c2)" "wf c2"
        "room c2 = room c1" "items c1 @ ins = outs @ items c2"
        "sorted_wrt (<) (last_id c1 # ws_ids ins)" "last_id c1 \<le> last_id c2"
        "\<forall>u \<in> set (ws_ids ins). u \<le> last_id c2"
        using Cons.IH [OF c1(2)] Cons.prems(2) by auto
      then show ?thesis using c1 Encache by (auto intro: le_less_trans)
    qed
  next
    case Decache
    show ?thesis
    proof (rule dec_cases [OF Cons.prems(1)])
      assume "dec c = Inr (None, c)"
      then show ?thesis using Cons.IH [OF Cons.prems(1)] Cons.prems(2) Decache by auto
    next
      fix m ms c1 assume c1: "items c = m # ms" "dec c = Inr (Some m, c1)" "wf c1"
        "items c1 = ms" "last_id c1 = last_id c" "room c1 = room c"
      show ?thesis using Cons.IH [OF c1(3)] Cons.prems(2) c1 Decache by auto
    qed
  qed
qed

text \<open>An id at or below one that was already offered is never accepted again.\<close>

lemma stale_rejected:
  assumes "wf c" and "ws_id m = Some u" and "u \<le> last_id c"
  shows "\<exists>c'. enc m c = Inr (False, c') \<and> items c' = items c \<and> last_id c' = last_id c \<and> wf c'"
proof -
  have "update_id m = Inr (Some u)" using assms(2) by (auto simp: ws_id_def split: sum.splits option.splits)
  then show ?thesis using enc_readable [OF assms(1)] assms(3) by (fastforce simp: max_def)
qed

end

interpretation mc: message_cache encache decache c_wf c_items c_U c_room
proof unfold_locales
  fix c :: cache and m e
  assume wf: "c_wf c"
  have r: "refines (encache m c) (sp_encache m (c_abs c))" using wf by (rule encache_refines_aux)
  show "encache m c = Inl e" if "update_id m = Inl e"
    using r that by (auto simp: refines_def sp_encache_def split: sum.splits)
  fix u
  show "\<exists>ok c'. encache m c = Inr (ok, c') \<and> c_wf c' \<and> c_room c' = c_room c
        \<and> c_items c' = (if ok then c_items c @ [m] else c_items c)
        \<and> (ok \<longleftrightarrow> length (c_items c) < c_room c \<and> (\<forall>x. u = Some x \<longrightarrow> c_U c < x))
        \<and> c_U c' = (case u of None \<Rightarrow> c_U c | Some x \<Rightarrow> max (c_U c) x)"
    if "update_id m = Inr u"
    using r that
    by (auto simp: refines_def sp_encache_def sp_push_def c_abs_def max_def
        split: sum.splits option.splits if_splits prod.splits)
next
  fix c :: cache
  assume wf: "c_wf c"
  have r: "refines (decache c) (sp_decache (c_abs c))" using wf by (rule decache_refines_aux)
  show "decache c = Inr (None, c)" if "c_items c = []"
    using wf that lfq.deq_empty [of "c_queue c"] by (simp add: decache_def cache_abs_defs)
  show "\<exists>c'. decache c = Inr (Some m, c') \<and> c_wf c' \<and> c_items c' = ms \<and> c_U c' = c_U c
      \<and> c_room c' = c_room c" if "c_items c = m # ms" for m ms
    using r that
    by (auto simp: refines_def sp_decache_def c_abs_def split: sum.splits prod.splits)
qed

lemma Cache_wf [wf_intros]:
  assumes "Cache u0 n = Inr c" and "n \<noteq> 0" "int_min \<le> n" "n \<le> int_max"
  shows "c_wf c"
proof -
  have "(of_int n :: 64 word) \<noteq> 0"
  proof
    assume "(of_int n :: 64 word) = 0"
    then have "(2::int) ^ 64 dvd n" by (simp add: word_of_int_eq_0_iff)
    then show False using assms(2-4) zdvd_imp_le [of "2 ^ 64" "\<bar>n\<bar>"]
      by (auto simp: int_min_def int_max_def)
  qed
  then show ?thesis
    using assms(1) LockFreeQueue_wf by (auto simp: Cache_def c_wf_def split: sum.splits)
qed

lemma Cache_empty [abs_simps]:
  assumes "Cache u0 n = Inr c"
  shows "c_items c = []" and "c_U c = u0" and "c_room c = unat (of_int n :: 64 word) - 1"
  using assms LockFreeQueue_list by (auto simp: Cache_def c_items_def c_room_def split: sum.splits)

section \<open>Properties of the cache\<close>

text \<open>A message of a web socket with an update id, and a cache of three places.\<close>

definition update_msg :: "string \<Rightarrow> uint64_t \<Rightarrow> msg" where
  "update_msg symb u =
     \<lparr>msg_type = MT_OrderBook, msg_source = MS_WebSocket,
      msg_data = Some \<lparr>ob_symbol = symb, ob_data = JObject [(''U'', JUnsigned u)]\<rparr>\<rparr>"

definition small_cache :: "msg list \<Rightarrow> uint64_t \<Rightarrow> cache" where
  "small_cache ms u =
     \<lparr>c_U = u, c_queue = \<lparr>q_buffer = ms @ replicate (4 - length ms) default_msg, q_capacity = 4,
                         q_head = 0, q_tail = of_nat (length ms)\<rparr>\<rparr>"

lemma update_msg_id: "update_id (update_msg symb u) = Inr (Some u)"
  by (simp add: update_id_def update_msg_def json_uint64_at_def json_index_mut_def Let_def
      json_to_uint64_def)

lemma update_msg_facts [simp]:
  "ws_id (update_msg symb u) = Some u" "readable (update_msg symb u)"
  by (simp_all add: update_msg_id ws_id_def readable_def)

lemma small_cache_wf:
  assumes "length ms < 4"
  shows "c_wf (small_cache ms u)"
proof -
  have "unat (of_nat (length ms) :: 64 word) = length ms"
    using assms by (simp add: unat_of_nat)
  then show ?thesis
    using assms by (simp add: c_wf_def q_wf_def small_cache_def) (rule exI [of _ 2], simp)
qed

lemma small_cache_room: "c_room (small_cache ms u) = 3" "c_U (small_cache ms u) = u"
  by (simp_all add: c_room_def q_room_def small_cache_def)

lemma small_cache_items:
  "c_items (small_cache [] u) = []"
  "c_items (small_cache [a, b, d] u) = [a, b, d]"
  by (simp_all add: c_items_def q_list_def ring_def small_cache_def upt_rec)

lemma run_last_id:
  assumes "c_wf c" and "list_all op_readable ops" and "cache_run encache decache ops c = Inr (x, c')"
  shows "c_wf c' \<and> c_U c \<le> c_U c'"
  using mc.run_ok [OF assms(1,2)] assms(3) by auto

lemma encache_fails:
  assumes "c_wf c" and "encache m c = Inl e"
  shows "update_id m = Inl e"
  by (rule mc.enc_cases [OF assms(1), of m]) (use assms(2) in simp_all)

lemma encache_last_id:
  assumes "c_wf c" and "ws_id m = Some u"
  shows "\<exists>ok c'. encache m c = Inr (ok, c') \<and> c_wf c' \<and> u \<le> c_U c'"
proof -
  have "update_id m = Inr (Some u)" using assms(2) by (auto simp: ws_id_def split: sum.splits option.splits)
  then show ?thesis using mc.enc_readable [OF assms(1)] by fastforce
qed

text \<open>
  C6: The cache implements its specification, a bounded list of messages with the last update id:
  on a well formed cache \<open>encache\<close> and \<open>decache\<close> return what the specification returns, exceptions
  included, and lead to a well formed cache with the specified value.
\<close>

theorem cache_refines:
  assumes "c_wf c"
  shows "refines (encache m c) (sp_encache m (c_abs c)) \<and> refines (decache c) (sp_decache (c_abs c))"
  using encache_refines_aux [OF assms] decache_refines_aux [OF assms] by simp

theorem cache_refines_witness:
  "refines (encache (update_msg ''btcusdt'' 5) (small_cache [] 3))
     (sp_encache (update_msg ''btcusdt'' 5) (c_abs (small_cache [] 3)))
   \<and> refines (decache (small_cache [] 3)) (sp_decache (c_abs (small_cache [] 3)))"
  by (rule cache_refines, rule small_cache_wf) simp

text \<open>
  C22: In any sequence of \<open>encache\<close> and \<open>decache\<close> calls whose messages have a readable update id
  nothing fails, the messages are handed out in the order in which they were accepted, and the
  update ids of the accepted web socket messages strictly increase, starting above the last id.
\<close>

theorem cache_ordered:
  assumes "c_wf c" and "list_all op_readable ops"
  shows "\<exists>ins outs c'. cache_run encache decache ops c = Inr ((ins, outs), c') \<and> c_wf c'
    \<and> c_items c @ ins = outs @ c_items c' \<and> sorted_wrt (<) (c_U c # ws_ids ins)"
  using mc.run_ok [OF assms] by blast

theorem cache_ordered_witness:
  "\<exists>ins outs c'. cache_run encache decache
      [Encache (update_msg ''btcusdt'' 5), Encache (update_msg ''ethusdt'' 4), Decache] (small_cache [] 3)
        = Inr ((ins, outs), c') \<and> c_wf c'
    \<and> c_items (small_cache [] 3) @ ins = outs @ c_items c'
    \<and> sorted_wrt (<) (c_U (small_cache [] 3) # ws_ids ins)"
  by (rule cache_ordered, rule small_cache_wf) simp_all

text \<open>
  All instruments share the last update id: once a web socket message with id u1 was offered
  (accepted or not), a message with an id at or below u1, of whatever instrument, is refused at
  every later time.
\<close>

theorem shared_update_id:
  assumes "c_wf c" and "ws_id m1 = Some u1" and "encache m1 c = Inr (ok, c1)"
    and "list_all op_readable ops" and "cache_run encache decache ops c1 = Inr (x, c2)"
    and "ws_id m2 = Some u2" and "u2 \<le> u1"
  shows "\<exists>c3. encache m2 c2 = Inr (False, c3) \<and> c_items c3 = c_items c2"
proof -
  have "c_wf c1" "u1 \<le> c_U c1" using encache_last_id [OF assms(1,2)] assms(3) by auto
  moreover from run_last_id [OF this(1) assms(4,5)] have "c_wf c2" "c_U c1 \<le> c_U c2" by auto
  ultimately show ?thesis using mc.stale_rejected [OF _ assms(6)] assms(7) by fastforce
qed

theorem shared_update_id_witness:
  "\<exists>c1 c3. encache (update_msg ''btcusdt'' 900) (small_cache [] 3) = Inr (True, c1)
    \<and> encache (update_msg ''ethusdt'' 7) c1 = Inr (False, c3) \<and> c_items c3 = c_items c1"
proof -
  have wf: "c_wf (small_cache [] 3)" by (rule small_cache_wf) simp
  obtain c1 where c1: "encache (update_msg ''btcusdt'' 900) (small_cache [] 3) = Inr (True, c1)"
    by (rule mc.enc_cases [OF wf, of "update_msg ''btcusdt'' 900"])
      (auto simp: update_msg_id small_cache_room small_cache_items)
  show ?thesis
    using shared_update_id [OF wf _ c1, of 900 "[]" "([], [])" c1 "update_msg ''ethusdt'' 7" 7] c1 by simp
qed

text \<open>
  C33: An update that arrives while the cache is full is lost for good: \<open>encache\<close> returns false but
  has already advanced the last id, so that the same message is refused again at every later time,
  also after \<open>decache\<close> has made room.
\<close>

theorem full_cache_loses:
  assumes "c_wf c" and "length (c_items c) = c_room c" and "ws_id m = Some u" and "c_U c < u"
  shows "\<exists>c1. encache m c = Inr (False, c1) \<and> c_items c1 = c_items c \<and> c_U c1 = u \<and>
    (\<forall>ops x c2. list_all op_readable ops \<and> cache_run encache decache ops c1 = Inr (x, c2) \<longrightarrow>
       (\<exists>c3. encache m c2 = Inr (False, c3) \<and> c_items c3 = c_items c2))"
proof -
  have "update_id m = Inr (Some u)" using assms(3) by (auto simp: ws_id_def split: sum.splits option.splits)
  then obtain ok c1 where r: "encache m c = Inr (ok, c1)" "c_wf c1"
    "c_items c1 = (if ok then c_items c @ [m] else c_items c)" "c_U c1 = max (c_U c) u"
    "ok \<longrightarrow> length (c_items c) < c_room c"
    using mc.enc_readable [OF assms(1), of m "Some u"] by auto
  have "\<not> ok" using r(5) assms(2) by simp
  moreover have "max (c_U c) u = u" using assms(4) by (simp add: max.absorb2 less_imp_le)
  ultimately have c1: "encache m c = Inr (False, c1)" "c_items c1 = c_items c" "c_U c1 = u"
    using r by simp_all
  have "\<exists>c3. encache m c2 = Inr (False, c3) \<and> c_items c3 = c_items c2"
    if "list_all op_readable ops" "cache_run encache decache ops c1 = Inr (x, c2)" for ops x c2
  proof -
    have "c_wf c2" "u \<le> c_U c2" using run_last_id [OF r(2) that] c1(3) by simp_all
    then show ?thesis using mc.stale_rejected [OF _ assms(3)] by blast
  qed
  then show ?thesis using c1 by blast
qed

theorem full_cache_loses_witness:
  "\<exists>c1. encache (update_msg ''btcusdt'' 9)
      (small_cache [update_msg ''btcusdt'' 1, update_msg ''btcusdt'' 2, update_msg ''btcusdt'' 3] 3)
      = Inr (False, c1) \<and> c_U c1 = 9"
  using full_cache_loses [of "small_cache [update_msg ''btcusdt'' 1, update_msg ''btcusdt'' 2,
      update_msg ''btcusdt'' 3] 3" "update_msg ''btcusdt'' 9" 9]
  by (simp add: small_cache_wf small_cache_room small_cache_items) blast

lemma of_int_64_eq_iff:
  assumes "int_min \<le> n" "n \<le> int_max" and "k < 64"
  shows "(of_int n :: 64 word) = 2 ^ k \<longleftrightarrow> n = 2 ^ k"
proof
  assume a: "(of_int n :: 64 word) = 2 ^ k"
  have "uint (of_int n :: 64 word) = n mod 2 ^ 64" by (simp add: uint_word_of_int)
  moreover have "uint (2 ^ k :: 64 word) = int (unat (2 ^ k :: 64 word))" by (rule uint_nat)
  moreover have "unat (2 ^ k :: 64 word) = 2 ^ k" using assms(3) by (rule unat_pow2_64)
  ultimately have eq: "n mod 2 ^ 64 = 2 ^ k" unfolding a by simp
  show "n = 2 ^ k"
  proof (cases "0 \<le> n")
    case True
    then have "n mod 2 ^ 64 = n" using assms(2) by (intro mod_pos_pos_trivial) (auto simp: int_max_def)
    then show ?thesis using eq by simp
  next
    case False
    then have "n mod 2 ^ 64 = (n + 2 ^ 64) mod 2 ^ 64" by simp
    also have "\<dots> = n + 2 ^ 64" using False assms by (intro mod_pos_pos_trivial) (auto simp: int_min_def)
    finally have "n + 2 ^ 64 = (2::int) ^ k" using eq by simp
    moreover have "(2::int) ^ k \<le> 2 ^ 63" using assms(3) by (intro power_increasing) auto
    ultimately show ?thesis using assms(1) by (simp add: int_min_def)
  qed
qed simp

text \<open>
  Of the 32-bit capacities the constructor of \<open>Cache\<close> accepts exactly zero and the powers of two;
  any other one, every negative one among them, throws. With a power of two the cache is well
  formed and empty and has room for one message less than the capacity; its last update id is
  whatever the memory held.
\<close>

theorem cache_capacity:
  assumes "int_min \<le> n" "n \<le> int_max"
  shows "case Cache u0 n of
      Inl e \<Rightarrow> n \<noteq> 0 \<and> (\<forall>k. n \<noteq> 2 ^ k) \<and> e = Invalid_argument ''Capacity must be a power of 2''
    | Inr c \<Rightarrow> c_U c = u0 \<and> c_items c = [] \<and> (n = 0 \<or> c_wf c \<and> c_room c = nat n - 1 \<and> (\<exists>k<31. n = 2 ^ k))"
proof -
  have small: "k < 31" if "n = 2 ^ k" for k
    using assms(2) that power_increasing [of 31 k "2::int"] by (fastforce simp: int_max_def not_less)
  have zero: "(of_int n :: 64 word) = 0 \<longleftrightarrow> n = 0"
    using assms zdvd_imp_le [of "2 ^ 64" "\<bar>n\<bar>"]
    by (auto simp: int_min_def int_max_def word_of_int_eq_0_iff)
  have pow: "(\<exists>k<64. (of_int n :: 64 word) = 2 ^ k) \<longleftrightarrow> (\<exists>k. n = 2 ^ k)"
  proof -
    have "(\<exists>k<64. (of_int n :: 64 word) = 2 ^ k) \<longleftrightarrow> (\<exists>k<64. n = 2 ^ k)"
      using of_int_64_eq_iff [OF assms] by blast
    also have "\<dots> \<longleftrightarrow> (\<exists>k. n = 2 ^ k)" using small by fastforce
    finally show ?thesis .
  qed
  note eq = queue_capacity_eq [of default_msg "of_int n", unfolded zero pow]
  show ?thesis
  proof (cases "n = 0 \<or> (\<exists>k. n = 2 ^ k)")
    case False
    then have "Cache u0 n = Inl (Invalid_argument ''Capacity must be a power of 2'')"
      unfolding Cache_def eq by simp
    then show ?thesis using False by simp
  next
    case True
    then obtain c where c: "Cache u0 n = Inr c" unfolding Cache_def eq by simp
    have "c_wf c \<and> c_room c = nat n - 1 \<and> (\<exists>k<31. n = 2 ^ k)" if nz: "n \<noteq> 0"
    proof -
      obtain k where k: "n = 2 ^ k" using True nz by blast
      then have "nat n = unat (of_int n :: 64 word)"
        using unat_pow2_64 [of k] small [OF k] by (simp add: nat_power_eq)
      then show ?thesis using Cache_wf [OF c nz assms] Cache_empty(3) [OF c] small [OF k] k by auto
    qed
    then show ?thesis using c Cache_empty(1,2) [OF c] by auto
  qed
qed

theorem cache_capacity_witness:
  "(case Cache 0 (- 8) of Inl e \<Rightarrow> e = Invalid_argument ''Capacity must be a power of 2'' | Inr c \<Rightarrow> False)
   \<and> (case Cache 17 1024 of Inl e \<Rightarrow> False | Inr c \<Rightarrow> c_U c = 17 \<and> c_items c = [] \<and> c_room c = 1023)"
proof -
  have p: "(2::int) ^ k \<noteq> - 8" for k by (metis neg_numeral_le_zero not_le zero_less_numeral zero_less_power)
  have "(1024::int) = 2 ^ 10" by simp
  then have q: "\<exists>k. (1024::int) = 2 ^ k" by blast
  show ?thesis
    using cache_capacity [of "- 8" 0] cache_capacity [of 1024 17] p q
    by (auto simp: int_min_def int_max_def split: sum.splits)
qed

end
