(* ===== verification/Connection_Handler.thy ===== *)
theory Connection_Handler
  imports Message_Cache
begin

text \<open>
  The abstract class \<^verbatim>\<open>ConnectionHandler\<close> of \<^verbatim>\<open>include/connection.h\<close>: what the REST and the web
  socket handler share, and how a received text reaches the cache. The pure virtual \<^verbatim>\<open>parse\<close> is
  the argument \<open>parse\<close> of \<open>on_data\<close>; the locale \<open>message_parser\<close> says what both overriders
  promise. The error codes that asynchronous operations of the network library complete with are
  the datatype \<open>error_code\<close>, with the values the handlers tell apart.
\<close>

section \<open>Error codes\<close>

datatype error_code = EC_success | EC_closed | EC_eof | EC_aborted | EC_other nat

section \<open>State shared by the handlers\<close>

record handler =
  h_symbol :: string
  h_host :: string
  h_port :: string
  h_endpoint :: string
  h_bound :: bool

definition new_handler :: "string \<Rightarrow> handler" where
  "new_handler symb = \<lparr>h_symbol = symb, h_host = [], h_port = [], h_endpoint = [], h_bound = False\<rparr>"

text \<open>
  \<^verbatim>\<open>bind_cache\<close>; the pointer is not null. All handlers of the program are bound to one cache,
  so \<open>h_bound\<close> records only that the pointer is set.
\<close>

definition handler_bind_cache :: "'a handler_scheme \<Rightarrow> 'a handler_scheme" where
  "handler_bind_cache h = h\<lparr>h_bound := True\<rparr>"

section \<open>From text to cache\<close>

text \<open>
  \<^verbatim>\<open>on_data\<close>; the cache is \<open>None\<close> where the handler was not bound to one. The value
  \<^verbatim>\<open>encache\<close> returns is dropped.
\<close>

definition on_data ::
  "(string \<Rightarrow> string \<Rightarrow> msg outcome) \<Rightarrow> string \<Rightarrow> string \<Rightarrow> cache option \<Rightarrow> cache outcome" where
  "on_data parse symb data_str buffer_queue =
     (case buffer_queue of
        None \<Rightarrow> Inl (Assertion_failed ''buffer_queue_ != nullptr'')
      | Some c \<Rightarrow>
          (case parse symb data_str of
             Inl e \<Rightarrow> Inl e
           | Inr m \<Rightarrow>
               if msg_valid m
               then (case encache m c of Inl e \<Rightarrow> Inl e | Inr (_, c1) \<Rightarrow> Inr c1)
               else Inr c))"

definition ws_parse :: "string \<Rightarrow> string \<Rightarrow> msg outcome" where
  "ws_parse symb data_str = createMsg MS_WebSocket MT_OrderBook symb data_str"

definition rest_parse :: "string \<Rightarrow> string \<Rightarrow> msg outcome" where
  "rest_parse symb data_str = createMsg MS_RestApi MT_OrderBook symb data_str"

definition order_msg :: "msg_source \<Rightarrow> string \<Rightarrow> json \<Rightarrow> msg" where
  "order_msg src symb j =
     \<lparr>msg_type = MT_OrderBook, msg_source = src, msg_data = Some \<lparr>ob_symbol = symb, ob_data = j\<rparr>\<rparr>"

locale message_parser =
  fixes parse :: "string \<Rightarrow> string \<Rightarrow> msg outcome"
    and src :: msg_source
  assumes parse_text: "parse symb data =
      (case parseJsonString data of Inl e \<Rightarrow> Inl e | Inr j \<Rightarrow> Inr (order_msg src symb j))"
    and proper_source: "src \<noteq> MS_None"
begin

lemma on_data_parsed:
  "parseJsonString data = Inr j \<Longrightarrow>
     on_data parse symb data (Some c) =
       (case encache (order_msg src symb j) c of Inl e \<Rightarrow> Inl e | Inr (_, c1) \<Rightarrow> Inr c1)"
  using proper_source by (simp add: on_data_def parse_text msg_valid_def order_msg_def)

lemma on_data_unparsed:
  "parseJsonString data = Inl e \<Longrightarrow> on_data parse symb data (Some c) = Inl e"
  by (simp add: on_data_def parse_text)

text \<open>The cache stays well formed, and what it holds is at most extended by the new message.\<close>

lemma on_data_cache:
  assumes "c_wf c" and "on_data parse symb data (Some c) = Inr c'"
  shows "c_wf c' \<and> c_room c' = c_room c \<and> c_U c \<le> c_U c'
    \<and> (c_items c' = c_items c \<or>
       (\<exists>j. parseJsonString data = Inr j \<and> c_items c' = c_items c @ [order_msg src symb j]))"
proof (cases "parseJsonString data")
  case (Inl e)
  then show ?thesis using assms(2) on_data_unparsed by simp
next
  case (Inr j)
  let ?m = "order_msg src symb j"
  from assms(2) obtain ok where r: "encache ?m c = Inr (ok, c')"
    by (auto simp: on_data_parsed [OF Inr] split: sum.splits)
  show ?thesis
    by (rule mc.enc_cases [OF assms(1), of ?m]) (use r Inr in \<open>auto split: option.splits\<close>)
qed

end

interpretation wsp: message_parser ws_parse MS_WebSocket
  by unfold_locales (simp_all add: ws_parse_def createMsg_orderbook order_msg_def split: sum.split)

interpretation rsp: message_parser rest_parse MS_RestApi
  by unfold_locales (simp_all add: rest_parse_def createMsg_orderbook order_msg_def split: sum.split)

lemma update_id_ws: "update_id (order_msg MS_WebSocket symb j) =
    (case fst (json_uint64_at ''U'' j) of Inl e \<Rightarrow> Inl e | Inr u \<Rightarrow> Inr (Some u))"
  by (simp add: update_id_def order_msg_def)

lemma update_id_rest: "update_id (order_msg MS_RestApi symb j) = Inr None"
  by (simp add: update_id_def order_msg_def)

section \<open>Properties of on\_data\<close>

lemma uint64_null: "fst (json_uint64_at k JNull) = Inl (type_error 302 ''type must be number, but is null'')"
  by (simp add: json_uint64_at_def json_index_mut_def json_to_uint64_def Let_def)

lemma parseJsonString_malformed:
  "json_parse text = Inl (Json_parse_error i msg) \<Longrightarrow> parseJsonString text = Inr JNull"
  by (simp add: parseJsonString_def)

definition negative_text :: string where
  "negative_text = [CHR 0x7B, CHR 0x22, CHR ''U'', CHR 0x22, CHR '':'', CHR ''-'', CHR ''1'', CHR 0x7D]"

text \<open>Why reading a number out of a JSON value can fail.\<close>

definition read_failure :: "cpp_error \<Rightarrow> bool" where
  "read_failure e =
     (case e of Json_type_error i m \<Rightarrow> i = 302 \<or> i = 305 | Undefined_behaviour m \<Rightarrow> True | _ \<Rightarrow> False)"

lemma json_uint64_at_failure: "fst (json_uint64_at k j) = Inl e \<Longrightarrow> read_failure e"
proof -
  have "read_failure e'" if "double_to_uint64 d = Inl e'" for d e'
    using that by (cases d) (auto simp: read_failure_def Let_def split: if_splits)
  then have "read_failure e'" if "json_to_uint64 v = Inl e'" for v e'
    using that by (cases v) (auto simp: json_to_uint64_def type_error_def read_failure_def)
  moreover assume "fst (json_uint64_at k j) = Inl e"
  ultimately show ?thesis
    by (cases j)
      (auto simp: json_uint64_at_def json_index_mut_def Let_def type_error_def read_failure_def)
qed

text \<open>
  A text that is not JSON is handled differently by the two handlers. The REST handler offers an
  order book whose data is null to the cache; the web socket handler throws the type error 302 out
  of its posted task, since it looks for an update id in the null value.
\<close>

theorem malformed_text:
  assumes "json_parse t = Inl (Json_parse_error i msg)"
  shows "on_data ws_parse symb t (Some c) = Inl (type_error 302 ''type must be number, but is null'')
    \<and> on_data rest_parse symb t (Some c) =
        (case cache_enqueue (order_msg MS_RestApi symb JNull) c of Inl e \<Rightarrow> Inl e | Inr (_, c1) \<Rightarrow> Inr c1)"
proof -
  note n = parseJsonString_malformed [OF assms]
  show ?thesis
    using wsp.on_data_parsed [OF n, of symb c] rsp.on_data_parsed [OF n, of symb c] uint64_null [of "''U''"]
    by (simp add: encache_def order_msg_def)
qed

theorem malformed_text_witness:
  "on_data ws_parse ''btcusdt'' ''{'' (Some (small_cache [] 3))
     = Inl (type_error 302 ''type must be number, but is null'')"
proof -
  have "case json_parse ''{'' of Inl (Json_parse_error i m) \<Rightarrow> True | _ \<Rightarrow> False" by code_simp
  then obtain i m where "json_parse ''{'' = Inl (Json_parse_error i m)"
    by (auto split: sum.splits cpp_error.splits)
  from malformed_text [OF this, of "''btcusdt''" "small_cache [] 3"] show ?thesis by blast
qed

text \<open>
  C31: On a well formed cache \<open>on_data\<close> fails only in these ways: both handlers with the overflow error
  406 of the parser, and the web socket handler with the type errors 302 and 305, or with a number
  too large to convert, when it reads the update id. Otherwise the cache stays well formed, and is
  extended by at most the one message made from the text.
\<close>

theorem on_data_outcome:
  assumes "c_wf c"
  shows "(case on_data ws_parse symb t (Some c) of
            Inl e \<Rightarrow> (\<exists>m. e = Json_out_of_range 406 m) \<or> read_failure e
          | Inr c' \<Rightarrow> c_wf c' \<and> (c_items c' = c_items c \<or>
              (\<exists>j. parseJsonString t = Inr j \<and> c_items c' = c_items c @ [order_msg MS_WebSocket symb j])))
    \<and> (case on_data rest_parse symb t (Some c) of
            Inl e \<Rightarrow> (\<exists>m. e = Json_out_of_range 406 m)
          | Inr c' \<Rightarrow> c_wf c' \<and> (c_items c' = c_items c \<or>
              (\<exists>j. parseJsonString t = Inr j \<and> c_items c' = c_items c @ [order_msg MS_RestApi symb j])))"
proof -
  have overflow: "\<exists>m. e = Json_out_of_range 406 m" if "parseJsonString t = Inl e" for e
    using parseJsonString_result [of t] that by simp
  have "(\<exists>m. e = Json_out_of_range 406 m) \<or> read_failure e"
    if "on_data ws_parse symb t (Some c) = Inl e" for e
  proof (cases "parseJsonString t")
    case (Inl e')
    then show ?thesis using that overflow wsp.on_data_unparsed [OF Inl] by simp
  next
    case (Inr j)
    then have "encache (order_msg MS_WebSocket symb j) c = Inl e"
      using that wsp.on_data_parsed [OF Inr, of symb c] by (auto split: sum.splits)
    then have "update_id (order_msg MS_WebSocket symb j) = Inl e" by (rule encache_fails [OF assms])
    then show ?thesis using json_uint64_at_failure [of "''U''" j e]
      by (auto simp: update_id_ws split: sum.splits)
  qed
  moreover have "\<exists>m. e = Json_out_of_range 406 m"
    if "on_data rest_parse symb t (Some c) = Inl e" for e
  proof (cases "parseJsonString t")
    case (Inl e')
    then show ?thesis using that overflow rsp.on_data_unparsed [OF Inl] by simp
  next
    case (Inr j)
    then have "encache (order_msg MS_RestApi symb j) c = Inl e"
      using that rsp.on_data_parsed [OF Inr, of symb c] by (auto split: sum.splits)
    then show ?thesis using encache_fails [OF assms] update_id_rest by fastforce
  qed
  ultimately show ?thesis
    using wsp.on_data_cache [OF assms] rsp.on_data_cache [OF assms] by (auto split: sum.split)
qed

theorem on_data_outcome_witness:
  "case on_data ws_parse ''btcusdt'' ''[1'' (Some (small_cache [] 3)) of
     Inl e \<Rightarrow> (\<exists>m. e = Json_out_of_range 406 m) \<or> read_failure e
   | Inr c' \<Rightarrow> c_wf c' \<and> (c_items c' = c_items (small_cache [] 3) \<or>
      (\<exists>j. parseJsonString ''[1'' = Inr j
        \<and> c_items c' = c_items (small_cache [] 3) @ [order_msg MS_WebSocket ''btcusdt'' j]))"
  using on_data_outcome [OF small_cache_wf, of "[]" 3 "''[1''" "''btcusdt''"] by simp

text \<open>Operations that all return leave a well formed cache whose last id is not lower.\<close>

lemma run_returns_last_id:
  "c_wf c \<Longrightarrow> cache_run encache decache ops c = Inr (x, c') \<Longrightarrow> c_wf c' \<and> c_U c \<le> c_U c'"
proof (induction ops arbitrary: c x)
  case (Cons op ops)
  show ?case
  proof (cases op)
    case (Encache m)
    then obtain ok c1 y where r: "encache m c = Inr (ok, c1)" "cache_run encache decache ops c1 = Inr (y, c')"
      using Cons.prems(2) by (auto split: sum.splits)
    have "c_wf c1 \<and> c_U c \<le> c_U c1"
      by (rule mc.enc_cases [OF Cons.prems(1), of m]) (use r(1) in \<open>auto split: option.splits intro: less_imp_le\<close>)
    then show ?thesis using Cons.IH [OF _ r(2)] by (auto intro: order_trans)
  next
    case Decache
    then obtain r c1 y where r: "decache c = Inr (r, c1)" "cache_run encache decache ops c1 = Inr (y, c')"
      using Cons.prems(2) by (auto split: sum.splits)
    have "c_wf c1 \<and> c_U c = c_U c1"
      by (rule mc.dec_cases [OF Cons.prems(1)]) (use r(1) Cons.prems(1) in auto)
    then show ?thesis using Cons.IH [OF _ r(2)] by auto
  qed
qed simp

lemma negative_above:
  fixes u w :: "64 word"
  assumes "sint w < 0" and "0 \<le> sint u"
  shows "u \<le> w"
proof -
  have m: "uint x = sint x mod 2 ^ 64" for x :: "64 word" by (simp add: uint_sint take_bit_eq_mod)
  have "sint w mod 2 ^ 64 = (sint w + 2 ^ 64) mod 2 ^ 64" by simp
  also have "\<dots> = sint w + 2 ^ 64" using assms(1) sint_ge [of w] by (intro mod_pos_pos_trivial) auto
  finally have "2 ^ 63 \<le> uint w" using m [of w] sint_ge [of w] by simp
  moreover have "uint u < 2 ^ 63" using m [of u] assms(2) sint_lt [of u] by (simp add: mod_pos_pos_trivial)
  ultimately show ?thesis by (simp add: word_le_def)
qed

text \<open>
  C32: A single web socket text whose update id is negative silences every web socket of the program,
  for ever. The id is converted to the unsigned number with the same bits, which becomes the last id
  unless a greater one was seen; after any further calls of \<open>encache\<close> and \<open>decache\<close> every
  web socket message whose id is not negative, or not above that one, is refused and the stored
  messages stay as they are. (For the id -1 that is every message.)
\<close>

theorem negative_id_silences:
  assumes "c_wf c" and "parseJsonString t = Inr (JObject kvs)"
    and "map_find ''U'' kvs = Some (JInteger w)" and "sint w < 0"
  shows "\<exists>c1. on_data ws_parse symb t (Some c) = Inr c1 \<and> c_U c1 = max (c_U c) w
    \<and> (\<forall>ops x c2 m u. cache_run encache decache ops c1 = Inr (x, c2) \<and> ws_id m = Some u
          \<and> (0 \<le> sint u \<or> u \<le> w)
        \<longrightarrow> (\<exists>c3. encache m c2 = Inr (False, c3) \<and> c_items c3 = c_items c2))"
proof -
  let ?m = "order_msg MS_WebSocket symb (JObject kvs)"
  have "fst (json_uint64_at ''U'' (JObject kvs)) = Inr w"
    using assms(3) map_emplace_present [of kvs "''U''" JNull] parseJsonString_result [of t] assms(2)
    by (simp add: json_uint64_at_def json_index_mut_def json_to_uint64_def Let_def)
  then have "update_id ?m = Inr (Some w)" by (simp add: update_id_ws)
  from mc.enc_readable [OF assms(1) this] obtain ok c1 where
    c1: "encache ?m c = Inr (ok, c1)" "c_wf c1" "c_U c1 = max (c_U c) w" by auto
  have "\<exists>c3. encache m c2 = Inr (False, c3) \<and> c_items c3 = c_items c2"
    if r: "cache_run encache decache ops c1 = Inr (x, c2)" and m: "ws_id m = Some u"
      and u: "0 \<le> sint u \<or> u \<le> w" for ops x c2 m u
  proof -
    have "u \<le> w" using u negative_above [OF assms(4)] by blast
    then have "c_wf c2" "u \<le> c_U c2"
      using run_returns_last_id [OF c1(2) r] c1(3) by (auto intro: order_trans simp: le_max_iff_disj)
    then show ?thesis using mc.stale_rejected [OF _ m] by blast
  qed
  then show ?thesis using c1 wsp.on_data_parsed [OF assms(2), of symb c] by auto
qed

theorem negative_id_silences_witness:
  "\<exists>c1 x c2 c3. on_data ws_parse ''btcusdt'' negative_text (Some (small_cache [] 3)) = Inr c1 \<and> c_U c1 = - 1
    \<and> cache_run encache decache [Decache, Encache (update_msg ''btcusdt'' 5)] c1 = Inr (x, c2)
    \<and> encache (update_msg ''ethusdt'' 77) c2 = Inr (False, c3) \<and> c_items c3 = c_items c2"
proof -
  have wf: "c_wf (small_cache [] 3)" by (rule small_cache_wf) simp
  have p: "parseJsonString negative_text = Inr (JObject [(''U'', JInteger (- 1))])"
    unfolding negative_text_def by code_simp
  obtain c1 where c1: "on_data ws_parse ''btcusdt'' negative_text (Some (small_cache [] 3)) = Inr c1"
    "c_U c1 = max 3 (- 1)"
    "\<forall>ops x c2 m u. cache_run encache decache ops c1 = Inr (x, c2) \<and> ws_id m = Some u
      \<and> (0 \<le> sint u \<or> u \<le> - 1) \<longrightarrow> (\<exists>c3. encache m c2 = Inr (False, c3) \<and> c_items c3 = c_items c2)"
    using negative_id_silences [OF wf p, of "- 1" "''btcusdt''"] by (auto simp: small_cache_room)
  have "c_wf c1" using wsp.on_data_cache [OF wf c1(1)] by blast
  moreover have "list_all op_readable [Decache, Encache (update_msg ''btcusdt'' 5)]"
    by (simp add: readable_def update_msg_id)
  ultimately obtain x c2 where r: "cache_run encache decache [Decache, Encache (update_msg ''btcusdt'' 5)] c1 = Inr (x, c2)"
    using mc.run_ok by blast
  have "ws_id (update_msg ''ethusdt'' 77) = Some 77" by (simp add: ws_id_def update_msg_id)
  moreover have "(77 :: uint64_t) \<le> - 1" "max 3 (- 1) = (- 1 :: uint64_t)" by simp_all
  ultimately show ?thesis using c1 r by metis
qed

end
