(* ===== verification/Web_Socket.thy ===== *)
theory Web_Socket
  imports Connection_Handler
begin

text \<open>
  \<^verbatim>\<open>class WebSocketHandler\<close> (\<^verbatim>\<open>include/websocket.h\<close>, \<^verbatim>\<open>src/websocket.cpp\<close>) as a state machine.
  The state holds the asynchronous operations that are under way (\<open>ws_pending\<close>) and the texts
  whose \<^verbatim>\<open>on_data\<close> was posted to the io context (\<open>ws_posted\<close>, oldest first). An event is the
  completion of a pending operation with an error code; the network is free to choose it. For a
  completed read the event carries the bytes the library appended to the buffer.
\<close>

section \<open>State\<close>

datatype ws_op = WS_run | WS_resolve | WS_connect | WS_ssl_handshake | WS_handshake | WS_read

datatype verify_mode = Verify_peer | Verify_client_once

record ws_handler = handler +
  ws_verify_mode :: verify_mode
  ws_headers :: "(string \<times> string) list"
  ws_buffer :: string
  ws_pending :: "ws_op list"
  ws_posted :: "string list"

definition new_ws_handler :: "string \<Rightarrow> ws_handler" where
  "new_ws_handler symb =
     \<lparr>h_symbol = symb, h_host = [], h_port = [], h_endpoint = [], h_bound = False,
      ws_verify_mode = Verify_peer, ws_headers = [], ws_buffer = [], ws_pending = [], ws_posted = []\<rparr>"

definition ws_setEndpoint :: "string \<Rightarrow> string \<Rightarrow> string \<Rightarrow> ws_handler \<Rightarrow> ws_handler" where
  "ws_setEndpoint host port endpoint s = s\<lparr>h_host := host, h_port := port, h_endpoint := endpoint\<rparr>"

definition ws_start :: "ws_op \<Rightarrow> ws_handler \<Rightarrow> ws_handler" where
  "ws_start op s = s\<lparr>ws_pending := ws_pending s @ [op]\<rparr>"

section \<open>Operations\<close>

text \<open>\<^verbatim>\<open>run\<close> posts a task; \<open>ws_run_task\<close> is the task.\<close>

definition ws_run :: "ws_handler \<Rightarrow> ws_handler" where
  "ws_run s = ws_start WS_run s"

definition ws_run_task :: "ws_handler \<Rightarrow> ws_handler" where
  "ws_run_task s = ws_start WS_resolve s"

definition ws_on_resolve :: "error_code \<Rightarrow> ws_handler \<Rightarrow> ws_handler" where
  "ws_on_resolve ec s = (if ec \<noteq> EC_success then s else ws_start WS_connect s)"

definition ws_on_connect :: "error_code \<Rightarrow> ws_handler \<Rightarrow> ws_handler" where
  "ws_on_connect ec s = (if ec \<noteq> EC_success then s else ws_start WS_ssl_handshake s)"

definition ws_on_ssl_handshake :: "error_code \<Rightarrow> ws_handler \<Rightarrow> ws_handler" where
  "ws_on_ssl_handshake ec s =
     (if ec \<noteq> EC_success then s
      else ws_start WS_handshake
             (s\<lparr>ws_verify_mode := Verify_client_once,
                ws_headers := [(''User-Agent'', ''Boost.Beast WebSocket Client''),
                               (''Sec-WebSocket-Protocol'', ''stream'')]\<rparr>))"

definition ws_do_read :: "ws_handler \<Rightarrow> ws_handler" where
  "ws_do_read s = ws_start WS_read s"

definition ws_on_handshake :: "error_code \<Rightarrow> ws_handler \<Rightarrow> ws_handler" where
  "ws_on_handshake ec s = (if ec \<noteq> EC_success then s else ws_do_read s)"

definition ws_on_read :: "error_code \<Rightarrow> ws_handler \<Rightarrow> ws_handler" where
  "ws_on_read ec s =
     (if ec \<noteq> EC_success then s
      else let data_str = ws_buffer s;
               s1 = s\<lparr>ws_buffer := []\<rparr>;
               s2 = s1\<lparr>ws_posted := ws_posted s1 @ [data_str]\<rparr>
           in ws_start WS_read s2)"

section \<open>Steps\<close>

fun ws_complete :: "ws_op \<Rightarrow> error_code \<Rightarrow> string \<Rightarrow> ws_handler \<Rightarrow> ws_handler" where
  "ws_complete WS_run ec bytes s = ws_run_task s"
| "ws_complete WS_resolve ec bytes s = ws_on_resolve ec s"
| "ws_complete WS_connect ec bytes s = ws_on_connect ec s"
| "ws_complete WS_ssl_handshake ec bytes s = ws_on_ssl_handshake ec s"
| "ws_complete WS_handshake ec bytes s = ws_on_handshake ec s"
| "ws_complete WS_read ec bytes s = ws_on_read ec (s\<lparr>ws_buffer := ws_buffer s @ bytes\<rparr>)"

datatype ws_event = WS_event ws_op error_code string

inductive ws_step :: "ws_handler \<Rightarrow> ws_event \<Rightarrow> ws_handler \<Rightarrow> bool" where
  complete: "op \<in> set (ws_pending s) \<Longrightarrow>
    ws_step s (WS_event op ec bytes)
      (ws_complete op ec bytes (s\<lparr>ws_pending := remove1 op (ws_pending s)\<rparr>))"

inductive_cases ws_stepE: "ws_step s e s'"

inductive_simps ws_step_event: "ws_step s (WS_event op ec bytes) s'"

inductive ws_steps :: "ws_handler \<Rightarrow> ws_event list \<Rightarrow> ws_handler \<Rightarrow> bool" where
  none: "ws_steps s [] s"
| more: "ws_step s e s1 \<Longrightarrow> ws_steps s1 es s2 \<Longrightarrow> ws_steps s (e # es) s2"

code_pred ws_step .
code_pred ws_steps .

section \<open>One operation at a time, in order\<close>

text \<open>The order in which the operations of one connection follow each other.\<close>

fun ws_rank :: "ws_op \<Rightarrow> nat" where
  "ws_rank WS_run = 0"
| "ws_rank WS_resolve = 1"
| "ws_rank WS_connect = 2"
| "ws_rank WS_ssl_handshake = 3"
| "ws_rank WS_handshake = 4"
| "ws_rank WS_read = 5"

lemma ws_rank_inject: "ws_rank a = ws_rank b \<longleftrightarrow> a = b"
  by (cases a; cases b) simp_all

instantiation ws_op :: linorder
begin

definition less_eq_ws_op :: "ws_op \<Rightarrow> ws_op \<Rightarrow> bool" where
  "a \<le> b \<longleftrightarrow> ws_rank a \<le> ws_rank b"

definition less_ws_op :: "ws_op \<Rightarrow> ws_op \<Rightarrow> bool" where
  "a < b \<longleftrightarrow> ws_rank a < ws_rank b"

instance
  by standard (auto simp: less_eq_ws_op_def less_ws_op_def ws_rank_inject)

end

fun event_op :: "ws_event \<Rightarrow> ws_op" where
  "event_op (WS_event op ec bytes) = op"

definition ws_next :: "ws_op \<Rightarrow> ws_op" where
  "ws_next op = (case op of WS_run \<Rightarrow> WS_resolve | WS_resolve \<Rightarrow> WS_connect
     | WS_connect \<Rightarrow> WS_ssl_handshake | WS_ssl_handshake \<Rightarrow> WS_handshake
     | WS_handshake \<Rightarrow> WS_read | WS_read \<Rightarrow> WS_read)"

definition event_ok :: "ws_event \<Rightarrow> bool" where
  "event_ok e = (case e of WS_event op ec bytes \<Rightarrow> op = WS_run \<or> ec = EC_success)"

text \<open>The payloads of the successful reads of a run.\<close>

fun frames :: "ws_event list \<Rightarrow> string list" where
  "frames [] = []"
| "frames (WS_event op ec bytes # es) =
     (if op = WS_read \<and> ec = EC_success then bytes # frames es else frames es)"

lemma ws_complete_pending:
  assumes "ws_pending s = []"
  shows "ws_pending (ws_complete op ec bytes s) =
    (if op = WS_run \<or> ec = EC_success then [ws_next op] else [])"
  using assms
  by (cases op) (simp_all add: ws_run_task_def ws_on_resolve_def ws_on_connect_def
      ws_on_ssl_handshake_def ws_on_handshake_def ws_on_read_def ws_do_read_def ws_start_def
      ws_next_def Let_def)

lemma ws_complete_posted:
  "ws_posted (ws_complete op ec bytes s) =
     ws_posted s @ (if op = WS_read \<and> ec = EC_success then [ws_buffer s @ bytes] else [])"
  by (cases op) (simp_all add: ws_run_task_def ws_on_resolve_def ws_on_connect_def
      ws_on_ssl_handshake_def ws_on_handshake_def ws_on_read_def ws_do_read_def ws_start_def Let_def)

lemma ws_complete_buffer:
  "op = WS_run \<or> ec = EC_success \<Longrightarrow>
     ws_buffer (ws_complete op ec bytes s) = (if op = WS_read then [] else ws_buffer s)"
  by (cases op) (simp_all add: ws_run_task_def ws_on_resolve_def ws_on_connect_def
      ws_on_ssl_handshake_def ws_on_handshake_def ws_on_read_def ws_do_read_def ws_start_def Let_def)

lemma ws_complete_symbol:
  "h_symbol (ws_complete op ec bytes s) = h_symbol s"
  by (cases op) (simp_all add: ws_run_task_def ws_on_resolve_def ws_on_connect_def
      ws_on_ssl_handshake_def ws_on_handshake_def ws_on_read_def ws_do_read_def ws_start_def Let_def)

text \<open>
  A handler with one operation under way and an empty buffer: the steps of any run, as a whole.
\<close>

lemma ws_steps_from:
  assumes "ws_steps s es s'" and "ws_pending s = [op]" and "ws_buffer s = []"
  shows "ws_posted s' = ws_posted s @ frames es
    \<and> (ws_pending s' = [] \<or> (\<exists>op'. ws_pending s' = [op'] \<and> op \<le> op' \<and> ws_buffer s' = []))
    \<and> (ws_pending s' = [] \<longrightarrow> es \<noteq> [] \<and> \<not> event_ok (last es))
    \<and> list_all event_ok (butlast es)
    \<and> sorted (map event_op es) \<and> (\<forall>e \<in> set es. op \<le> event_op e)"
  using assms
proof (induction arbitrary: op rule: ws_steps.induct)
  case (none s)
  then show ?case by simp
next
  case (more s e s1 es s2)
  obtain ec bytes where e: "e = WS_event op ec bytes"
    and s1: "s1 = ws_complete op ec bytes (s\<lparr>ws_pending := []\<rparr>)"
    using more.hyps(1) more.prems(1) by (auto elim!: ws_stepE)
  have posted: "ws_posted s1 = ws_posted s @ frames [e]"
    using more.prems(2) by (simp add: s1 e ws_complete_posted)
  show ?case
  proof (cases "event_ok e")
    case True
    then have p: "ws_pending s1 = [ws_next op]" "ws_buffer s1 = []"
      using more.prems(2) ws_complete_buffer [of op ec bytes "s\<lparr>ws_pending := []\<rparr>"]
      by (simp_all add: s1 ws_complete_pending event_ok_def e)
    have le: "op \<le> ws_next op" by (cases op) (simp_all add: ws_next_def less_eq_ws_op_def)
    have f: "frames (e # es) = frames [e] @ frames es" by (simp add: e)
    note ih = more.IH [OF p]
    have "op \<le> event_op x" if "x \<in> set es" for x using ih le that by (blast intro: order_trans)
    then have "sorted (map event_op (e # es)) \<and> (\<forall>x \<in> set (e # es). op \<le> event_op x)"
      using ih by (simp add: e)
    moreover have "ws_pending s2 = [] \<or>
        (\<exists>op'. ws_pending s2 = [op'] \<and> op \<le> op' \<and> ws_buffer s2 = [])"
      using ih le by (blast intro: order_trans)
    ultimately show ?thesis using ih posted True f by auto
  next
    case False
    then have p: "ws_pending s1 = []"
      by (simp add: s1 ws_complete_pending event_ok_def e)
    then have "es = [] \<and> s2 = s1"
      using more.hyps(2) by (auto elim!: ws_stepE elim: ws_steps.cases)
    then show ?thesis using p posted False by (simp add: e)
  qed
qed

section \<open>Properties of the web socket handler\<close>

definition idle :: "ws_handler \<Rightarrow> bool" where
  "idle s \<longleftrightarrow> ws_pending s = [] \<and> ws_buffer s = [] \<and> ws_posted s = []"

lemma idle_new: "idle (ws_setEndpoint host port endpoint (new_ws_handler symb))"
  by (simp add: idle_def new_ws_handler_def ws_setEndpoint_def)

text \<open>
  C25: After \<open>run\<close>, whatever the network does, at most one asynchronous operation is under way, the
  operations complete in the order resolve, connect, TLS handshake, handshake, reads, and
  \<open>on_data\<close> was posted exactly for the payloads of the successful reads, each once, in their order and
  unmixed. The handler stops exactly at its first failed operation, and never tries again.
\<close>

theorem ws_single_chain:
  assumes "idle s0" and "ws_steps (ws_run s0) es s"
  shows "length (ws_pending s) \<le> 1 \<and> ws_posted s = frames es \<and> list_all event_ok (butlast es)
    \<and> (ws_pending s = [] \<longrightarrow> es \<noteq> [] \<and> \<not> event_ok (last es)) \<and> sorted (map event_op es)"
proof -
  have "ws_pending (ws_run s0) = [WS_run]" "ws_buffer (ws_run s0) = []" "ws_posted (ws_run s0) = []"
    using assms(1) by (simp_all add: idle_def ws_run_def ws_start_def)
  from ws_steps_from [OF assms(2) this(1,2)] this(3) show ?thesis by auto
qed

lemma ws_step_next:
  assumes "ws_pending s = [op]" and "op = WS_run \<or> ec = EC_success"
  shows "ws_step s (WS_event op ec bytes) (ws_complete op ec bytes (s\<lparr>ws_pending := []\<rparr>))"
    and "ws_pending (ws_complete op ec bytes (s\<lparr>ws_pending := []\<rparr>)) = [ws_next op]"
  using assms ws_step.complete [of op s ec bytes] ws_complete_pending [of "s\<lparr>ws_pending := []\<rparr>" op ec bytes]
  by simp_all

theorem ws_single_chain_witness:
  "\<exists>s. ws_steps (ws_run (new_ws_handler ''btcusdt'')) [WS_event WS_run EC_success [], WS_event WS_resolve EC_eof []] s
    \<and> length (ws_pending s) \<le> 1 \<and> ws_posted s = []"
proof -
  let ?s0 = "ws_run (new_ws_handler ''btcusdt'')"
  let ?s1 = "ws_complete WS_run EC_success [] (?s0\<lparr>ws_pending := []\<rparr>)"
  have p0: "ws_pending ?s0 = [WS_run]" by (simp add: ws_run_def ws_start_def new_ws_handler_def)
  note s1 = ws_step_next [OF p0, of EC_success "[]"]
  have "WS_resolve \<in> set (ws_pending ?s1)" using s1(2) by (simp add: ws_next_def)
  from ws_step.complete [OF this, of EC_eof "[]"] obtain s2 where
    s2: "ws_step ?s1 (WS_event WS_resolve EC_eof []) s2" by blast
  have run: "ws_steps ?s0 [WS_event WS_run EC_success [], WS_event WS_resolve EC_eof []] s2"
    using s1(1) s2 by (auto intro: ws_steps.intros)
  have "idle (new_ws_handler ''btcusdt'')" by (simp add: idle_def new_ws_handler_def)
  from ws_single_chain [OF this run] run show ?thesis by auto
qed

lemma ws_reads:
  "ws_pending s = [WS_read] \<Longrightarrow> ws_buffer s = [] \<Longrightarrow>
     \<exists>s'. ws_steps s (map (WS_event WS_read EC_success) bs) s' \<and> ws_posted s' = ws_posted s @ bs"
proof (induction bs arbitrary: s)
  case Nil
  then show ?case using ws_steps.none by force
next
  case (Cons b bs)
  let ?s = "ws_complete WS_read EC_success b (s\<lparr>ws_pending := []\<rparr>)"
  note st = ws_step_next [OF Cons.prems(1), of EC_success b]
  have "ws_pending ?s = [WS_read]" "ws_buffer ?s = []" "ws_posted ?s = ws_posted s @ [b]"
    using st(2) ws_complete_buffer [of WS_read EC_success b "s\<lparr>ws_pending := []\<rparr>"] Cons.prems(2)
      ws_complete_posted [of WS_read EC_success b "s\<lparr>ws_pending := []\<rparr>"]
    by (simp_all add: ws_next_def)
  then obtain s' where "ws_steps ?s (map (WS_event WS_read EC_success) bs) s'"
    "ws_posted s' = ws_posted s @ b # bs"
    using Cons.IH [of ?s] by auto
  then show ?case using st(1) by (auto intro: ws_steps.more)
qed

definition ws_opening :: "ws_event list" where
  "ws_opening = map (\<lambda>op. WS_event op EC_success [])
     [WS_run, WS_resolve, WS_connect, WS_ssl_handshake, WS_handshake]"

lemma ws_run_delivers:
  assumes "idle s0"
  shows "\<exists>s. ws_steps (ws_run s0) (ws_opening @ map (WS_event WS_read EC_success) bs) s
    \<and> ws_posted s = bs"
proof -
  have one: "\<exists>s'. ws_steps s (WS_event op EC_success [] # es) s' \<and> ws_posted s' = bs"
    if p: "ws_pending s = [op]" "op \<noteq> WS_read" "ws_buffer s = []" "ws_posted s = []"
      and more: "\<And>t. ws_pending t = [ws_next op] \<Longrightarrow> ws_buffer t = [] \<Longrightarrow> ws_posted t = [] \<Longrightarrow>
        \<exists>s'. ws_steps t es s' \<and> ws_posted s' = bs" for s op es
  proof -
    let ?t = "ws_complete op EC_success [] (s\<lparr>ws_pending := []\<rparr>)"
    note st = ws_step_next [OF p(1), of EC_success "[]"]
    have "ws_buffer ?t = []" "ws_posted ?t = []"
      using ws_complete_buffer [of op EC_success "[]" "s\<lparr>ws_pending := []\<rparr>"] p(2-4)
        ws_complete_posted [of op EC_success "[]" "s\<lparr>ws_pending := []\<rparr>"] by simp_all
    then obtain s' where "ws_steps ?t es s'" "ws_posted s' = bs" using more st(2) by blast
    then show ?thesis using st(1) by (auto intro: ws_steps.more)
  qed
  have reads: "\<exists>s'. ws_steps t (map (WS_event WS_read EC_success) bs) s' \<and> ws_posted s' = bs"
    if "ws_pending t = [WS_read]" "ws_buffer t = []" "ws_posted t = []" for t
    using ws_reads [OF that(1,2), of bs] that(3) by simp
  have "ws_pending (ws_run s0) = [WS_run]" "ws_buffer (ws_run s0) = []" "ws_posted (ws_run s0) = []"
    using assms by (simp_all add: idle_def ws_run_def ws_start_def)
  then show ?thesis
    unfolding ws_opening_def by (simp, intro one) (simp_all add: ws_next_def one reads)
qed

text \<open>
  C26: When the five opening operations succeed, every frame the server then sends is posted to
  \<open>on_data\<close>, for any number of frames: the read loop never stops by itself.
\<close>

theorem ws_delivers:
  assumes "idle s0"
  shows "\<exists>s. ws_steps (ws_run s0) (ws_opening @ map (WS_event WS_read EC_success) bs) s
    \<and> ws_posted s = bs"
  by (rule ws_run_delivers [OF assms])

theorem ws_delivers_witness:
  "\<exists>s. ws_steps (ws_run (ws_setEndpoint ''fstream.binance.com'' ''443'' ''/ws/btcusdt@depth5'' (new_ws_handler ''btcusdt'')))
      (ws_opening @ map (WS_event WS_read EC_success) [''1'', ''2'']) s
    \<and> ws_posted s = [''1'', ''2'']"
  by (rule ws_delivers, rule idle_new)

end
