(* ===== verification/Rest_Api.thy ===== *)
theory Rest_Api
  imports Connection_Handler
begin

text \<open>
  \<^verbatim>\<open>class RestApiHandler\<close> (\<^verbatim>\<open>include/restapi.h\<close>, \<^verbatim>\<open>src/restapi.cpp\<close>): a polling timer whose
  every tick starts a request, and the chain of asynchronous operations of a request. Stream
  objects are numbered in the order of their creation; \<open>r_socket\<close> is the one \<^verbatim>\<open>socket_\<close> points
  to. Nothing else keeps a stream alive across an asynchronous operation (the completion lambdas
  capture \<open>this\<close> only), so every stream but \<open>r_socket\<close> is destroyed. An operation on a stream is
  tagged with the stream it was started on.
\<close>

section \<open>Extracting the body of a response\<close>

text \<open>
  The loop of \<^verbatim>\<open>on_read\<close>: \<^verbatim>\<open>std::getline\<close> succeeds as long as there is a character left, and
  gives the characters before the next newline or the end. The last non-empty line before the
  first empty one, or before the end, remains in \<open>data_str\<close>.
\<close>

function getline_loop :: "string \<Rightarrow> string \<Rightarrow> string" where
  "getline_loop stream data_str =
     (if stream = [] then data_str
      else let line = takeWhile (\<lambda>c. c \<noteq> CHR 0x0A) stream;
               rest = drop (length line + 1) stream
           in if line = [] then data_str else getline_loop rest line)"
  by pat_completeness auto
termination
  by (relation "measure (\<lambda>(stream, _). length stream)") auto

declare getline_loop.simps [simp del]

definition response_data :: "string \<Rightarrow> string" where
  "response_data response = getline_loop response []"

section \<open>State\<close>

record http_request =
  rq_method :: string
  rq_target :: string
  rq_version :: nat
  rq_fields :: "(string \<times> string) list"

text \<open>
  A timer is tagged with whether a later \<^verbatim>\<open>expires_after\<close> has cancelled its wait.
\<close>

datatype rest_op =
    R_timer bool | R_resolve | R_connect nat | R_handshake nat | R_write nat | R_read nat

record rest_handler = handler +
  r_interval :: int
  r_socket :: nat
  r_created :: nat
  r_request :: http_request
  r_pending :: "rest_op list"
  r_posted :: "string list"

definition empty_request :: http_request where
  "empty_request = \<lparr>rq_method = [], rq_target = [], rq_version = 11, rq_fields = []\<rparr>"

definition new_rest_handler :: "string \<Rightarrow> rest_handler" where
  "new_rest_handler symb =
     \<lparr>h_symbol = symb, h_host = [], h_port = [], h_endpoint = [], h_bound = False,
      r_interval = 5, r_socket = 0, r_created = 1, r_request = empty_request,
      r_pending = [], r_posted = []\<rparr>"

definition rest_setEndpoint :: "string \<Rightarrow> string \<Rightarrow> string \<Rightarrow> rest_handler \<Rightarrow> rest_handler" where
  "rest_setEndpoint host port endpoint s =
     s\<lparr>h_host := host, h_port := port, h_endpoint := endpoint,
       r_request := \<lparr>rq_method = ''GET'', rq_target = endpoint, rq_version = 11,
         rq_fields = [(''Host'', ''fapi.binance.com''), (''Accept'', ''*/*''),
                      (''Connection'', ''close'')]\<rparr>\<rparr>"

definition setPollingInterval :: "int \<Rightarrow> rest_handler \<Rightarrow> rest_handler" where
  "setPollingInterval new_interval s = s\<lparr>r_interval := new_interval\<rparr>"

definition rest_start :: "rest_op \<Rightarrow> rest_handler \<Rightarrow> rest_handler" where
  "rest_start op s = s\<lparr>r_pending := r_pending s @ [op]\<rparr>"

fun cancel_timer :: "rest_op \<Rightarrow> rest_op" where
  "cancel_timer (R_timer _) = R_timer True"
| "cancel_timer op = op"

section \<open>Operations\<close>

definition rest_run :: "rest_handler \<Rightarrow> rest_handler" where
  "rest_run s = rest_start (R_timer False) (s\<lparr>r_pending := map cancel_timer (r_pending s)\<rparr>)"

text \<open>The completion of the timer: a new stream, a new request, and the timer again.\<close>

definition rest_on_timer :: "error_code \<Rightarrow> rest_handler \<Rightarrow> rest_handler" where
  "rest_on_timer ec s =
     (if ec = EC_success
      then rest_run (rest_start R_resolve (s\<lparr>r_socket := r_created s, r_created := r_created s + 1\<rparr>))
      else s)"

definition rest_on_resolve :: "error_code \<Rightarrow> nat \<Rightarrow> rest_handler \<Rightarrow> rest_handler" where
  "rest_on_resolve ec socket s = (if ec = EC_success then rest_start (R_connect socket) s else s)"

definition rest_on_connect :: "error_code \<Rightarrow> nat \<Rightarrow> rest_handler \<Rightarrow> rest_handler" where
  "rest_on_connect ec socket s = (if ec = EC_success then rest_start (R_handshake socket) s else s)"

definition rest_on_handshake :: "error_code \<Rightarrow> nat \<Rightarrow> rest_handler \<Rightarrow> rest_handler" where
  "rest_on_handshake ec socket s = (if ec = EC_success then rest_start (R_write socket) s else s)"

definition rest_on_write :: "error_code \<Rightarrow> nat \<Rightarrow> rest_handler \<Rightarrow> rest_handler" where
  "rest_on_write ec socket s = (if ec = EC_success then rest_start (R_read socket) s else s)"

definition rest_on_read :: "error_code \<Rightarrow> string \<Rightarrow> rest_handler \<Rightarrow> rest_handler" where
  "rest_on_read ec response s =
     (if ec = EC_success \<or> ec = EC_eof
      then s\<lparr>r_posted := r_posted s @ [response_data response]\<rparr>
      else s)"

section \<open>Steps\<close>

text \<open>
  The completion lambdas pass \<^verbatim>\<open>this->socket_\<close> as it is when they run. \<open>response\<close> is what a read
  left in the response buffer.
\<close>

fun rest_complete :: "rest_op \<Rightarrow> error_code \<Rightarrow> string \<Rightarrow> rest_handler \<Rightarrow> rest_handler" where
  "rest_complete (R_timer cancelled) ec response s = rest_on_timer ec s"
| "rest_complete R_resolve ec response s = rest_on_resolve ec (r_socket s) s"
| "rest_complete (R_connect k) ec response s = rest_on_connect ec (r_socket s) s"
| "rest_complete (R_handshake k) ec response s = rest_on_handshake ec (r_socket s) s"
| "rest_complete (R_write k) ec response s = rest_on_write ec (r_socket s) s"
| "rest_complete (R_read k) ec response s = rest_on_read ec response s"

datatype rest_event = Rest_event rest_op error_code string

text \<open>A cancelled wait completes with \<^verbatim>\<open>operation_aborted\<close>.\<close>

inductive rest_step :: "rest_handler \<Rightarrow> rest_event \<Rightarrow> rest_handler \<Rightarrow> bool" where
  complete: "op \<in> set (r_pending s) \<Longrightarrow> (op = R_timer True \<Longrightarrow> ec = EC_aborted) \<Longrightarrow>
    rest_step s (Rest_event op ec response)
      (rest_complete op ec response (s\<lparr>r_pending := remove1 op (r_pending s)\<rparr>))"

inductive_cases rest_stepE: "rest_step s e s'"

inductive rest_steps :: "rest_handler \<Rightarrow> rest_event list \<Rightarrow> rest_handler \<Rightarrow> bool" where
  none: "rest_steps s [] s"
| more: "rest_step s e s1 \<Longrightarrow> rest_steps s1 es s2 \<Longrightarrow> rest_steps s (e # es) s2"

inductive_cases rest_stepsE: "rest_steps s (e # es) s'"

lemmas rest_handler_defs = rest_run_def rest_on_timer_def rest_on_resolve_def rest_on_connect_def
  rest_on_handshake_def rest_on_write_def rest_on_read_def rest_start_def

section \<open>The polling chain\<close>

definition live_timers :: "rest_handler \<Rightarrow> nat" where
  "live_timers s = count_list (r_pending s) (R_timer False)"

lemma count_remove1:
  "count_list (remove1 x xs) y = (if x = y \<and> x \<in> set xs then count_list xs y - 1 else count_list xs y)"
  by (induction xs) (auto simp: count_list_0_iff)

lemma cancel_timer_live [simp]: "cancel_timer op \<noteq> R_timer False"
  by (cases op) auto

lemma count_cancelled [simp]: "count_list (map cancel_timer ops) (R_timer False) = 0"
  by (induction ops) auto

fun timer_ok :: "rest_event \<Rightarrow> bool" where
  "timer_ok (Rest_event (R_timer False) ec response) \<longleftrightarrow> ec = EC_success"
| "timer_ok _ \<longleftrightarrow> True"

lemma rest_step_timers:
  assumes "rest_step s e s'" and "timer_ok e" and "live_timers s = 1"
  shows "live_timers s' = 1"
  using assms(1)
proof (cases rule: rest_step.cases)
  case (complete op ec response)
  have one: "count_list (r_pending s) (R_timer False) = 1" using assms(3) by (simp add: live_timers_def)
  show ?thesis
  proof (cases op)
    case (R_timer b)
    then show ?thesis
      using complete assms(2) one by (cases b) (auto simp: live_timers_def rest_handler_defs count_remove1)
  qed (use complete one in \<open>auto simp: live_timers_def rest_handler_defs count_remove1\<close>)
qed

section \<open>Streams and the operations on them\<close>

fun op_socket :: "rest_op \<Rightarrow> nat option" where
  "op_socket (R_connect k) = Some k"
| "op_socket (R_handshake k) = Some k"
| "op_socket (R_write k) = Some k"
| "op_socket (R_read k) = Some k"
| "op_socket _ = None"

fun is_timer :: "rest_op \<Rightarrow> bool" where
  "is_timer (R_timer b) \<longleftrightarrow> True"
| "is_timer _ \<longleftrightarrow> False"

definition requests :: "rest_handler \<Rightarrow> rest_op list" where
  "requests s = filter (\<lambda>op. \<not> is_timer op) (r_pending s)"

text \<open>
  What the network library asks of its caller: a stream outlives the operations started on it,
  and has at most one of them at a time.
\<close>

definition streams_alive :: "rest_handler \<Rightarrow> bool" where
  "streams_alive s \<longleftrightarrow> (\<forall>op \<in> set (r_pending s). \<forall>k. op_socket op = Some k \<longrightarrow> k = r_socket s)"

definition one_request :: "rest_handler \<Rightarrow> bool" where
  "one_request s \<longleftrightarrow> length (requests s) \<le> 1"

text \<open>A run in which the timer only fires while no request is under way.\<close>

inductive quiet_steps :: "rest_handler \<Rightarrow> rest_event list \<Rightarrow> rest_handler \<Rightarrow> bool" where
  quiet_none: "quiet_steps s [] s"
| quiet_more: "rest_step s e s1 \<Longrightarrow> (\<And>b ec r. e = Rest_event (R_timer b) ec r \<Longrightarrow> requests s = [])
    \<Longrightarrow> quiet_steps s1 es s2 \<Longrightarrow> quiet_steps s (e # es) s2"

lemma requests_cancel: "filter (\<lambda>op. \<not> is_timer op) (map cancel_timer ops) = filter (\<lambda>op. \<not> is_timer op) ops"
proof (induction ops)
  case (Cons op ops)
  then show ?case by (cases op) auto
qed simp

lemma filter_remove1_in:
  "x \<in> set xs \<Longrightarrow> P x \<Longrightarrow> length (filter P (remove1 x xs)) = length (filter P xs) - 1"
  by (simp add: filter_remove1 length_remove1)

lemma streams_alive_requests:
  "streams_alive s \<longleftrightarrow> (\<forall>op \<in> set (requests s). \<forall>k. op_socket op = Some k \<longrightarrow> k = r_socket s)"
proof -
  have "op_socket op = None" if "is_timer op" for op using that by (cases op) auto
  then show ?thesis by (fastforce simp: streams_alive_def requests_def)
qed

lemma rest_step_quiet:
  assumes step: "rest_step s e s'" and quiet: "\<And>b ec r. e = Rest_event (R_timer b) ec r \<Longrightarrow> requests s = []"
    and inv: "streams_alive s" "one_request s"
  shows "streams_alive s' \<and> one_request s'"
  using step
proof (cases rule: rest_step.cases)
  case (complete op ec response)
  let ?P = "\<lambda>op. \<not> is_timer op"
  let ?s = "s\<lparr>r_pending := remove1 op (r_pending s)\<rparr>"
  show ?thesis
  proof (cases "is_timer op")
    case True
    then obtain b where op: "op = R_timer b" by (cases op) auto
    then have none: "requests s = []" using quiet complete by blast
    then have "requests ?s = []" by (auto simp: requests_def filter_empty_conv dest: notin_set_remove1)
    then have "requests s' = (if ec = EC_success then [R_resolve] else [])"
      using complete(2) op
      by (auto simp: requests_def rest_handler_defs requests_cancel)
    then show ?thesis by (simp add: streams_alive_requests one_request_def)
  next
    case False
    have "op \<in> set (r_pending s)" using complete by blast
    then have "length (requests ?s) = length (requests s) - 1"
      using filter_remove1_in [of op "r_pending s" ?P] False by (simp add: requests_def)
    then have none: "requests ?s = []" using inv(2) by (simp add: one_request_def)
    then have f: "filter ?P (remove1 op (r_pending s)) = []" by (simp add: requests_def)
    have "requests s' = [] \<or> (\<exists>op'. requests s' = [op'] \<and> op_socket op' = Some (r_socket s'))"
      using complete(2) False f by (cases op) (auto simp: requests_def rest_handler_defs)
    then show ?thesis by (auto simp: streams_alive_requests one_request_def)
  qed
qed

lemma quiet_steps_inv:
  assumes "quiet_steps s es s'" and "streams_alive s" and "one_request s"
  shows "streams_alive s' \<and> one_request s'"
  using assms
proof (induction rule: quiet_steps.induct)
  case (quiet_more s e s1 es s2)
  then show ?case using rest_step_quiet [of s e s1] by blast
qed simp

section \<open>Lines\<close>

definition no_newline :: "string \<Rightarrow> bool" where
  "no_newline l \<longleftrightarrow> CHR 0x0A \<notin> set l"

lemma takeWhile_line:
  "no_newline l \<Longrightarrow> takeWhile (\<lambda>c. c \<noteq> CHR 0x0A) (l @ CHR 0x0A # r) = l"
  "no_newline l \<Longrightarrow> takeWhile (\<lambda>c. c \<noteq> CHR 0x0A) l = l"
  by (induction l) (auto simp: no_newline_def)

lemma getline_loop_line:
  "no_newline l \<Longrightarrow> l \<noteq> [] \<Longrightarrow> getline_loop (l @ CHR 0x0A # r) d = getline_loop r l"
  by (subst getline_loop.simps) (simp add: takeWhile_line)

lemma getline_loop_last:
  "no_newline l \<Longrightarrow> l \<noteq> [] \<Longrightarrow> getline_loop l d = l"
  by (subst getline_loop.simps) (simp add: takeWhile_line getline_loop.simps [of "[]"])

lemma getline_loop_empty [simp]:
  "getline_loop [] d = d" "getline_loop (CHR 0x0A # r) d = d"
  by (subst getline_loop.simps, simp)+

lemma getline_loop_lines:
  "list_all (\<lambda>l. no_newline l \<and> l \<noteq> []) ls \<Longrightarrow>
     getline_loop (concat (map (\<lambda>l. l @ [CHR 0x0A]) ls) @ r) d = getline_loop r (last (d # ls))"
proof (induction ls arbitrary: d)
  case (Cons l ls)
  then show ?case by (simp add: getline_loop_line)
qed simp

section \<open>Properties of the REST handler\<close>

lemma rest_run_timers: "live_timers (rest_run s) = 1"
  by (simp add: live_timers_def rest_run_def rest_start_def)

lemma rest_steps_timers:
  assumes "rest_steps s es s'" and "list_all timer_ok es" and "live_timers s = 1"
  shows "live_timers s' = 1"
  using assms
proof (induction rule: rest_steps.induct)
  case (more s e s1 es s2)
  then show ?case using rest_step_timers [OF more.hyps(1)] by simp
qed simp

text \<open>
  C27: After \<open>run\<close> the polling goes on for ever whatever happens to the requests: as long as no wait of
  the timer fails, exactly one wait is running at every moment, and its completion starts the next
  request and the next wait.
\<close>

theorem polling_goes_on:
  assumes "rest_steps (rest_run s0) es s" and "list_all timer_ok es"
  shows "live_timers s = 1
    \<and> (\<exists>s'. rest_step s (Rest_event (R_timer False) EC_success []) s' \<and> live_timers s' = 1
        \<and> R_resolve \<in> set (r_pending s') \<and> r_socket s' = r_created s)"
proof -
  have one: "live_timers s = 1" by (rule rest_steps_timers [OF assms rest_run_timers])
  then have "R_timer False \<in> set (r_pending s)"
    by (metis count_list_0_iff live_timers_def zero_neq_one)
  then have step: "rest_step s (Rest_event (R_timer False) EC_success [])
      (rest_complete (R_timer False) EC_success [] (s\<lparr>r_pending := remove1 (R_timer False) (r_pending s)\<rparr>))"
    by (rule rest_step.complete) simp
  from rest_step_timers [OF this _ one] step one show ?thesis
    by (intro conjI exI) (auto simp: rest_handler_defs)
qed

theorem polling_goes_on_witness:
  "\<exists>s. rest_steps (rest_run (new_rest_handler ''btcusdt'')) [Rest_event (R_timer False) EC_success []] s
    \<and> live_timers s = 1"
proof -
  let ?s0 = "rest_run (new_rest_handler ''btcusdt'')"
  have n: "rest_steps ?s0 [] ?s0" by (rule rest_steps.none)
  obtain s where "rest_step ?s0 (Rest_event (R_timer False) EC_success []) s" "live_timers s = 1"
    using polling_goes_on [OF n] by auto
  then show ?thesis by (auto intro: rest_steps.intros)
qed

text \<open>
  C28: While every request ends before the timer fires again, the use of the stream objects is correct:
  no operation is pending on a stream that was replaced, and at most one request is under way.
\<close>

theorem quiet_polling_safe:
  assumes "r_pending s0 = []" and "quiet_steps (rest_run s0) es s"
  shows "streams_alive s \<and> one_request s"
  by (rule quiet_steps_inv [OF assms(2)])
    (simp_all add: streams_alive_def one_request_def requests_def rest_run_def rest_start_def assms(1))

text \<open>
  A run given by its events, and one in which the handler polls twice: the timer fires, the request goes
  through all its operations and its response is posted, the timer fires again and the next request
  connects.
\<close>

fun quiet_run :: "rest_event list \<Rightarrow> rest_handler \<Rightarrow> rest_handler option" where
  "quiet_run [] s = Some s"
| "quiet_run (Rest_event op ec response # es) s =
     (if op \<in> set (r_pending s) \<and> op \<noteq> R_timer True \<and> (is_timer op \<longrightarrow> requests s = [])
      then quiet_run es (rest_complete op ec response (s\<lparr>r_pending := remove1 op (r_pending s)\<rparr>))
      else None)"

lemma quiet_run_steps: "quiet_run es s = Some s' \<Longrightarrow> quiet_steps s es s'"
proof (induction es s rule: quiet_run.induct)
  case (2 op ec response es s)
  then have op: "op \<in> set (r_pending s)" "op \<noteq> R_timer True" "is_timer op \<longrightarrow> requests s = []"
    and q: "quiet_steps (rest_complete op ec response (s\<lparr>r_pending := remove1 op (r_pending s)\<rparr>)) es s'"
    by (auto split: if_splits)
  show ?case
    by (rule quiet_steps.quiet_more [OF rest_step.complete [OF op(1)] _ q]) (use op in auto)
qed (simp add: quiet_steps.quiet_none)

definition two_polls :: "rest_event list" where
  "two_polls =
     [Rest_event (R_timer False) EC_success [], Rest_event R_resolve EC_success [],
      Rest_event (R_connect 1) EC_success [], Rest_event (R_handshake 1) EC_success [],
      Rest_event (R_write 1) EC_success [], Rest_event (R_read 1) EC_eof ''{}'',
      Rest_event (R_timer False) EC_success [], Rest_event R_resolve EC_success []]"

theorem quiet_polling_safe_witness:
  "\<exists>s. quiet_steps (rest_run (new_rest_handler ''btcusdt'')) two_polls s
    \<and> requests s = [R_connect 2] \<and> r_posted s = [''{}''] \<and> streams_alive s \<and> one_request s"
proof -
  have start: "r_pending (new_rest_handler ''btcusdt'') = []" by (simp add: new_rest_handler_def)
  have "response_data ''{}'' = ''{}''" by code_simp
  then obtain s where s: "quiet_run two_polls (rest_run (new_rest_handler ''btcusdt'')) = Some s"
    "requests s = [R_connect 2]" "r_posted s = [''{}'']"
    by (simp add: two_polls_def new_rest_handler_def rest_handler_defs requests_def)
  from quiet_polling_safe [OF start quiet_run_steps [OF s(1)]] quiet_run_steps [OF s(1)] s(2,3)
  show ?thesis by blast
qed

lemma rest_steps_three:
  assumes "rest_step s e1 s1" and "rest_step s1 e2 s2" and "rest_step s2 e3 s3"
  shows "rest_steps s [e1, e2, e3] s3"
  using assms rest_steps.more rest_steps.none by metis

definition overlapping :: "rest_event list" where
  "overlapping =
     [Rest_event (R_timer False) EC_success [], Rest_event R_resolve EC_success [],
      Rest_event (R_timer False) EC_success []]"

text \<open>
  C29: When the timer fires while a request is still under way, the stream of that request is replaced:
  there is a run of three successful completions after which a connect is pending on a stream object
  that no longer exists.
\<close>

theorem overlap_dangles:
  "\<exists>s. rest_steps (rest_run (new_rest_handler symb)) overlapping s
    \<and> R_connect 1 \<in> set (r_pending s) \<and> r_socket s = 2 \<and> \<not> streams_alive s"
proof -
  let ?s0 = "rest_run (new_rest_handler symb)"
  let ?s1 = "rest_complete (R_timer False) EC_success [] (?s0\<lparr>r_pending := []\<rparr>)"
  let ?s2 = "rest_complete R_resolve EC_success [] (?s1\<lparr>r_pending := [R_timer False]\<rparr>)"
  let ?s3 = "rest_complete (R_timer False) EC_success [] (?s2\<lparr>r_pending := [R_connect 1]\<rparr>)"
  have "r_pending ?s0 = [R_timer False]" "r_pending ?s1 = [R_resolve, R_timer False]"
    "r_pending ?s2 = [R_timer False, R_connect 1]"
    by (simp_all add: rest_handler_defs new_rest_handler_def)
  then have "rest_step ?s0 (Rest_event (R_timer False) EC_success []) ?s1"
    "rest_step ?s1 (Rest_event R_resolve EC_success []) ?s2"
    "rest_step ?s2 (Rest_event (R_timer False) EC_success []) ?s3"
    using rest_step.complete [of "R_timer False" ?s0 EC_success "[]"]
      rest_step.complete [of R_resolve ?s1 EC_success "[]"]
      rest_step.complete [of "R_timer False" ?s2 EC_success "[]"] by simp_all
  then have "rest_steps ?s0 overlapping ?s3"
    unfolding overlapping_def by (rule rest_steps_three)
  moreover have "r_pending ?s3 = [R_connect 1, R_resolve, R_timer False]" "r_socket ?s3 = 2"
    by (simp_all add: rest_handler_defs new_rest_handler_def)
  ultimately show ?thesis by (intro exI [of _ ?s3]) (auto simp: streams_alive_def)
qed

definition crlf :: string where
  "crlf = [CHR 0x0D, CHR 0x0A]"

definition header_block :: "string list \<Rightarrow> string" where
  "header_block hs = concat (map (\<lambda>h. h @ crlf) hs) @ crlf"

lemma header_block_lines:
  assumes "list_all no_newline hs"
  shows "getline_loop (header_block hs @ r) d = getline_loop r [CHR 0x0D]"
proof -
  let ?ls = "map (\<lambda>h. h @ [CHR 0x0D]) hs @ [[CHR 0x0D]]"
  have "header_block hs = concat (map (\<lambda>l. l @ [CHR 0x0A]) ?ls)"
    by (simp add: header_block_def crlf_def comp_def)
  moreover have "list_all (\<lambda>l. no_newline l \<and> l \<noteq> []) ?ls"
    using assms by (auto simp: list_all_iff no_newline_def)
  ultimately show ?thesis using getline_loop_lines [of ?ls r d] by simp
qed

text \<open>
  C30: Of a response whose body is one line the handler takes exactly the body. Of a response in
  chunked encoding (a size line, the line of data, the end chunk) it takes only the carriage return
  of the last line, which parses to null.
\<close>

theorem response_body:
  assumes "list_all no_newline hs" and "no_newline body" "body \<noteq> []" and "no_newline chunk"
  shows "response_data (header_block hs @ body) = body
    \<and> response_data (header_block hs @ chunk @ crlf @ body @ crlf @ ''0'' @ crlf @ crlf) = [CHR 0x0D]
    \<and> parseJsonString [CHR 0x0D] = Inr JNull"
proof -
  have cr: "no_newline (l @ [CHR 0x0D])" if "no_newline l" for l
    using that by (simp add: no_newline_def)
  have line: "getline_loop (l @ crlf @ r) d = getline_loop r (l @ [CHR 0x0D])" if "no_newline l" for l r d
    using getline_loop_line [OF cr [OF that], of r d] by (simp add: crlf_def)
  have "response_data (header_block hs @ body) = body"
    unfolding response_data_def header_block_lines [OF assms(1)]
    by (rule getline_loop_last [OF assms(2,3)])
  moreover have "getline_loop crlf (''0'' @ [CHR 0x0D]) = [CHR 0x0D]"
    using line [of "[]" "[]"] by (simp add: no_newline_def crlf_def)
  then have "response_data (header_block hs @ chunk @ crlf @ body @ crlf @ ''0'' @ crlf @ crlf) = [CHR 0x0D]"
    unfolding response_data_def header_block_lines [OF assms(1)] line [OF assms(4)] line [OF assms(2)]
    using line [of "''0''" crlf] by (simp add: no_newline_def)
  moreover have "parseJsonString [CHR 0x0D] = Inr JNull" by code_simp
  ultimately show ?thesis by blast
qed

theorem response_body_witness:
  "response_data (header_block [''HTTP/1.1 200 OK'', ''Connection: close''] @ ''[1]'') = ''[1]''"
  using response_body [of "[''HTTP/1.1 200 OK'', ''Connection: close'']" "''[1]''" "''3''"]
  by (simp add: no_newline_def)

end
