(* ===== verification/Connection_Manager.thy ===== *)
theory Connection_Manager
  imports Web_Socket Rest_Api
begin

text \<open>
  \<^verbatim>\<open>class ConnectionManager\<close> (\<^verbatim>\<open>include/connection.h\<close>, \<^verbatim>\<open>src/connection.cpp\<close>): the handlers of one
  instrument. A \<^verbatim>\<open>shared_ptr<ConnectionHandler>\<close> is a value of the datatype \<open>conn\<close>, and a call of a
  virtual function is a case distinction on it; the locale \<open>virtual_handler\<close> states what the calls
  of the manager rely on in both classes. The io context is a number, the cache whether it is set.
\<close>

section \<open>The interface of a handler\<close>

locale virtual_handler =
  fixes set_endpoint :: "string \<Rightarrow> string \<Rightarrow> string \<Rightarrow> 'h \<Rightarrow> 'h"
    and bind :: "'h \<Rightarrow> 'h"
    and run :: "'h \<Rightarrow> 'h"
    and symbol :: "'h \<Rightarrow> string"
    and place :: "'h \<Rightarrow> string \<times> string \<times> string"
    and bound :: "'h \<Rightarrow> bool"
    and pending :: "'h \<Rightarrow> nat"
  assumes set_endpoint_place: "place (set_endpoint host port endpoint h) = (host, port, endpoint)"
    and set_endpoint_keeps: "symbol (set_endpoint host port endpoint h) = symbol h"
      "bound (set_endpoint host port endpoint h) = bound h"
      "pending (set_endpoint host port endpoint h) = pending h"
    and bind_bound: "bound (bind h)"
    and bind_keeps: "symbol (bind h) = symbol h" "place (bind h) = place h" "pending (bind h) = pending h"
    and run_pending: "pending (run h) = pending h + 1"
    and run_keeps: "symbol (run h) = symbol h" "place (run h) = place h" "bound (run h) = bound h"
begin

lemma configured:
  "place (run (bind (set_endpoint host port endpoint h))) = (host, port, endpoint)"
  "symbol (run (bind (set_endpoint host port endpoint h))) = symbol h"
  "bound (run (bind (set_endpoint host port endpoint h)))"
  "pending (run (bind (set_endpoint host port endpoint h))) = pending h + 1"
  by (simp_all add: set_endpoint_place set_endpoint_keeps bind_bound bind_keeps run_pending run_keeps)

end

definition h_place :: "'a handler_scheme \<Rightarrow> string \<times> string \<times> string" where
  "h_place h = (h_host h, h_port h, h_endpoint h)"

interpretation wsh: virtual_handler ws_setEndpoint handler_bind_cache ws_run h_symbol h_place h_bound
    "\<lambda>h. length (ws_pending h)"
  by unfold_locales
    (simp_all add: ws_setEndpoint_def handler_bind_cache_def ws_run_def ws_start_def h_place_def)

interpretation rsh: virtual_handler rest_setEndpoint handler_bind_cache rest_run h_symbol h_place h_bound
    "\<lambda>h. length (r_pending h)"
  by unfold_locales
    (simp_all add: rest_setEndpoint_def handler_bind_cache_def rest_run_def rest_start_def h_place_def)

section \<open>The manager\<close>

datatype conn = WS_conn ws_handler | REST_conn rest_handler

record manager =
  cm_symbol :: string
  cm_period :: int
  cm_ioc :: nat
  cm_handlers :: "conn list"
  cm_bound :: bool

definition createConnection ::
  "string \<Rightarrow> string \<Rightarrow> string \<Rightarrow> bool \<Rightarrow> manager \<Rightarrow> manager" where
  "createConnection host port endpoint is_websocket m =
     (if is_websocket
      then m\<lparr>cm_handlers := cm_handlers m
              @ [WS_conn (ws_setEndpoint host port endpoint (new_ws_handler (cm_symbol m)))]\<rparr>
      else m\<lparr>cm_handlers := cm_handlers m
              @ [REST_conn (setPollingInterval (cm_period m)
                   (rest_setEndpoint host port endpoint (new_rest_handler (cm_symbol m))))]\<rparr>)"

text \<open>The loop \<^verbatim>\<open>for (int i = 0; i < n; i++)\<close> of the constructor.\<close>

function create_loop ::
  "int \<Rightarrow> int \<Rightarrow> string \<Rightarrow> string \<Rightarrow> string \<Rightarrow> bool \<Rightarrow> manager \<Rightarrow> manager" where
  "create_loop i n host port endpoint websock m =
     (if i < n then create_loop (i + 1) n host port endpoint websock
                      (createConnection host port endpoint websock m)
      else m)"
  by pat_completeness auto
termination
  by (relation "measure (\<lambda>(i, n, _). nat (n - i))") auto

declare create_loop.simps [simp del]

definition ConnectionManager ::
  "string \<Rightarrow> nat \<Rightarrow> string \<Rightarrow> string \<Rightarrow> string \<Rightarrow> string \<Rightarrow> string \<Rightarrow> string \<Rightarrow> int \<Rightarrow> int \<Rightarrow> int
     \<Rightarrow> manager" where
  "ConnectionManager symb ioc host_restapi port_restapi endpoint_restapi host_ws port_ws endpoint_ws
     replicas_restapi replicas_ws period_restapi =
     (let m0 = \<lparr>cm_symbol = symb, cm_period = period_restapi, cm_ioc = ioc, cm_handlers = [],
                cm_bound = False\<rparr>;
          m1 = create_loop 0 replicas_restapi host_restapi port_restapi endpoint_restapi False m0
      in create_loop 0 replicas_ws host_ws port_ws endpoint_ws True m1)"

definition conn_bind_cache :: "conn \<Rightarrow> conn" where
  "conn_bind_cache c =
     (case c of WS_conn h \<Rightarrow> WS_conn (handler_bind_cache h)
              | REST_conn h \<Rightarrow> REST_conn (handler_bind_cache h))"

definition conn_run :: "conn \<Rightarrow> conn" where
  "conn_run c = (case c of WS_conn h \<Rightarrow> WS_conn (ws_run h) | REST_conn h \<Rightarrow> REST_conn (rest_run h))"

definition manager_bind_cache :: "manager \<Rightarrow> manager" where
  "manager_bind_cache m = m\<lparr>cm_bound := True, cm_handlers := map conn_bind_cache (cm_handlers m)\<rparr>"

definition manager_run :: "manager \<Rightarrow> manager" where
  "manager_run m = m\<lparr>cm_handlers := map conn_run (cm_handlers m)\<rparr>"

text \<open>\<^verbatim>\<open>get_cache_size\<close> narrows the 64-bit size to an \<^verbatim>\<open>int\<close>.\<close>

definition get_cache_size :: "manager \<Rightarrow> cache \<Rightarrow> int" where
  "get_cache_size m c =
     (if \<not> cm_bound m then - 1 else sint (ucast (cache_size c) :: 32 word))"

section \<open>Which handlers a manager has\<close>

definition ws_conn :: "string \<Rightarrow> string \<Rightarrow> string \<Rightarrow> string \<Rightarrow> conn" where
  "ws_conn symb host port endpoint = WS_conn (ws_setEndpoint host port endpoint (new_ws_handler symb))"

definition rest_conn :: "string \<Rightarrow> int \<Rightarrow> string \<Rightarrow> string \<Rightarrow> string \<Rightarrow> conn" where
  "rest_conn symb period host port endpoint =
     REST_conn (setPollingInterval period
       (rest_setEndpoint host port endpoint (new_rest_handler symb)))"

lemma create_loop_handlers:
  "create_loop i n host port endpoint websock m =
     m\<lparr>cm_handlers := cm_handlers m @ replicate (nat (n - i))
        (if websock then ws_conn (cm_symbol m) host port endpoint
         else rest_conn (cm_symbol m) (cm_period m) host port endpoint)\<rparr>"
proof (induction i n host port endpoint websock m rule: create_loop.induct)
  case (1 i n host port endpoint websock m)
  show ?case
  proof (cases "i < n")
    case True
    then have "nat (n - i) = Suc (nat (n - (i + 1)))" by simp
    then show ?thesis
      using "1.IH" [OF True] True
      by (simp add: create_loop.simps [of i n] createConnection_def ws_conn_def rest_conn_def)
  next
    case False
    then show ?thesis by (simp add: create_loop.simps [of i n])
  qed
qed

lemma ConnectionManager_eq:
  "ConnectionManager symb ioc hr pr er hw pw ew nr nw period =
     \<lparr>cm_symbol = symb, cm_period = period, cm_ioc = ioc,
      cm_handlers = replicate (nat nr) (rest_conn symb period hr pr er)
                    @ replicate (nat nw) (ws_conn symb hw pw ew),
      cm_bound = False\<rparr>"
  by (simp add: ConnectionManager_def create_loop_handlers)

definition conn_symbol :: "conn \<Rightarrow> string" where
  "conn_symbol c = (case c of WS_conn h \<Rightarrow> h_symbol h | REST_conn h \<Rightarrow> h_symbol h)"

definition conn_place :: "conn \<Rightarrow> string \<times> string \<times> string" where
  "conn_place c = (case c of WS_conn h \<Rightarrow> h_place h | REST_conn h \<Rightarrow> h_place h)"

definition conn_bound :: "conn \<Rightarrow> bool" where
  "conn_bound c = (case c of WS_conn h \<Rightarrow> h_bound h | REST_conn h \<Rightarrow> h_bound h)"

definition conn_pending :: "conn \<Rightarrow> nat" where
  "conn_pending c = (case c of WS_conn h \<Rightarrow> length (ws_pending h) | REST_conn h \<Rightarrow> length (r_pending h))"

lemmas conn_defs = conn_symbol_def conn_place_def conn_bound_def conn_pending_def

lemma conn_started:
  "conn_symbol (conn_run (conn_bind_cache c)) = conn_symbol c"
  "conn_place (conn_run (conn_bind_cache c)) = conn_place c"
  "conn_bound (conn_run (conn_bind_cache c))"
  "conn_pending (conn_run (conn_bind_cache c)) = conn_pending c + 1"
  by (cases c; simp add: conn_defs conn_run_def conn_bind_cache_def wsh.run_keeps rsh.run_keeps
      wsh.bind_keeps rsh.bind_keeps wsh.bind_bound rsh.bind_bound wsh.run_pending rsh.run_pending)+

lemma new_conn:
  "conn_symbol (ws_conn symb host port endpoint) = symb"
  "conn_place (ws_conn symb host port endpoint) = (host, port, endpoint)"
  "conn_pending (ws_conn symb host port endpoint) = 0"
  "conn_symbol (rest_conn symb period host port endpoint) = symb"
  "conn_place (rest_conn symb period host port endpoint) = (host, port, endpoint)"
  "conn_pending (rest_conn symb period host port endpoint) = 0"
  by (simp_all add: conn_defs ws_conn_def rest_conn_def ws_setEndpoint_def
      setPollingInterval_def rest_setEndpoint_def h_place_def new_ws_handler_def new_rest_handler_def)

section \<open>Properties of the manager\<close>

text \<open>
  A manager that was constructed, bound to a cache and run has as many REST and web socket
  handlers as it was given replicas (none for a negative number), each with the host, port and
  endpoint of its kind and the symbol of the manager, bound to the cache, and with exactly one
  operation under way.
\<close>

theorem manager_started:
  fixes symb ioc hr pr er hw pw ew nr nw period
  defines "m \<equiv> manager_run (manager_bind_cache (ConnectionManager symb ioc hr pr er hw pw ew nr nw period))"
  shows "map conn_place (cm_handlers m) = replicate (nat nr) (hr, pr, er) @ replicate (nat nw) (hw, pw, ew)
    \<and> list_all (\<lambda>c. conn_symbol c = symb \<and> conn_bound c \<and> conn_pending c = 1) (cm_handlers m)"
  by (auto simp: m_def manager_run_def manager_bind_cache_def ConnectionManager_eq comp_def
      conn_started new_conn list_all_iff)

text \<open>
  \<open>get_cache_size\<close> is -1 before a cache is bound; afterwards, for a cache with fewer than 2^31
  places, it is the number of messages stored, in spite of the conversion to \<open>int\<close>.
\<close>

theorem manager_cache_size:
  assumes "c_wf c" and "c_room c < 2 ^ 31"
  shows "get_cache_size m c = (if cm_bound m then int (length (c_items c)) else - 1)"
proof -
  let ?n = "length (c_items c)"
  have n: "unat (cache_size c) = ?n" "?n \<le> c_room c"
    using assms(1) q_size_length [of "c_queue c"] q_length_le [of "c_queue c"]
    by (simp_all add: c_wf_def cache_size_def c_items_def c_room_def)
  have "(ucast (cache_size c) :: 32 word) = of_nat ?n"
    by (simp add: n(1) [symmetric])
  then have "sint (ucast (cache_size c) :: 32 word) = int ?n"
    using n(2) assms(2) by (simp add: signed_of_nat signed_take_bit_int_eq_self)
  then show ?thesis by (simp add: get_cache_size_def)
qed

theorem manager_cache_size_witness:
  "get_cache_size (manager_bind_cache (ConnectionManager ''btcusdt'' 0 [] [] [] [] [] [] 1 2 1))
     (small_cache [update_msg ''btcusdt'' 1, update_msg ''btcusdt'' 2, update_msg ''btcusdt'' 4] 4) = 3"
  by (subst manager_cache_size)
    (simp_all add: small_cache_wf small_cache_room small_cache_items manager_bind_cache_def)

end
