(* ===== verification/Consumer.thy ===== *)
theory Consumer
  imports Message_Cache "HOL-Library.Multiset"
begin

text \<open>
  \<^verbatim>\<open>class Consumer\<close> (\<^verbatim>\<open>include/consumer.h\<close>, \<^verbatim>\<open>src/consumer.cpp\<close>). The io context is the list
  of posted tasks, oldest first. A task is the polling lambda of \<^verbatim>\<open>run\<close> or the delivery lambda it
  posts. The two callbacks are functions that may throw; the calls made are logged with their
  argument. An event runs the task at a position of the list (position 0 is what one thread
  in \<^verbatim>\<open>io_context::run\<close> takes; several threads may overtake), or is a message a connection puts
  into the shared cache meanwhile.
\<close>

section \<open>State\<close>

datatype task = Poll | Deliver msg

type_synonym callback = "orderbook \<Rightarrow> unit outcome"

record consumer =
  co_cache :: "cache option"
  co_ws :: "callback option"
  co_rest :: "callback option"
  co_tasks :: "task list"
  co_log :: "(msg_source \<times> orderbook) list"

definition Consumer :: consumer where
  "Consumer = \<lparr>co_cache = None, co_ws = None, co_rest = None, co_tasks = [], co_log = []\<rparr>"

definition consumer_bind_cache :: "cache option \<Rightarrow> consumer \<Rightarrow> consumer" where
  "consumer_bind_cache buffer_queue s = s\<lparr>co_cache := buffer_queue\<rparr>"

definition bind_callback_onOrderBook :: "callback \<Rightarrow> bool \<Rightarrow> consumer \<Rightarrow> consumer" where
  "bind_callback_onOrderBook callback is_websocket s =
     (if is_websocket then s\<lparr>co_ws := Some callback\<rparr> else s\<lparr>co_rest := Some callback\<rparr>)"

definition post :: "task \<Rightarrow> consumer \<Rightarrow> consumer" where
  "post t s = s\<lparr>co_tasks := co_tasks s @ [t]\<rparr>"

section \<open>Operations\<close>

definition consumer_run :: "consumer \<Rightarrow> consumer outcome" where
  "consumer_run s =
     (if co_cache s = None then Inl (Assertion_failed ''buffer_queue_ != nullptr'')
      else Inr (post Poll s))"

text \<open>A call of a bound callback with the order book the message points to.\<close>

definition call_back :: "callback \<Rightarrow> msg \<Rightarrow> consumer \<Rightarrow> consumer outcome" where
  "call_back f m s =
     (case msg_data m of
        None \<Rightarrow> Inl (Undefined_behaviour ''null pointer dereference'')
      | Some ob \<Rightarrow>
          (case f ob of
             Inl e \<Rightarrow> Inl e
           | Inr _ \<Rightarrow> Inr (s\<lparr>co_log := co_log s @ [(msg_source m, ob)]\<rparr>)))"

definition onData :: "msg \<Rightarrow> consumer \<Rightarrow> consumer outcome" where
  "onData m s =
     (case msg_type m of
        MT_OrderBook \<Rightarrow>
          (case (if msg_source m = MS_WebSocket
                 then (case co_ws s of None \<Rightarrow> Inr s | Some f \<Rightarrow> call_back f m s)
                 else Inr s) of
             Inl e \<Rightarrow> Inl e
           | Inr s1 \<Rightarrow>
               if msg_source m = MS_RestApi
               then (case co_rest s1 of None \<Rightarrow> Inr s1 | Some f \<Rightarrow> call_back f m s1)
               else Inr s1)
      | _ \<Rightarrow> Inr s)"

text \<open>The two lambdas.\<close>

fun consumer_task :: "task \<Rightarrow> consumer \<Rightarrow> consumer outcome" where
  "consumer_task Poll s =
     (case co_cache s of
        None \<Rightarrow> Inl (Undefined_behaviour ''null pointer dereference'')
      | Some c \<Rightarrow>
          (case decache c of
             Inl e \<Rightarrow> Inl e
           | Inr (None, c1) \<Rightarrow> consumer_run (s\<lparr>co_cache := Some c1\<rparr>)
           | Inr (Some m, c1) \<Rightarrow> consumer_run (post (Deliver m) (s\<lparr>co_cache := Some c1\<rparr>))))"
| "consumer_task (Deliver m) s = onData m s"

section \<open>Runs\<close>

datatype consumer_event = Exec nat | Offer msg

definition remove_nth :: "nat \<Rightarrow> 'a list \<Rightarrow> 'a list" where
  "remove_nth i xs = take i xs @ drop (Suc i) xs"

definition consumer_exec :: "nat \<Rightarrow> consumer \<Rightarrow> consumer outcome" where
  "consumer_exec i s =
     (if i < length (co_tasks s)
      then consumer_task (co_tasks s ! i) (s\<lparr>co_tasks := remove_nth i (co_tasks s)\<rparr>)
      else Inr s)"

text \<open>\<open>consumer_events\<close> also collects the offered messages that the cache accepts.\<close>

fun consumer_events :: "consumer_event list \<Rightarrow> consumer \<Rightarrow> (msg list \<times> consumer) outcome" where
  "consumer_events [] s = Inr ([], s)"
| "consumer_events (Exec i # es) s =
     (case consumer_exec i s of Inl e \<Rightarrow> Inl e | Inr s1 \<Rightarrow> consumer_events es s1)"
| "consumer_events (Offer m # es) s =
     (case co_cache s of
        None \<Rightarrow> consumer_events es s
      | Some c \<Rightarrow>
          (case encache m c of
             Inl e \<Rightarrow> Inl e
           | Inr (ok, c1) \<Rightarrow>
               (case consumer_events es (s\<lparr>co_cache := Some c1\<rparr>) of
                  Inl e \<Rightarrow> Inl e
                | Inr (acc, s2) \<Rightarrow> Inr (if ok then m # acc else acc, s2))))"

section \<open>Messages on their way\<close>

fun delivered_by :: "task \<Rightarrow> msg list" where
  "delivered_by Poll = []"
| "delivered_by (Deliver m) = [m]"

definition in_flight :: "consumer \<Rightarrow> msg list" where
  "in_flight s =
     concat (map delivered_by (co_tasks s))
     @ (case co_cache s of None \<Rightarrow> [] | Some c \<Rightarrow> c_items c)"

text \<open>The calls that delivering a message makes.\<close>

definition calls_of :: "consumer \<Rightarrow> msg \<Rightarrow> (msg_source \<times> orderbook) list" where
  "calls_of s m =
     (if msg_type m = MT_OrderBook
         \<and> (msg_source m = MS_WebSocket \<and> co_ws s \<noteq> None \<or> msg_source m = MS_RestApi \<and> co_rest s \<noteq> None)
      then (case msg_data m of None \<Rightarrow> [] | Some ob \<Rightarrow> [(msg_source m, ob)])
      else [])"

definition calls :: "consumer \<Rightarrow> msg list \<Rightarrow> (msg_source \<times> orderbook) list" where
  "calls s ms = concat (map (calls_of s) ms)"

definition handled :: "consumer \<Rightarrow> msg \<Rightarrow> bool" where
  "handled s m = (case onData m s of Inl e \<Rightarrow> False | Inr s' \<Rightarrow> True)"

definition consumer_inv :: "consumer \<Rightarrow> bool" where
  "consumer_inv s \<longleftrightarrow> (case co_cache s of None \<Rightarrow> False | Some c \<Rightarrow> c_wf c)
     \<and> count_list (co_tasks s) Poll = 1"

lemma calls_simps [simp]:
  "calls s [] = []" "calls s (m # ms) = calls_of s m @ calls s ms"
  "calls s (xs @ ys) = calls s xs @ calls s ys"
  by (simp_all add: calls_def)

lemma calls_cong:
  assumes "co_ws s = co_ws s'" and "co_rest s = co_rest s'"
  shows "calls s = calls s'"
proof -
  have "calls_of s = calls_of s'" using assms by (simp add: calls_of_def fun_eq_iff)
  then show ?thesis by (simp add: calls_def [abs_def])
qed

lemma onData_calls:
  "onData m s = Inr s' \<Longrightarrow> s' = s\<lparr>co_log := co_log s @ calls_of s m\<rparr>"
  by (cases "msg_type m"; cases "msg_source m")
    (auto simp: onData_def calls_of_def call_back_def split: option.splits sum.splits)

lemma onData_handled:
  assumes "handled s m" and "co_ws s' = co_ws s" and "co_rest s' = co_rest s"
  shows "onData m s' = Inr (s'\<lparr>co_log := co_log s' @ calls_of s' m\<rparr>)"
proof -
  have "\<exists>x. onData m s' = Inr x"
    using assms
    by (cases "msg_type m"; cases "msg_source m")
      (auto simp: handled_def onData_def call_back_def split: option.splits sum.splits)
  then show ?thesis using onData_calls by auto
qed

section \<open>One event\<close>

lemma Poll_task:
  assumes c: "co_cache s = Some c" "c_wf c"
  obtains "c_items c = []" "consumer_task Poll s = Inr (post Poll s)"
    | m c' where "c_items c = m # c_items c'" "c_wf c'"
      "consumer_task Poll s = Inr (post Poll (post (Deliver m) (s\<lparr>co_cache := Some c'\<rparr>)))"
proof (rule mc.dec_cases [OF c(2)])
  assume r: "c_items c = []" "decache c = Inr (None, c)"
  have same: "s\<lparr>co_cache := Some c\<rparr> = s" using c(1) by simp
  have "consumer_task Poll s = consumer_run (s\<lparr>co_cache := Some c\<rparr>)" using r(2) c(1) by simp
  then show ?thesis using that(1) r c(1) by (simp only: same) (simp add: consumer_run_def)
next
  fix m ms c' assume "c_items c = m # ms" "decache c = Inr (Some m, c')" "c_wf c'" "c_items c' = ms"
  then show ?thesis using that(2) [of m c'] c(1) by (simp add: consumer_run_def post_def)
qed

lemma remove_nth_parts:
  assumes "i < length xs"
  obtains ys zs where "xs = ys @ xs ! i # zs" "remove_nth i xs = ys @ zs" "length ys = i"
  using assms that [of "take i xs" "drop (Suc i) xs"] by (simp add: remove_nth_def id_take_nth_drop)

text \<open>
  Running a task: the invariant is kept, and no message that is on its way is lost or doubled. In
  order (position 0) the sequence of calls is kept too.
\<close>

lemma consumer_exec_effect:
  assumes inv: "consumer_inv s" and run: "consumer_exec i s = Inr s'"
  shows "consumer_inv s' \<and> co_ws s' = co_ws s \<and> co_rest s' = co_rest s
    \<and> mset (co_log s') + mset (calls s (in_flight s')) = mset (co_log s) + mset (calls s (in_flight s))
    \<and> (i = 0 \<longrightarrow> co_log s' @ calls s (in_flight s') = co_log s @ calls s (in_flight s))"
proof (cases "i < length (co_tasks s)")
  case False
  then show ?thesis using assms by (simp add: consumer_exec_def)
next
  case True
  obtain ys zs where parts: "co_tasks s = ys @ co_tasks s ! i # zs"
    "remove_nth i (co_tasks s) = ys @ zs" "length ys = i"
    using remove_nth_parts [OF True] by metis
  let ?s = "s\<lparr>co_tasks := ys @ zs\<rparr>"
  have r: "consumer_task (co_tasks s ! i) ?s = Inr s'"
    using run True parts(2) by (simp add: consumer_exec_def)
  show ?thesis
  proof (cases "co_tasks s ! i")
    case Poll
    have n: "count_list (ys @ zs) Poll = 0"
      using inv arg_cong [OF parts(1), of "\<lambda>ts. count_list ts Poll"] Poll
      by (simp add: consumer_inv_def)
    have fl: "in_flight ?s = in_flight s"
      using Poll by (subst (2) in_flight_def, subst parts(1)) (simp add: in_flight_def)
    obtain c where c: "co_cache ?s = Some c" "c_wf c"
      using inv by (auto simp: consumer_inv_def split: option.splits)
    have "in_flight s' = in_flight s \<and> consumer_inv s' \<and> co_log s' = co_log s
        \<and> co_ws s' = co_ws s \<and> co_rest s' = co_rest s"
    proof (rule Poll_task [OF c])
      assume "consumer_task Poll ?s = Inr (post Poll ?s)"
      then have "s' = post Poll ?s" using r Poll by simp
      then show ?thesis using fl n c by (simp add: post_def in_flight_def consumer_inv_def)
    next
      fix m c' assume m: "c_items c = m # c_items c'" "c_wf c'"
        "consumer_task Poll ?s = Inr (post Poll (post (Deliver m) (?s\<lparr>co_cache := Some c'\<rparr>)))"
      then have "s' = post Poll (post (Deliver m) (?s\<lparr>co_cache := Some c'\<rparr>))" using r Poll by simp
      then show ?thesis using fl n c m by (simp add: post_def in_flight_def consumer_inv_def)
    qed
    then show ?thesis by simp
  next
    case (Deliver m)
    have s': "s' = ?s\<lparr>co_log := co_log s @ calls_of s m\<rparr>"
      using onData_calls [of m ?s s'] r Deliver calls_cong [of ?s s] by (simp add: calls_of_def)
    have "calls s (in_flight s) = calls s (concat (map delivered_by ys)) @ calls_of s m
        @ calls s (concat (map delivered_by zs)) @ calls s (case co_cache s of None \<Rightarrow> [] | Some c \<Rightarrow> c_items c)"
      by (simp add: in_flight_def, subst parts(1)) (simp add: Deliver)
    moreover have "calls s (in_flight s') = calls s (concat (map delivered_by ys))
        @ calls s (concat (map delivered_by zs)) @ calls s (case co_cache s of None \<Rightarrow> [] | Some c \<Rightarrow> c_items c)"
      by (simp add: s' in_flight_def)
    moreover have "consumer_inv s'"
      using inv arg_cong [OF parts(1), of "\<lambda>ts. count_list ts Poll"] Deliver
      by (simp add: consumer_inv_def s')
    ultimately show ?thesis using parts(3) by (auto simp: s')
  qed
qed

section \<open>Whole runs\<close>

lemma Offer_effect:
  assumes inv: "consumer_inv s" and c: "co_cache s = Some c" and r: "encache m c = Inr (ok, c1)"
  shows "consumer_inv (s\<lparr>co_cache := Some c1\<rparr>)"
    and "in_flight (s\<lparr>co_cache := Some c1\<rparr>) = in_flight s @ (if ok then [m] else [])"
proof -
  have wf: "c_wf c" using inv c by (simp add: consumer_inv_def)
  have "c_wf c1 \<and> c_items c1 = c_items c @ (if ok then [m] else [])"
    by (rule mc.enc_cases [OF wf, of m]) (use r in auto)
  then show "consumer_inv (s\<lparr>co_cache := Some c1\<rparr>)"
    "in_flight (s\<lparr>co_cache := Some c1\<rparr>) = in_flight s @ (if ok then [m] else [])"
    using inv c by (simp_all add: consumer_inv_def in_flight_def)
qed

fun in_order :: "consumer_event \<Rightarrow> bool" where
  "in_order (Exec i) \<longleftrightarrow> i = 0"
| "in_order (Offer m) \<longleftrightarrow> True"

lemma consumer_events_Exec:
  "consumer_events (Exec i # es) s = Inr (acc, s') \<longleftrightarrow>
     (\<exists>s1. consumer_exec i s = Inr s1 \<and> consumer_events es s1 = Inr (acc, s'))"
  by (cases "consumer_exec i s") simp_all

lemma consumer_events_Offer:
  assumes c: "co_cache s = Some c" and r: "consumer_events (Offer m # es) s = Inr (acc, s')"
  obtains ok c1 acc1 where "encache m c = Inr (ok, c1)"
    "consumer_events es (s\<lparr>co_cache := Some c1\<rparr>) = Inr (acc1, s')" "acc = (if ok then [m] else []) @ acc1"
proof (cases "encache m c")
  case (Inl e)
  then show ?thesis using c r by simp
next
  case (Inr x)
  obtain ok c1 where x: "x = (ok, c1)" by (cases x)
  show ?thesis
  proof (cases "consumer_events es (s\<lparr>co_cache := Some c1\<rparr>)")
    case (Inl e)
    then show ?thesis using c r Inr x by simp
  next
    case (Inr y)
    obtain acc1 s2 where y: "y = (acc1, s2)" by (cases y)
    have "acc = (if ok then [m] else []) @ acc1" "s2 = s'"
      using c r \<open>encache m c = Inr x\<close> x Inr y by (simp_all split: if_splits)
    then show ?thesis using that \<open>encache m c = Inr x\<close> x Inr y by simp
  qed
qed

lemma consumer_events_effect:
  assumes "consumer_inv s" and "consumer_events es s = Inr (acc, s')"
  shows "consumer_inv s' \<and> co_ws s' = co_ws s \<and> co_rest s' = co_rest s
    \<and> mset (co_log s') + mset (calls s (in_flight s'))
      = mset (co_log s) + mset (calls s (in_flight s @ acc))
    \<and> (list_all in_order es \<longrightarrow>
        co_log s' @ calls s (in_flight s') = co_log s @ calls s (in_flight s @ acc))"
  using assms
proof (induction es arbitrary: s acc)
  case Nil
  then show ?case by simp
next
  case (Cons ev es)
  show ?case
  proof (cases ev)
    case (Exec i)
    then obtain s1 where s1: "consumer_exec i s = Inr s1" "consumer_events es s1 = Inr (acc, s')"
      using Cons.prems(2) by (simp only: consumer_events_Exec) blast
    note e = consumer_exec_effect [OF Cons.prems(1) s1(1)]
    have c: "calls s1 = calls s" using e by (intro calls_cong) simp_all
    have "consumer_inv s1" using e by simp
    note ih = Cons.IH [OF this s1(2), unfolded c]
    show ?thesis
    proof (intro conjI impI)
      show "consumer_inv s'" "co_ws s' = co_ws s" "co_rest s' = co_rest s" using ih e by simp_all
      have "mset (co_log s') + mset (calls s (in_flight s'))
          = (mset (co_log s1) + mset (calls s (in_flight s1))) + mset (calls s acc)"
        using ih by simp
      also have "\<dots> = (mset (co_log s) + mset (calls s (in_flight s))) + mset (calls s acc)"
        using e by (simp only:)
      finally show "mset (co_log s') + mset (calls s (in_flight s'))
          = mset (co_log s) + mset (calls s (in_flight s @ acc))" by simp
      assume "list_all in_order (ev # es)"
      then have "i = 0" "list_all in_order es" using Exec by simp_all
      then have "co_log s' @ calls s (in_flight s') = (co_log s1 @ calls s (in_flight s1)) @ calls s acc"
        using ih by simp
      also have "\<dots> = (co_log s @ calls s (in_flight s)) @ calls s acc"
        using e \<open>i = 0\<close> by (simp only: simp_thms)
      finally show "co_log s' @ calls s (in_flight s') = co_log s @ calls s (in_flight s @ acc)" by simp
    qed
  next
    case (Offer m)
    obtain c where c: "co_cache s = Some c"
      using Cons.prems(1) by (auto simp: consumer_inv_def split: option.splits)
    obtain ok c1 acc1 where c1: "encache m c = Inr (ok, c1)"
      "consumer_events es (s\<lparr>co_cache := Some c1\<rparr>) = Inr (acc1, s')"
      "acc = (if ok then [m] else []) @ acc1"
      by (rule consumer_events_Offer [OF c Cons.prems(2) [unfolded Offer]])
    let ?s = "s\<lparr>co_cache := Some c1\<rparr>"
    note o = Offer_effect [OF Cons.prems(1) c c1(1)]
    have k: "calls ?s = calls s" by (intro calls_cong) simp_all
    have fl: "in_flight ?s @ acc1 = in_flight s @ acc" by (simp add: o(2) c1(3))
    show ?thesis using Cons.IH [OF o(1) c1(2), unfolded k fl] Offer by simp
  qed
qed

lemma handled_cong:
  assumes "co_ws s' = co_ws s" and "co_rest s' = co_rest s"
  shows "handled s' m = handled s m"
proof -
  have "handled b m" if "handled a m" "co_ws b = co_ws a" "co_rest b = co_rest a" for a b
    using onData_handled [OF that] by (simp add: handled_def)
  then show ?thesis using assms by metis
qed

text \<open>Two steps of the loop deliver one message.\<close>

lemma two_steps:
  assumes tasks: "co_tasks s = [Poll]" and c: "co_cache s = Some c" "c_wf c" "c_items c = m # ms"
    and m: "handled s m"
  shows "\<exists>s' c'. consumer_events [Exec 0, Exec 0] s = Inr ([], s') \<and> co_tasks s' = [Poll]
    \<and> co_cache s' = Some c' \<and> c_wf c' \<and> c_items c' = ms \<and> co_log s' = co_log s @ calls_of s m
    \<and> co_ws s' = co_ws s \<and> co_rest s' = co_rest s"
proof -
  let ?s = "s\<lparr>co_tasks := []\<rparr>"
  have c0: "co_cache ?s = Some c" using c(1) by simp
  obtain c' where c': "c_items c' = ms" "c_wf c'"
    "consumer_task Poll ?s = Inr (s\<lparr>co_cache := Some c', co_tasks := [Deliver m, Poll]\<rparr>)"
    by (rule Poll_task [OF c0 c(2)]) (use c(3) that in \<open>simp_all add: post_def\<close>)
  have "onData m (s\<lparr>co_cache := Some c', co_tasks := [Poll]\<rparr>)
      = Inr (s\<lparr>co_cache := Some c', co_tasks := [Poll], co_log := co_log s @ calls_of s m\<rparr>)"
    using onData_handled [OF m, of "s\<lparr>co_cache := Some c', co_tasks := [Poll]\<rparr>"]
    by (simp add: calls_of_def)
  then show ?thesis
    using c' tasks by (simp add: consumer_exec_def remove_nth_def)
qed

lemma drain:
  assumes "co_tasks s = [Poll]" and "co_cache s = Some c" "c_wf c"
    and "list_all (handled s) (c_items c)"
  shows "\<exists>s' c'. consumer_events (replicate (2 * length (c_items c)) (Exec 0)) s = Inr ([], s')
    \<and> co_tasks s' = [Poll] \<and> co_cache s' = Some c' \<and> c_items c' = []
    \<and> co_log s' = co_log s @ calls s (c_items c)"
  using assms
proof (induction "c_items c" arbitrary: c s)
  case Nil
  then show ?case by simp
next
  case (Cons m ms)
  have m: "handled s m" "c_items c = m # ms" using Cons.prems(4) Cons.hyps(2) [symmetric] by simp_all
  obtain s1 c1 where s1: "consumer_events [Exec 0, Exec 0] s = Inr ([], s1)" "co_tasks s1 = [Poll]"
    "co_cache s1 = Some c1" "c_wf c1" "c_items c1 = ms" "co_log s1 = co_log s @ calls_of s m"
    "co_ws s1 = co_ws s" "co_rest s1 = co_rest s"
    using two_steps [OF Cons.prems(1-3) m(2,1)] by blast
  have h: "list_all (handled s1) (c_items c1)"
    using Cons.prems(4) m(2) s1(5) handled_cong [OF s1(7,8)] by (simp add: list_all_iff)
  have "calls s1 = calls s" using s1 by (intro calls_cong)
  moreover have "consumer_events (Exec 0 # Exec 0 # es) s = consumer_events es s1" for es
    using s1(1) by (auto split: sum.splits)
  ultimately show ?case
    using Cons.hyps(1) [OF s1(5) [symmetric] s1(2-4) h] s1(5,6) m(2) by simp
qed

section \<open>Properties of the consumer\<close>

text \<open>A consumer with two callbacks that never throw, polling a given cache.\<close>

definition polling :: "cache \<Rightarrow> consumer" where
  "polling c =
     \<lparr>co_cache = Some c, co_ws = Some (\<lambda>_. Inr ()), co_rest = Some (\<lambda>_. Inr ()),
      co_tasks = [Poll], co_log = []\<rparr>"

lemma polling_inv: "c_wf c \<Longrightarrow> consumer_inv (polling c)"
  by (simp add: polling_def consumer_inv_def)

text \<open>
  C23: In every run of the consumer's tasks, with connections putting messages into the cache in
  between, exactly one polling task is posted at any time and the well-formedness of the cache is
  kept; no order book is lost or delivered twice, whatever the order of the tasks; and when one
  thread takes the tasks in the order in which they were posted, the callbacks are called in the
  order in which the cache accepted the messages.
\<close>

theorem consumer_delivers:
  assumes "consumer_inv s" and "consumer_events es s = Inr (acc, s')"
  shows "consumer_inv s'
    \<and> mset (co_log s') + mset (calls s (in_flight s')) = mset (co_log s) + mset (calls s (in_flight s @ acc))
    \<and> (list_all in_order es \<longrightarrow>
        co_log s' @ calls s (in_flight s') = co_log s @ calls s (in_flight s @ acc))"
  using consumer_events_effect [OF assms] by blast

theorem consumer_delivers_witness:
  "\<exists>s'. consumer_events (Offer (update_msg ''btcusdt'' 9) # replicate 4 (Exec 0))
      (polling (small_cache [update_msg ''btcusdt'' 4] 4)) = Inr ([update_msg ''btcusdt'' 9], s')
    \<and> consumer_inv s' \<and> length (co_log s') = 2"
proof -
  let ?c = "small_cache [update_msg ''btcusdt'' 4] 4" let ?m = "update_msg ''btcusdt'' 9"
  have wf: "c_wf ?c" by (rule small_cache_wf) simp
  have items: "c_items ?c = [update_msg ''btcusdt'' 4]" 
    by (simp add: c_items_def q_list_def ring_def small_cache_def upt_rec)
  obtain c1 where c1: "encache ?m ?c = Inr (True, c1)" "c_wf c1" "c_items c1 = [update_msg ''btcusdt'' 4, ?m]"
    using mc.enc_readable [OF wf update_msg_id [of "''btcusdt''" 9]] by (auto simp: small_cache_room items)
  let ?s = "(polling ?c)\<lparr>co_cache := Some c1\<rparr>"
  have h: "handled ?s (update_msg symb u)" for symb u
    by (simp add: handled_def onData_def call_back_def polling_def update_msg_def)
  have k: "length (calls ?s (c_items c1)) = 2" by (simp add: c1(3) calls_of_def polling_def update_msg_def)
  have "co_tasks ?s = [Poll]" "co_cache ?s = Some c1" "co_log ?s = []" by (simp_all add: polling_def)
  from drain [OF this(1,2) c1(2)] this(3) h obtain s' where
    s': "consumer_events (replicate 4 (Exec 0)) ?s = Inr ([], s')" "co_log s' = calls ?s (c_items c1)"
    by (auto simp: c1(3) simp del: consumer_events.simps(2) calls_simps)
  then have "consumer_events (Offer ?m # replicate 4 (Exec 0)) (polling ?c) = Inr ([?m], s')"
    using c1(1) by (simp add: polling_def del: consumer_events.simps(2))
  from consumer_delivers [OF polling_inv [OF wf] this] this s'(2) k show ?thesis by auto
qed

text \<open>
  C24: When nothing more arrives, the consumer delivers everything: after two tasks per stored message
  the cache is empty, every callback due was called in order, and the consumer is polling again.
\<close>

theorem consumer_drains:
  assumes "co_tasks s = [Poll]" and "co_cache s = Some c" and "c_wf c"
    and "list_all (handled s) (c_items c)"
  shows "\<exists>s' c'. consumer_events (replicate (2 * length (c_items c)) (Exec 0)) s = Inr ([], s')
    \<and> co_tasks s' = [Poll] \<and> co_cache s' = Some c' \<and> c_items c' = []
    \<and> co_log s' = co_log s @ calls s (c_items c)"
  by (rule drain [OF assms])

theorem consumer_drains_witness:
  "\<exists>s' c'. consumer_events (replicate 6 (Exec 0))
      (polling (small_cache [update_msg ''btcusdt'' 1, update_msg ''btcusdt'' 2, update_msg ''btcusdt'' 4] 4))
      = Inr ([], s') \<and> co_cache s' = Some c' \<and> c_items c' = [] \<and> length (co_log s') = 3"
proof -
  let ?ms = "[update_msg ''btcusdt'' 1, update_msg ''btcusdt'' 2, update_msg ''btcusdt'' 4]"
  let ?c = "small_cache ?ms 4" let ?s = "polling ?c"
  have h: "handled ?s (update_msg symb u)" for symb u
    by (simp add: handled_def onData_def call_back_def polling_def update_msg_def)
  have k: "length (calls ?s ?ms) = 3" by (simp add: calls_of_def polling_def update_msg_def)
  have "c_wf ?c" by (rule small_cache_wf) simp
  from consumer_drains [of ?s ?c, OF _ _ this] h k show ?thesis
    by (auto simp: small_cache_items polling_def simp del: consumer_events.simps calls_simps)
qed

end
