(* ===== verification/Client.thy ===== *)
theory Client
  imports Connection_Manager Consumer
begin

text \<open>
  \<^verbatim>\<open>class Client\<close> (\<^verbatim>\<open>include/client.h\<close>, \<^verbatim>\<open>src/client.cpp\<close>) and the client of \<^verbatim>\<open>app/main.cpp\<close>:
  the configuration, the objects that \<^verbatim>\<open>setup\<close> builds and \<^verbatim>\<open>run\<close> starts. The INI reader is
  not part of the sources: \<open>ini_parse\<close> is a parameter that gives, for a file name, the return code
  and the calls of the handler it makes. Members without an initialiser have arbitrary values,
  which are arguments here.
\<close>

section \<open>Configuration\<close>

record setup_cfg =
  su_host_restapi :: string
  su_port_restapi :: string
  su_host_ws :: string
  su_port_ws :: string
  su_replicas_restapi :: int
  su_replicas_ws :: int
  su_period_restapi :: int

record subscription =
  sub_symbol :: string
  sub_channel :: string
  sub_limit :: string

record config =
  cfg_setup :: setup_cfg
  cfg_subscriptions :: "subscription list"

text \<open>
  \<^verbatim>\<open>Client::Config config;\<close> leaves the integers of \<^verbatim>\<open>setup\<close> indeterminate: \<open>r0\<close>, \<open>w0\<close>, \<open>p0\<close>.
\<close>

definition new_config :: "int \<Rightarrow> int \<Rightarrow> int \<Rightarrow> config" where
  "new_config r0 w0 p0 =
     \<lparr>cfg_setup = \<lparr>su_host_restapi = [], su_port_restapi = [], su_host_ws = [], su_port_ws = [],
        su_replicas_restapi = r0, su_replicas_ws = w0, su_period_restapi = p0\<rparr>,
      cfg_subscriptions = []\<rparr>"

text \<open>One call of an INI handler: section, name and value, the last two possibly null.\<close>

type_synonym ini_entry = "string \<times> string option \<times> string option"

type_synonym ini_reader = "string \<Rightarrow> int \<times> ini_entry list"

definition set_setup :: "(setup_cfg \<Rightarrow> setup_cfg) \<Rightarrow> config \<Rightarrow> config" where
  "set_setup f c = c\<lparr>cfg_setup := f (cfg_setup c)\<rparr>"

definition null_error :: "'a outcome" where
  "null_error = Inl (Undefined_behaviour ''null pointer dereference'')"

text \<open>Assignment of a \<^verbatim>\<open>const char*\<close> to a string, and \<^verbatim>\<open>std::stoi\<close> of one.\<close>

definition from_cstr :: "string option \<Rightarrow> (string \<Rightarrow> config) \<Rightarrow> config outcome" where
  "from_cstr value f = (case value of None \<Rightarrow> null_error | Some v \<Rightarrow> Inr (f v))"

definition from_stoi :: "string option \<Rightarrow> (int \<Rightarrow> config) \<Rightarrow> config outcome" where
  "from_stoi value f =
     (case value of
        None \<Rightarrow> null_error
      | Some v \<Rightarrow> (case stoi v of Inl e \<Rightarrow> Inl e | Inr n \<Rightarrow> Inr (f n)))"

fun setup_callback :: "ini_entry \<Rightarrow> config \<Rightarrow> config outcome" where
  "setup_callback (sect, name, val) c =
     (if sect = ''restapi''
      then (case name of
          None \<Rightarrow> null_error
        | Some n \<Rightarrow>
            if n = ''host'' then from_cstr val (\<lambda>v. set_setup (su_host_restapi_update (\<lambda>_. v)) c)
            else if n = ''port'' then from_cstr val (\<lambda>v. set_setup (su_port_restapi_update (\<lambda>_. v)) c)
            else if n = ''replicas'' then from_stoi val (\<lambda>v. set_setup (su_replicas_restapi_update (\<lambda>_. v)) c)
            else if n = ''period_second'' then from_stoi val (\<lambda>v. set_setup (su_period_restapi_update (\<lambda>_. v)) c)
            else Inr c)
      else if sect = ''websocket''
      then (case name of
          None \<Rightarrow> null_error
        | Some n \<Rightarrow>
            if n = ''host'' then from_cstr val (\<lambda>v. set_setup (su_host_ws_update (\<lambda>_. v)) c)
            else if n = ''port'' then from_cstr val (\<lambda>v. set_setup (su_port_ws_update (\<lambda>_. v)) c)
            else if n = ''replicas'' then from_stoi val (\<lambda>v. set_setup (su_replicas_ws_update (\<lambda>_. v)) c)
            else Inr c)
      else Inr c)"

fun subscription_callback :: "ini_entry \<Rightarrow> config \<Rightarrow> config outcome" where
  "subscription_callback (sect, name, val) c =
     (case (name, val) of
        (Some n, Some v) \<Rightarrow>
          Inr (c\<lparr>cfg_subscriptions := cfg_subscriptions c
                   @ [\<lparr>sub_symbol = sect, sub_channel = n, sub_limit = v\<rparr>]\<rparr>)
      | _ \<Rightarrow> Inr c)"

fun ini_calls :: "(ini_entry \<Rightarrow> config \<Rightarrow> config outcome) \<Rightarrow> ini_entry list \<Rightarrow> config \<Rightarrow> config outcome" where
  "ini_calls callback [] c = Inr c"
| "ini_calls callback (e # es) c =
     (case callback e c of Inl x \<Rightarrow> Inl x | Inr c1 \<Rightarrow> ini_calls callback es c1)"

definition cannot_load :: "string \<Rightarrow> cpp_error" where
  "cannot_load file = Runtime_error (''Can'' @ [CHR 0x27] @ ''t load '' @ file)"

definition load_config ::
  "ini_reader \<Rightarrow> int \<Rightarrow> int \<Rightarrow> int \<Rightarrow> string \<Rightarrow> string \<Rightarrow> config outcome" where
  "load_config ini_parse r0 w0 p0 setup_file subscription_file =
     (case ini_calls setup_callback (snd (ini_parse setup_file)) (new_config r0 w0 p0) of
        Inl e \<Rightarrow> Inl e
      | Inr c1 \<Rightarrow>
          if fst (ini_parse setup_file) < 0
          then Inl (cannot_load subscription_file)
          else
            (case ini_calls subscription_callback (snd (ini_parse subscription_file)) c1 of
               Inl e \<Rightarrow> Inl e
             | Inr c2 \<Rightarrow>
                 if fst (ini_parse subscription_file) < 0
                 then Inl (cannot_load subscription_file)
                 else Inr c2))"

section \<open>The client\<close>

text \<open>
  Io contexts are numbered in the order of their creation; \<open>cl_iocs\<close> lists those of the vector
  \<^verbatim>\<open>iocs_\<close> points to (an earlier vector is destroyed when the pointer is overwritten). A thread
  is the io context it runs. \<open>cl_looping\<close> says that \<^verbatim>\<open>ioc_consumer_.run()\<close> was entered.
\<close>

record client =
  cl_cfg :: config
  cl_n_instrument :: int
  cl_iocs :: "nat list option"
  cl_created :: nat
  cl_buffer :: cache
  cl_managers :: "manager list"
  cl_consumer :: "consumer option"
  cl_threads :: "nat list"
  cl_looping :: bool

definition Client :: "int \<Rightarrow> uint64_t \<Rightarrow> config \<Rightarrow> client outcome" where
  "Client n0 u0 cfg =
     (case Cache u0 1024 of
        Inl e \<Rightarrow> Inl e
      | Inr buf \<Rightarrow>
          Inr \<lparr>cl_cfg = cfg, cl_n_instrument = n0, cl_iocs = None, cl_created = 0, cl_buffer = buf,
               cl_managers = [], cl_consumer = None, cl_threads = [], cl_looping = False\<rparr>)"

definition endpoint_restapi :: "subscription \<Rightarrow> string" where
  "endpoint_restapi sub =
     ''/fapi/v1/'' @ sub_channel sub @ ''?symbol='' @ sub_symbol sub @ ''&limit='' @ sub_limit sub"

definition endpoint_ws :: "subscription \<Rightarrow> string" where
  "endpoint_ws sub = ''/ws/'' @ sub_symbol sub @ ''@'' @ sub_channel sub @ sub_limit sub"

text \<open>The body of the loop of \<^verbatim>\<open>setup\<close> for one subscription and its io context.\<close>

definition setup_instrument :: "setup_cfg \<Rightarrow> subscription \<Rightarrow> nat \<Rightarrow> manager" where
  "setup_instrument su sub ioc =
     manager_bind_cache
       (ConnectionManager (sub_symbol sub) ioc
          (su_host_restapi su) (su_port_restapi su) (endpoint_restapi sub)
          (su_host_ws su) (su_port_ws su) (endpoint_ws sub)
          (su_replicas_restapi su) (su_replicas_ws su) (su_period_restapi su))"

function setup_loop :: "int \<Rightarrow> int \<Rightarrow> nat list \<Rightarrow> client \<Rightarrow> client" where
  "setup_loop i n iocs cl =
     (if i < n
      then setup_loop (i + 1) n iocs
             (cl\<lparr>cl_managers := cl_managers cl
                  @ [setup_instrument (cfg_setup (cl_cfg cl))
                       (cfg_subscriptions (cl_cfg cl) ! nat i) (iocs ! nat i)]\<rparr>)
      else cl)"
  by pat_completeness auto
termination
  by (relation "measure (\<lambda>(i, n, _). nat (n - i))") auto

declare setup_loop.simps [simp del]

text \<open>\<^verbatim>\<open>setup\<close>; \<open>f_ws\<close> and \<open>f_rest\<close> are the overriders of the two virtual callbacks.\<close>

definition client_setup :: "callback \<Rightarrow> callback \<Rightarrow> client \<Rightarrow> client outcome" where
  "client_setup f_ws f_rest cl =
     (let n = sint (of_nat (length (cfg_subscriptions (cl_cfg cl))) :: 32 word)
      in if n < 0 then Inl (Length_error ''cannot create std::vector larger than max_size()'')
         else
           let iocs = [cl_created cl ..< cl_created cl + nat n];
               cl1 = setup_loop 0 n iocs
                       (cl\<lparr>cl_n_instrument := n, cl_iocs := Some iocs, cl_created := cl_created cl + nat n\<rparr>);
               con = bind_callback_onOrderBook f_rest False
                       (bind_callback_onOrderBook f_ws True
                          (consumer_bind_cache (Some (cl_buffer cl1)) Consumer))
           in Inr (cl1\<lparr>cl_consumer := Some con\<rparr>))"

text \<open>The loop \<^verbatim>\<open>for (i < n_instrument_) threads_.emplace_back(...)\<close>.\<close>

definition start_threads :: "int \<Rightarrow> nat list option \<Rightarrow> nat list outcome" where
  "start_threads n iocs =
     (if n \<le> 0 then Inr []
      else case iocs of
          None \<Rightarrow> null_error
        | Some ids \<Rightarrow>
            if nat n \<le> length ids then Inr (take (nat n) ids)
            else Inl (Undefined_behaviour ''vector index out of range''))"

definition client_run :: "client \<Rightarrow> client outcome" where
  "client_run cl =
     (if cl_managers cl = [] then Inl (Assertion_failed ''connection_managers_.size() > 0'')
      else case cl_consumer cl of
          None \<Rightarrow> Inl (Assertion_failed ''consumer_ != nullptr'')
        | Some con \<Rightarrow>
            (case consumer_run con of
               Inl e \<Rightarrow> Inl e
             | Inr con1 \<Rightarrow>
                 (case start_threads (cl_n_instrument cl) (cl_iocs cl) of
                    Inl e \<Rightarrow> Inl e
                  | Inr ts \<Rightarrow>
                      Inr (cl\<lparr>cl_managers := map manager_run (cl_managers cl),
                              cl_consumer := Some con1, cl_threads := cl_threads cl @ ts,
                              cl_looping := True\<rparr>))))"

text \<open>The destructor: the io contexts it stops; then it joins every thread.\<close>

definition client_destroy :: "client \<Rightarrow> nat list outcome" where
  "client_destroy cl = start_threads (cl_n_instrument cl) (cl_iocs cl)"

section \<open>The demo client\<close>

definition demo_line :: "string \<Rightarrow> orderbook \<Rightarrow> string outcome" where
  "demo_line prefix ob =
     (case json_index_const ''E'' (ob_data ob) of
        Inl e \<Rightarrow> Inl e
      | Inr j \<Rightarrow>
          (case json_to_uint64 j of
             Inl e \<Rightarrow> Inl e
           | Inr E \<Rightarrow> Inr (prefix @ ob_symbol ob @ '']  E: '' @ to_string (unat E))))"

definition onOrderBookWS :: "orderbook \<Rightarrow> string outcome" where
  "onOrderBookWS ob = demo_line ''onOrderBookWS----['' ob"

definition onOrderBookREST :: "orderbook \<Rightarrow> string outcome" where
  "onOrderBookREST ob = demo_line ''onOrderBookREST--['' ob"

text \<open>As callbacks of the consumer, without the line they log.\<close>

definition quiet :: "(orderbook \<Rightarrow> string outcome) \<Rightarrow> callback" where
  "quiet f ob = (case f ob of Inl e \<Rightarrow> Inl e | Inr line \<Rightarrow> Inr ())"

section \<open>What setup builds\<close>

lemma setup_loop_eq:
  assumes "0 \<le> i" "i \<le> n"
  shows "setup_loop i n iocs cl =
    cl\<lparr>cl_managers := cl_managers cl
        @ map (\<lambda>k. setup_instrument (cfg_setup (cl_cfg cl)) (cfg_subscriptions (cl_cfg cl) ! k) (iocs ! k))
            [nat i ..< nat n]\<rparr>"
  using assms
proof (induction i n iocs cl rule: setup_loop.induct)
  case (1 i n iocs cl)
  show ?case
  proof (cases "i < n")
    case True
    have "[nat i ..< nat n] = nat i # [nat (i + 1) ..< nat n]"
      using True "1.prems" by (simp add: upt_conv_Cons nat_add_distrib)
    then show ?thesis using "1.IH" [OF True] True "1.prems" by (simp add: setup_loop.simps [of i n])
  next
    case False
    then show ?thesis using "1.prems" by (subst setup_loop.simps) simp
  qed
qed

definition consumer_of :: "callback \<Rightarrow> callback \<Rightarrow> cache \<Rightarrow> consumer" where
  "consumer_of f_ws f_rest buf =
     \<lparr>co_cache = Some buf, co_ws = Some f_ws, co_rest = Some f_rest, co_tasks = [], co_log = []\<rparr>"

lemma small_count:
  "length xs < 2 ^ 31 \<Longrightarrow> sint (of_nat (length xs) :: 32 word) = int (length xs)"
  by (simp add: signed_of_nat signed_take_bit_int_eq_self)

lemma client_setup_eq:
  fixes cl :: client
  defines "subs \<equiv> cfg_subscriptions (cl_cfg cl)"
  assumes small: "length subs < 2 ^ 31"
  shows "client_setup f_ws f_rest cl =
    Inr (cl\<lparr>cl_n_instrument := int (length subs),
            cl_iocs := Some [cl_created cl ..< cl_created cl + length subs],
            cl_created := cl_created cl + length subs,
            cl_managers := cl_managers cl
              @ map (\<lambda>k. setup_instrument (cfg_setup (cl_cfg cl)) (subs ! k) (cl_created cl + k))
                  [0 ..< length subs],
            cl_consumer := Some (consumer_of f_ws f_rest (cl_buffer cl))\<rparr>)"
proof -
  have n: "sint (of_nat (length (cfg_subscriptions (cl_cfg cl))) :: 32 word) = int (length subs)"
    using small_count [OF small] by (simp add: subs_def)
  have m: "map (\<lambda>k. setup_instrument (cfg_setup (cl_cfg cl)) (subs ! k)
        ([cl_created cl ..< cl_created cl + length subs] ! k)) [0 ..< length subs]
    = map (\<lambda>k. setup_instrument (cfg_setup (cl_cfg cl)) (subs ! k) (cl_created cl + k)) [0 ..< length subs]"
    by simp
  show ?thesis
    unfolding client_setup_def Let_def n
    by (simp add: setup_loop_eq m subs_def [symmetric] consumer_of_def Consumer_def
        consumer_bind_cache_def bind_callback_onOrderBook_def)
qed

text \<open>Every handler of an instrument after \<^verbatim>\<open>setup\<close>, and after \<^verbatim>\<open>run\<close>.\<close>

lemma setup_instrument_handlers:
  "cm_handlers (setup_instrument su sub ioc) =
     replicate (nat (su_replicas_restapi su))
       (conn_bind_cache (rest_conn (sub_symbol sub) (su_period_restapi su)
          (su_host_restapi su) (su_port_restapi su) (endpoint_restapi sub)))
     @ replicate (nat (su_replicas_ws su))
       (conn_bind_cache (ws_conn (sub_symbol sub) (su_host_ws su) (su_port_ws su) (endpoint_ws sub)))"
  "cm_ioc (setup_instrument su sub ioc) = ioc"
  "cm_bound (setup_instrument su sub ioc)"
  by (simp_all add: setup_instrument_def manager_bind_cache_def ConnectionManager_eq)

text \<open>Configurations written as INI entries and read back.\<close>

definition setup_entries :: "setup_cfg \<Rightarrow> ini_entry list" where
  "setup_entries su =
     [(''restapi'', Some ''replicas'', Some (to_string (nat (su_replicas_restapi su)))),
      (''restapi'', Some ''period_second'', Some (to_string (nat (su_period_restapi su)))),
      (''restapi'', Some ''host'', Some (su_host_restapi su)),
      (''restapi'', Some ''port'', Some (su_port_restapi su)),
      (''websocket'', Some ''replicas'', Some (to_string (nat (su_replicas_ws su)))),
      (''websocket'', Some ''host'', Some (su_host_ws su)),
      (''websocket'', Some ''port'', Some (su_port_ws su))]"

definition subscription_entries :: "subscription list \<Rightarrow> ini_entry list" where
  "subscription_entries subs = map (\<lambda>s. (sub_symbol s, Some (sub_channel s), Some (sub_limit s))) subs"

lemma subscription_calls:
  "ini_calls subscription_callback (subscription_entries subs) c =
     Inr (c\<lparr>cfg_subscriptions := cfg_subscriptions c @ subs\<rparr>)"
proof (induction subs arbitrary: c)
  case (Cons s subs)
  then show ?case by (simp add: subscription_entries_def)
qed (simp add: subscription_entries_def)

lemma setup_calls:
  assumes "0 \<le> su_replicas_restapi su" "su_replicas_restapi su \<le> int_max"
    and "0 \<le> su_replicas_ws su" "su_replicas_ws su \<le> int_max"
    and "0 \<le> su_period_restapi su" "su_period_restapi su \<le> int_max"
  shows "ini_calls setup_callback (setup_entries su) c = Inr (c\<lparr>cfg_setup := su\<rparr>)"
  using assms
  by (simp add: setup_entries_def from_cstr_def from_stoi_def stoi_to_string set_setup_def)

lemma ini_calls_append:
  "ini_calls f (es @ fs) c = (case ini_calls f es c of Inl e \<Rightarrow> Inl e | Inr c1 \<Rightarrow> ini_calls f fs c1)"
  by (induction es arbitrary: c) (auto split: sum.split)

section \<open>Properties of the client\<close>

definition sample_setup :: setup_cfg where
  "sample_setup =
     \<lparr>su_host_restapi = ''fapi.binance.com'', su_port_restapi = ''443'',
      su_host_ws = ''fstream.binance.com'', su_port_ws = ''443'',
      su_replicas_restapi = 1, su_replicas_ws = 2, su_period_restapi = 1\<rparr>"

definition sample_subscriptions :: "subscription list" where
  "sample_subscriptions =
     [\<lparr>sub_symbol = ''btcusdt'', sub_channel = ''depth'', sub_limit = ''5''\<rparr>,
      \<lparr>sub_symbol = ''ethusdt'', sub_channel = ''depth'', sub_limit = ''20''\<rparr>]"

definition sample_ini :: ini_reader where
  "sample_ini file =
     (if file = ''setup.ini'' then (0, setup_entries sample_setup)
      else if file = ''subscription.ini'' then (0, subscription_entries sample_subscriptions)
      else (- 1, []))"

text \<open>
  Loading a configuration that was written as INI entries gives it back: all seven settings, the
  three integers from their decimal digits, and the subscriptions in their order; the indeterminate
  values the integers start with have no influence.
\<close>

theorem config_roundtrip:
  assumes "ini_parse setup_file = (rc1, setup_entries su)" and "0 \<le> rc1"
    and "ini_parse subscription_file = (rc2, subscription_entries subs)" and "0 \<le> rc2"
    and "\<forall>n \<in> {su_replicas_restapi su, su_replicas_ws su, su_period_restapi su}. 0 \<le> n \<and> n \<le> int_max"
  shows "load_config ini_parse r0 w0 p0 setup_file subscription_file =
    Inr \<lparr>cfg_setup = su, cfg_subscriptions = subs\<rparr>"
  using assms by (simp add: load_config_def setup_calls subscription_calls new_config_def)

theorem config_roundtrip_witness:
  "load_config sample_ini 7 8 9 ''setup.ini'' ''subscription.ini'' =
    Inr \<lparr>cfg_setup = sample_setup, cfg_subscriptions = sample_subscriptions\<rparr>"
  by (rule config_roundtrip [of _ _ 0 _ _ 0]) (simp_all add: sample_ini_def sample_setup_def int_max_def)

lemma setup_callback_keeps:
  assumes "setup_callback e c = Inr c'" and "e = (sect, name, val)"
    and "\<not> (sect = ''restapi'' \<and> name = Some ''replicas'')"
  shows "su_replicas_restapi (cfg_setup c') = su_replicas_restapi (cfg_setup c)"
  using assms
  by (auto simp: from_cstr_def from_stoi_def set_setup_def null_error_def
      split: if_splits option.splits sum.splits)

lemma setup_calls_keep:
  "ini_calls setup_callback es c = Inr c' \<Longrightarrow>
     \<forall>val. (''restapi'', Some ''replicas'', val) \<notin> set es \<Longrightarrow>
     su_replicas_restapi (cfg_setup c') = su_replicas_restapi (cfg_setup c)"
proof (induction es arbitrary: c)
  case (Cons e es)
  obtain sect name val where e: "e = (sect, name, val)" by (cases e)
  obtain c1 where c1: "setup_callback e c = Inr c1" "ini_calls setup_callback es c1 = Inr c'"
    using Cons.prems(1) by (auto simp del: setup_callback.simps split: sum.splits)
  have "su_replicas_restapi (cfg_setup c1) = su_replicas_restapi (cfg_setup c)"
    using Cons.prems(2) e by (intro setup_callback_keeps [OF c1(1) e]) auto
  then show ?case using Cons.IH [OF c1(2)] Cons.prems(2) by auto
qed simp

lemma subscription_calls_keep:
  "ini_calls subscription_callback es c = Inr c' \<Longrightarrow> cfg_setup c' = cfg_setup c"
proof (induction es arbitrary: c)
  case (Cons e es)
  then show ?case by (cases e) (auto split: option.splits)
qed simp

text \<open>
  Nothing checks that a setting is present: when the setup file has no entry for the number of
  REST replicas, \<open>load_config\<close> succeeds all the same and the number is whatever the memory held.
\<close>

theorem missing_setting_indeterminate:
  assumes "load_config ini_parse r0 w0 p0 setup_file subscription_file = Inr c"
    and "\<forall>val. (''restapi'', Some ''replicas'', val) \<notin> set (snd (ini_parse setup_file))"
  shows "su_replicas_restapi (cfg_setup c) = r0"
proof -
  obtain c1 where c1: "ini_calls setup_callback (snd (ini_parse setup_file)) (new_config r0 w0 p0) = Inr c1"
    "ini_calls subscription_callback (snd (ini_parse subscription_file)) c1 = Inr c"
    using assms(1) by (auto simp: load_config_def split: sum.splits if_splits)
  show ?thesis
    using setup_calls_keep [OF c1(1) assms(2)] subscription_calls_keep [OF c1(2)]
    by (simp add: new_config_def)
qed

theorem missing_setting_indeterminate_witness:
  "\<exists>c. load_config (\<lambda>file. (0, [])) 12345 1 1 ''setup.ini'' ''subscription.ini'' = Inr c
    \<and> su_replicas_restapi (cfg_setup c) = 12345"
proof -
  have "load_config (\<lambda>file. (0, [])) 12345 1 1 ''setup.ini'' ''subscription.ini'' = Inr (new_config 12345 1 1)"
    by (simp add: load_config_def)
  from missing_setting_indeterminate [OF this] this show ?thesis by auto
qed

text \<open>
  Loading fails with an exception when a file cannot be read, and then the message names the
  subscription file even if it is the setup file that is missing; it also fails, with the exception of
  \<open>stoi\<close>, at the first of the three numbers that is not one.
\<close>

theorem load_config_errors:
  assumes "ini_parse setup_file = (rc, entries)" and "rc < 0"
    and "ini_parse bad_file = (rc', es1 @ (''restapi'', Some ''replicas'', Some text) # es2)"
    and "ini_calls setup_callback es1 (new_config r0 w0 p0) = Inr c1" and "stoi text = Inl e"
    and "ini_calls setup_callback entries (new_config r0 w0 p0) = Inr c2"
  shows "load_config ini_parse r0 w0 p0 setup_file subscription_file = Inl (cannot_load subscription_file)
    \<and> load_config ini_parse r0 w0 p0 bad_file subscription_file = Inl e"
  using assms by (simp add: load_config_def ini_calls_append from_stoi_def)

theorem load_config_errors_witness:
  "load_config (\<lambda>file. if file = ''bad'' then (0, [(''restapi'', Some ''replicas'', Some ''two'')]) else (- 1, []))
     0 0 0 ''setup.ini'' ''subscription.ini'' = Inl (cannot_load ''subscription.ini'')"
proof -
  have "stoi ''two'' = Inl (Invalid_argument ''stoi'')" by code_simp
  then show ?thesis
    using load_config_errors [of "\<lambda>file. if file = ''bad'' then (0, [(''restapi'', Some ''replicas'', Some ''two'')])
        else (- 1, [])" "''setup.ini''" "- 1" "[]" "''bad''" 0 "[]" "''two''" "[]" 0 0 0]
    by simp
qed

lemma client_running:
  assumes "Client n0 u0 cfg = Inr c0" and "client_setup f_ws f_rest c0 = Inr c1"
    and "client_run c1 = Inr c2" and "length (cfg_subscriptions cfg) < 2 ^ 31"
  shows "cl_managers c2 =
      map (\<lambda>k. manager_run (setup_instrument (cfg_setup cfg) (cfg_subscriptions cfg ! k) k))
        [0..<length (cfg_subscriptions cfg)]"
    and "cl_threads c2 = [0..<length (cfg_subscriptions cfg)]"
    and "client_destroy c2 = Inr [0..<length (cfg_subscriptions cfg)]"
    and "cl_consumer c2 = Some ((consumer_of f_ws f_rest (cl_buffer c2))\<lparr>co_tasks := [Poll]\<rparr>)"
    and "Cache u0 1024 = Inr (cl_buffer c2)"
proof -
  let ?subs = "cfg_subscriptions cfg" let ?n = "length ?subs"
  have c0: "cl_cfg c0 = cfg" "cl_created c0 = 0" "cl_managers c0 = []" "cl_threads c0 = []"
    "Cache u0 1024 = Inr (cl_buffer c0)"
    using assms(1) by (auto simp: Client_def split: sum.splits)
  let ?m = "\<lambda>k. setup_instrument (cfg_setup cfg) (?subs ! k) k"
  have c1: "cl_n_instrument c1 = int ?n" "cl_iocs c1 = Some [0..<?n]" "cl_threads c1 = []"
    "cl_managers c1 = map ?m [0..<?n]" "cl_consumer c1 = Some (consumer_of f_ws f_rest (cl_buffer c1))"
    "cl_buffer c1 = cl_buffer c0"
    using assms(2,4) client_setup_eq [of c0 f_ws f_rest] c0 by auto
  have ts: "start_threads (int ?n) (Some [0..<?n]) = Inr [0..<?n]"
    by (simp add: start_threads_def)
  have c2: "cl_managers c2 = map manager_run (cl_managers c1)" "cl_threads c2 = [0..<?n]"
    "cl_n_instrument c2 = int ?n" "cl_iocs c2 = Some [0..<?n]" "cl_buffer c2 = cl_buffer c1"
    "cl_consumer c2 = Some ((consumer_of f_ws f_rest (cl_buffer c1))\<lparr>co_tasks := [Poll]\<rparr>)"
    using assms(3) c1 ts
    by (auto simp: client_run_def consumer_run_def consumer_of_def post_def split: if_splits sum.splits)
  show "cl_managers c2 = map (\<lambda>k. manager_run (?m k)) [0..<?n]" by (simp add: c2(1) c1(4) comp_def)
  show "cl_threads c2 = [0..<?n]" "Cache u0 1024 = Inr (cl_buffer c2)"
    "cl_consumer c2 = Some ((consumer_of f_ws f_rest (cl_buffer c2))\<lparr>co_tasks := [Poll]\<rparr>)"
    by (simp_all add: c2 c1 c0)
  show "client_destroy c2 = Inr [0..<?n]" by (simp add: client_destroy_def c2 ts)
qed

text \<open>
  C35: A client that is constructed, set up and run with fewer than 2^31 subscriptions has one manager
  with an io context of its own per subscription, in order; every handler of manager k has symbol k,
  is bound to the cache and has one operation under way; one thread runs each io context, the
  consumer has posted its polling task, and the destructor stops every io context a thread runs.
\<close>

theorem client_started:
  assumes "Client n0 u0 cfg = Inr c0" and "client_setup f_ws f_rest c0 = Inr c1"
    and "client_run c1 = Inr c2" and "length (cfg_subscriptions cfg) < 2 ^ 31"
  shows "map cm_ioc (cl_managers c2) = [0..<length (cfg_subscriptions cfg)]
    \<and> (\<forall>k<length (cfg_subscriptions cfg). \<forall>h \<in> set (cm_handlers (cl_managers c2 ! k)).
         conn_symbol h = sub_symbol (cfg_subscriptions cfg ! k) \<and> conn_bound h \<and> conn_pending h = 1)
    \<and> cl_threads c2 = [0..<length (cfg_subscriptions cfg)] \<and> client_destroy c2 = Inr (cl_threads c2)
    \<and> cl_consumer c2 = Some ((consumer_of f_ws f_rest (cl_buffer c2))\<lparr>co_tasks := [Poll]\<rparr>)"
proof -
  let ?subs = "cfg_subscriptions cfg"
  note run = client_running [OF assms]
  have "conn_symbol h = sub_symbol (?subs ! k) \<and> conn_bound h \<and> conn_pending h = 1"
    if "k < length ?subs" "h \<in> set (cm_handlers (cl_managers c2 ! k))" for k h
    using that by (auto simp: run(1) manager_run_def setup_instrument_handlers conn_started new_conn)
  moreover have "map cm_ioc (cl_managers c2) = [0..<length ?subs]"
    by (simp add: run(1) comp_def manager_run_def setup_instrument_handlers)
  ultimately show ?thesis by (simp add: run(2-4))
qed

definition sample_config :: config where
  "sample_config = \<lparr>cfg_setup = sample_setup, cfg_subscriptions = sample_subscriptions\<rparr>"

lemma sample_client:
  "\<exists>c0 c1 c2. Client 5 0 sample_config = Inr c0 \<and> client_setup f_ws f_rest c0 = Inr c1 \<and> client_run c1 = Inr c2"
proof -
  have "LockFreeQueue default_msg (of_int 1024) = LockFreeQueue default_msg (2 ^ 10)" by simp
  also have "\<dots> = Inr \<lparr>q_buffer = replicate (unat (2 ^ 10 :: 64 word)) default_msg, q_capacity = 2 ^ 10, q_head = 0, q_tail = 0\<rparr>"
    by (simp only: LockFreeQueue_def and_pow2_pred_zero) simp
  finally obtain c0 where c0: "Client 5 0 sample_config = Inr c0" "cl_cfg c0 = sample_config"
    by (auto simp: Client_def Cache_def)
  note su = client_setup_eq [of c0 f_ws f_rest]
  have "length (cfg_subscriptions (cl_cfg c0)) = 2" by (simp add: c0 sample_config_def sample_subscriptions_def)
  then show ?thesis
    using c0 su
    by (simp add: client_run_def consumer_run_def consumer_of_def start_threads_def)
qed

theorem client_started_witness:
  "\<exists>c0 c1 c2. Client 5 0 sample_config = Inr c0 \<and> client_setup (\<lambda>_. Inr ()) (\<lambda>_. Inr ()) c0 = Inr c1
    \<and> client_run c1 = Inr c2 \<and> cl_threads c2 = [0, 1] \<and> client_destroy c2 = Inr [0, 1]"
proof -
  obtain c0 c1 c2 where c: "Client 5 0 sample_config = Inr c0" "client_setup (\<lambda>_. Inr ()) (\<lambda>_. Inr ()) c0 = Inr c1"
    "client_run c1 = Inr c2" using sample_client by blast
  have "length (cfg_subscriptions sample_config) = 2" by (simp add: sample_config_def sample_subscriptions_def)
  then show ?thesis using client_started [OF c] c by (simp add: upt_rec)
qed

text \<open>
  Calling \<open>setup\<close> a second time leaves the managers of the first call with references to io contexts
  that were destroyed: none of them is in the new vector, while the managers are kept and run.
\<close>

theorem second_setup_dangles:
  assumes "Client n0 u0 cfg = Inr c0" and "client_setup f_ws f_rest c0 = Inr c1"
    and "client_setup f_ws f_rest c1 = Inr c2"
    and "length (cfg_subscriptions cfg) < 2 ^ 31" and "k < length (cfg_subscriptions cfg)"
  shows "k < length (cl_managers c2) \<and> cm_ioc (cl_managers c2 ! k) \<notin> set (the (cl_iocs c2))"
proof -
  let ?n = "length (cfg_subscriptions cfg)"
  have c0: "cl_cfg c0 = cfg" "cl_created c0 = 0" "cl_managers c0 = []"
    using assms(1) by (auto simp: Client_def split: sum.splits)
  have c1: "cl_cfg c1 = cfg" "cl_created c1 = ?n"
    "cl_managers c1 = map (\<lambda>k. setup_instrument (cfg_setup cfg) (cfg_subscriptions cfg ! k) k) [0..<?n]"
    using assms(2,4) client_setup_eq [of c0 f_ws f_rest] c0 by auto
  have "cl_iocs c2 = Some [?n..<?n + ?n]" "cl_managers c2 =
      cl_managers c1 @ map (\<lambda>k. setup_instrument (cfg_setup cfg) (cfg_subscriptions cfg ! k) (?n + k)) [0..<?n]"
    using assms(3,4) client_setup_eq [of c1 f_ws f_rest] c1(1,2) by auto
  then show ?thesis using assms(5) by (simp add: c1(3) nth_append setup_instrument_handlers)
qed

theorem second_setup_dangles_witness:
  "\<exists>c0 c1 c2. Client 5 0 sample_config = Inr c0 \<and> client_setup (\<lambda>_. Inr ()) (\<lambda>_. Inr ()) c0 = Inr c1
    \<and> client_setup (\<lambda>_. Inr ()) (\<lambda>_. Inr ()) c1 = Inr c2 \<and> cm_ioc (cl_managers c2 ! 0) \<notin> set (the (cl_iocs c2))"
proof -
  obtain c0 c1 where c: "Client 5 0 sample_config = Inr c0" "client_setup (\<lambda>_. Inr ()) (\<lambda>_. Inr ()) c0 = Inr c1"
    using sample_client by blast
  have n: "length (cfg_subscriptions sample_config) = 2" by (simp add: sample_config_def sample_subscriptions_def)
  have "cl_cfg c0 = sample_config" using c(1) by (auto simp: Client_def split: sum.splits)
  then have "cl_cfg c1 = sample_config" using c(2) client_setup_eq [of c0 "\<lambda>_. Inr ()" "\<lambda>_. Inr ()"] n by auto
  then obtain c2 where c2: "client_setup (\<lambda>_. Inr ()) (\<lambda>_. Inr ()) c1 = Inr c2"
    using client_setup_eq [of c1 "\<lambda>_. Inr ()" "\<lambda>_. Inr ()"] n by auto
  then show ?thesis using second_setup_dangles [OF c c2, of 0] c n by auto
qed

end
