(* ===== verification/System.thy ===== *)
theory System
  imports Client
begin

text \<open>
  The running program as a whole: the handlers of all instruments, the shared cache and the
  consumer. A step is the completion of an asynchronous operation of one handler, the execution of
  the oldest \<^verbatim>\<open>on_data\<close> one handler posted, or one task of the consumer's io context, in any
  order. The cache is the one the consumer holds; the handlers use it through their pointer.

  A step here is a whole task, so these are the schedules in which every posted task runs to its end
  before a task of another thread begins. The program has more: \<open>System_Threads\<close> has a step per access to
  shared memory, and shows that the runs of this theory are among its runs, that they have all effects
  when there is one subscription, and that they do not when there are two.
\<close>

section \<open>Handlers\<close>

datatype net_event = WS_net ws_event | REST_net rest_event

inductive conn_step :: "conn \<Rightarrow> net_event \<Rightarrow> conn \<Rightarrow> bool" where
  conn_ws: "ws_step h e h' \<Longrightarrow> conn_step (WS_conn h) (WS_net e) (WS_conn h')"
| conn_rest: "rest_step r e r' \<Longrightarrow> conn_step (REST_conn r) (REST_net e) (REST_conn r')"

inductive_cases conn_stepE: "conn_step c e c'"

definition conn_source :: "conn \<Rightarrow> msg_source" where
  "conn_source c = (case c of WS_conn h \<Rightarrow> MS_WebSocket | REST_conn h \<Rightarrow> MS_RestApi)"

definition conn_posted :: "conn \<Rightarrow> string list" where
  "conn_posted c = (case c of WS_conn h \<Rightarrow> ws_posted h | REST_conn h \<Rightarrow> r_posted h)"

text \<open>The io context takes the oldest posted \<^verbatim>\<open>on_data\<close> off its queue.\<close>

definition conn_pop :: "conn \<Rightarrow> conn" where
  "conn_pop c =
     (case c of WS_conn h \<Rightarrow> WS_conn (h\<lparr>ws_posted := tl (ws_posted h)\<rparr>)
              | REST_conn h \<Rightarrow> REST_conn (h\<lparr>r_posted := tl (r_posted h)\<rparr>))"

text \<open>\<^verbatim>\<open>on_data\<close> with the overrider of \<^verbatim>\<open>parse\<close> the handler's class has.\<close>

definition conn_on_data :: "conn \<Rightarrow> string \<Rightarrow> cache option \<Rightarrow> cache outcome" where
  "conn_on_data c text buffer_queue =
     (let buf = (if conn_bound c then buffer_queue else None)
      in case c of WS_conn h \<Rightarrow> on_data ws_parse (h_symbol h) text buf
                 | REST_conn h \<Rightarrow> on_data rest_parse (h_symbol h) text buf)"

text \<open>The text that a completion makes a handler post.\<close>

fun event_text :: "net_event \<Rightarrow> string list" where
  "event_text (WS_net (WS_event op ec bytes)) =
     (if op = WS_read \<and> ec = EC_success then [bytes] else [])"
| "event_text (REST_net (Rest_event op ec response)) =
     (case op of
        R_read k \<Rightarrow> (if ec = EC_success \<or> ec = EC_eof then [response_data response] else [])
      | _ \<Rightarrow> [])"

definition conn_ok :: "conn \<Rightarrow> bool" where
  "conn_ok c =
     (case c of
        WS_conn h \<Rightarrow> ws_pending h = [] \<or> length (ws_pending h) = 1 \<and> ws_buffer h = []
      | REST_conn h \<Rightarrow> True)"

lemma ws_complete_bound: "h_bound (ws_complete op ec bytes s) = h_bound s"
  by (cases op) (simp_all add: ws_run_task_def ws_on_resolve_def ws_on_connect_def
      ws_on_ssl_handshake_def ws_on_handshake_def ws_on_read_def ws_do_read_def ws_start_def Let_def)

lemma rest_complete_keeps:
  "h_bound (rest_complete op ec response s) = h_bound s"
  "h_symbol (rest_complete op ec response s) = h_symbol s"
  "r_posted (rest_complete op ec response s) =
     r_posted s @ event_text (REST_net (Rest_event op ec response))"
  by (cases op; simp add: rest_handler_defs)+

lemma conn_step_effect:
  assumes "conn_step c e c'" and "conn_ok c"
  shows "conn_ok c' \<and> conn_source c' = conn_source c \<and> conn_symbol c' = conn_symbol c
    \<and> conn_bound c' = conn_bound c \<and> conn_posted c' = conn_posted c @ event_text e"
  using assms(1)
proof cases
  case (conn_ws h ev h')
  obtain op ec bytes where ev: "ev = WS_event op ec bytes"
    and op: "op \<in> set (ws_pending h)"
    and h': "h' = ws_complete op ec bytes (h\<lparr>ws_pending := remove1 op (ws_pending h)\<rparr>)"
    using conn_ws by (auto elim!: ws_stepE)
  have p: "ws_pending h = [op]" "ws_buffer h = []"
    using assms(2) op conn_ws(1) by (auto simp: conn_ok_def length_Suc_conv)
  have "conn_ok c'"
    using ws_complete_pending [of "h\<lparr>ws_pending := []\<rparr>" op ec bytes]
      ws_complete_buffer [of op ec bytes "h\<lparr>ws_pending := []\<rparr>"] p
    by (auto simp: conn_ok_def conn_ws(3) h')
  then show ?thesis
    using p by (simp add: conn_ws(1,2,3) h' ev ws_complete_posted ws_complete_symbol
        ws_complete_bound conn_source_def conn_symbol_def conn_bound_def conn_posted_def)
next
  case (conn_rest h ev h')
  then show ?thesis
    by (auto elim!: rest_stepE simp: conn_ok_def conn_source_def conn_symbol_def conn_bound_def
        conn_posted_def rest_complete_keeps simp del: event_text.simps)
qed

lemma conn_pop_effect:
  "conn_ok (conn_pop c) = conn_ok c" "conn_source (conn_pop c) = conn_source c"
  "conn_symbol (conn_pop c) = conn_symbol c" "conn_bound (conn_pop c) = conn_bound c"
  "conn_posted (conn_pop c) = tl (conn_posted c)"
  by (cases c; simp add: conn_pop_def conn_ok_def conn_source_def conn_symbol_def conn_bound_def
      conn_posted_def)+

lemma conn_on_data_cache:
  assumes "c_wf buf" and "conn_on_data c text (Some buf) = Inr buf'"
  shows "c_wf buf' \<and> c_U buf \<le> c_U buf' \<and> (c_items buf' = c_items buf \<or>
    (\<exists>j. parseJsonString text = Inr j \<and>
      encache (order_msg (conn_source c) (conn_symbol c) j) buf = Inr (True, buf')))"
proof (cases "parseJsonString text")
  case (Inl e)
  then show ?thesis
    using assms by (cases c)
      (auto simp: conn_on_data_def on_data_def wsp.parse_text rsp.parse_text split: if_splits)
next
  case (Inr j)
  let ?m = "order_msg (conn_source c) (conn_symbol c) j"
  have "conn_on_data c text (Some buf) =
      (if conn_bound c
       then (case encache ?m buf of Inl e \<Rightarrow> Inl e | Inr (_, c1) \<Rightarrow> Inr c1)
       else Inl (Assertion_failed ''buffer_queue_ != nullptr''))"
    by (cases c) (simp_all add: conn_on_data_def wsp.on_data_parsed [OF Inr] rsp.on_data_parsed [OF Inr]
        conn_source_def conn_symbol_def, simp_all add: on_data_def)
  then have "\<exists>ok. encache ?m buf = Inr (ok, buf')"
    using assms(2) by (auto split: if_splits sum.splits)
  then obtain ok where ok: "encache ?m buf = Inr (ok, buf')" ..
  show ?thesis
  proof (rule mc.enc_cases [OF assms(1), of ?m])
    fix c' assume "encache ?m buf = Inr (True, c')" "c_wf c'"
      "c_U c' = (case ws_id ?m of None \<Rightarrow> c_U buf | Some x \<Rightarrow> x)" "\<forall>x. ws_id ?m = Some x \<longrightarrow> c_U buf < x"
    then show ?thesis using ok Inr by (auto split: option.splits)
  next
    fix c' assume "encache ?m buf = Inr (False, c')" "c_wf c'" "c_items c' = c_items buf" "c_U buf \<le> c_U c'"
    then show ?thesis using ok by auto
  qed (use ok in auto)
qed

section \<open>The system\<close>

record system =
  sy_handlers :: "conn list"
  sy_consumer :: consumer

datatype system_event = Net nat net_event | Data nat | Task

inductive sys_step :: "system \<Rightarrow> system_event \<Rightarrow> system \<Rightarrow> bool" where
  net: "i < length (sy_handlers s) \<Longrightarrow> conn_step (sy_handlers s ! i) e c' \<Longrightarrow>
    sys_step s (Net i e) (s\<lparr>sy_handlers := (sy_handlers s)[i := c']\<rparr>)"
| data: "i < length (sy_handlers s) \<Longrightarrow> conn_posted (sy_handlers s ! i) = text # texts \<Longrightarrow>
    conn_on_data (sy_handlers s ! i) text (co_cache (sy_consumer s)) = Inr buf' \<Longrightarrow>
    sys_step s (Data i)
      (s\<lparr>sy_handlers := (sy_handlers s)[i := conn_pop (sy_handlers s ! i)],
         sy_consumer := (sy_consumer s)\<lparr>co_cache := Some buf'\<rparr>\<rparr>)"
| task: "consumer_exec 0 (sy_consumer s) = Inr con' \<Longrightarrow>
    sys_step s Task (s\<lparr>sy_consumer := con'\<rparr>)"

inductive sys_steps :: "system \<Rightarrow> system_event list \<Rightarrow> system \<Rightarrow> bool" where
  start: "sys_steps s [] s"
| snoc: "sys_steps s es s1 \<Longrightarrow> sys_step s1 e s2 \<Longrightarrow> sys_steps s (es @ [e]) s2"

definition sys_start :: "client \<Rightarrow> system" where
  "sys_start cl =
     \<lparr>sy_handlers = concat (map cm_handlers (cl_managers cl)),
      sy_consumer = (case cl_consumer cl of None \<Rightarrow> Consumer | Some con \<Rightarrow> con)\<rparr>"

text \<open>The texts that handler \<open>i\<close> posts in a run.\<close>

fun sys_event_text :: "nat \<Rightarrow> system_event \<Rightarrow> string list" where
  "sys_event_text i (Net k e) = (if k = i then event_text e else [])"
| "sys_event_text i (Data k) = []"
| "sys_event_text i Task = []"

definition texts_of :: "nat \<Rightarrow> system_event list \<Rightarrow> string list" where
  "texts_of i es = concat (map (sys_event_text i) es)"

text \<open>An order book that comes from a text of a handler of its source and symbol.\<close>

definition origin :: "conn list \<Rightarrow> system_event list \<Rightarrow> msg_source \<times> orderbook \<Rightarrow> bool" where
  "origin hs es x \<longleftrightarrow>
     (\<exists>i<length hs. conn_source (hs ! i) = fst x \<and> conn_symbol (hs ! i) = ob_symbol (snd x)
        \<and> (\<exists>t \<in> set (texts_of i es). parseJsonString t = Inr (ob_data (snd x))))"

text \<open>The update ids of the web socket order books in a list of calls.\<close>

definition call_id :: "msg_source \<times> orderbook \<Rightarrow> uint64_t option" where
  "call_id x = ws_id \<lparr>msg_type = MT_OrderBook, msg_source = fst x, msg_data = Some (snd x)\<rparr>"

definition call_ids :: "(msg_source \<times> orderbook) list \<Rightarrow> uint64_t list" where
  "call_ids xs = List.map_filter call_id xs"

section \<open>The invariant of the system\<close>

text \<open>
  What was delivered and what is on its way, as the calls made and still to be made.
\<close>

definition all_calls :: "system \<Rightarrow> (msg_source \<times> orderbook) list" where
  "all_calls s = co_log (sy_consumer s) @ calls (sy_consumer s) (in_flight (sy_consumer s))"

definition last_id :: "system \<Rightarrow> uint64_t" where
  "last_id s = (case co_cache (sy_consumer s) of None \<Rightarrow> 0 | Some c \<Rightarrow> c_U c)"

definition handlers_inv :: "conn list \<Rightarrow> system_event list \<Rightarrow> conn list \<Rightarrow> bool" where
  "handlers_inv hs es hs' \<longleftrightarrow> length hs' = length hs \<and>
     (\<forall>i<length hs. conn_ok (hs' ! i) \<and> conn_source (hs' ! i) = conn_source (hs ! i)
        \<and> conn_symbol (hs' ! i) = conn_symbol (hs ! i) \<and> set (conn_posted (hs' ! i)) \<subseteq> set (texts_of i es))"

definition calls_inv :: "conn list \<Rightarrow> system_event list \<Rightarrow> system \<Rightarrow> bool" where
  "calls_inv hs es s \<longleftrightarrow> consumer_inv (sy_consumer s)
     \<and> co_ws (sy_consumer s) \<noteq> None \<and> co_rest (sy_consumer s) \<noteq> None
     \<and> (\<forall>x \<in> set (all_calls s). origin hs es x)
     \<and> sorted_wrt (<) (call_ids (all_calls s)) \<and> (\<forall>u \<in> set (call_ids (all_calls s)). u \<le> last_id s)"

lemma texts_of_snoc [simp]: "texts_of i (es @ [e]) = texts_of i es @ sys_event_text i e"
  by (simp add: texts_of_def)

lemma origin_mono: "origin hs es x \<Longrightarrow> origin hs (es @ [e]) x"
  by (auto simp: origin_def)

lemma call_ids_simps [simp]:
  "call_ids [] = []"
  "call_ids (x # xs) = (case call_id x of None \<Rightarrow> call_ids xs | Some u \<Rightarrow> u # call_ids xs)"
  by (simp_all add: call_ids_def map_filter_simps split: option.split)

lemma call_ids_append [simp]: "call_ids (xs @ ys) = call_ids xs @ call_ids ys"
  by (induction xs) (auto split: option.split)

lemma handlers_inv_step:
  assumes "sys_step s e s'" and "handlers_inv hs es (sy_handlers s)"
  shows "handlers_inv hs (es @ [e]) (sy_handlers s')"
  using assms(1)
proof cases
  case (net i ev c')
  then have "conn_ok (sy_handlers s ! i)" using assms(2) by (simp add: handlers_inv_def)
  from conn_step_effect [OF net(4) this] show ?thesis
    using assms(2) net(1-3) by (auto simp: handlers_inv_def nth_list_update)
next
  case (data i t ts buf')
  then have "set (tl (conn_posted (sy_handlers s ! i))) \<subseteq> set (conn_posted (sy_handlers s ! i))" by auto
  then show ?thesis
    using assms(2) data(1-3) by (auto simp: handlers_inv_def nth_list_update conn_pop_effect)
next
  case (task con')
  then show ?thesis using assms(2) by (auto simp: handlers_inv_def)
qed

lemma consumer_exec_last_id:
  assumes "consumer_inv con" and "consumer_exec i con = Inr con'"
  shows "\<exists>c c'. co_cache con = Some c \<and> co_cache con' = Some c' \<and> c_U c' = c_U c"
proof -
  obtain c where c: "co_cache con = Some c" "c_wf c"
    using assms(1) by (auto simp: consumer_inv_def split: option.splits)
  show ?thesis
  proof (cases "i < length (co_tasks con)")
    case True
    let ?con = "con\<lparr>co_tasks := remove_nth i (co_tasks con)\<rparr>"
    have r: "consumer_task (co_tasks con ! i) ?con = Inr con'"
      using assms(2) True by (simp add: consumer_exec_def)
    show ?thesis
    proof (cases "co_tasks con ! i")
      case Poll
      show ?thesis
        by (rule mc.dec_cases [OF c(2)]) (use r Poll c in \<open>auto simp: consumer_run_def post_def\<close>)
    next
      case (Deliver m)
      then show ?thesis using r onData_calls [of m ?con con'] c by simp
    qed
  qed (use assms(2) c in \<open>simp add: consumer_exec_def\<close>)
qed

lemma calls_of_order_msg:
  assumes "co_ws con \<noteq> None" and "co_rest con \<noteq> None" and "src = MS_WebSocket \<or> src = MS_RestApi"
  shows "calls_of con (order_msg src symb j) = [(src, \<lparr>ob_symbol = symb, ob_data = j\<rparr>)]"
  using assms by (auto simp: calls_of_def order_msg_def)

lemma conn_source_cases: "conn_source c = MS_WebSocket \<or> conn_source c = MS_RestApi"
  by (cases c) (simp_all add: conn_source_def)

text \<open>A message put into the cache extends the calls by at most one, with a new id.\<close>

lemma calls_inv_data:
  assumes inv: "calls_inv hs es s" "handlers_inv hs es (sy_handlers s)"
    and i: "i < length (sy_handlers s)" "conn_posted (sy_handlers s ! i) = text # texts"
    and r: "conn_on_data (sy_handlers s ! i) text (co_cache (sy_consumer s)) = Inr buf'"
    and s': "sy_consumer s' = (sy_consumer s)\<lparr>co_cache := Some buf'\<rparr>"
  shows "calls_inv hs es s'"
proof -
  let ?con = "sy_consumer s" and ?c = "sy_handlers s ! i"
  obtain buf where buf: "co_cache ?con = Some buf" "c_wf buf"
    using inv(1) by (auto simp: calls_inv_def consumer_inv_def split: option.splits)
  have same_calls: "calls (?con\<lparr>co_cache := Some buf'\<rparr>) = calls ?con" by (intro calls_cong) simp_all
  have eff: "c_wf buf'" "c_U buf \<le> c_U buf'" "c_items buf' = c_items buf \<or>
    (\<exists>j. parseJsonString text = Inr j \<and>
      encache (order_msg (conn_source ?c) (conn_symbol ?c) j) buf = Inr (True, buf'))"
    using conn_on_data_cache [OF buf(2) r [unfolded buf(1)]] by blast+
  have ids: "last_id s = c_U buf" "last_id s' = c_U buf'" by (simp_all add: last_id_def buf s')
  have cinv: "consumer_inv (sy_consumer s')" using inv(1) eff(1) by (simp add: calls_inv_def consumer_inv_def s')
  from eff(3) show ?thesis
  proof
    assume "c_items buf' = c_items buf"
    then have "all_calls s' = all_calls s" by (simp add: all_calls_def s' in_flight_def buf same_calls)
    then show ?thesis
      using inv(1) cinv ids eff(2) by (auto simp: calls_inv_def s' intro: order_trans)
  next
    assume "\<exists>j. parseJsonString text = Inr j \<and>
      encache (order_msg (conn_source ?c) (conn_symbol ?c) j) buf = Inr (True, buf')"
    then obtain j where j: "parseJsonString text = Inr j"
      "encache (order_msg (conn_source ?c) (conn_symbol ?c) j) buf = Inr (True, buf')" by blast
    let ?x = "(conn_source ?c, \<lparr>ob_symbol = conn_symbol ?c, ob_data = j\<rparr>)"
    have items: "c_items buf' = c_items buf @ [order_msg (conn_source ?c) (conn_symbol ?c) j]"
      and new: "\<And>u. call_id ?x = Some u \<Longrightarrow> c_U buf < u \<and> c_U buf' = u"
      by (rule mc.enc_cases [OF buf(2), of "order_msg (conn_source ?c) (conn_symbol ?c) j"];
          use j(2) in \<open>force simp: call_id_def order_msg_def\<close>)+
    have "calls ?con [order_msg (conn_source ?c) (conn_symbol ?c) j] = [?x]"
      using inv(1) calls_of_order_msg [OF _ _ conn_source_cases] by (simp add: calls_inv_def)
    then have all: "all_calls s' = all_calls s @ [?x]"
      by (simp add: all_calls_def s' in_flight_def buf same_calls items del: calls_simps(2))
    have "i < length hs" "conn_source ?c = conn_source (hs ! i)" "conn_symbol ?c = conn_symbol (hs ! i)"
      "text \<in> set (texts_of i es)"
      using inv(2) i by (auto simp: handlers_inv_def)
    then have "origin hs es ?x" using j(1) by (auto simp: origin_def)
    moreover have "sorted_wrt (<) (call_ids (all_calls s'))"
      "\<forall>u \<in> set (call_ids (all_calls s')). u \<le> last_id s'"
      using inv(1) new eff(2) by (auto simp: all calls_inv_def ids sorted_wrt_append
          split: option.splits intro: order_trans le_less_trans less_imp_le)
    ultimately show ?thesis using inv(1) cinv by (auto simp: calls_inv_def all s')
  qed
qed

lemma calls_inv_step:
  assumes "sys_step s e s'" and inv: "calls_inv hs es s" "handlers_inv hs es (sy_handlers s)"
  shows "calls_inv hs (es @ [e]) s'"
proof -
  have "calls_inv hs es s'"
    using assms(1)
  proof cases
    case (net i ev c')
    then show ?thesis using inv(1) by (simp add: calls_inv_def all_calls_def last_id_def)
  next
    case (data i t ts buf')
    then show ?thesis using calls_inv_data [OF inv data(3-5)] by simp
  next
    case (task con')
    have con: "consumer_inv (sy_consumer s)" using inv(1) by (simp add: calls_inv_def)
    note e = consumer_exec_effect [OF con task(3)]
    have "calls con' = calls (sy_consumer s)" using e by (intro calls_cong) simp_all
    then have "all_calls s' = all_calls s" using e task(2) by (simp add: all_calls_def)
    moreover have "last_id s' = last_id s"
      using consumer_exec_last_id [OF con task(3)] task(2) by (auto simp: last_id_def)
    ultimately show ?thesis using inv(1) e task(2) by (simp add: calls_inv_def)
  qed
  then show ?thesis by (auto simp: calls_inv_def origin_mono)
qed

section \<open>Runs of a started client\<close>

lemma started_conn:
  "conn_ok (conn_run (conn_bind_cache (ws_conn symb host port endpoint)))"
  "conn_posted (conn_run (conn_bind_cache (ws_conn symb host port endpoint))) = []"
  "conn_ok (conn_run (conn_bind_cache (rest_conn symb period host port endpoint)))"
  "conn_posted (conn_run (conn_bind_cache (rest_conn symb period host port endpoint))) = []"
  by (simp_all add: conn_ok_def conn_posted_def conn_run_def conn_bind_cache_def ws_conn_def
      rest_conn_def ws_run_def ws_start_def rest_handler_defs ws_setEndpoint_def rest_setEndpoint_def
      setPollingInterval_def handler_bind_cache_def new_ws_handler_def new_rest_handler_def)

lemma start_inv:
  assumes "Client n0 u0 cfg = Inr c0" and "client_setup f_ws f_rest c0 = Inr c1"
    and "client_run c1 = Inr c2" and "length (cfg_subscriptions cfg) < 2 ^ 31"
  shows "handlers_inv (sy_handlers (sys_start c2)) [] (sy_handlers (sys_start c2))
    \<and> calls_inv (sy_handlers (sys_start c2)) [] (sys_start c2)"
proof -
  note run = client_running [OF assms]
  have "conn_ok h \<and> conn_posted h = []" if "h \<in> set (sy_handlers (sys_start c2))" for h
    using that by (auto simp: sys_start_def run(1) manager_run_def setup_instrument_handlers started_conn)
  then have "handlers_inv (sy_handlers (sys_start c2)) [] (sy_handlers (sys_start c2))"
    by (simp add: handlers_inv_def)
  moreover have "c_wf (cl_buffer c2)" "c_items (cl_buffer c2) = []"
    using Cache_wf [OF run(5)] Cache_empty(1) [OF run(5)] by (simp_all add: int_min_def int_max_def)
  then have "calls_inv (sy_handlers (sys_start c2)) [] (sys_start c2)"
    by (simp add: calls_inv_def sys_start_def run(4) consumer_of_def consumer_inv_def all_calls_def in_flight_def)
  ultimately show ?thesis by blast
qed

lemma sys_steps_inv:
  assumes "sys_steps s0 es s" and "handlers_inv (sy_handlers s0) [] (sy_handlers s0)"
    and "calls_inv (sy_handlers s0) [] s0"
  shows "handlers_inv (sy_handlers s0) es (sy_handlers s) \<and> calls_inv (sy_handlers s0) es s"
  using assms
proof (induction rule: sys_steps.induct)
  case (snoc s es s1 e s2)
  then show ?case using handlers_inv_step [OF snoc.hyps(2)] calls_inv_step [OF snoc.hyps(2)] by blast
qed simp

lemma demo_null:
  "onOrderBookREST \<lparr>ob_symbol = symb, ob_data = JNull\<rparr> =
     Inl (type_error 305 ''cannot use operator[] with a string argument with null'')"
  by (simp add: onOrderBookREST_def demo_line_def json_index_const_def)

lemma sys_steps_trans: "sys_steps s1 es2 s2 \<Longrightarrow> sys_steps s0 es1 s1 \<Longrightarrow> sys_steps s0 (es1 @ es2) s2"
proof (induction arbitrary: es1 rule: sys_steps.induct)
  case (snoc s es s1 e s2)
  then show ?case using sys_steps.snoc [OF snoc.IH [OF snoc.prems] snoc.hyps(2)] by simp
qed simp

lemma sys_steps_ws:
  assumes "ws_steps h es h'" and "i < length (sy_handlers s)" and "sy_handlers s ! i = WS_conn h"
  shows "sys_steps s (map (\<lambda>e. Net i (WS_net e)) es) (s\<lparr>sy_handlers := (sy_handlers s)[i := WS_conn h']\<rparr>)"
  using assms
proof (induction arbitrary: s rule: ws_steps.induct)
  case (none h)
  then have "s\<lparr>sy_handlers := (sy_handlers s)[i := WS_conn h]\<rparr> = s" by (metis list_update_id system.surjective system.update_convs(1))
  then show ?case using sys_steps.start by simp
next
  case (more h e h1 es h2)
  let ?s1 = "s\<lparr>sy_handlers := (sy_handlers s)[i := WS_conn h1]\<rparr>"
  have "sys_step s (Net i (WS_net e)) ?s1"
    using more by (intro sys_step.net) (auto intro: conn_ws)
  then have "sys_steps s [Net i (WS_net e)] ?s1"
    using sys_steps.snoc [OF sys_steps.start] by fastforce
  moreover have "sys_steps ?s1 (map (\<lambda>e. Net i (WS_net e)) es) (?s1\<lparr>sy_handlers := (sy_handlers ?s1)[i := WS_conn h2]\<rparr>)"
    using more by (intro more.IH) auto
  ultimately show ?case using sys_steps_trans by fastforce
qed

text \<open>
  What a started system does with one frame: handler i posts it, its \<open>on_data\<close> puts it into the cache,
  and two tasks of the consumer deliver it.
\<close>

lemma frame_delivered:
  assumes conn: "i < length (sy_handlers s)" "sy_handlers s ! i = WS_conn (ws_run h)" "idle h" "h_bound h"
    and con: "sy_consumer s = (consumer_of (\<lambda>_. Inr ()) f_rest buf)\<lparr>co_tasks := [Poll]\<rparr>"
    and buf: "c_wf buf" "c_items buf = []" "0 < c_room buf" "c_U buf < u"
    and parse: "parseJsonString t = Inr j" "fst (json_uint64_at ''U'' j) = Inr u"
  shows "\<exists>s'. sys_steps s (map (\<lambda>e. Net i (WS_net e)) (ws_opening @ [WS_event WS_read EC_success t])
      @ [Data i, Task, Task]) s'
    \<and> co_log (sy_consumer s') = [(MS_WebSocket, \<lparr>ob_symbol = h_symbol h, ob_data = j\<rparr>)]"
proof -
  let ?m = "order_msg MS_WebSocket (h_symbol h) j"
  obtain h' where h': "ws_steps (ws_run h) (ws_opening @ [WS_event WS_read EC_success t]) h'"
    "ws_posted h' = [t]"
    using ws_run_delivers [OF conn(3), of "[t]"] by auto
  let ?es = "ws_opening @ [WS_event WS_read EC_success t]"
  have keep: "h_symbol h' = h_symbol h" "h_bound h'"
  proof -
    have "h_symbol b = h_symbol a \<and> h_bound b = h_bound a" if "ws_steps a es b" for a es b
      using that by (induction rule: ws_steps.induct)
        (auto elim!: ws_stepE simp: ws_complete_symbol ws_complete_bound)
    from this [OF h'(1)] show "h_symbol h' = h_symbol h" "h_bound h'"
      using conn(4) by (simp_all add: ws_run_def ws_start_def)
  qed
  let ?s1 = "s\<lparr>sy_handlers := (sy_handlers s)[i := WS_conn h']\<rparr>"
  have r1: "sys_steps s (map (\<lambda>e. Net i (WS_net e)) ?es) ?s1"
    by (rule sys_steps_ws [OF h'(1) conn(1,2)])
  have id: "update_id ?m = Inr (Some u)" using parse(2) by (simp add: update_id_ws)
  obtain buf' where b: "encache ?m buf = Inr (True, buf')" "c_wf buf'" "c_items buf' = [?m]"
    using mc.enc_readable [OF buf(1) id] buf(2-4) by auto
  have od: "conn_on_data (WS_conn h') t (Some buf) = Inr buf'"
    using wsp.on_data_parsed [OF parse(1), of "h_symbol h" buf] b(1) keep
    by (simp add: conn_on_data_def conn_bound_def)
  let ?con = "(sy_consumer s)\<lparr>co_cache := Some buf'\<rparr>"
  let ?s2 = "?s1\<lparr>sy_handlers := (sy_handlers ?s1)[i := conn_pop (WS_conn h')], sy_consumer := ?con\<rparr>"
  have "sys_step ?s1 (Data i) ?s2"
    using sys_step.data [of i ?s1 t "[]" buf'] conn(1) h'(2) od
    by (simp add: conn_posted_def con consumer_of_def)
  then have r2: "sys_steps s (map (\<lambda>e. Net i (WS_net e)) ?es @ [Data i]) ?s2"
    by (rule sys_steps.snoc [OF r1])
  have handled: "handled ?con ?m"
    by (simp add: con consumer_of_def handled_def onData_def call_back_def order_msg_def)
  have "co_tasks ?con = [Poll]" "co_cache ?con = Some buf'" by (simp_all add: con)
  from two_steps [OF this b(2,3) handled] obtain con1 con2 where
    c: "consumer_exec 0 ?con = Inr con1" "consumer_exec 0 con1 = Inr con2"
      "co_log con2 = co_log ?con @ calls_of ?con ?m"
    by (auto split: sum.splits)
  have "sys_step ?s2 Task (?s2\<lparr>sy_consumer := con1\<rparr>)" by (rule sys_step.task) (simp add: c(1))
  from sys_steps.snoc [OF r2 this]
  have r3: "sys_steps s ((map (\<lambda>e. Net i (WS_net e)) ?es @ [Data i]) @ [Task]) (?s2\<lparr>sy_consumer := con1\<rparr>)" .
  have "sys_step (?s2\<lparr>sy_consumer := con1\<rparr>) Task (?s2\<lparr>sy_consumer := con1, sy_consumer := con2\<rparr>)"
    by (rule sys_step.task) (simp add: c(2))
  from sys_steps.snoc [OF r3 this] have
    "sys_steps s (map (\<lambda>e. Net i (WS_net e)) ?es @ [Data i, Task, Task]) (?s2\<lparr>sy_consumer := con2\<rparr>)"
    by simp
  moreover have "co_log con2 = [(MS_WebSocket, \<lparr>ob_symbol = h_symbol h, ob_data = j\<rparr>)]"
    by (simp add: c(3) con consumer_of_def calls_of_order_msg)
  ultimately show ?thesis by (intro exI [of _ "?s2\<lparr>sy_consumer := con2\<rparr>"]) simp
qed

lemma started_ws_handler:
  assumes "Client n0 u0 cfg = Inr c0" and "client_setup f_ws f_rest c0 = Inr c1"
    and "client_run c1 = Inr c2" and "length (cfg_subscriptions cfg) < 2 ^ 31"
    and "h \<in> set (sy_handlers (sys_start c2))" and "conn_source h = MS_WebSocket"
  shows "\<exists>w. h = WS_conn (ws_run w) \<and> idle w \<and> h_bound w \<and> h_symbol w = conn_symbol h"
proof -
  have "conn_source (conn_run (conn_bind_cache (rest_conn symb period host port endpoint))) = MS_RestApi"
    for symb period host port endpoint
    by (simp add: conn_source_def conn_run_def conn_bind_cache_def rest_conn_def)
  then obtain symb host port endpoint where
    h: "h = conn_run (conn_bind_cache (ws_conn symb host port endpoint))"
    using assms(5,6)
    by (auto simp: sys_start_def client_running(1) [OF assms(1-4)] manager_run_def setup_instrument_handlers)
  then show ?thesis
    by (intro exI [of _ "handler_bind_cache (ws_setEndpoint host port endpoint (new_ws_handler symb))"])
      (simp add: conn_run_def conn_bind_cache_def ws_conn_def idle_def handler_bind_cache_def
        ws_setEndpoint_def new_ws_handler_def conn_symbol_def ws_run_def ws_start_def)
qed

lemma first_frame_run:
  assumes client: "Client n0 u0 cfg = Inr c0" "client_setup (\<lambda>_. Inr ()) f_rest c0 = Inr c1"
      "client_run c1 = Inr c2" "length (cfg_subscriptions cfg) < 2 ^ 31"
    and i: "i < length (sy_handlers (sys_start c2))"
      "conn_source (sy_handlers (sys_start c2) ! i) = MS_WebSocket"
    and t: "parseJsonString t = Inr j" "fst (json_uint64_at ''U'' j) = Inr u" "u0 < u"
  shows "\<exists>es s. sys_steps (sys_start c2) es s \<and> co_log (sy_consumer s) =
    [(MS_WebSocket, \<lparr>ob_symbol = conn_symbol (sy_handlers (sys_start c2) ! i), ob_data = j\<rparr>)]"
proof -
  let ?h = "sy_handlers (sys_start c2) ! i"
  obtain w where w: "?h = WS_conn (ws_run w)" "idle w" "h_bound w" "h_symbol w = conn_symbol ?h"
    using started_ws_handler [OF client nth_mem [OF i(1)] i(2)] by blast
  note run = client_running [OF client]
  have con: "sy_consumer (sys_start c2)
      = (consumer_of (\<lambda>_. Inr ()) f_rest (cl_buffer c2))\<lparr>co_tasks := [Poll]\<rparr>"
    by (simp add: sys_start_def run(4))
  have buf: "c_wf (cl_buffer c2)" "c_items (cl_buffer c2) = []" "0 < c_room (cl_buffer c2)"
    "c_U (cl_buffer c2) < u"
    using Cache_wf [OF run(5)] Cache_empty [OF run(5)] t(3) by (simp_all add: int_min_def int_max_def)
  show ?thesis using frame_delivered [OF i(1) w(1-3) con buf t(1,2)] w(4) by auto
qed

definition sample_frame :: string where
  "sample_frame = [CHR 0x7B, CHR 0x22, CHR ''U'', CHR 0x22, CHR '':'', CHR ''5'', CHR 0x7D]"

lemma sample_frame_parse:
  "parseJsonString sample_frame = Inr (JObject [(''U'', JUnsigned 5)])"
  "fst (json_uint64_at ''U'' (JObject [(''U'', JUnsigned 5)])) = Inr 5"
  unfolding sample_frame_def
  by code_simp (simp add: json_uint64_at_def json_index_mut_def json_to_uint64_def Let_def)

lemma sample_handlers:
  assumes "Client 5 0 sample_config = Inr c0" "client_setup f_ws f_rest c0 = Inr c1" "client_run c1 = Inr c2"
  shows "length (sy_handlers (sys_start c2)) = 6 \<and> conn_source (sy_handlers (sys_start c2) ! 1) = MS_WebSocket
    \<and> conn_symbol (sy_handlers (sys_start c2) ! 1) = ''btcusdt''"
proof -
  have n: "length (cfg_subscriptions sample_config) = 2"
    by (simp add: sample_config_def sample_subscriptions_def)
  have "cl_managers c2 = map (\<lambda>k. manager_run (setup_instrument sample_setup (sample_subscriptions ! k) k)) [0, 1]"
  proof -
    have "[0..<length (cfg_subscriptions sample_config)] = [0, 1]" unfolding n by (simp add: upt_rec)
    then show ?thesis using client_running(1) [OF assms] n by (simp add: sample_config_def)
  qed
  then show ?thesis
    by (simp add: sys_start_def manager_run_def setup_instrument_handlers sample_setup_def
        sample_subscriptions_def numeral_2_eq_2 conn_source_def conn_symbol_def conn_run_def
        conn_bind_cache_def ws_conn_def ws_run_def ws_start_def handler_bind_cache_def
        ws_setEndpoint_def new_ws_handler_def)
qed

lemma sample_config_small: "length (cfg_subscriptions sample_config) < 2 ^ 31"
  by (simp add: sample_config_def sample_subscriptions_def)

end
