(* ===== verification/Queue_Threads.thy ===== *)
theory Queue_Threads
  imports Lock_Free_Queue
begin

text \<open>
  The ring buffer of \<^verbatim>\<open>include/utils/queue.h\<close> used by several threads. Every load and store of
  \<^verbatim>\<open>head_\<close>, \<^verbatim>\<open>tail_\<close> and of a slot of the vector is one step; the steps of the threads interleave
  in any order that is sequentially consistent (the release stores and acquire loads of the code
  give at least the order of the two threads' accesses that the proofs below need). A thread that
  enqueues is at one of the points of \<open>producer\<close>, the one thread that dequeues at one of
  \<open>reader\<close>; the calls that returned true are logged in the order in which they return.
\<close>

section \<open>Threads\<close>

datatype 'a producer =
    P_idle
  | P_called 'a
  | P_loaded 'a size_t
  | P_checked 'a size_t
  | P_written 'a size_t

datatype 'a reader =
    R_idle
  | R_loaded size_t
  | R_checked size_t
  | R_taken size_t 'a

record 'a threads =
  th_queue :: "'a lfq"
  th_producers :: "'a producer list"
  th_reader :: "'a reader"
  th_accepted :: "'a list"
  th_delivered :: "'a list"

definition new_threads :: "'a lfq \<Rightarrow> nat \<Rightarrow> 'a threads" where
  "new_threads q n =
     \<lparr>th_queue = q, th_producers = replicate n P_idle, th_reader = R_idle,
      th_accepted = [], th_delivered = []\<rparr>"

definition next_index :: "'a lfq \<Rightarrow> size_t \<Rightarrow> size_t" where
  "next_index q i = (i + 1) AND (q_capacity q - 1)"

section \<open>Steps\<close>

text \<open>
  One atomic access of \<^verbatim>\<open>enqueue\<close>, in the order of the code: load \<^verbatim>\<open>tail_\<close>, load \<^verbatim>\<open>head_\<close> and
  compare, write the slot, store \<^verbatim>\<open>tail_\<close>. The result is the new point, the new queue and the
  item when the call returns true.
\<close>

fun producer_step :: "'a producer \<Rightarrow> 'a lfq \<Rightarrow> ('a producer \<times> 'a lfq \<times> 'a list) outcome" where
  "producer_step P_idle q = Inr (P_idle, q, [])"
| "producer_step (P_called item) q = Inr (P_loaded item (q_tail q), q, [])"
| "producer_step (P_loaded item tail) q =
     (if next_index q tail = q_head q then Inr (P_idle, q, []) else Inr (P_checked item tail, q, []))"
| "producer_step (P_checked item tail) q =
     (if unat tail < length (q_buffer q)
      then Inr (P_written item tail, q\<lparr>q_buffer := (q_buffer q)[unat tail := item]\<rparr>, [])
      else Inl (Undefined_behaviour ''vector index out of range''))"
| "producer_step (P_written item tail) q =
     Inr (P_idle, q\<lparr>q_tail := next_index q tail\<rparr>, [item])"

text \<open>
  One atomic access of \<^verbatim>\<open>dequeue\<close>: load \<^verbatim>\<open>head_\<close>, load \<^verbatim>\<open>tail_\<close> and compare, read the slot, store
  \<^verbatim>\<open>head_\<close>.
\<close>

fun reader_step :: "'a reader \<Rightarrow> 'a lfq \<Rightarrow> ('a reader \<times> 'a lfq \<times> 'a list) outcome" where
  "reader_step R_idle q = Inr (R_loaded (q_head q), q, [])"
| "reader_step (R_loaded head) q =
     (if head = q_tail q then Inr (R_idle, q, []) else Inr (R_checked head, q, []))"
| "reader_step (R_checked head) q =
     (if unat head < length (q_buffer q)
      then Inr (R_taken head (q_buffer q ! unat head), q, [])
      else Inl (Undefined_behaviour ''vector index out of range''))"
| "reader_step (R_taken head item) q =
     Inr (R_idle, q\<lparr>q_head := next_index q head\<rparr>, [item])"

text \<open>A schedule says which thread moves, and when a producer calls \<^verbatim>\<open>enqueue\<close>.\<close>

datatype 'a move = Call nat 'a | Producer nat | Reader

fun threads_step :: "'a move \<Rightarrow> 'a threads \<Rightarrow> 'a threads outcome" where
  "threads_step (Call i item) s =
     (if i < length (th_producers s) \<and> (case th_producers s ! i of P_idle \<Rightarrow> True | _ \<Rightarrow> False)
      then Inr (s\<lparr>th_producers := (th_producers s)[i := P_called item]\<rparr>)
      else Inr s)"
| "threads_step (Producer i) s =
     (if i < length (th_producers s)
      then (case producer_step (th_producers s ! i) (th_queue s) of
              Inl e \<Rightarrow> Inl e
            | Inr (p, q, xs) \<Rightarrow>
                Inr (s\<lparr>th_producers := (th_producers s)[i := p], th_queue := q,
                       th_accepted := th_accepted s @ xs\<rparr>))
      else Inr s)"
| "threads_step Reader s =
     (case reader_step (th_reader s) (th_queue s) of
        Inl e \<Rightarrow> Inl e
      | Inr (r, q, xs) \<Rightarrow>
          Inr (s\<lparr>th_reader := r, th_queue := q, th_delivered := th_delivered s @ xs\<rparr>))"

fun threads_run :: "'a move list \<Rightarrow> 'a threads \<Rightarrow> 'a threads outcome" where
  "threads_run [] s = Inr s"
| "threads_run (m # ms) s = (case threads_step m s of Inl e \<Rightarrow> Inl e | Inr s1 \<Rightarrow> threads_run ms s1)"

section \<open>Words and ring positions\<close>

lemma next_index_inj:
  assumes "q_wf q" and "next_index q i = next_index q j"
    and "unat i < unat (q_capacity q)" "unat j < unat (q_capacity q)"
  shows "i = j"
proof -
  let ?K = "unat (q_capacity q)"
  have "Suc (unat i) mod ?K = Suc (unat j) mod ?K"
    using assms(2) q_wf_next [OF assms(1)] by (metis next_index_def)
  then have "unat i = unat j" using assms(3,4) by (auto simp: mod_Suc split: if_splits)
  then show ?thesis by (rule unsigned_word_eqI)
qed

lemma next_index_less: "q_wf q \<Longrightarrow> unat (next_index q i) < unat (q_capacity q)"
  using q_wf_next [of q i] by (simp add: next_index_def q_wf_def)

text \<open>Writing the free slot behind the items does not touch them.\<close>

lemma ring_write_free:
  assumes "h < K" "t < K" "length b = K" "Suc t mod K \<noteq> h"
  shows "ring K (b[t := x]) h t = ring K b h t"
proof -
  have "ring K (b[t := x]) h t @ [x] = ring K ((b[t := x])[t := x]) h (Suc t mod K)"
    using assms by (subst ring_enqueue) auto
  also have "\<dots> = ring K b h t @ [x]" using assms by (simp add: ring_enqueue)
  finally show ?thesis by simp
qed

lemma q_list_write:
  assumes "q_wf q" and "next_index q (q_tail q) \<noteq> q_head q"
  shows "q_list (q\<lparr>q_buffer := (q_buffer q)[unat (q_tail q) := x]\<rparr>) = q_list q"
proof -
  have "unat (next_index q (q_tail q)) = Suc (unat (q_tail q)) mod unat (q_capacity q)"
    using q_wf_next [OF assms(1)] by (simp add: next_index_def)
  then have "Suc (unat (q_tail q)) mod unat (q_capacity q) \<noteq> unat (q_head q)"
    using assms(2) by (metis unsigned_word_eqI)
  then show ?thesis
    using assms(1) ring_write_free [of "unat (q_head q)" "unat (q_capacity q)" "unat (q_tail q)" "q_buffer q"]
    by (simp add: q_list_def q_wf_def)
qed

lemma q_list_publish:
  assumes "q_wf q" and "next_index q (q_tail q) \<noteq> q_head q"
    and "q_buffer q ! unat (q_tail q) = x"
  shows "q_list (q\<lparr>q_tail := next_index q (q_tail q)\<rparr>) = q_list q @ [x]"
proof -
  let ?K = "unat (q_capacity q)" and ?t = "unat (q_tail q)"
  have n: "unat (next_index q (q_tail q)) = Suc ?t mod ?K"
    using q_wf_next [OF assms(1)] by (simp add: next_index_def)
  then have ne: "Suc ?t mod ?K \<noteq> unat (q_head q)" using assms(2) by (metis unsigned_word_eqI)
  have b: "(q_buffer q)[?t := x] = q_buffer q" using assms(3) by (metis list_update_id)
  show ?thesis
    using assms(1) ring_enqueue [of "unat (q_head q)" ?K ?t "q_buffer q" x] ne n b
    by (simp add: q_list_def q_wf_def)
qed

lemma q_list_consume:
  assumes "q_wf q" and "q_head q \<noteq> q_tail q"
  shows "q_list q = q_buffer q ! unat (q_head q) # q_list (q\<lparr>q_head := next_index q (q_head q)\<rparr>)"
proof -
  have "unat (next_index q (q_head q)) = Suc (unat (q_head q)) mod unat (q_capacity q)"
    using q_wf_next [OF assms(1)] by (simp add: next_index_def)
  moreover have "unat (q_head q) \<noteq> unat (q_tail q)" using assms(2) by (metis unsigned_word_eqI)
  ultimately show ?thesis
    using assms(1) ring_dequeue [of "unat (q_head q)" "unat (q_capacity q)" "unat (q_tail q)" "q_buffer q"]
    by (simp add: q_list_def q_wf_def)
qed

section \<open>One producer\<close>

fun producer_inv :: "'a lfq \<Rightarrow> 'a producer \<Rightarrow> bool" where
  "producer_inv q P_idle \<longleftrightarrow> True"
| "producer_inv q (P_called x) \<longleftrightarrow> True"
| "producer_inv q (P_loaded x t) \<longleftrightarrow> t = q_tail q"
| "producer_inv q (P_checked x t) \<longleftrightarrow> t = q_tail q \<and> next_index q t \<noteq> q_head q"
| "producer_inv q (P_written x t) \<longleftrightarrow>
     t = q_tail q \<and> next_index q t \<noteq> q_head q \<and> q_buffer q ! unat t = x"

fun reader_inv :: "'a lfq \<Rightarrow> 'a reader \<Rightarrow> bool" where
  "reader_inv q R_idle \<longleftrightarrow> True"
| "reader_inv q (R_loaded h) \<longleftrightarrow> h = q_head q"
| "reader_inv q (R_checked h) \<longleftrightarrow> h = q_head q \<and> q_head q \<noteq> q_tail q"
| "reader_inv q (R_taken h x) \<longleftrightarrow>
     h = q_head q \<and> q_head q \<noteq> q_tail q \<and> q_buffer q ! unat h = x"

definition spsc_inv :: "'a list \<Rightarrow> 'a threads \<Rightarrow> bool" where
  "spsc_inv xs s \<longleftrightarrow> (\<exists>p. th_producers s = [p] \<and> producer_inv (th_queue s) p)
     \<and> q_wf (th_queue s) \<and> reader_inv (th_queue s) (th_reader s)
     \<and> xs @ th_accepted s = th_delivered s @ q_list (th_queue s)"

lemma producer_step_inv:
  assumes wf: "q_wf q" and p: "producer_inv q p" and r: "reader_inv q r"
  shows "\<exists>p' q' ys. producer_step p q = Inr (p', q', ys) \<and> q_wf q' \<and> producer_inv q' p'
    \<and> reader_inv q' r \<and> q_list q' = q_list q @ ys"
proof (cases p)
  case P_idle
  then show ?thesis using assms by simp
next
  case (P_called x)
  then show ?thesis using assms by simp
next
  case (P_loaded x t)
  then show ?thesis using assms by simp
next
  case (P_checked x t)
  let ?q = "q\<lparr>q_buffer := (q_buffer q)[unat t := x]\<rparr>"
  have t: "t = q_tail q" "next_index q t \<noteq> q_head q" using p by (auto simp: P_checked)
  have len: "unat t < length (q_buffer q)" using wf t(1) by (simp add: q_wf_def)
  have "q_wf ?q" using wf by (simp add: q_wf_def)
  moreover have "q_list ?q = q_list q" using q_list_write [OF wf t(2) [unfolded t(1)]] t(1) by simp
  moreover have "reader_inv ?q r"
  proof (cases r)
    case (R_taken h y)
    then have "unat (q_tail q) \<noteq> unat h" using r by auto (metis unsigned_word_eqI)
    then show ?thesis using r R_taken t(1) by auto
  qed (use r in simp_all)
  ultimately show ?thesis using P_checked t len by (simp add: next_index_def)
next
  case (P_written x t)
  let ?q = "q\<lparr>q_tail := next_index q t\<rparr>"
  have t: "t = q_tail q" "next_index q t \<noteq> q_head q" "q_buffer q ! unat t = x"
    using p by (auto simp: P_written)
  have "q_wf ?q" using wf next_index_less [OF wf, of t] by (simp add: q_wf_def)
  moreover have "q_list ?q = q_list q @ [x]" using q_list_publish [OF wf, of x] t by simp
  moreover have "reader_inv ?q r" using r t(2) by (cases r) auto
  ultimately show ?thesis using P_written by simp
qed

lemma reader_step_inv:
  assumes wf: "q_wf q" and p: "producer_inv q p" and r: "reader_inv q r"
  shows "\<exists>r' q' ys. reader_step r q = Inr (r', q', ys) \<and> q_wf q' \<and> producer_inv q' p
    \<and> reader_inv q' r' \<and> q_list q = ys @ q_list q'"
proof (cases r)
  case R_idle
  then show ?thesis using assms by simp
next
  case (R_loaded h)
  then show ?thesis using assms by simp
next
  case (R_checked h)
  then show ?thesis using assms by (simp add: q_wf_def)
next
  case (R_taken h x)
  let ?q = "q\<lparr>q_head := next_index q h\<rparr>"
  have h: "h = q_head q" "q_head q \<noteq> q_tail q" "q_buffer q ! unat h = x" using r by (auto simp: R_taken)
  have wf': "q_wf ?q" using wf next_index_less [OF wf, of h] by (simp add: q_wf_def)
  have list: "q_list q = x # q_list ?q" using q_list_consume [OF wf h(2)] h by simp
  have free: "next_index q (q_tail q) \<noteq> next_index q (q_head q)"
    using next_index_inj [OF wf, of "q_tail q" "q_head q"] h(2) wf by (auto simp: q_wf_def)
  have "producer_inv ?q p"
    using p free h(1) by (cases p) (auto simp: next_index_def)
  with wf' list R_taken show ?thesis by simp
qed

lemma spsc_step:
  assumes "spsc_inv xs s"
  shows "\<exists>s'. threads_step m s = Inr s' \<and> spsc_inv xs s'"
proof -
  obtain p where s: "th_producers s = [p]" "producer_inv (th_queue s) p" "q_wf (th_queue s)"
    "reader_inv (th_queue s) (th_reader s)" "xs @ th_accepted s = th_delivered s @ q_list (th_queue s)"
    using assms by (auto simp: spsc_inv_def)
  show ?thesis
  proof (cases m)
    case (Call i x)
    then show ?thesis using s by (cases p) (auto simp: spsc_inv_def)
  next
    case (Producer i)
    show ?thesis
    proof (cases "i = 0")
      case True
      then show ?thesis
        using producer_step_inv [OF s(3,2,4)] s(1,5) Producer
        by (auto simp: spsc_inv_def append_assoc [symmetric] simp del: append_assoc)
    next
      case False
      then show ?thesis using s Producer assms by simp
    qed
  next
    case Reader
    then show ?thesis
      using reader_step_inv [OF s(3,2,4)] s(1,5) by (auto simp: spsc_inv_def)
  qed
qed

lemma spsc_run:
  "spsc_inv xs s \<Longrightarrow> \<exists>s'. threads_run ms s = Inr s' \<and> spsc_inv xs s'"
proof (induction ms arbitrary: s)
  case Nil
  then show ?case by simp
next
  case (Cons m ms)
  obtain s1 where "threads_step m s = Inr s1" "spsc_inv xs s1" using spsc_step [OF Cons.prems] by blast
  then show ?case using Cons.IH by simp
qed

lemma spsc_start: "q_wf q \<Longrightarrow> spsc_inv (q_list q) (new_threads q 1)"
  by (simp add: spsc_inv_def new_threads_def)

section \<open>A call that nothing interrupts\<close>

text \<open>Run alone, the accesses of a call are the operation of \<^verbatim>\<open>Lock_Free_Queue\<close>.\<close>

fun producer_alone :: "nat \<Rightarrow> 'a producer \<Rightarrow> 'a lfq \<Rightarrow> ('a list \<times> 'a lfq) outcome" where
  "producer_alone 0 p q = Inr ([], q)"
| "producer_alone (Suc n) p q =
     (case producer_step p q of
        Inl e \<Rightarrow> Inl e
      | Inr (p1, q1, xs) \<Rightarrow>
          (case producer_alone n p1 q1 of Inl e \<Rightarrow> Inl e | Inr (ys, q2) \<Rightarrow> Inr (xs @ ys, q2)))"

fun reader_alone :: "nat \<Rightarrow> 'a reader \<Rightarrow> 'a lfq \<Rightarrow> ('a list \<times> 'a lfq) outcome" where
  "reader_alone 0 r q = Inr ([], q)"
| "reader_alone (Suc n) r q =
     (case reader_step r q of
        Inl e \<Rightarrow> Inl e
      | Inr (r1, q1, xs) \<Rightarrow>
          (case r1 of
             R_idle \<Rightarrow> Inr (xs, q1)
           | _ \<Rightarrow> (case reader_alone n r1 q1 of Inl e \<Rightarrow> Inl e | Inr (ys, q2) \<Rightarrow> Inr (xs @ ys, q2))))"

lemma producer_alone_enqueue:
  "producer_alone 4 (P_called x) q =
     (case q_enqueue x q of
        Inl e \<Rightarrow> Inl e
      | Inr (ok, q') \<Rightarrow> Inr (if ok then [x] else [], q'))"
  by (simp add: numeral_eq_Suc q_enqueue_def next_index_def Let_def)

lemma reader_alone_dequeue:
  "reader_alone 4 R_idle q =
     (case q_dequeue q of
        Inl e \<Rightarrow> Inl e
      | Inr (r, q') \<Rightarrow> Inr (case r of None \<Rightarrow> [] | Some x \<Rightarrow> [x], q'))"
  by (simp add: numeral_eq_Suc q_dequeue_def next_index_def Let_def)

definition racing_moves :: "nat move list" where
  "racing_moves =
     [Call 0 1, Call 1 2, Producer 0, Producer 1, Producer 0, Producer 1,
      Producer 0, Producer 1, Producer 0, Producer 1]"

section \<open>Properties of the queue under threads\<close>

text \<open>
  C5: One thread enqueuing and one dequeuing, interleaved in any way at the level of single atomic
  accesses: no access leaves the vector, and at every moment the items of the \<open>enqueue\<close> calls that
  returned true, after those stored before, are the items \<open>dequeue\<close> has handed out followed by the
  items between head and tail, in this order.
\<close>

theorem spsc_fifo:
  assumes "q_wf q"
  shows "\<exists>s. threads_run ms (new_threads q 1) = Inr s \<and> q_wf (th_queue s)
    \<and> q_list q @ th_accepted s = th_delivered s @ q_list (th_queue s)"
  using spsc_run [OF spsc_start [OF assms], of ms] by (auto simp: spsc_inv_def)

theorem spsc_fifo_witness:
  "\<exists>s. threads_run [Call 0 5, Producer 0, Reader, Producer 0, Reader, Producer 0, Reader, Producer 0, Reader]
      (new_threads sample_queue 1) = Inr s \<and> q_wf (th_queue s)
    \<and> q_list sample_queue @ th_accepted s = th_delivered s @ q_list (th_queue s)"
  using spsc_fifo [OF sample_queue_wf] .

text \<open>
  A call of \<open>enqueue\<close> or \<open>dequeue\<close> whose accesses no other thread interrupts does what the
  operation of the single-threaded model does, errors included.
\<close>

theorem atomic_calls:
  "producer_alone 4 (P_called x) q =
     (case q_enqueue x q of Inl e \<Rightarrow> Inl e | Inr (ok, q') \<Rightarrow> Inr (if ok then [x] else [], q'))
   \<and> reader_alone 4 R_idle q =
     (case q_dequeue q of Inl e \<Rightarrow> Inl e | Inr (r, q') \<Rightarrow> Inr (case r of None \<Rightarrow> [] | Some y \<Rightarrow> [y], q'))"
  by (simp only: producer_alone_enqueue reader_alone_dequeue simp_thms)

text \<open>
  C34: Two threads enqueuing (two instruments share one cache, and each has its own io thread) can
  lose an item: there is an interleaving on a new queue of four slots after which both calls have
  returned true and only one of the two items is stored.
\<close>

theorem two_producers_lose:
  "\<exists>q s. LockFreeQueue 0 4 = Inr q \<and> threads_run racing_moves (new_threads q 2) = Inr s
    \<and> th_accepted s = [1, 2] \<and> q_list (th_queue s) = [2]"
proof -
  let ?q = "\<lparr>q_buffer = [0, 0, 0, 0], q_capacity = 4, q_head = 0, q_tail = 0\<rparr> :: nat lfq"
  have "replicate 4 (0::nat) = [0, 0, 0, 0]" by (simp add: numeral_eq_Suc)
  then have q: "LockFreeQueue 0 4 = Inr ?q" by (simp add: LockFreeQueue_def)
  let ?s = "\<lparr>th_queue = \<lparr>q_buffer = [2, 0, 0, 0], q_capacity = 4, q_head = 0, q_tail = 1\<rparr>,
      th_producers = [P_idle, P_idle], th_reader = R_idle, th_accepted = [1, 2], th_delivered = []\<rparr>"
  have "threads_run racing_moves (new_threads ?q 2) = Inr ?s"
    by (simp add: racing_moves_def new_threads_def next_index_def numeral_2_eq_2)
  moreover have "q_list (th_queue ?s) = [2]" by (simp add: q_list_def ring_def)
  ultimately show ?thesis using q by fastforce
qed

end
