(* ===== verification/System_Threads.thy ===== *)
theory System_Threads
  imports System Queue_Threads
begin

text \<open>
  The running program at the level of single accesses. Every io context is run by one thread; a
  thread that executes \<^verbatim>\<open>on_data\<close> is at one of the points of \<open>io_point\<close>, the main thread, which runs
  the consumer's io context, at one of \<open>main_point\<close>. A step is one access to memory the threads
  share (\<^verbatim>\<open>U_\<close>, \<^verbatim>\<open>head_\<close>, \<^verbatim>\<open>tail_\<close>, a slot of the queue) or a stretch of code that touches none, and
  the steps of all threads interleave in any order. Parsing a text and reading its update id work on
  the thread's own values; \<^verbatim>\<open>Cache::encache\<close> takes no lock, so the comparison with \<^verbatim>\<open>U_\<close>, the
  assignment to it and the accesses of \<^verbatim>\<open>enqueue\<close> are separate steps. \<open>System\<close> has the runs of this
  system in which each posted task runs from its first access to its last without another in
  between; \<open>threads_refine\<close> says when it has the effects of all runs.
\<close>

section \<open>Program points\<close>

text \<open>
  In \<^verbatim>\<open>encache\<close>: before the comparison of the message's id with \<^verbatim>\<open>U_\<close>, before the assignment to
  \<^verbatim>\<open>U_\<close>, and in \<^verbatim>\<open>enqueue\<close>. A thread of an io context starts something new when it is idle.
\<close>

datatype io_point =
    IO_idle
  | IO_compare msg uint64_t
  | IO_assign msg uint64_t
  | IO_enqueue "msg producer"

text \<open>The main thread is in \<^verbatim>\<open>decache\<close> in the middle of a polling task, or between two tasks.\<close>

datatype main_point = M_idle | M_decache "msg reader"

record threaded = system +
  ts_iocs :: "nat list"
  ts_threads :: "(nat \<times> io_point) list"
  ts_main :: main_point

section \<open>One step of a thread\<close>

text \<open>\<^verbatim>\<open>encache\<close> up to its first access to the cache.\<close>

definition encache_call :: "msg \<Rightarrow> io_point outcome" where
  "encache_call m =
     (case msg_data m of
        None \<Rightarrow> Inl (Undefined_behaviour ''null pointer dereference'')
      | Some ob \<Rightarrow>
          if msg_source m = MS_WebSocket
          then (case fst (json_uint64_at ''U'' (ob_data ob)) of
                  Inl e \<Rightarrow> Inl e
                | Inr U \<Rightarrow> Inr (IO_compare m U))
          else Inr (IO_enqueue (P_called m)))"

text \<open>One access of \<^verbatim>\<open>encache\<close>.\<close>

fun encache_access :: "io_point \<Rightarrow> cache \<Rightarrow> (io_point \<times> cache) outcome" where
  "encache_access IO_idle c = Inr (IO_idle, c)"
| "encache_access (IO_compare m U) c = Inr (if U \<le> c_U c then IO_idle else IO_assign m U, c)"
| "encache_access (IO_assign m U) c = Inr (IO_enqueue (P_called m), c\<lparr>c_U := U\<rparr>)"
| "encache_access (IO_enqueue p) c =
     (case producer_step p (c_queue c) of
        Inl e \<Rightarrow> Inl e
      | Inr (p', q, ms) \<Rightarrow>
          Inr (case p' of P_idle \<Rightarrow> IO_idle | _ \<Rightarrow> IO_enqueue p', c\<lparr>c_queue := q\<rparr>))"

text \<open>\<^verbatim>\<open>on_data\<close> with the overrider of \<^verbatim>\<open>parse\<close> the handler's class has, up to the same access.\<close>

definition on_data_call :: "conn \<Rightarrow> string \<Rightarrow> io_point outcome" where
  "on_data_call c text =
     (if conn_bound c
      then (case (case c of WS_conn h \<Rightarrow> ws_parse (h_symbol h) text
                          | REST_conn h \<Rightarrow> rest_parse (h_symbol h) text) of
              Inl e \<Rightarrow> Inl e
            | Inr m \<Rightarrow> if msg_valid m then encache_call m else Inr IO_idle)
      else Inl (Assertion_failed ''buffer_queue_ != nullptr''))"

text \<open>
  A step of the main thread: it takes the oldest task, where a delivery runs to its end and a polling
  task enters \<^verbatim>\<open>decache\<close>; or it makes one access of \<^verbatim>\<open>decache\<close> and, when that returns, posts what the
  polling task posts.
\<close>

fun main_step :: "main_point \<Rightarrow> consumer \<Rightarrow> (main_point \<times> consumer) outcome" where
  "main_step M_idle s =
     (case co_tasks s of
        [] \<Rightarrow> Inr (M_idle, s)
      | Poll # ts \<Rightarrow>
          (if co_cache s = None then Inl (Undefined_behaviour ''null pointer dereference'')
           else Inr (M_decache R_idle, s\<lparr>co_tasks := ts\<rparr>))
      | Deliver m # ts \<Rightarrow>
          (case onData m (s\<lparr>co_tasks := ts\<rparr>) of Inl e \<Rightarrow> Inl e | Inr s1 \<Rightarrow> Inr (M_idle, s1)))"
| "main_step (M_decache r) s =
     (case co_cache s of
        None \<Rightarrow> Inl (Undefined_behaviour ''null pointer dereference'')
      | Some c \<Rightarrow>
          (case reader_step r (c_queue c) of
             Inl e \<Rightarrow> Inl e
           | Inr (r', q, ms) \<Rightarrow>
               let s1 = s\<lparr>co_cache := Some (c\<lparr>c_queue := q\<rparr>)\<rparr>
               in (case r' of
                     R_idle \<Rightarrow>
                       (case consumer_run (fold (\<lambda>m. post (Deliver m)) ms s1) of
                          Inl e \<Rightarrow> Inl e
                        | Inr s2 \<Rightarrow> Inr (M_idle, s2))
                   | _ \<Rightarrow> Inr (M_decache r', s1))))"

section \<open>The threaded system\<close>

text \<open>
  A completion of an asynchronous operation of handler i, and the start of an \<^verbatim>\<open>on_data\<close> it posted,
  happen in a thread that runs the handler's io context and is idle.
\<close>

datatype thread_event = Net_done nat nat net_event | On_data nat nat | Io_access nat | Main_access

inductive thread_step :: "threaded \<Rightarrow> thread_event \<Rightarrow> threaded \<Rightarrow> bool" where
  net_done: "k < length (ts_threads s) \<Longrightarrow> i < length (sy_handlers s) \<Longrightarrow>
    ts_threads s ! k = (ts_iocs s ! i, IO_idle) \<Longrightarrow> conn_step (sy_handlers s ! i) e c' \<Longrightarrow>
    thread_step s (Net_done k i e) (s\<lparr>sy_handlers := (sy_handlers s)[i := c']\<rparr>)"
| on_data: "k < length (ts_threads s) \<Longrightarrow> i < length (sy_handlers s) \<Longrightarrow>
    ts_threads s ! k = (ts_iocs s ! i, IO_idle) \<Longrightarrow>
    conn_posted (sy_handlers s ! i) = text # texts \<Longrightarrow>
    on_data_call (sy_handlers s ! i) text = Inr p \<Longrightarrow>
    thread_step s (On_data k i)
      (s\<lparr>sy_handlers := (sy_handlers s)[i := conn_pop (sy_handlers s ! i)],
         ts_threads := (ts_threads s)[k := (ts_iocs s ! i, p)]\<rparr>)"
| io_access: "k < length (ts_threads s) \<Longrightarrow> ts_threads s ! k = (ioc, p) \<Longrightarrow>
    co_cache (sy_consumer s) = Some c \<Longrightarrow> encache_access p c = Inr (p', c') \<Longrightarrow>
    thread_step s (Io_access k)
      (s\<lparr>sy_consumer := (sy_consumer s)\<lparr>co_cache := Some c'\<rparr>,
         ts_threads := (ts_threads s)[k := (ioc, p')]\<rparr>)"
| main_access: "main_step (ts_main s) (sy_consumer s) = Inr (p', con') \<Longrightarrow>
    thread_step s Main_access (s\<lparr>sy_consumer := con', ts_main := p'\<rparr>)"

inductive_cases thread_stepE: "thread_step s e s'"

inductive thread_steps :: "threaded \<Rightarrow> thread_event list \<Rightarrow> threaded \<Rightarrow> bool" where
  still: "thread_steps s [] s"
| further: "thread_steps s es s1 \<Longrightarrow> thread_step s1 e s2 \<Longrightarrow> thread_steps s (es @ [e]) s2"

text \<open>
  A client as \<^verbatim>\<open>run\<close> leaves it: every thread of the client is about to run its io context, the main
  thread that of the consumer.
\<close>

definition handler_iocs :: "client \<Rightarrow> nat list" where
  "handler_iocs cl = concat (map (\<lambda>m. replicate (length (cm_handlers m)) (cm_ioc m)) (cl_managers cl))"

definition with_threads :: "nat list \<Rightarrow> nat list \<Rightarrow> system \<Rightarrow> threaded" where
  "with_threads iocs ids s =
     \<lparr>sy_handlers = sy_handlers s, sy_consumer = sy_consumer s, ts_iocs = iocs,
      ts_threads = map (\<lambda>ioc. (ioc, IO_idle)) ids, ts_main = M_idle\<rparr>"

definition threads_start :: "client \<Rightarrow> threaded" where
  "threads_start cl = with_threads (handler_iocs cl) (cl_threads cl) (sys_start cl)"

text \<open>The completions in a run, as events of the system whose tasks are not interrupted.\<close>

fun completion :: "thread_event \<Rightarrow> system_event list" where
  "completion (Net_done k i e) = [Net i e]"
| "completion _ = []"

definition completions :: "thread_event list \<Rightarrow> system_event list" where
  "completions es = concat (map completion es)"

section \<open>Tasks that nothing interrupts\<close>

fun encache_alone :: "nat \<Rightarrow> io_point \<Rightarrow> cache \<Rightarrow> (io_point \<times> cache) outcome" where
  "encache_alone 0 p c = Inr (p, c)"
| "encache_alone (Suc n) p c =
     (case encache_access p c of Inl e \<Rightarrow> Inl e | Inr (p1, c1) \<Rightarrow> encache_alone n p1 c1)"

lemmas access_numerals = numeral_eq_Suc pred_numeral_simps BitM.simps

lemma encache_alone_idle [simp]: "encache_alone n IO_idle c = Inr (IO_idle, c)"
  by (induction n) simp_all

lemma encache_alone_enqueue:
  "encache_alone (Suc (Suc (Suc (Suc n)))) (IO_enqueue (P_called m)) c =
     (case cache_enqueue m c of Inl e \<Rightarrow> Inl e | Inr (_, c') \<Rightarrow> Inr (IO_idle, c'))"
  by (simp add: cache_enqueue_def q_enqueue_def next_index_def Let_def)

lemma encache_alone_call:
  "(case encache_call m of Inl e \<Rightarrow> Inl e | Inr p \<Rightarrow> encache_alone 6 p c) =
     (case encache m c of Inl e \<Rightarrow> Inl e | Inr (_, c') \<Rightarrow> Inr (IO_idle, c'))"
  using encache_alone_enqueue [where n = 2 and m = m and c = c]
    encache_alone_enqueue [where n = 0 and m = m and c = "c\<lparr>c_U := U\<rparr>" for U]
  by (auto simp: encache_call_def encache_def access_numerals split: option.split sum.split)

text \<open>So \<^verbatim>\<open>on_data\<close> run without interruption is the operation of \<open>System\<close>.\<close>

lemma on_data_alone:
  "(case on_data_call h t of Inl e \<Rightarrow> Inl e | Inr p \<Rightarrow> encache_alone 6 p c) =
     (case conn_on_data h t (Some c) of Inl e \<Rightarrow> Inl e | Inr c' \<Rightarrow> Inr (IO_idle, c'))"
proof -
  have "(case (case r of Inl e \<Rightarrow> Inl e | Inr m \<Rightarrow> if msg_valid m then encache_call m else Inr IO_idle) of
           Inl e \<Rightarrow> Inl e | Inr p \<Rightarrow> encache_alone 6 p c) =
         (case (case r of Inl e \<Rightarrow> Inl e | Inr m \<Rightarrow>
             if msg_valid m then (case encache m c of Inl e \<Rightarrow> Inl e | Inr (_, c1) \<Rightarrow> Inr c1) else Inr c) of
           Inl e \<Rightarrow> Inl e | Inr c' \<Rightarrow> Inr (IO_idle, c'))" for r
    using encache_alone_call [where c = c]
    by (cases r; simp; intro impI; simp split: sum.split prod.split)
  then show ?thesis
    by (cases h) (simp_all add: conn_on_data_def on_data_def on_data_call_def)
qed

lemma thread_steps_trans:
  "thread_steps s1 es2 s2 \<Longrightarrow> thread_steps s0 es1 s1 \<Longrightarrow> thread_steps s0 (es1 @ es2) s2"
proof (induction arbitrary: es1 rule: thread_steps.induct)
  case (further s es s1 e s2)
  then show ?case using thread_steps.further [OF further.IH [OF further.prems] further.hyps(2)] by simp
qed simp

lemma thread_steps_one: "thread_step s e s' \<Longrightarrow> thread_steps s [e] s'"
  using thread_steps.further [OF thread_steps.still] by fastforce

lemma thread_steps_Cons: "thread_step s e s1 \<Longrightarrow> thread_steps s1 es s2 \<Longrightarrow> thread_steps s (e # es) s2"
  using thread_steps_trans [of s1 es s2 s "[e]"] thread_steps_one by fastforce

lemma encache_alone_steps:
  assumes "encache_alone n p c = Inr (p', c')" and "k < length (ts_threads s)"
    and "ts_threads s ! k = (ioc, p)" and "co_cache (sy_consumer s) = Some c"
  shows "thread_steps s (replicate n (Io_access k))
    (s\<lparr>sy_consumer := (sy_consumer s)\<lparr>co_cache := Some c'\<rparr>, ts_threads := (ts_threads s)[k := (ioc, p')]\<rparr>)"
  using assms
proof (induction n arbitrary: p c s)
  case 0
  then have "(sy_consumer s)\<lparr>co_cache := Some c'\<rparr> = sy_consumer s" "(ts_threads s)[k := (ioc, p')] = ts_threads s"
    by auto (metis list_update_id)
  then show ?case using thread_steps.still [of s] by simp
next
  case (Suc n)
  obtain p1 c1 where a: "encache_access p c = Inr (p1, c1)" "encache_alone n p1 c1 = Inr (p', c')"
    using Suc.prems(1) by (auto split: sum.splits)
  let ?s1 = "s\<lparr>sy_consumer := (sy_consumer s)\<lparr>co_cache := Some c1\<rparr>, ts_threads := (ts_threads s)[k := (ioc, p1)]\<rparr>"
  have "thread_step s (Io_access k) ?s1" using thread_step.io_access [OF Suc.prems(2-4) a(1)] .
  moreover have "thread_steps ?s1 (replicate n (Io_access k))
      (s\<lparr>sy_consumer := (sy_consumer s)\<lparr>co_cache := Some c'\<rparr>, ts_threads := (ts_threads s)[k := (ioc, p')]\<rparr>)"
    using Suc.IH [OF a(2), of ?s1] Suc.prems(2) by simp
  ultimately show ?case by (simp add: thread_steps_Cons)
qed

fun main_alone :: "nat \<Rightarrow> main_point \<Rightarrow> consumer \<Rightarrow> (main_point \<times> consumer) outcome" where
  "main_alone 0 p s = Inr (p, s)"
| "main_alone (Suc n) p s =
     (case main_step p s of Inl e \<Rightarrow> Inl e | Inr (p1, s1) \<Rightarrow> main_alone n p1 s1)"

lemma main_alone_steps:
  assumes "main_alone n (ts_main s) (sy_consumer s) = Inr (p', con')"
  shows "thread_steps s (replicate n Main_access) (s\<lparr>sy_consumer := con', ts_main := p'\<rparr>)"
  using assms
proof (induction n arbitrary: s)
  case 0
  then show ?case using thread_steps.still [of s] by auto
next
  case (Suc n)
  obtain p1 s1 where a: "main_step (ts_main s) (sy_consumer s) = Inr (p1, s1)" "main_alone n p1 s1 = Inr (p', con')"
    using Suc.prems by (auto split: sum.splits)
  have "thread_step s Main_access (s\<lparr>sy_consumer := s1, ts_main := p1\<rparr>)" using thread_step.main_access [OF a(1)] .
  moreover have "thread_steps (s\<lparr>sy_consumer := s1, ts_main := p1\<rparr>) (replicate n Main_access)
      (s\<lparr>sy_consumer := con', ts_main := p'\<rparr>)"
    using Suc.IH [of "s\<lparr>sy_consumer := s1, ts_main := p1\<rparr>"] a(2) by simp
  ultimately show ?case by (simp add: thread_steps_Cons)
qed

text \<open>A task of the consumer run without interruption is a task of \<open>Consumer\<close>.\<close>

lemma main_alone_task:
  assumes "consumer_exec 0 s = Inr s'"
  shows "\<exists>n. main_alone n M_idle s = Inr (M_idle, s')"
proof (cases "co_tasks s")
  case Nil
  then show ?thesis using assms by (intro exI [of _ 0]) (simp add: consumer_exec_def)
next
  case (Cons t ts)
  have r: "consumer_task t (s\<lparr>co_tasks := ts\<rparr>) = Inr s'"
    using assms Cons by (simp add: consumer_exec_def remove_nth_def)
  show ?thesis
  proof (cases t)
    case (Deliver m)
    then show ?thesis using r Cons by (intro exI [of _ 1]) simp
  next
    case Poll
    obtain c where c: "co_cache s = Some c" using r Poll by (auto split: option.splits)
    show ?thesis
    proof (cases "q_head (c_queue c) = q_tail (c_queue c)")
      case True
      then show ?thesis
        using r Poll Cons c
        by (intro exI [of _ 3]) (simp add: access_numerals decache_def q_dequeue_def Let_def)
    next
      case False
      then show ?thesis
        using r Poll Cons c
        by (intro exI [of _ 5])
          (simp add: access_numerals decache_def q_dequeue_def next_index_def Let_def split: if_splits)
    qed
  qed
qed

text \<open>
  So the runs of \<open>System\<close> are runs of the threaded system, when a thread runs the io context of every
  handler.
\<close>

definition is_net :: "system_event \<Rightarrow> bool" where
  "is_net e = (case e of Net i ev \<Rightarrow> True | _ \<Rightarrow> False)"

lemma completions_simps [simp]:
  "completions [] = []" "completions (e # es) = completion e @ completions es"
  "completions (es @ es') = completions es @ completions es'"
  by (simp_all add: completions_def)

lemma completions_replicate [simp]: "completion e = [] \<Longrightarrow> completions (replicate n e) = []"
  by (induction n) simp_all

lemma sys_step_threads:
  assumes "sys_step a e a'" and "\<forall>i<length (sy_handlers a). iocs ! i \<in> set ids"
  shows "\<exists>es. thread_steps (with_threads iocs ids a) es (with_threads iocs ids a')
    \<and> completions es = filter is_net [e] \<and> length (sy_handlers a') = length (sy_handlers a)"
  using assms(1)
proof cases
  case (net i ev c')
  obtain k where k: "k < length ids" "ids ! k = iocs ! i" using assms(2) net(3) by (metis in_set_conv_nth)
  have "thread_step (with_threads iocs ids a) (Net_done k i ev) (with_threads iocs ids a')"
    using thread_step.net_done [of k "with_threads iocs ids a" i ev c'] k net
    by (simp add: with_threads_def)
  then show ?thesis using net
    by (intro exI [of _ "[Net_done k i ev]"]) (simp add: thread_steps_one is_net_def)
next
  case (data i t ts buf')
  let ?h = "sy_handlers a ! i" let ?s = "with_threads iocs ids a"
  obtain k where k: "k < length ids" "ids ! k = iocs ! i" using assms(2) data(3) by (metis in_set_conv_nth)
  obtain buf where buf: "co_cache (sy_consumer a) = Some buf"
    using data(5) by (cases ?h) (auto simp: conn_on_data_def on_data_def split: option.splits if_splits)
  obtain p where p: "on_data_call ?h t = Inr p" "encache_alone 6 p buf = Inr (IO_idle, buf')"
    using on_data_alone [of buf ?h t] data(5) buf by (auto split: sum.splits)
  let ?s1 = "?s\<lparr>sy_handlers := (sy_handlers ?s)[i := conn_pop ?h], ts_threads := (ts_threads ?s)[k := (iocs ! i, p)]\<rparr>"
  have "thread_step ?s (On_data k i) ?s1"
    using thread_step.on_data [of k ?s i t ts p] k data p(1) by (simp add: with_threads_def)
  moreover have "thread_steps ?s1 (replicate 6 (Io_access k)) (with_threads iocs ids a')"
  proof -
    have "(map (\<lambda>ioc. (ioc, IO_idle)) ids)[k := (iocs ! i, IO_idle)] = map (\<lambda>ioc. (ioc, IO_idle)) ids"
      using k by (metis list_update_id nth_map length_map)
    then show ?thesis
      using encache_alone_steps [OF p(2), of k ?s1 "iocs ! i"] k data(1,2) buf by (simp add: with_threads_def)
  qed
  ultimately have "thread_steps ?s (On_data k i # replicate 6 (Io_access k)) (with_threads iocs ids a')"
    by (rule thread_steps_Cons)
  then show ?thesis using data(1,2)
    by (intro exI [of _ "On_data k i # replicate 6 (Io_access k)"]) (simp add: is_net_def)
next
  case (task con')
  obtain n where "main_alone n M_idle (sy_consumer a) = Inr (M_idle, con')" using main_alone_task [OF task(3)] ..
  then have "thread_steps (with_threads iocs ids a) (replicate n Main_access) (with_threads iocs ids a')"
    using main_alone_steps [of n "with_threads iocs ids a"] task(1,2) by (simp add: with_threads_def)
  then show ?thesis using task(1,2)
    by (intro exI [of _ "replicate n Main_access"]) (simp add: is_net_def)
qed

lemma sys_steps_threads:
  assumes "sys_steps a es a'" and "\<forall>i<length (sy_handlers a). iocs ! i \<in> set ids"
  shows "\<exists>es'. thread_steps (with_threads iocs ids a) es' (with_threads iocs ids a')
    \<and> completions es' = filter is_net es \<and> length (sy_handlers a') = length (sy_handlers a)"
  using assms
proof (induction rule: sys_steps.induct)
  case (start s)
  then show ?case using thread_steps.still by fastforce
next
  case (snoc s es s1 e s2)
  obtain es1 where 1: "thread_steps (with_threads iocs ids s) es1 (with_threads iocs ids s1)"
    "completions es1 = filter is_net es" "length (sy_handlers s1) = length (sy_handlers s)"
    using snoc.IH [OF snoc.prems] by blast
  obtain es2 where 2: "thread_steps (with_threads iocs ids s1) es2 (with_threads iocs ids s2)"
    "completions es2 = filter is_net [e]" "length (sy_handlers s2) = length (sy_handlers s1)"
    using sys_step_threads [OF snoc.hyps(2), of iocs ids] snoc.prems 1(3) by auto
  show ?case using thread_steps_trans [OF 2(1) 1(1)] 1 2
    by (intro exI [of _ "es1 @ es2"]) simp
qed

section \<open>One io thread\<close>

text \<open>
  With one io thread the threaded system has no other effects than those of \<open>System\<close>: a simulation,
  in which a call of \<^verbatim>\<open>on_data\<close> or \<^verbatim>\<open>decache\<close> takes effect at its last access. Of a thread inside
  \<^verbatim>\<open>on_data\<close>, \<open>p0\<close> is the point at which it entered \<^verbatim>\<open>encache\<close>, \<open>ca\<close> the cache as if the call had
  not begun, and \<open>cc\<close> the cache as it is.
\<close>

text \<open>The cache \<open>c\<close> with which the call offers the message to the queue.\<close>

definition offered :: "io_point \<Rightarrow> cache \<Rightarrow> msg \<Rightarrow> cache \<Rightarrow> bool" where
  "offered p0 ca m c \<longleftrightarrow>
     p0 = IO_enqueue (P_called m) \<and> c = ca
     \<or> (\<exists>U. p0 = IO_compare m U \<and> c_U ca < U \<and> c = ca\<lparr>c_U := U\<rparr>)"

definition has_space :: "msg lfq \<Rightarrow> bool" where
  "has_space q \<longleftrightarrow> next_index q (q_tail q) \<noteq> q_head q"

definition write_slot :: "msg \<Rightarrow> cache \<Rightarrow> cache" where
  "write_slot m c = c\<lparr>c_queue := (c_queue c)\<lparr>q_buffer :=
     (q_buffer (c_queue c))[unat (q_tail (c_queue c)) := m]\<rparr>\<rparr>"

fun enqueue_rel :: "msg producer \<Rightarrow> io_point \<Rightarrow> cache \<Rightarrow> cache \<Rightarrow> bool" where
  "enqueue_rel P_idle p0 ca cc \<longleftrightarrow> False"
| "enqueue_rel (P_called m) p0 ca cc \<longleftrightarrow> offered p0 ca m cc"
| "enqueue_rel (P_loaded m t) p0 ca cc \<longleftrightarrow> offered p0 ca m cc \<and> t = q_tail (c_queue cc)"
| "enqueue_rel (P_checked m t) p0 ca cc \<longleftrightarrow>
     offered p0 ca m cc \<and> t = q_tail (c_queue cc) \<and> has_space (c_queue cc)"
| "enqueue_rel (P_written m t) p0 ca cc \<longleftrightarrow>
     (\<exists>c. offered p0 ca m c \<and> t = q_tail (c_queue c) \<and> has_space (c_queue c) \<and> cc = write_slot m c)"

fun io_rel :: "io_point \<Rightarrow> io_point \<Rightarrow> cache \<Rightarrow> cache \<Rightarrow> bool" where
  "io_rel IO_idle p0 ca cc \<longleftrightarrow> p0 = IO_idle \<and> cc = ca"
| "io_rel (IO_compare m U) p0 ca cc \<longleftrightarrow> p0 = IO_compare m U \<and> cc = ca"
| "io_rel (IO_assign m U) p0 ca cc \<longleftrightarrow> p0 = IO_compare m U \<and> c_U ca < U \<and> cc = ca"
| "io_rel (IO_enqueue p) p0 ca cc \<longleftrightarrow> enqueue_rel p p0 ca cc"

fun point_producer :: "io_point \<Rightarrow> msg producer" where
  "point_producer (IO_enqueue p) = p"
| "point_producer _ = P_idle"

lemma offered_queue: "offered p0 ca m c \<Longrightarrow> c_queue c = c_queue ca"
  by (auto simp: offered_def)

lemma c_wf_tail: "c_wf c \<Longrightarrow> unat (q_tail (c_queue c)) < length (q_buffer (c_queue c))"
  by (simp add: c_wf_def q_wf_def)

lemma io_rel_producer: "io_rel p p0 ca cc \<Longrightarrow> c_wf ca \<Longrightarrow> producer_inv (c_queue cc) (point_producer p)"
proof (cases p)
  case (IO_enqueue x)
  assume "io_rel p p0 ca cc" "c_wf ca"
  then show ?thesis using IO_enqueue c_wf_tail [of ca]
    by (cases x) (auto simp: has_space_def write_slot_def next_index_def dest: offered_queue)
qed simp_all

lemma write_slot_wf [simp]: "c_wf (write_slot m c) = c_wf c"
  by (simp add: c_wf_def q_wf_def write_slot_def)

lemma io_rel_wf: "io_rel p p0 ca cc \<Longrightarrow> c_wf ca \<Longrightarrow> c_wf cc"
proof (cases p)
  case (IO_enqueue x)
  assume "io_rel p p0 ca cc" "c_wf ca"
  moreover have "c_wf c" if "offered p0 ca m c" for m c
    using \<open>c_wf ca\<close> offered_queue [OF that] by (simp add: c_wf_def)
  ultimately show ?thesis using IO_enqueue by (cases x) auto
qed simp_all

text \<open>What the call ends with, from where it offers the message to the queue.\<close>

lemma offered_ends:
  assumes "offered p0 ca m c"
  shows "encache_alone 6 p0 ca =
    (case cache_enqueue m c of Inl e \<Rightarrow> Inl e | Inr (_, c') \<Rightarrow> Inr (IO_idle, c'))"
proof -
  have four: "encache_alone 4 (IO_enqueue (P_called m)) c' =
      (case cache_enqueue m c' of Inl e \<Rightarrow> Inl e | Inr (_, c'') \<Rightarrow> Inr (IO_idle, c''))" for c'
    using encache_alone_enqueue [where n = 0] by (simp only: access_numerals)
  have six: "encache_alone 6 (IO_enqueue (P_called m)) c' =
      (case cache_enqueue m c' of Inl e \<Rightarrow> Inl e | Inr (_, c'') \<Rightarrow> Inr (IO_idle, c''))" for c'
    using encache_alone_enqueue [where n = 2] by (simp only: access_numerals)
  have "(6::nat) = Suc (Suc 4)" by simp
  then have "encache_alone 6 (IO_compare m U) ca = encache_alone 4 (IO_enqueue (P_called m)) (ca\<lparr>c_U := U\<rparr>)"
    if "c_U ca < U" for U
    using that by (simp only: encache_alone.simps encache_access.simps sum.case prod.case not_le [symmetric] if_False)
  then show ?thesis using assms four six by (auto simp: offered_def simp del: encache_alone.simps)
qed

lemma enqueue_full:
  "\<not> has_space (c_queue c) \<Longrightarrow> cache_enqueue m c = Inr (False, c)"
  by (simp add: cache_enqueue_def q_enqueue_def has_space_def next_index_def Let_def)

lemma enqueue_space:
  "has_space (c_queue c) \<Longrightarrow> c_wf c \<Longrightarrow> cache_enqueue m c =
     Inr (True, (write_slot m c)\<lparr>c_queue := (c_queue (write_slot m c))
       \<lparr>q_tail := next_index (c_queue c) (q_tail (c_queue c))\<rparr>\<rparr>)"
  using c_wf_tail [of c]
  by (simp add: cache_enqueue_def q_enqueue_def has_space_def next_index_def Let_def write_slot_def)

text \<open>
  An access of the io thread keeps the relation, or ends the call with the cache in which the call
  run at once would have left.
\<close>

lemma io_rel_access:
  assumes rel: "io_rel p p0 ca cc" and wf: "c_wf ca" and a: "encache_access p cc = Inr (p', cc')"
  shows "if p' = IO_idle then encache_alone 6 p0 ca = Inr (IO_idle, cc') else io_rel p' p0 ca cc'"
proof (cases p)
  case IO_idle
  then show ?thesis using rel a by simp
next
  case (IO_compare m U)
  then show ?thesis using rel a by (auto simp: access_numerals)
next
  case (IO_assign m U)
  then show ?thesis using rel a by (auto simp: offered_def)
next
  case (IO_enqueue x)
  show ?thesis
  proof (cases x)
    case P_idle
    then show ?thesis using rel IO_enqueue by simp
  next
    case (P_called m)
    then show ?thesis using rel a IO_enqueue by auto
  next
    case (P_loaded m t)
    then show ?thesis using rel a IO_enqueue offered_ends [of p0 ca m cc] enqueue_full [of cc m]
      by (auto simp: has_space_def split: if_splits)
  next
    case (P_checked m t)
    then show ?thesis using rel a IO_enqueue
      by (auto simp: write_slot_def split: if_splits)
  next
    case (P_written m t)
    then obtain c where c: "offered p0 ca m c" "t = q_tail (c_queue c)" "has_space (c_queue c)" "cc = write_slot m c"
      using rel IO_enqueue by auto
    have "c_wf c" using wf offered_queue [OF c(1)] by (simp add: c_wf_def)
    then show ?thesis using a IO_enqueue P_written c offered_ends [OF c(1)] enqueue_space [OF c(3), of m]
      by (auto simp: write_slot_def next_index_def)
  qed
qed

text \<open>Storing \<^verbatim>\<open>head_\<close> meanwhile does the same to both caches.\<close>

definition set_head :: "size_t \<Rightarrow> cache \<Rightarrow> cache" where
  "set_head h c = c\<lparr>c_queue := (c_queue c)\<lparr>q_head := h\<rparr>\<rparr>"

lemma offered_set_head: "offered p0 ca m c \<Longrightarrow> offered p0 (set_head h ca) m (set_head h c)"
  by (auto simp: offered_def set_head_def)

lemma io_rel_set_head:
  assumes "io_rel p p0 ca cc" and "producer_inv (c_queue (set_head h cc)) (point_producer p)"
  shows "io_rel p p0 (set_head h ca) (set_head h cc)"
proof (cases p)
  case (IO_enqueue x)
  show ?thesis
  proof (cases x)
    case (P_written m t)
    then obtain c where c: "offered p0 ca m c" "t = q_tail (c_queue c)" "has_space (c_queue c)" "cc = write_slot m c"
      using assms(1) IO_enqueue by auto
    have "has_space (c_queue (set_head h c))"
      using assms(2) IO_enqueue P_written c(2,4) by (auto simp: has_space_def set_head_def write_slot_def next_index_def)
    then show ?thesis using IO_enqueue P_written c offered_set_head [OF c(1), of h]
      by (auto simp: set_head_def write_slot_def intro!: exI [of _ "set_head h c"])
  qed (use assms IO_enqueue in \<open>auto simp: has_space_def set_head_def next_index_def intro: offered_set_head [unfolded set_head_def]\<close>)
qed (use assms in \<open>auto simp: set_head_def\<close>)

lemma io_rel_indices:
  assumes "io_rel p p0 ca cc"
  shows "q_head (c_queue ca) = q_head (c_queue cc) \<and> q_tail (c_queue ca) = q_tail (c_queue cc)
    \<and> q_capacity (c_queue ca) = q_capacity (c_queue cc)
    \<and> length (q_buffer (c_queue ca)) = length (q_buffer (c_queue cc))
    \<and> (\<forall>i. i \<noteq> q_tail (c_queue cc) \<longrightarrow> q_buffer (c_queue ca) ! unat i = q_buffer (c_queue cc) ! unat i)"
proof (cases p)
  case (IO_enqueue x)
  have "unat i \<noteq> unat j" if "i \<noteq> j" for i j :: size_t using that by (metis unsigned_word_eqI)
  then show ?thesis using assms IO_enqueue
    by (cases x) (auto simp: write_slot_def dest: offered_queue)
qed (use assms in auto)

lemma on_data_call_entry: "on_data_call h t = Inr p \<Longrightarrow> io_rel p p ca ca"
  by (cases h)
    (auto simp: on_data_call_def encache_call_def offered_def split: sum.splits if_splits option.splits)

lemma encache_access_reader:
  assumes "encache_access p c = Inr (p', c')" and "c_wf c" and "producer_inv (c_queue c) (point_producer p)"
    and "reader_inv (c_queue c) r"
  shows "reader_inv (c_queue c') r"
proof (cases p)
  case (IO_enqueue x)
  then have "producer_inv (c_queue c) x" "q_wf (c_queue c)" using assms(2,3) by (simp_all add: c_wf_def)
  from producer_step_inv [OF this(2,1) assms(4)] show ?thesis using assms(1) IO_enqueue by auto
qed (use assms in \<open>auto split: if_splits\<close>)

text \<open>The main thread: a polling task has its effect when \<^verbatim>\<open>decache\<close> returns.\<close>

fun main_rel :: "main_point \<Rightarrow> consumer \<Rightarrow> consumer \<Rightarrow> bool" where
  "main_rel M_idle A T \<longleftrightarrow> T = A\<lparr>co_cache := co_cache T\<rparr>"
| "main_rel (M_decache r) A T \<longleftrightarrow>
     T = A\<lparr>co_tasks := co_tasks T, co_cache := co_cache T\<rparr> \<and> co_tasks A = Poll # co_tasks T"

fun point_reader :: "main_point \<Rightarrow> msg reader" where
  "point_reader M_idle = R_idle"
| "point_reader (M_decache r) = r"

definition main_ok :: "io_point \<Rightarrow> io_point \<Rightarrow> main_point \<Rightarrow> consumer \<Rightarrow> consumer \<Rightarrow> bool" where
  "main_ok p p0 mp A T \<longleftrightarrow> main_rel mp A T \<and>
     (\<exists>ca cc. co_cache A = Some ca \<and> co_cache T = Some cc \<and> c_wf ca \<and> io_rel p p0 ca cc
        \<and> reader_inv (c_queue cc) (point_reader mp))"

lemma consumer_exec_Poll:
  "co_tasks s = Poll # ts \<Longrightarrow> consumer_exec 0 s = consumer_task Poll (s\<lparr>co_tasks := ts\<rparr>)"
  by (simp add: consumer_exec_def remove_nth_def)

lemma consumer_exec_Deliver:
  "co_tasks s = Deliver m # ts \<Longrightarrow> consumer_exec 0 s = onData m (s\<lparr>co_tasks := ts\<rparr>)"
  by (simp add: consumer_exec_def remove_nth_def)

lemma reader_returns:
  assumes rel: "io_rel p p0 ca cc" and wf: "c_wf ca" and r: "reader_inv (c_queue cc) r"
    and s: "reader_step r (c_queue cc) = Inr (R_idle, q, ms)"
  shows "\<exists>ca'. decache ca = Inr (case ms of [] \<Rightarrow> None | m # _ \<Rightarrow> Some m, ca') \<and> length ms \<le> 1
    \<and> io_rel p p0 ca' (cc\<lparr>c_queue := q\<rparr>)"
proof -
  note i = io_rel_indices [OF rel]
  have pr: "producer_inv (c_queue cc) (point_producer p)" "q_wf (c_queue cc)"
    using io_rel_producer [OF rel wf] io_rel_wf [OF rel wf] by (simp_all add: c_wf_def)
  show ?thesis
  proof (cases r)
    case (R_loaded h)
    then have "q_head (c_queue ca) = q_tail (c_queue ca)" "q = c_queue cc" "ms = []"
      using r s i by (auto split: if_splits)
    then show ?thesis using rel by (simp add: decache_def q_dequeue_def Let_def)
  next
    case (R_taken h x)
    let ?h = "next_index (c_queue cc) h"
    have h: "h = q_head (c_queue cc)" "h \<noteq> q_tail (c_queue cc)" "q_buffer (c_queue cc) ! unat h = x"
      "q = (c_queue cc)\<lparr>q_head := ?h\<rparr>" "ms = [x]"
      using r s R_taken by auto
    have "unat (q_head (c_queue ca)) < length (q_buffer (c_queue ca))" using wf by (simp add: c_wf_def q_wf_def)
    then have d: "decache ca = Inr (Some x, set_head ?h ca)"
      using h i by (auto simp: decache_def q_dequeue_def Let_def set_head_def next_index_def)
    have "producer_inv q (point_producer p)"
      using reader_step_inv [OF pr(2,1) r] s by auto
    then have "io_rel p p0 (set_head ?h ca) (set_head ?h cc)"
      using h(4) by (intro io_rel_set_head [OF rel]) (simp add: set_head_def)
    then show ?thesis using d h(4,5) by (simp add: set_head_def)
  qed (use s in \<open>simp_all split: if_splits\<close>)
qed

lemma reader_goes_on:
  "reader_step r q = Inr (r', q', ms) \<Longrightarrow> r' \<noteq> R_idle \<Longrightarrow> q' = q \<and> ms = []"
  by (cases r) (auto split: if_splits)

lemma main_sim:
  assumes ok: "main_ok p p0 mp A T" and s: "main_step mp T = Inr (mp', T')"
  shows "\<exists>A'. (A' = A \<or> consumer_exec 0 A = Inr A') \<and> main_ok p p0 mp' A' T'"
proof -
  obtain ca cc where c: "main_rel mp A T" "co_cache A = Some ca" "co_cache T = Some cc" "c_wf ca"
    "io_rel p p0 ca cc" "reader_inv (c_queue cc) (point_reader mp)"
    using ok by (auto simp: main_ok_def)
  show ?thesis
  proof (cases mp)
    case M_idle
    then have T: "T = A\<lparr>co_cache := Some cc\<rparr>" using c(1,3) by simp
    show ?thesis
    proof (cases "co_tasks A")
      case Nil
      then show ?thesis using s ok M_idle T by (intro exI [of _ A]) simp
    next
      case (Cons task ts)
      show ?thesis
      proof (cases task)
        case Poll
        then show ?thesis using s M_idle T Cons c by (intro exI [of _ A]) (auto simp: main_ok_def)
      next
        case (Deliver m)
        have o: "onData m (T\<lparr>co_tasks := ts\<rparr>) = Inr T'" and mp': "mp' = M_idle"
          using s M_idle T Cons Deliver by (auto split: sum.splits)
        have "handled (T\<lparr>co_tasks := ts\<rparr>) m" using o by (simp add: handled_def)
        from onData_handled [OF this, of "A\<lparr>co_tasks := ts\<rparr>"]
        have "consumer_exec 0 A = Inr (A\<lparr>co_tasks := ts, co_log := co_log A @ calls_of A m\<rparr>)"
          using consumer_exec_Deliver Cons Deliver T by (simp add: calls_of_def)
        moreover have "T' = A\<lparr>co_tasks := ts, co_log := co_log A @ calls_of A m, co_cache := Some cc\<rparr>"
          using onData_calls [OF o] T by (simp add: calls_of_def)
        ultimately show ?thesis using c mp' M_idle by (auto simp: main_ok_def)
      qed
    qed
  next
    case (M_decache r)
    have T: "T = A\<lparr>co_tasks := co_tasks T, co_cache := Some cc\<rparr>" "co_tasks A = Poll # co_tasks T"
      using c(1,3) M_decache by simp_all
    obtain r' q ms where r: "reader_step r (c_queue cc) = Inr (r', q, ms)"
      using s M_decache c(3) by (auto split: sum.splits)
    show ?thesis
    proof (cases "r' = R_idle")
      case True
      from reader_returns [OF c(5,4) _ r [unfolded True]] c(6) M_decache obtain ca' where
        d: "decache ca = Inr (case ms of [] \<Rightarrow> None | m # _ \<Rightarrow> Some m, ca')" "length ms \<le> 1"
          "io_rel p p0 ca' (cc\<lparr>c_queue := q\<rparr>)" by auto
      have wf: "c_wf ca'" using mc.dec_cases [OF c(4)] d(1) c(4) by (metis Inr_inject prod.inject)
      have ms: "ms = [] \<or> (\<exists>m. ms = [m])" using d(2) by (cases ms) auto
      let ?A = "A\<lparr>co_tasks := co_tasks T @ map Deliver ms @ [Poll], co_cache := Some ca'\<rparr>"
      have "consumer_exec 0 A = Inr ?A"
        using consumer_exec_Poll [OF T(2)] c(2) d(1) ms by (auto simp: consumer_run_def post_def)
      moreover have "mp' = M_idle \<and> T' = ?A\<lparr>co_cache := Some (cc\<lparr>c_queue := q\<rparr>)\<rparr>"
      proof -
        have "consumer_run (fold (\<lambda>m. post (Deliver m)) ms (T\<lparr>co_cache := Some (cc\<lparr>c_queue := q\<rparr>)\<rparr>))
            = Inr (T\<lparr>co_tasks := co_tasks T @ map Deliver ms @ [Poll], co_cache := Some (cc\<lparr>c_queue := q\<rparr>)\<rparr>)"
          using ms by (auto simp: consumer_run_def post_def)
        then show ?thesis using s M_decache c(3) r True by (simp, subst (asm) (3) T(1)) auto
      qed
      ultimately show ?thesis using d(3) wf by (intro exI [of _ ?A]) (auto simp: main_ok_def)
    next
      case False
      note q = reader_goes_on [OF r False]
      have "mp' = M_decache r'" "T' = T"
        using s M_decache c(3) r False q by (cases r'; auto simp: Let_def)+
      moreover have "reader_inv (c_queue cc) r'"
        using reader_step_inv [of "c_queue cc" "point_producer p" r] r q c(6) M_decache
          io_rel_producer [OF c(5,4)] io_rel_wf [OF c(5,4)] by (auto simp: c_wf_def)
      ultimately show ?thesis using c M_decache by (intro exI [of _ A]) (auto simp: main_ok_def)
    qed
  qed
qed

text \<open>The text an io thread is working on is still with its handler in \<open>System\<close>.\<close>

definition taken :: "io_point \<Rightarrow> conn list \<Rightarrow> conn list \<Rightarrow> bool" where
  "taken p0 hs hs' \<longleftrightarrow>
     (if p0 = IO_idle then hs' = hs
      else \<exists>i t ts. i < length hs \<and> conn_posted (hs ! i) = t # ts
             \<and> on_data_call (hs ! i) t = Inr p0 \<and> hs' = hs[i := conn_pop (hs ! i)])"

definition threads_rel :: "system \<Rightarrow> threaded \<Rightarrow> bool" where
  "threads_rel a s \<longleftrightarrow> (\<exists>ioc p p0. ts_threads s = [(ioc, p)] \<and> (p = IO_idle \<longrightarrow> p0 = IO_idle)
     \<and> taken p0 (sy_handlers a) (sy_handlers s) \<and> main_ok p p0 (ts_main s) (sy_consumer a) (sy_consumer s))"

lemma io_rel_busy: "io_rel p p0 ca cc \<Longrightarrow> p \<noteq> IO_idle \<Longrightarrow> p0 \<noteq> IO_idle"
proof (cases p)
  case (IO_enqueue x)
  assume "io_rel p p0 ca cc"
  then show ?thesis using IO_enqueue by (cases x) (auto simp: offered_def)
qed auto

lemma sys_step_data:
  assumes "i < length (sy_handlers a)" and "conn_posted (sy_handlers a ! i) = t # ts"
    and "on_data_call (sy_handlers a ! i) t = Inr p0" and "co_cache (sy_consumer a) = Some ca"
    and "encache_alone 6 p0 ca = Inr (IO_idle, ca')"
  shows "sys_steps a [Data i]
      (a\<lparr>sy_handlers := (sy_handlers a)[i := conn_pop (sy_handlers a ! i)],
         sy_consumer := (sy_consumer a)\<lparr>co_cache := Some ca'\<rparr>\<rparr>)
    \<and> conn_on_data (sy_handlers a ! i) t (Some ca) = Inr ca'"
proof -
  have o: "conn_on_data (sy_handlers a ! i) t (Some ca) = Inr ca'"
    using on_data_alone [of ca "sy_handlers a ! i" t] assms(3,5) by (auto split: sum.splits)
  show ?thesis
    using sys_steps.snoc [OF sys_steps.start sys_step.data [OF assms(1,2), of ca']] assms(4) o by simp
qed

lemma main_rel_cache:
  "main_rel mp A T \<Longrightarrow> main_rel mp (A\<lparr>co_cache := X\<rparr>) (T\<lparr>co_cache := Y\<rparr>)"
  by (cases mp; cases A; cases T) auto

lemma threads_rel_step:
  assumes "threads_rel a s" and "thread_step s e s'"
  shows "\<exists>a' es. sys_steps a es a' \<and> filter is_net es = completion e \<and> threads_rel a' s'"
proof -
  obtain ioc p p0 where th: "ts_threads s = [(ioc, p)]" "p = IO_idle \<longrightarrow> p0 = IO_idle"
    "taken p0 (sy_handlers a) (sy_handlers s)" "main_ok p p0 (ts_main s) (sy_consumer a) (sy_consumer s)"
    using assms(1) by (auto simp: threads_rel_def)
  obtain ca cc where c: "main_rel (ts_main s) (sy_consumer a) (sy_consumer s)"
    "co_cache (sy_consumer a) = Some ca" "co_cache (sy_consumer s) = Some cc" "c_wf ca"
    "io_rel p p0 ca cc" "reader_inv (c_queue cc) (point_reader (ts_main s))"
    using th(4) by (auto simp: main_ok_def)
  show ?thesis
    using assms(2)
  proof cases
    case (net_done k i ev c')
    then have p: "p = IO_idle" "p0 = IO_idle" using th(1,2) by auto
    then have hs: "sy_handlers s = sy_handlers a" using th(3) by (simp add: taken_def)
    let ?a = "a\<lparr>sy_handlers := (sy_handlers a)[i := c']\<rparr>"
    have "sys_steps a [Net i ev] ?a"
      using sys_steps.snoc [OF sys_steps.start sys_step.net [of i a ev c']] net_done hs by simp
    moreover have "threads_rel ?a s'"
      using th p hs net_done(2) by (auto simp: threads_rel_def taken_def)
    ultimately show ?thesis using net_done(1)
      by (intro exI [of _ ?a] exI [of _ "[Net i ev]"]) (simp add: is_net_def)
  next
    case (on_data k i t ts p1)
    then have p: "p = IO_idle" "p0 = IO_idle" "k = 0" using th(1,2) by auto
    then have hs: "sy_handlers s = sy_handlers a" and cc: "cc = ca" using th(3) c(5) by (simp_all add: taken_def)
    have entry: "main_ok p1 p1 (ts_main s) (sy_consumer a) (sy_consumer s)"
      using c cc on_data_call_entry [OF on_data(7), of ca] by (auto simp: main_ok_def)
    show ?thesis
    proof (cases "p1 = IO_idle")
      case True
      let ?a = "a\<lparr>sy_handlers := (sy_handlers a)[i := conn_pop (sy_handlers a ! i)],
        sy_consumer := (sy_consumer a)\<lparr>co_cache := Some ca\<rparr>\<rparr>"
      have "sys_steps a [Data i] ?a"
        using sys_step_data [of i a t ts p1 ca ca] on_data hs c(2) True by simp
      moreover have "(sy_consumer a)\<lparr>co_cache := Some ca\<rparr> = sy_consumer a" using c(2) by simp
      then have "threads_rel ?a s'"
        using th(1) on_data(2) p hs entry True by (auto simp: threads_rel_def taken_def)
      ultimately show ?thesis using on_data(1)
        by (intro exI [of _ ?a] exI [of _ "[Data i]"]) (simp add: is_net_def)
    next
      case False
      have "threads_rel a s'"
        using th(1) on_data p hs entry False by (auto simp: threads_rel_def taken_def)
      then show ?thesis using on_data(1) sys_steps.start by fastforce
    qed
  next
    case (io_access k ioc' p1 c1 p' c')
    then have k: "k = 0" "ioc' = ioc" "p1 = p" "c1 = cc" using th(1) c(3) by auto
    then have acc: "encache_access p cc = Inr (p', c')" using io_access(6) by simp
    have reader: "reader_inv (c_queue c') (point_reader (ts_main s))"
      using encache_access_reader [OF acc io_rel_wf [OF c(5,4)] io_rel_producer [OF c(5,4)] c(6)] .
    note mrel = main_rel_cache [OF c(1)]
    note r = io_rel_access [OF c(5,4) acc]
    show ?thesis
    proof (cases "p = IO_idle \<or> p' \<noteq> IO_idle")
      case True
      then have "io_rel p' p0 ca c'" "p' = IO_idle \<longrightarrow> p0 = IO_idle"
        using r acc th(2) c(5) by auto
      moreover have "(sy_consumer a)\<lparr>co_cache := Some ca\<rparr> = sy_consumer a" using c(2) by simp
      then have "main_rel (ts_main s) (sy_consumer a) ((sy_consumer s)\<lparr>co_cache := Some c'\<rparr>)"
        using mrel [of "Some ca" "Some c'"] by (simp only:)
      ultimately have "threads_rel a s'"
        using th(1,3) io_access(2) k c(2,4) reader
        by (auto simp: threads_rel_def main_ok_def)
      then show ?thesis using io_access(1) sys_steps.start by fastforce
    next
      case False
      then have e: "encache_alone 6 p0 ca = Inr (IO_idle, c')" and "p0 \<noteq> IO_idle"
        using r io_rel_busy [OF c(5)] by auto
      then obtain i t ts where i: "i < length (sy_handlers a)" "conn_posted (sy_handlers a ! i) = t # ts"
        "on_data_call (sy_handlers a ! i) t = Inr p0" "sy_handlers s = (sy_handlers a)[i := conn_pop (sy_handlers a ! i)]"
        using th(3) by (auto simp: taken_def)
      let ?a = "a\<lparr>sy_handlers := (sy_handlers a)[i := conn_pop (sy_handlers a ! i)],
         sy_consumer := (sy_consumer a)\<lparr>co_cache := Some c'\<rparr>\<rparr>"
      have d: "sys_steps a [Data i] ?a" "conn_on_data (sy_handlers a ! i) t (Some ca) = Inr c'"
        using sys_step_data [OF i(1-3) c(2) e] by simp_all
      have "c_wf c'" using conn_on_data_cache [OF c(4) d(2)] by simp
      then have "threads_rel ?a s'"
        using th(1) False io_access(2) k i(4) reader mrel [of "Some c'" "Some c'"]
        by (auto simp: threads_rel_def taken_def main_ok_def)
      then show ?thesis using d(1) io_access(1)
        by (intro exI [of _ ?a] exI [of _ "[Data i]"]) (simp add: is_net_def)
    qed
  next
    case (main_access mp con')
    obtain A' where A': "A' = sy_consumer a \<or> consumer_exec 0 (sy_consumer a) = Inr A'"
      "main_ok p p0 mp A' con'"
      using main_sim [OF th(4) main_access(3)] by blast
    have "threads_rel (a\<lparr>sy_consumer := A'\<rparr>) s'"
      using th(1-3) main_access(2) A'(2) by (auto simp: threads_rel_def)
    moreover have "\<exists>es. sys_steps a es (a\<lparr>sy_consumer := A'\<rparr>) \<and> filter is_net es = []"
      using A'(1)
    proof
      assume "A' = sy_consumer a"
      then show ?thesis using sys_steps.start [of a] by (intro exI [of _ "[]"]) simp
    next
      assume "consumer_exec 0 (sy_consumer a) = Inr A'"
      from sys_steps.snoc [OF sys_steps.start sys_step.task [OF this]] show ?thesis
        by (intro exI [of _ "[Task]"]) (simp add: is_net_def)
    qed
    ultimately show ?thesis using main_access(1) by auto
  qed
qed

lemma threads_rel_steps:
  assumes "thread_steps s0 es s" and "threads_rel a0 s0"
  shows "\<exists>a es'. sys_steps a0 es' a \<and> filter is_net es' = completions es \<and> threads_rel a s"
  using assms
proof (induction rule: thread_steps.induct)
  case (still s)
  then show ?case using sys_steps.start by fastforce
next
  case (further s es s1 e s2)
  obtain a es' where 1: "sys_steps a0 es' a" "filter is_net es' = completions es" "threads_rel a s1"
    using further.IH [OF further.prems] by blast
  obtain a' es'' where 2: "sys_steps a es'' a'" "filter is_net es'' = completion e" "threads_rel a' s2"
    using threads_rel_step [OF 1(3) further.hyps(2)] by blast
  show ?case using sys_steps_trans [OF 2(1) 1(1)] 1(2) 2(2,3)
    by (intro exI [of _ a'] exI [of _ "es' @ es''"]) simp
qed

lemma threads_rel_start:
  assumes "co_cache (sy_consumer a) = Some c" and "c_wf c"
  shows "threads_rel a (with_threads iocs [ioc] a)"
  using assms by (auto simp: threads_rel_def with_threads_def taken_def main_ok_def)

lemma threads_rel_log: "threads_rel a s \<Longrightarrow> co_log (sy_consumer s) = co_log (sy_consumer a)"
proof -
  assume "threads_rel a s"
  then have "main_rel (ts_main s) (sy_consumer a) (sy_consumer s)"
    by (auto simp: threads_rel_def main_ok_def)
  then show ?thesis by (cases "ts_main s") (simp_all, (metis consumer.select_convs(5) consumer.surjective consumer.update_convs(1,4))+)
qed

lemma threads_rel_idle:
  assumes "threads_rel a s" and "ts_threads s = [(ioc, IO_idle)]" and "ts_main s = M_idle"
  shows "sy_handlers s = sy_handlers a \<and> sy_consumer s = sy_consumer a"
  using assms by (auto simp: threads_rel_def taken_def main_ok_def)

lemma texts_of_is_net: "texts_of i (filter is_net es) = texts_of i es"
proof (induction es)
  case (Cons e es)
  then show ?case by (cases e) (simp_all add: texts_of_def is_net_def)
qed simp

lemma origin_is_net: "origin hs (filter is_net es) x = origin hs es x"
  by (simp add: origin_def texts_of_is_net)

section \<open>Started clients\<close>

lemma concat_nth_iocs:
  "length (handler_iocs cl) = length (sy_handlers (sys_start cl))"
  by (simp add: handler_iocs_def sys_start_def length_concat comp_def)

lemma handler_iocs_threads:
  assumes "Client n0 u0 cfg = Inr c0" and "client_setup f_ws f_rest c0 = Inr c1"
    and "client_run c1 = Inr c2" and "length (cfg_subscriptions cfg) < 2 ^ 31"
  shows "\<forall>i<length (sy_handlers (sys_start c2)). handler_iocs c2 ! i \<in> set (cl_threads c2)"
proof -
  note run = client_running [OF assms]
  have "set (handler_iocs c2) \<subseteq> set (cl_threads c2)"
    by (auto simp: handler_iocs_def run(1,2) manager_run_def setup_instrument_handlers)
  then show ?thesis using nth_mem concat_nth_iocs by (metis subsetD)
qed

text \<open>What \<open>System\<close> can do from the start of a client, the threads can do.\<close>

lemma started_threads:
  assumes "Client n0 u0 cfg = Inr c0" and "client_setup f_ws f_rest c0 = Inr c1"
    and "client_run c1 = Inr c2" and "length (cfg_subscriptions cfg) < 2 ^ 31"
    and "sys_steps (sys_start c2) es a"
  shows "\<exists>es'. thread_steps (threads_start c2) es' (with_threads (handler_iocs c2) (cl_threads c2) a)
    \<and> completions es' = filter is_net es"
  using sys_steps_threads [OF assms(5) handler_iocs_threads [OF assms(1-4)]]
  by (auto simp: threads_start_def)

lemma started_rel:
  assumes "Client n0 u0 cfg = Inr c0" and "client_setup f_ws f_rest c0 = Inr c1"
    and "client_run c1 = Inr c2" and "length (cfg_subscriptions cfg) = 1"
  shows "threads_rel (sys_start c2) (threads_start c2)"
proof -
  have "length (cfg_subscriptions cfg) < 2 ^ 31" using assms(4) by simp
  note run = client_running [OF assms(1-3) this]
  have "c_wf (cl_buffer c2)" using Cache_wf [OF run(5)] by (simp add: int_min_def int_max_def)
  then have "threads_rel (sys_start c2) (with_threads (handler_iocs c2) [0] (sys_start c2))"
    by (intro threads_rel_start) (simp_all add: sys_start_def run(4) consumer_of_def)
  then show ?thesis by (simp add: threads_start_def run(2) assms(4) upt_rec)
qed

lemma one_subscription:
  assumes "Client n0 u0 cfg = Inr c0" and "client_setup f_ws f_rest c0 = Inr c1"
    and "client_run c1 = Inr c2" and "length (cfg_subscriptions cfg) = 1"
    and "thread_steps (threads_start c2) es s"
  shows "\<exists>es' a. sys_steps (sys_start c2) es' a \<and> filter is_net es' = completions es \<and> threads_rel a s"
  using threads_rel_steps [OF assms(5) started_rel [OF assms(1-4)]] by blast

lemma one_subscription_inv:
  assumes "Client n0 u0 cfg = Inr c0" and "client_setup f_ws f_rest c0 = Inr c1"
    and "client_run c1 = Inr c2" and "length (cfg_subscriptions cfg) = 1"
    and "thread_steps (threads_start c2) es s"
  shows "sorted_wrt (<) (call_ids (co_log (sy_consumer s)))"
    and "x \<in> set (co_log (sy_consumer s)) \<Longrightarrow> origin (sy_handlers (sys_start c2)) (completions es) x"
proof -
  obtain es' a where a: "sys_steps (sys_start c2) es' a" "filter is_net es' = completions es"
    "co_log (sy_consumer s) = co_log (sy_consumer a)"
    using one_subscription [OF assms] threads_rel_log by blast
  have "length (cfg_subscriptions cfg) < 2 ^ 31" using assms(4) by simp
  note inv = sys_steps_inv [OF a(1)] start_inv [OF assms(1-3) this]
  show "sorted_wrt (<) (call_ids (co_log (sy_consumer s)))"
    using inv a(3) by (auto simp: calls_inv_def all_calls_def sorted_wrt_append)
  show "origin (sy_handlers (sys_start c2)) (completions es) x" if "x \<in> set (co_log (sy_consumer s))"
    using inv that a(3) origin_is_net [of _ es' x]
    by (auto simp: calls_inv_def all_calls_def a(2) [symmetric])
qed

section \<open>Sample runs\<close>

lemma frame_posted:
  assumes "i < length (sy_handlers s)" and "sy_handlers s ! i = WS_conn (ws_run h)" and "idle h" and "h_bound h"
  shows "\<exists>es h'. sys_steps s es (s\<lparr>sy_handlers := (sy_handlers s)[i := WS_conn h']\<rparr>)
    \<and> ws_posted h' = [t] \<and> h_symbol h' = h_symbol h \<and> h_bound h'"
proof -
  obtain h' where h': "ws_steps (ws_run h) (ws_opening @ [WS_event WS_read EC_success t]) h'" "ws_posted h' = [t]"
    using ws_run_delivers [OF assms(3), of "[t]"] by auto
  have "h_symbol b = h_symbol a \<and> h_bound b = h_bound a" if "ws_steps a es b" for a es b
    using that by (induction rule: ws_steps.induct)
      (auto elim!: ws_stepE simp: ws_complete_symbol ws_complete_bound)
  from this [OF h'(1)] have "h_symbol h' = h_symbol h" "h_bound h'"
    using assms(4) by (simp_all add: ws_run_def ws_start_def)
  then show ?thesis using sys_steps_ws [OF h'(1) assms(1,2)] h'(2) by blast
qed

lemma ws_call:
  assumes "parseJsonString t = Inr j" and "fst (json_uint64_at ''U'' j) = Inr u" and "h_bound h"
  shows "on_data_call (WS_conn h) t = Inr (IO_compare (order_msg MS_WebSocket (h_symbol h) j) u)"
  using assms by (simp add: on_data_call_def conn_bound_def wsp.parse_text msg_valid_def encache_call_def)
    (simp add: order_msg_def)

lemma sys_steps_tasks:
  assumes "consumer_events (replicate n (Exec 0)) (sy_consumer s) = Inr (acc, con)"
  shows "sys_steps s (replicate n Task) (s\<lparr>sy_consumer := con\<rparr>)"
  using assms
proof (induction n arbitrary: s)
  case 0
  then show ?case using sys_steps.start [of s] by auto
next
  case (Suc n)
  obtain con1 where c: "consumer_exec 0 (sy_consumer s) = Inr con1"
    "consumer_events (replicate n (Exec 0)) con1 = Inr (acc, con)"
    using Suc.prems by (auto split: sum.splits)
  have "sys_steps s [Task] (s\<lparr>sy_consumer := con1\<rparr>)"
    using sys_steps.snoc [OF sys_steps.start sys_step.task [OF c(1)]] by simp
  from sys_steps_trans [OF Suc.IH this] c(2) show ?case by fastforce
qed

text \<open>Two frames that two handlers have posted, and the caches in which their messages are stored.\<close>

lemma two_frames_posted:
  assumes "i < length (sy_handlers s)" "sy_handlers s ! i = WS_conn (ws_run h)" "idle h" "h_bound h"
    and "j < length (sy_handlers s)" "sy_handlers s ! j = WS_conn (ws_run k)" "idle k" "h_bound k"
    and "i \<noteq> j"
  shows "\<exists>es h' k'. sys_steps s es (s\<lparr>sy_handlers := (sy_handlers s)[i := WS_conn h', j := WS_conn k']\<rparr>)
    \<and> ws_posted h' = [t1] \<and> h_symbol h' = h_symbol h \<and> h_bound h'
    \<and> ws_posted k' = [t2] \<and> h_symbol k' = h_symbol k \<and> h_bound k'"
proof -
  obtain es1 h' where 1: "sys_steps s es1 (s\<lparr>sy_handlers := (sy_handlers s)[i := WS_conn h']\<rparr>)"
    "ws_posted h' = [t1]" "h_symbol h' = h_symbol h" "h_bound h'"
    using frame_posted [OF assms(1-4)] by blast
  let ?s1 = "s\<lparr>sy_handlers := (sy_handlers s)[i := WS_conn h']\<rparr>"
  have "j < length (sy_handlers ?s1)" "sy_handlers ?s1 ! j = WS_conn (ws_run k)" using assms(5,6,9) by simp_all
  from frame_posted [OF this assms(7,8), of t2] obtain es2 k' where 2:
    "sys_steps ?s1 es2 (?s1\<lparr>sy_handlers := (sy_handlers ?s1)[j := WS_conn k']\<rparr>)"
    "ws_posted k' = [t2]" "h_symbol k' = h_symbol k" "h_bound k'" by blast
  then show ?thesis using sys_steps_trans [OF 2(1) 1(1)] 1 2 by auto
qed

lemma encache_fresh:
  assumes "c_wf c" and "length (c_items c) < c_room c"
    and "fst (json_uint64_at ''U'' j) = Inr u" and "c_U c < u"
  shows "\<exists>c'. encache (order_msg MS_WebSocket symb j) c = Inr (True, c') \<and> c_wf c'
    \<and> c_items c' = c_items c @ [order_msg MS_WebSocket symb j] \<and> c_U c' = u \<and> c_room c' = c_room c"
proof -
  have "update_id (order_msg MS_WebSocket symb j) = Inr (Some u)" using assms(3) by (simp add: update_id_ws)
  from mc.enc_readable [OF assms(1) this] show ?thesis using assms(2,4) by (auto simp: max_def)
qed

text \<open>The consumer of a started client delivers two stored web socket messages with four tasks.\<close>

lemma two_delivered:
  assumes con: "sy_consumer s = (consumer_of (\<lambda>_. Inr ()) f_rest buf)\<lparr>co_tasks := [Poll]\<rparr>"
    and buf: "c_wf buf" "c_items buf = [order_msg MS_WebSocket s1 j1, order_msg MS_WebSocket s2 j2]"
  shows "\<exists>s'. sys_steps s (replicate 4 Task) s' \<and> co_log (sy_consumer s') =
    [(MS_WebSocket, \<lparr>ob_symbol = s1, ob_data = j1\<rparr>), (MS_WebSocket, \<lparr>ob_symbol = s2, ob_data = j2\<rparr>)]"
proof -
  have h: "list_all (handled (sy_consumer s)) (c_items buf)"
    by (simp add: buf(2) con consumer_of_def handled_def onData_def call_back_def order_msg_def)
  have "co_tasks (sy_consumer s) = [Poll]" "co_cache (sy_consumer s) = Some buf"
    by (simp_all add: con consumer_of_def)
  from drain [OF this buf(1) h] obtain con' where
    d: "consumer_events (replicate 4 (Exec 0)) (sy_consumer s) = Inr ([], con')"
      "co_log con' = calls (sy_consumer s) (c_items buf)"
    by (auto simp: buf(2) con consumer_of_def)
  have "co_log con' = [(MS_WebSocket, \<lparr>ob_symbol = s1, ob_data = j1\<rparr>), (MS_WebSocket, \<lparr>ob_symbol = s2, ob_data = j2\<rparr>)]"
    by (simp add: d(2) buf(2)) (simp add: calls_of_order_msg con consumer_of_def)
  then show ?thesis using sys_steps_tasks [OF d(1)] by auto
qed

lemma frames_in_order:
  assumes i: "i < length (sy_handlers s)" "sy_handlers s ! i = WS_conn (ws_run h)" "idle h" "h_bound h"
    and j: "j < length (sy_handlers s)" "sy_handlers s ! j = WS_conn (ws_run k)" "idle k" "h_bound k" "i \<noteq> j"
    and con: "sy_consumer s = (consumer_of (\<lambda>_. Inr ()) f_rest buf)\<lparr>co_tasks := [Poll]\<rparr>"
    and buf: "c_wf buf" "c_items buf = []" "2 \<le> c_room buf" "c_U buf < u1" "u1 < u2"
    and t1: "parseJsonString t1 = Inr j1" "fst (json_uint64_at ''U'' j1) = Inr u1"
    and t2: "parseJsonString t2 = Inr j2" "fst (json_uint64_at ''U'' j2) = Inr u2"
  shows "\<exists>es s'. sys_steps s es s' \<and> co_log (sy_consumer s') =
    [(MS_WebSocket, \<lparr>ob_symbol = h_symbol h, ob_data = j1\<rparr>), (MS_WebSocket, \<lparr>ob_symbol = h_symbol k, ob_data = j2\<rparr>)]"
proof -
  obtain es h' k' where p: "sys_steps s es (s\<lparr>sy_handlers := (sy_handlers s)[i := WS_conn h', j := WS_conn k']\<rparr>)"
    "ws_posted h' = [t1]" "h_symbol h' = h_symbol h" "h_bound h'"
    "ws_posted k' = [t2]" "h_symbol k' = h_symbol k" "h_bound k'"
    using two_frames_posted [OF i j] by blast
  let ?s1 = "s\<lparr>sy_handlers := (sy_handlers s)[i := WS_conn h', j := WS_conn k']\<rparr>"
  obtain b1 where b1: "encache (order_msg MS_WebSocket (h_symbol h) j1) buf = Inr (True, b1)" "c_wf b1"
    "c_items b1 = [order_msg MS_WebSocket (h_symbol h) j1]" "c_U b1 = u1" "c_room b1 = c_room buf"
    using encache_fresh [OF buf(1) _ t1(2) buf(4)] buf(2,3) by auto
  obtain b2 where b2: "encache (order_msg MS_WebSocket (h_symbol k) j2) b1 = Inr (True, b2)" "c_wf b2"
    "c_items b2 = [order_msg MS_WebSocket (h_symbol h) j1, order_msg MS_WebSocket (h_symbol k) j2]"
    using encache_fresh [OF b1(2) _ t2(2), of "h_symbol k"] b1(3-5) buf(3,5) by auto
  let ?s2 = "?s1\<lparr>sy_handlers := (sy_handlers ?s1)[i := conn_pop (WS_conn h')],
    sy_consumer := (sy_consumer s)\<lparr>co_cache := Some b1\<rparr>\<rparr>"
  have "sys_step ?s1 (Data i) ?s2"
    using sys_step.data [of i ?s1 t1 "[]" b1] i(1) j(1,5) p(2-4) con b1(1) wsp.on_data_parsed [OF t1(1), of "h_symbol h" buf]
    by (simp add: conn_posted_def conn_on_data_def conn_bound_def consumer_of_def nth_list_update)
  from sys_steps.snoc [OF p(1) this] have r2: "sys_steps s (es @ [Data i]) ?s2" .
  let ?s3 = "?s2\<lparr>sy_handlers := (sy_handlers ?s2)[j := conn_pop (WS_conn k')],
    sy_consumer := (sy_consumer s)\<lparr>co_cache := Some b2\<rparr>\<rparr>"
  have "sys_step ?s2 (Data j) ?s3"
    using sys_step.data [of j ?s2 t2 "[]" b2] i(1) j(1,5) p(5-7) con b2(1) wsp.on_data_parsed [OF t2(1), of "h_symbol k" b1]
    by (simp add: conn_posted_def conn_on_data_def conn_bound_def consumer_of_def nth_list_update)
  from sys_steps.snoc [OF r2 this] have r3: "sys_steps s ((es @ [Data i]) @ [Data j]) ?s3" .
  have "sy_consumer ?s3 = (consumer_of (\<lambda>_. Inr ()) f_rest b2)\<lparr>co_tasks := [Poll]\<rparr>"
    by (simp add: con consumer_of_def)
  from two_delivered [OF this b2(2,3)] obtain s' where "sys_steps ?s3 (replicate 4 Task) s'"
    "co_log (sy_consumer s') = [(MS_WebSocket, \<lparr>ob_symbol = h_symbol h, ob_data = j1\<rparr>),
      (MS_WebSocket, \<lparr>ob_symbol = h_symbol k, ob_data = j2\<rparr>)]" by blast
  then show ?thesis using sys_steps_trans [OF _ r3] by blast
qed

lemma cache_enqueue_space:
  assumes "c_wf c" and "length (c_items c) < c_room c"
  shows "\<exists>c'. cache_enqueue m c = Inr (True, c') \<and> c_wf c' \<and> c_items c' = c_items c @ [m] \<and> c_room c' = c_room c"
proof -
  have "refines (cache_enqueue m c) (Inr (True, c_abs c\<lparr>sp_items := c_items c @ [m]\<rparr>))"
    using cache_enqueue_refines [OF assms(1), of m] assms(2) by (simp add: sp_push_def c_abs_def)
  then show ?thesis by (auto simp: refines_def c_abs_def split: sum.splits)
qed

lemma assign_alone:
  assumes "cache_enqueue m (c\<lparr>c_U := U\<rparr>) = Inr (ok, c')"
  shows "encache_alone 5 (IO_assign m U) c = Inr (IO_idle, c')"
proof -
  have "(5::nat) = Suc 4" by simp
  moreover have "encache_alone 4 (IO_enqueue (P_called m)) (c\<lparr>c_U := U\<rparr>) = Inr (IO_idle, c')"
    using encache_alone_enqueue [where n = 0 and m = m and c = "c\<lparr>c_U := U\<rparr>"] assms
    by (simp only: access_numerals sum.case prod.case)
  ultimately show ?thesis
    by (simp only: encache_alone.simps encache_access.simps sum.case prod.case)
qed

text \<open>
  Two io threads: both compare their ids with \<^verbatim>\<open>U_\<close>, then the thread with the greater id runs on,
  then the other one.
\<close>

lemma two_threads_race:
  fixes iocs ids :: "nat list" and i j ki kj :: nat and s :: system
  defines "T hs buf p q \<equiv> (with_threads iocs ids s)\<lparr>sy_handlers := hs,
      sy_consumer := (sy_consumer s)\<lparr>co_cache := Some buf\<rparr>,
      ts_threads := (map (\<lambda>ioc. (ioc, IO_idle)) ids)[ki := (iocs ! i, p), kj := (iocs ! j, q)]\<rparr>"
  assumes i: "i < length (sy_handlers s)" "conn_posted (sy_handlers s ! i) = t1 # ts1"
      "on_data_call (sy_handlers s ! i) t1 = Inr (IO_compare m1 u1)"
    and j: "j < length (sy_handlers s)" "conn_posted (sy_handlers s ! j) = t2 # ts2"
      "on_data_call (sy_handlers s ! j) t2 = Inr (IO_compare m2 u2)" "i \<noteq> j"
    and k: "ki < length ids" "ids ! ki = iocs ! i" "kj < length ids" "ids ! kj = iocs ! j" "ki \<noteq> kj"
    and buf: "co_cache (sy_consumer s) = Some buf" "c_wf buf" "c_items buf = []" "2 \<le> c_room buf"
      "c_U buf < u1" "c_U buf < u2"
  shows "\<exists>es hs b. thread_steps (with_threads iocs ids s) es (with_threads iocs ids
      (s\<lparr>sy_handlers := hs, sy_consumer := (sy_consumer s)\<lparr>co_cache := Some b\<rparr>\<rparr>))
    \<and> length hs = length (sy_handlers s) \<and> c_wf b \<and> c_items b = [m2, m1]"
proof -
  let ?hs1 = "(sy_handlers s)[i := conn_pop (sy_handlers s ! i)]"
  let ?hs = "?hs1[j := conn_pop (sy_handlers s ! j)]"
  have swap: "xs[ki := a, kj := b, ki := c] = xs[ki := c, kj := b]" for xs :: "(nat \<times> io_point) list" and a b c
    using k(5) by (metis list_update_overwrite list_update_swap)
  have idle: "T (sy_handlers s) buf IO_idle IO_idle = with_threads iocs ids s"
    using k buf(1) by (simp add: T_def with_threads_def list_update_same_conv)
      (metis (no_types, lifting) length_map list_update_id nth_map)
  have th: "ts_threads (T hs b p q) ! ki = (iocs ! i, p)" "ts_threads (T hs b p q) ! kj = (iocs ! j, q)"
    "ki < length (ts_threads (T hs b p q))" "kj < length (ts_threads (T hs b p q))" for hs b p q
    using k by (simp_all add: T_def)
  have flds: "sy_handlers (T hs b p q) = hs" "co_cache (sy_consumer (T hs b p q)) = Some b"
    "ts_iocs (T hs b p q) = iocs" for hs b p q
    by (simp_all add: T_def with_threads_def)
  have upd: "(T hs b p q)\<lparr>ts_threads := (ts_threads (T hs b p q))[ki := (iocs ! i, p')]\<rparr> = T hs b p' q"
    "(T hs b p q)\<lparr>ts_threads := (ts_threads (T hs b p q))[kj := (iocs ! j, q')]\<rparr> = T hs b p q'" for hs b p q p' q'
    by (simp_all add: T_def swap)
  have io: "thread_steps (T hs b p q) (replicate n (Io_access ki)) (T hs b' p' q)"
    if "encache_alone n p b = Inr (p', b')" for hs b p q n b' p'
    using encache_alone_steps [OF that th(3,1) flds(2)] k(5)
    by (simp add: T_def with_threads_def swap)
  have io': "thread_steps (T hs b p q) (replicate n (Io_access kj)) (T hs b' p q')"
    if "encache_alone n q b = Inr (q', b')" for hs b p q n b' q'
    using encache_alone_steps [OF that th(4,2) flds(2)] by (simp add: T_def with_threads_def)
  have 1: "thread_steps (with_threads iocs ids s) [On_data ki i] (T ?hs1 buf (IO_compare m1 u1) IO_idle)"
  proof -
    have "thread_step (T (sy_handlers s) buf IO_idle IO_idle) (On_data ki i) (T ?hs1 buf (IO_compare m1 u1) IO_idle)"
      using thread_step.on_data [of ki "T (sy_handlers s) buf IO_idle IO_idle" i t1 ts1 "IO_compare m1 u1"] i k th flds
      by (simp add: T_def with_threads_def swap)
    then show ?thesis unfolding idle by (rule thread_steps_one)
  qed
  have 2: "thread_steps (T ?hs1 buf (IO_compare m1 u1) IO_idle) [On_data kj j]
      (T ?hs buf (IO_compare m1 u1) (IO_compare m2 u2))"
  proof -
    have "thread_step (T ?hs1 buf (IO_compare m1 u1) IO_idle) (On_data kj j)
        (T ?hs buf (IO_compare m1 u1) (IO_compare m2 u2))"
      using thread_step.on_data [of kj "T ?hs1 buf (IO_compare m1 u1) IO_idle" j t2 ts2 "IO_compare m2 u2"] j k th flds
      by (simp add: T_def with_threads_def)
    then show ?thesis by (rule thread_steps_one)
  qed
  have 3: "thread_steps (T ?hs buf (IO_compare m1 u1) (IO_compare m2 u2)) (replicate 1 (Io_access ki))
      (T ?hs buf (IO_assign m1 u1) (IO_compare m2 u2))"
    using buf(5) by (intro io) (simp add: not_le)
  have 4: "thread_steps (T ?hs buf (IO_assign m1 u1) (IO_compare m2 u2)) (replicate 1 (Io_access kj))
      (T ?hs buf (IO_assign m1 u1) (IO_assign m2 u2))"
    using buf(6) by (intro io') (simp add: not_le)
  have [simp]: "c_wf (c\<lparr>c_U := U\<rparr>) = c_wf c" "c_items (c\<lparr>c_U := U\<rparr>) = c_items c" "c_room (c\<lparr>c_U := U\<rparr>) = c_room c" for c U
    by (simp_all add: cache_abs_defs)
  obtain b1 where b1: "cache_enqueue m2 (buf\<lparr>c_U := u2\<rparr>) = Inr (True, b1)" "c_wf b1" "c_items b1 = [m2]" "c_room b1 = c_room buf"
    using cache_enqueue_space [of "buf\<lparr>c_U := u2\<rparr>" m2] buf by auto
  obtain b2 where b2: "cache_enqueue m1 (b1\<lparr>c_U := u1\<rparr>) = Inr (True, b2)" "c_wf b2" "c_items b2 = [m2, m1]"
    using cache_enqueue_space [of "b1\<lparr>c_U := u1\<rparr>" m1] b1 buf(4) by auto
  have 5: "thread_steps (T ?hs buf (IO_assign m1 u1) (IO_assign m2 u2)) (replicate 5 (Io_access kj))
      (T ?hs b1 (IO_assign m1 u1) IO_idle)"
    by (rule io' [OF assign_alone [OF b1(1)]])
  have 6: "thread_steps (T ?hs b1 (IO_assign m1 u1) IO_idle) (replicate 5 (Io_access ki)) (T ?hs b2 IO_idle IO_idle)"
    by (rule io [OF assign_alone [OF b2(1)]])
  note thread_steps_trans [OF 6 thread_steps_trans [OF 5 thread_steps_trans [OF 4
      thread_steps_trans [OF 3 thread_steps_trans [OF 2 1]]]]]
  moreover have "T ?hs b2 IO_idle IO_idle = with_threads iocs ids
      (s\<lparr>sy_handlers := ?hs, sy_consumer := (sy_consumer s)\<lparr>co_cache := Some b2\<rparr>\<rparr>)"
    using arg_cong [OF idle, of ts_threads] by (simp add: T_def with_threads_def)
  ultimately show ?thesis using b2(2,3) by (metis length_list_update)
qed

text \<open>The sample configuration with its first subscription only, and a frame newer than \<open>sample_frame\<close>.\<close>

definition one_config :: config where
  "one_config = \<lparr>cfg_setup = sample_setup, cfg_subscriptions = take 1 sample_subscriptions\<rparr>"

definition newer_frame :: string where
  "newer_frame = [CHR 0x7B, CHR 0x22, CHR ''U'', CHR 0x22, CHR '':'', CHR ''6'', CHR 0x7D]"

definition update_book :: "string \<Rightarrow> uint64_t \<Rightarrow> msg_source \<times> orderbook" where
  "update_book symb u = (MS_WebSocket, \<lparr>ob_symbol = symb, ob_data = JObject [(''U'', JUnsigned u)]\<rparr>)"

lemma newer_frame_parse:
  "parseJsonString newer_frame = Inr (JObject [(''U'', JUnsigned 6)])"
  "fst (json_uint64_at ''U'' (JObject [(''U'', JUnsigned 6)])) = Inr 6"
  unfolding newer_frame_def
  by code_simp (simp add: json_uint64_at_def json_index_mut_def json_to_uint64_def Let_def)

lemma call_id_update_book [simp]: "call_id (update_book symb u) = Some u"
  by (simp add: call_id_def update_book_def ws_id_def update_id_def json_uint64_at_def json_index_mut_def
      json_to_uint64_def Let_def)

lemma one_config_length: "length (cfg_subscriptions one_config) = 1"
  by (simp add: one_config_def sample_subscriptions_def)

lemma client_exists:
  assumes "cfg_subscriptions cfg \<noteq> []" and "length (cfg_subscriptions cfg) < 2 ^ 31"
  shows "\<exists>c0 c1 c2. Client n0 u0 cfg = Inr c0 \<and> client_setup f_ws f_rest c0 = Inr c1 \<and> client_run c1 = Inr c2"
proof -
  have "LockFreeQueue default_msg (of_int 1024) = LockFreeQueue default_msg (2 ^ 10)" by simp
  also have "\<dots> = Inr \<lparr>q_buffer = replicate (unat (2 ^ 10 :: 64 word)) default_msg, q_capacity = 2 ^ 10, q_head = 0, q_tail = 0\<rparr>"
    by (simp only: LockFreeQueue_def and_pow2_pred_zero) simp
  finally obtain c0 where c0: "Client n0 u0 cfg = Inr c0" "cl_cfg c0 = cfg"
    by (auto simp: Client_def Cache_def)
  show ?thesis
    using c0 client_setup_eq [of c0 f_ws f_rest] assms
    by (simp add: client_run_def consumer_run_def consumer_of_def start_threads_def)
qed

lemma sample_setup_handlers:
  assumes "Client n0 u0 cfg = Inr c0" and "client_setup f_ws f_rest c0 = Inr c1"
    and "client_run c1 = Inr c2" and "length (cfg_subscriptions cfg) < 2 ^ 31"
    and "cfg_setup cfg = sample_setup"
  shows "sy_handlers (sys_start c2) = concat (map (\<lambda>k.
      (let sub = cfg_subscriptions cfg ! k; su = sample_setup;
           r = conn_run (conn_bind_cache (rest_conn (sub_symbol sub) (su_period_restapi su)
                 (su_host_restapi su) (su_port_restapi su) (endpoint_restapi sub)));
           w = conn_run (conn_bind_cache (ws_conn (sub_symbol sub) (su_host_ws su) (su_port_ws su) (endpoint_ws sub)))
       in [r, w, w])) [0..<length (cfg_subscriptions cfg)])"
    and "handler_iocs c2 = concat (map (\<lambda>k. [k, k, k]) [0..<length (cfg_subscriptions cfg)])"
  by (simp_all add: sys_start_def handler_iocs_def client_running(1) [OF assms(1-4)] assms(5) manager_run_def
      setup_instrument_handlers comp_def sample_setup_def Let_def numeral_2_eq_2 numeral_3_eq_3)

lemma started_consumer:
  assumes "Client n0 u0 cfg = Inr c0" and "client_setup f_ws f_rest c0 = Inr c1"
    and "client_run c1 = Inr c2" and "length (cfg_subscriptions cfg) < 2 ^ 31"
  shows "sy_consumer (sys_start c2) = (consumer_of f_ws f_rest (cl_buffer c2))\<lparr>co_tasks := [Poll]\<rparr>"
    and "c_wf (cl_buffer c2)" "c_items (cl_buffer c2) = []" "2 \<le> c_room (cl_buffer c2)" "c_U (cl_buffer c2) = u0"
  using Cache_wf [OF client_running(5) [OF assms]] Cache_empty [OF client_running(5) [OF assms]]
  by (simp_all add: sys_start_def client_running(4) [OF assms] int_min_def int_max_def)

text \<open>
  A started client with one subscription, and a run of its threads in which two of its web sockets
  each receive a frame and both reach the callback.
\<close>

lemma one_config_run:
  "\<exists>c0 c1 c2 es s. Client 5 0 one_config = Inr c0 \<and> client_setup (\<lambda>_. Inr ()) f_rest c0 = Inr c1
    \<and> client_run c1 = Inr c2 \<and> thread_steps (threads_start c2) es s
    \<and> co_log (sy_consumer s) = [update_book ''btcusdt'' 5, update_book ''btcusdt'' 6]"
proof -
  have small: "length (cfg_subscriptions one_config) < 2 ^ 31" by (simp add: one_config_length)
  have "cfg_subscriptions one_config \<noteq> []" using one_config_length by fastforce
  from client_exists [OF this small] obtain c0 c1 c2 where
    c: "Client 5 0 one_config = Inr c0" "client_setup (\<lambda>_. Inr ()) f_rest c0 = Inr c1" "client_run c1 = Inr c2"
    by blast
  note hs = sample_setup_handlers(1) [OF c small]
  have h: "length (sy_handlers (sys_start c2)) = 3" "\<forall>i \<in> {1, 2}. conn_source (sy_handlers (sys_start c2) ! i) = MS_WebSocket
      \<and> conn_symbol (sy_handlers (sys_start c2) ! i) = ''btcusdt''"
    by (simp_all add: hs one_config_def sample_subscriptions_def Let_def conn_source_def conn_symbol_def
        conn_run_def conn_bind_cache_def ws_conn_def ws_run_def ws_start_def handler_bind_cache_def
        ws_setEndpoint_def new_ws_handler_def numeral_2_eq_2)
  have w: "\<exists>w. sy_handlers (sys_start c2) ! i = WS_conn (ws_run w) \<and> idle w \<and> h_bound w \<and> h_symbol w = ''btcusdt''"
    if "i \<in> {1, 2}" for i
  proof -
    have "i < length (sy_handlers (sys_start c2))" using that h(1) by auto
    from started_ws_handler [OF c small nth_mem [OF this]] that h(2) show ?thesis by auto
  qed
  obtain w1 where w1: "sy_handlers (sys_start c2) ! 1 = WS_conn (ws_run w1)" "idle w1" "h_bound w1" "h_symbol w1 = ''btcusdt''"
    using w [of 1] by auto
  obtain w2 where w2: "sy_handlers (sys_start c2) ! 2 = WS_conn (ws_run w2)" "idle w2" "h_bound w2" "h_symbol w2 = ''btcusdt''"
    using w [of 2] by auto
  note con = started_consumer [OF c small]
  have lt: "1 < length (sy_handlers (sys_start c2))" "2 < length (sy_handlers (sys_start c2))"
    "(1::nat) \<noteq> 2" "c_U (cl_buffer c2) < 5" "(5::uint64_t) < 6" using h(1) con(5) by simp_all
  obtain es a where a: "sys_steps (sys_start c2) es a"
    "co_log (sy_consumer a) = [update_book ''btcusdt'' 5, update_book ''btcusdt'' 6]"
    using frames_in_order [OF lt(1) w1(1-3) lt(2) w2(1-3) lt(3) con(1-4) lt(4,5) sample_frame_parse newer_frame_parse]
      w1(4) w2(4) by (auto simp: update_book_def)
  obtain es' where "thread_steps (threads_start c2) es' (with_threads (handler_iocs c2) (cl_threads c2) a)"
    using started_threads [OF c small a(1)] by blast
  then show ?thesis using c a(2) by (fastforce simp: with_threads_def)
qed

section \<open>Properties of the threads\<close>

text \<open>
  C16: With one subscription there are two threads, one that encaches and the main thread, and for them
  the system whose posted tasks run without interruption tells the whole truth. Every interleaving
  of the threads' single accesses has a run of that system with the same completions of network
  operations and the same calls of the callbacks, in the same order, and with the same handlers,
  cache and tasks whenever both threads are between two tasks; and each run of that system is one of
  the interleavings.
\<close>

theorem threads_refine:
  assumes "Client n0 u0 cfg = Inr c0" and "client_setup f_ws f_rest c0 = Inr c1"
    and "client_run c1 = Inr c2" and "length (cfg_subscriptions cfg) = 1"
  shows "(\<forall>es s. thread_steps (threads_start c2) es s \<longrightarrow>
      (\<exists>es' a. sys_steps (sys_start c2) es' a \<and> filter is_net es' = completions es
         \<and> co_log (sy_consumer a) = co_log (sy_consumer s)
         \<and> (map snd (ts_threads s) = [IO_idle] \<and> ts_main s = M_idle \<longrightarrow>
              sy_handlers a = sy_handlers s \<and> sy_consumer a = sy_consumer s)))
    \<and> (\<forall>es' a. sys_steps (sys_start c2) es' a \<longrightarrow>
      (\<exists>es s. thread_steps (threads_start c2) es s \<and> completions es = filter is_net es'
         \<and> sy_handlers s = sy_handlers a \<and> sy_consumer s = sy_consumer a))"
proof (intro conjI allI impI)
  fix es s assume "thread_steps (threads_start c2) es s"
  then obtain es' a where a: "sys_steps (sys_start c2) es' a" "filter is_net es' = completions es" "threads_rel a s"
    using one_subscription [OF assms] by blast
  have "sy_handlers a = sy_handlers s \<and> sy_consumer a = sy_consumer s"
    if idle: "map snd (ts_threads s) = [IO_idle]" "ts_main s = M_idle"
  proof -
    obtain ioc where "ts_threads s = [(ioc, IO_idle)]" using idle(1) by (cases "ts_threads s") auto
    then show ?thesis using threads_rel_idle [OF a(3)] idle(2) by simp
  qed
  then show "\<exists>es' a. sys_steps (sys_start c2) es' a \<and> filter is_net es' = completions es
         \<and> co_log (sy_consumer a) = co_log (sy_consumer s)
         \<and> (map snd (ts_threads s) = [IO_idle] \<and> ts_main s = M_idle \<longrightarrow>
              sy_handlers a = sy_handlers s \<and> sy_consumer a = sy_consumer s)"
    using a(1,2) threads_rel_log [OF a(3)] by auto
next
  fix es' a assume a: "sys_steps (sys_start c2) es' a"
  have "length (cfg_subscriptions cfg) < 2 ^ 31" using assms(4) by simp
  from started_threads [OF assms(1-3) this a]
  show "\<exists>es s. thread_steps (threads_start c2) es s \<and> completions es = filter is_net es'
         \<and> sy_handlers s = sy_handlers a \<and> sy_consumer s = sy_consumer a"
    by (metis (no_types) system.select_convs(1,2) with_threads_def)
qed

theorem threads_refine_witness:
  "\<exists>c2 es' a. sys_steps (sys_start c2) es' a
    \<and> co_log (sy_consumer a) = [update_book ''btcusdt'' 5, update_book ''btcusdt'' 6]"
proof -
  obtain c0 c1 c2 es s where r: "Client 5 0 one_config = Inr c0"
    "client_setup (\<lambda>_. Inr ()) (\<lambda>_. Inr ()) c0 = Inr c1" "client_run c1 = Inr c2"
    "thread_steps (threads_start c2) es s"
    "co_log (sy_consumer s) = [update_book ''btcusdt'' 5, update_book ''btcusdt'' 6]"
    using one_config_run by blast
  from threads_refine [OF r(1-3) one_config_length] r(4,5) show ?thesis by metis
qed

text \<open>
  With two subscriptions it does not: \<^verbatim>\<open>encache\<close> compares with \<^verbatim>\<open>U_\<close> and assigns to it without a lock.
  Two threads that both pass the comparison store their messages in the order in which they happen
  to run on, and the callback sees the id 6 before the id 5. No run of the system whose tasks are not
  interrupted does that (\<open>sys_steps_inv\<close>).
\<close>

theorem two_subscriptions_reorder:
  "\<exists>c0 c1 c2 es s. Client 5 0 sample_config = Inr c0 \<and> client_setup (\<lambda>_. Inr ()) f_rest c0 = Inr c1
    \<and> client_run c1 = Inr c2 \<and> thread_steps (threads_start c2) es s
    \<and> co_log (sy_consumer s) = [update_book ''ethusdt'' 6, update_book ''btcusdt'' 5]"
proof -
  note small = sample_config_small
  obtain c0 c1 c2 where
    c: "Client 5 0 sample_config = Inr c0" "client_setup (\<lambda>_. Inr ()) f_rest c0 = Inr c1" "client_run c1 = Inr c2"
    using sample_client by blast
  have su: "cfg_setup sample_config = sample_setup" by (simp add: sample_config_def)
  have upt: "[0..<length (cfg_subscriptions sample_config)] = [0, 1]"
    by (simp add: sample_config_def sample_subscriptions_def upt_rec)
  note hs = sample_setup_handlers [OF c small su, unfolded upt]
  let ?s = "sys_start c2"
  have h: "length (sy_handlers ?s) = 6"
    "conn_source (sy_handlers ?s ! 1) = MS_WebSocket" "conn_symbol (sy_handlers ?s ! 1) = ''btcusdt''"
    "conn_source (sy_handlers ?s ! 4) = MS_WebSocket" "conn_symbol (sy_handlers ?s ! 4) = ''ethusdt''"
    by (simp_all add: hs(1) sample_config_def sample_subscriptions_def Let_def conn_source_def conn_symbol_def
        conn_run_def conn_bind_cache_def ws_conn_def ws_run_def ws_start_def handler_bind_cache_def
        ws_setEndpoint_def new_ws_handler_def)
  have iocs: "handler_iocs c2 = [0, 0, 0, 1, 1, 1]" by (simp add: hs(2))
  have ids: "cl_threads c2 = [0, 1]" using client_running(2) [OF c small] upt by simp
  have lt: "1 < length (sy_handlers ?s)" "4 < length (sy_handlers ?s)" "(1::nat) \<noteq> 4" using h(1) by simp_all
  obtain w1 where w1: "sy_handlers ?s ! 1 = WS_conn (ws_run w1)" "idle w1" "h_bound w1" "h_symbol w1 = ''btcusdt''"
    using started_ws_handler [OF c small nth_mem [OF lt(1)] h(2)] h(3) by auto
  obtain w4 where w4: "sy_handlers ?s ! 4 = WS_conn (ws_run w4)" "idle w4" "h_bound w4" "h_symbol w4 = ''ethusdt''"
    using started_ws_handler [OF c small nth_mem [OF lt(2)] h(4)] h(5) by auto
  note con = started_consumer [OF c small]
  obtain es1 v1 v4 where p: "sys_steps ?s es1 (?s\<lparr>sy_handlers := (sy_handlers ?s)[1 := WS_conn v1, 4 := WS_conn v4]\<rparr>)"
    "ws_posted v1 = [sample_frame]" "h_symbol v1 = ''btcusdt''" "h_bound v1"
    "ws_posted v4 = [newer_frame]" "h_symbol v4 = ''ethusdt''" "h_bound v4"
    using two_frames_posted [OF lt(1) w1(1-3) lt(2) w4(1-3) lt(3), of sample_frame newer_frame]
    unfolding w1(4) w4(4) by blast
  let ?s1 = "?s\<lparr>sy_handlers := (sy_handlers ?s)[1 := WS_conn v1, 4 := WS_conn v4]\<rparr>"
  let ?T = "with_threads (handler_iocs c2) (cl_threads c2)"
  obtain es1' where r1: "thread_steps (threads_start c2) es1' (?T ?s1)"
    using started_threads [OF c small p(1)] by blast
  note call1 = ws_call [OF sample_frame_parse p(4)] and call4 = ws_call [OF newer_frame_parse p(7)]
  let ?m1 = "order_msg MS_WebSocket (h_symbol v1) (JObject [(''U'', JUnsigned 5)])"
  let ?m4 = "order_msg MS_WebSocket (h_symbol v4) (JObject [(''U'', JUnsigned 6)])"
  have "\<exists>es hs b. thread_steps (?T ?s1) es (?T (?s1\<lparr>sy_handlers := hs, sy_consumer := (sy_consumer ?s1)\<lparr>co_cache := Some b\<rparr>\<rparr>))
      \<and> length hs = length (sy_handlers ?s1) \<and> c_wf b \<and> c_items b = [?m4, ?m1]"
    by (rule two_threads_race [of 1 ?s1 sample_frame "[]" ?m1 5 4 newer_frame "[]" ?m4 6 0 "cl_threads c2"
          "handler_iocs c2" 1 "cl_buffer c2"])
      (use call1 call4 con p(2,5) h(1) in \<open>simp_all add: iocs ids conn_posted_def consumer_of_def\<close>)
  then obtain es2 hs' b where r2: "thread_steps (?T ?s1) es2 (?T (?s1\<lparr>sy_handlers := hs', sy_consumer := (sy_consumer ?s1)\<lparr>co_cache := Some b\<rparr>\<rparr>))"
    "length hs' = length (sy_handlers ?s1)" "c_wf b" "c_items b = [?m4, ?m1]" by blast
  let ?s2 = "?s1\<lparr>sy_handlers := hs', sy_consumer := (sy_consumer ?s1)\<lparr>co_cache := Some b\<rparr>\<rparr>"
  have "sy_consumer ?s2 = (consumer_of (\<lambda>_. Inr ()) f_rest b)\<lparr>co_tasks := [Poll]\<rparr>"
    by (simp add: con(1) consumer_of_def)
  from two_delivered [OF this r2(3,4)] obtain s' where s': "sys_steps ?s2 (replicate 4 Task) s'"
    "co_log (sy_consumer s') = [update_book ''ethusdt'' 6, update_book ''btcusdt'' 5]"
    unfolding p(3,6) update_book_def by blast
  have "\<forall>i<length (sy_handlers ?s2). handler_iocs c2 ! i \<in> set (cl_threads c2)"
    using handler_iocs_threads [OF c small] r2(2) by simp
  from sys_steps_threads [OF s'(1) this] obtain es3 where r3: "thread_steps (?T ?s2) es3 (?T s')" by blast
  have "co_log (sy_consumer (?T s')) = [update_book ''ethusdt'' 6, update_book ''btcusdt'' 5]"
    using s'(2) by (simp add: with_threads_def)
  then show ?thesis using c thread_steps_trans [OF r3 thread_steps_trans [OF r2(1) r1]] by blast
qed

end
