(* ===== verification/Json_Float.thy ===== *)
theory Json_Float
  imports Cpp_Numbers "HOL-Library.Signed_Division"
begin

text \<open>
  Printing of doubles (\<^verbatim>\<open>namespace dtoa_impl\<close> and \<^verbatim>\<open>to_chars\<close> of
  \<^verbatim>\<open>include/nlohmann/json.hpp\<close>): the Grisu2 algorithm on 64-bit significands. The character
  buffer is the string written so far; its length is the position of the write pointer. Exponents
  and digit counts are \<^verbatim>\<open>int\<close>s that stay far below their bound and are kept as integers. Every
  \<^verbatim>\<open>JSON_ASSERT\<close> is a branch.
\<close>

unbundle bit_operations_syntax

type_synonym uint32_t = "32 word"

section \<open>Floating-point numbers with a 64-bit significand\<close>

record diyfp =
  fp_f :: uint64_t
  fp_e :: int

definition diyfp_sub :: "diyfp \<Rightarrow> diyfp \<Rightarrow> diyfp outcome" where
  "diyfp_sub x y =
     (if fp_e x \<noteq> fp_e y then Inl (Assertion_failed ''x.e == y.e'')
      else if fp_f x < fp_f y then Inl (Assertion_failed ''x.f >= y.f'')
      else Inr \<lparr>fp_f = fp_f x - fp_f y, fp_e = fp_e x\<rparr>)"

definition diyfp_mul :: "diyfp \<Rightarrow> diyfp \<Rightarrow> diyfp" where
  "diyfp_mul x y =
     (let u_lo = fp_f x AND 0xFFFFFFFF; u_hi = drop_bit 32 (fp_f x);
          v_lo = fp_f y AND 0xFFFFFFFF; v_hi = drop_bit 32 (fp_f y);
          p0 = u_lo * v_lo; p1 = u_lo * v_hi; p2 = u_hi * v_lo; p3 = u_hi * v_hi;
          p0_hi = drop_bit 32 p0;
          p1_lo = p1 AND 0xFFFFFFFF; p1_hi = drop_bit 32 p1;
          p2_lo = p2 AND 0xFFFFFFFF; p2_hi = drop_bit 32 p2;
          Q = p0_hi + p1_lo + p2_lo + push_bit 31 1;
          h = p3 + p2_hi + p1_hi + drop_bit 32 Q
      in \<lparr>fp_f = h, fp_e = fp_e x + fp_e y + 64\<rparr>)"

text \<open>
  The loop of \<^verbatim>\<open>normalize\<close>. A zero significand, which the assertion before the loop excludes,
  would never leave it.
\<close>

function normalize_loop :: "uint64_t \<Rightarrow> int \<Rightarrow> diyfp" where
  "normalize_loop f e =
     (if f = 0 \<or> drop_bit 63 f \<noteq> 0 then \<lparr>fp_f = f, fp_e = e\<rparr>
      else normalize_loop (push_bit 1 f) (e - 1))"
  by pat_completeness auto
termination
proof (relation "measure (\<lambda>(f, e). 2 ^ 64 - unat f)", goal_cases)
  case (2 f e)
  then have f: "0 < unat f" "unat f < 2 ^ 63"
    by (simp_all add: unat_gt_0 drop_bit_zero_iff)
  then have "unat (push_bit 1 f) = 2 * unat f" by (subst unat_push_bit) simp_all
  then show ?case using f by simp
qed simp

declare normalize_loop.simps [simp del]

definition diyfp_normalize :: "diyfp \<Rightarrow> diyfp outcome" where
  "diyfp_normalize x =
     (if fp_f x = 0 then Inl (Assertion_failed ''x.f != 0'') else Inr (normalize_loop (fp_f x) (fp_e x)))"

definition diyfp_normalize_to :: "diyfp \<Rightarrow> int \<Rightarrow> diyfp outcome" where
  "diyfp_normalize_to x target_exponent =
     (let delta = fp_e x - target_exponent
      in if delta < 0 then Inl (Assertion_failed ''delta >= 0'')
         else if drop_bit (nat delta) (push_bit (nat delta) (fp_f x)) \<noteq> fp_f x
         then Inl (Assertion_failed ''((x.f << delta) >> delta) == x.f'')
         else Inr \<lparr>fp_f = push_bit (nat delta) (fp_f x), fp_e = target_exponent\<rparr>)"

section \<open>The boundaries of a double\<close>

record boundaries =
  bd_w :: diyfp
  bd_minus :: diyfp
  bd_plus :: diyfp

text \<open>
  The exponent and fraction fields of the IEEE representation of \<open>m \<cdot> 2\<^sup>e\<close>, which
  \<^verbatim>\<open>reinterpret_bits\<close> exposes.
\<close>

definition double_fields :: "nat \<Rightarrow> int \<Rightarrow> uint64_t \<times> uint64_t" where
  "double_fields m e =
     (if m < 2 ^ 52 then (0, of_nat m) else (of_int (e + 1075), of_nat (m - 2 ^ 52)))"

definition compute_boundaries :: "nat \<Rightarrow> int \<Rightarrow> boundaries outcome" where
  "compute_boundaries m e =
     (if m = 0 then Inl (Assertion_failed ''value > 0'')
      else
        let (E, F) = double_fields m e;
            v = (if E = 0 then \<lparr>fp_f = F, fp_e = - 1074\<rparr>
                 else \<lparr>fp_f = F + 0x10000000000000, fp_e = uint E - 1075\<rparr>);
            lower_boundary_is_closer = (F = 0 \<and> 1 < E);
            m_plus = \<lparr>fp_f = 2 * fp_f v + 1, fp_e = fp_e v - 1\<rparr>;
            m_minus = (if lower_boundary_is_closer then \<lparr>fp_f = 4 * fp_f v - 1, fp_e = fp_e v - 2\<rparr>
                       else \<lparr>fp_f = 2 * fp_f v - 1, fp_e = fp_e v - 1\<rparr>)
        in case diyfp_normalize m_plus of
             Inl err \<Rightarrow> Inl err
           | Inr w_plus \<Rightarrow>
               (case diyfp_normalize_to m_minus (fp_e w_plus) of
                  Inl err \<Rightarrow> Inl err
                | Inr w_minus \<Rightarrow>
                    (case diyfp_normalize v of
                       Inl err \<Rightarrow> Inl err
                     | Inr w \<Rightarrow> Inr \<lparr>bd_w = w, bd_minus = w_minus, bd_plus = w_plus\<rparr>)))"

section \<open>Cached powers of ten\<close>

definition kAlpha :: int where "kAlpha = - 60"

definition kGamma :: int where "kGamma = - 32"

text \<open>An entry is the significand \<open>f\<close>, the binary exponent \<open>e\<close> and the decimal exponent \<open>k\<close>.\<close>

type_synonym cached_power = "uint64_t \<times> int \<times> int"

definition kCachedPowers :: "cached_power list" where
  "kCachedPowers =
     [(0xAB70FE17C79AC6CA, -1060, -300), (0xFF77B1FCBEBCDC4F, -1034, -292),
      (0xBE5691EF416BD60C, -1007, -284), (0x8DD01FAD907FFC3C, -980, -276),
      (0xD3515C2831559A83, -954, -268), (0x9D71AC8FADA6C9B5, -927, -260),
      (0xEA9C227723EE8BCB, -901, -252), (0xAECC49914078536D, -874, -244),
      (0x823C12795DB6CE57, -847, -236), (0xC21094364DFB5637, -821, -228),
      (0x9096EA6F3848984F, -794, -220), (0xD77485CB25823AC7, -768, -212),
      (0xA086CFCD97BF97F4, -741, -204), (0xEF340A98172AACE5, -715, -196),
      (0xB23867FB2A35B28E, -688, -188), (0x84C8D4DFD2C63F3B, -661, -180),
      (0xC5DD44271AD3CDBA, -635, -172), (0x936B9FCEBB25C996, -608, -164),
      (0xDBAC6C247D62A584, -582, -156), (0xA3AB66580D5FDAF6, -555, -148),
      (0xF3E2F893DEC3F126, -529, -140), (0xB5B5ADA8AAFF80B8, -502, -132),
      (0x87625F056C7C4A8B, -475, -124), (0xC9BCFF6034C13053, -449, -116),
      (0x964E858C91BA2655, -422, -108), (0xDFF9772470297EBD, -396, -100),
      (0xA6DFBD9FB8E5B88F, -369, -92), (0xF8A95FCF88747D94, -343, -84),
      (0xB94470938FA89BCF, -316, -76), (0x8A08F0F8BF0F156B, -289, -68),
      (0xCDB02555653131B6, -263, -60), (0x993FE2C6D07B7FAC, -236, -52),
      (0xE45C10C42A2B3B06, -210, -44), (0xAA242499697392D3, -183, -36),
      (0xFD87B5F28300CA0E, -157, -28), (0xBCE5086492111AEB, -130, -20),
      (0x8CBCCC096F5088CC, -103, -12), (0xD1B71758E219652C, -77, -4),
      (0x9C40000000000000, -50, 4), (0xE8D4A51000000000, -24, 12),
      (0xAD78EBC5AC620000, 3, 20), (0x813F3978F8940984, 30, 28),
      (0xC097CE7BC90715B3, 56, 36), (0x8F7E32CE7BEA5C70, 83, 44),
      (0xD5D238A4ABE98068, 109, 52), (0x9F4F2726179A2245, 136, 60),
      (0xED63A231D4C4FB27, 162, 68), (0xB0DE65388CC8ADA8, 189, 76),
      (0x83C7088E1AAB65DB, 216, 84), (0xC45D1DF942711D9A, 242, 92),
      (0x924D692CA61BE758, 269, 100), (0xDA01EE641A708DEA, 295, 108),
      (0xA26DA3999AEF774A, 322, 116), (0xF209787BB47D6B85, 348, 124),
      (0xB454E4A179DD1877, 375, 132), (0x865B86925B9BC5C2, 402, 140),
      (0xC83553C5C8965D3D, 428, 148), (0x952AB45CFA97A0B3, 455, 156),
      (0xDE469FBD99A05FE3, 481, 164), (0xA59BC234DB398C25, 508, 172),
      (0xF6C69A72A3989F5C, 534, 180), (0xB7DCBF5354E9BECE, 561, 188),
      (0x88FCF317F22241E2, 588, 196), (0xCC20CE9BD35C78A5, 614, 204),
      (0x98165AF37B2153DF, 641, 212), (0xE2A0B5DC971F303A, 667, 220),
      (0xA8D9D1535CE3B396, 694, 228), (0xFB9B7CD9A4A7443C, 720, 236),
      (0xBB764C4CA7A44410, 747, 244), (0x8BAB8EEFB6409C1A, 774, 252),
      (0xD01FEF10A657842C, 800, 260), (0x9B10A4E5E9913129, 827, 268),
      (0xE7109BFBA19C0C9D, 853, 276), (0xAC2820D9623BF429, 880, 284),
      (0x80444B5E7AA7CF85, 907, 292), (0xBF21E44003ACDD2D, 933, 300),
      (0x8E679C2F5E44FF8F, 960, 308), (0xD433179D9C8CB841, 986, 316),
      (0x9E19DB92B4E31BA9, 1013, 324)]"

text \<open>\<^verbatim>\<open>/\<close> on \<^verbatim>\<open>int\<close> truncates towards zero.\<close>

definition get_cached_power_for_binary_exponent :: "int \<Rightarrow> cached_power outcome" where
  "get_cached_power_for_binary_exponent e =
     (if e < - 1500 then Inl (Assertion_failed ''e >= -1500'')
      else if 1500 < e then Inl (Assertion_failed ''e <= 1500'')
      else
        let f = kAlpha - e - 1;
            k = (f * 78913) sdiv 262144 + (if 0 < f then 1 else 0);
            index = (300 + k + 7) sdiv 8
        in if index < 0 then Inl (Assertion_failed ''index >= 0'')
           else if int (length kCachedPowers) \<le> index
           then Inl (Assertion_failed ''static_cast<std::size_t>(index) < kCachedPowers.size()'')
           else
             let (cf, ce, ck) = kCachedPowers ! nat index
             in if ce + e + 64 < kAlpha then Inl (Assertion_failed ''kAlpha <= cached.e + e + 64'')
                else if kGamma < ce + e + 64
                then Inl (Assertion_failed ''kGamma >= cached.e + e + 64'')
                else Inr (cf, ce, ck))"

section \<open>Digit generation\<close>

text \<open>The largest power of ten at most \<open>n\<close>, and the number of its digits.\<close>

definition find_largest_pow10 :: "uint32_t \<Rightarrow> uint32_t \<times> nat" where
  "find_largest_pow10 n =
     (if 1000000000 \<le> n then (1000000000, 10)
      else if 100000000 \<le> n then (100000000, 9)
      else if 10000000 \<le> n then (10000000, 8)
      else if 1000000 \<le> n then (1000000, 7)
      else if 100000 \<le> n then (100000, 6)
      else if 10000 \<le> n then (10000, 5)
      else if 1000 \<le> n then (1000, 4)
      else if 100 \<le> n then (100, 3)
      else if 10 \<le> n then (10, 2)
      else (1, 1))"

text \<open>\<^verbatim>\<open>buf[len - 1]--\<close>\<close>

definition decrement_last :: "string \<Rightarrow> string" where
  "decrement_last buf = butlast buf @ [char_of (char_nat (last buf) - 1)]"

text \<open>
  The loop of \<^verbatim>\<open>grisu2_round\<close>. Its first two conditions are assertions made before the loop on
  values the loop does not change.
\<close>

function grisu2_round_loop ::
  "string \<Rightarrow> uint64_t \<Rightarrow> uint64_t \<Rightarrow> uint64_t \<Rightarrow> uint64_t \<Rightarrow> string outcome" where
  "grisu2_round_loop buf dist delta rest ten_k =
     (if dist \<le> delta \<and> 0 < ten_k \<and>
         rest < dist \<and> ten_k \<le> delta - rest \<and>
         (rest + ten_k < dist \<or> rest + ten_k - dist < dist - rest)
      then if last buf = CHR ''0'' then Inl (Assertion_failed (''buf[len - 1] != '' @ [CHR 0x27] @ ''0'' @ [CHR 0x27]))
           else grisu2_round_loop (decrement_last buf) dist delta (rest + ten_k) ten_k
      else Inr buf)"
  by pat_completeness auto
termination
proof (relation "measure (\<lambda>(buf, dist, delta, rest, ten_k). unat (delta - rest))", goal_cases)
  case (2 buf dist delta rest ten_k)
  then have "rest < delta" "ten_k \<le> delta - rest" by auto
  note sum = word_add_within [OF this]
  have "0 < unat ten_k" using 2 by (simp add: word_less_nat_alt)
  then show ?case using sum \<open>rest < delta\<close>
    by (simp add: unat_sub_if_size word_le_nat_alt word_less_nat_alt)
qed simp

declare grisu2_round_loop.simps [simp del]

definition grisu2_round ::
  "string \<Rightarrow> uint64_t \<Rightarrow> uint64_t \<Rightarrow> uint64_t \<Rightarrow> uint64_t \<Rightarrow> string outcome" where
  "grisu2_round buf dist delta rest ten_k =
     (if buf = [] then Inl (Assertion_failed ''len >= 1'')
      else if delta < dist then Inl (Assertion_failed ''dist <= delta'')
      else if delta < rest then Inl (Assertion_failed ''rest <= delta'')
      else if ten_k = 0 then Inl (Assertion_failed ''ten_k > 0'')
      else grisu2_round_loop buf dist delta rest ten_k)"

text \<open>
  The first loop of \<^verbatim>\<open>grisu2_digit_gen\<close>, over the digits of the integral part; \<open>s\<close> is
  \<^verbatim>\<open>-one.e\<close>. It stops inside with the number of digits left, the rest and the weight of the
  last digit, or has written all digits.
\<close>

fun digit_gen_integral ::
  "nat \<Rightarrow> nat \<Rightarrow> uint64_t \<Rightarrow> uint64_t \<Rightarrow> uint32_t \<Rightarrow> uint32_t \<Rightarrow> string
   \<Rightarrow> (string \<times> (nat \<times> uint64_t \<times> uint64_t) option) outcome" where
  "digit_gen_integral 0 s delta p2 p1 pow10 buf = Inr (buf, None)"
| "digit_gen_integral (Suc n) s delta p2 p1 pow10 buf =
     (let d = p1 div pow10; r = p1 mod pow10
      in if 9 < d then Inl (Assertion_failed ''d <= 9'')
         else
           let buf1 = buf @ [digit_char (unat d)];
               rest = push_bit s (ucast r) + p2
           in if rest \<le> delta then Inr (buf1, Some (n, rest, push_bit s (ucast pow10)))
              else digit_gen_integral n s delta p2 r (pow10 div 10) buf1)"

text \<open>
  The second loop, over the digits of the fractional part. The assertion on \<open>p2\<close> keeps the
  multiplication from wrapping; as every turn multiplies by ten and drops the bits from \<open>s\<close> up,
  the fraction is used up in the end.
\<close>

lemma frac_step_measure:
  assumes "p2 \<le> 0x1999999999999999" and "take_bit s (10 * p2) \<noteq> 0"
  shows "(LEAST k. 2 ^ s dvd 10 ^ k * unat (take_bit s (10 * p2) :: 64 word))
       < (LEAST k. 2 ^ s dvd 10 ^ k * unat p2)"
proof -
  define a where "a = unat p2"
  have "unat p2 \<le> 0x1999999999999999" using assms(1) by (simp add: word_le_nat_alt)
  then have "unat (10 * p2) = 10 * a" by (simp add: unat_word_ariths a_def)
  then have b: "unat (take_bit s (10 * p2)) = (10 * a) mod 2 ^ s"
    by (simp only: unsigned_take_bit_eq) (simp add: take_bit_eq_mod)
  have shift: "2 ^ s dvd 10 ^ k * ((10 * a) mod 2 ^ s) \<longleftrightarrow> 2 ^ s dvd 10 ^ Suc k * a" for k
    by (simp add: dvd_eq_mod_eq_0 mod_mult_right_eq ac_simps)
  have nz: "\<not> 2 ^ s dvd a"
  proof
    assume "2 ^ s dvd a"
    then have "(10 * a) mod 2 ^ s = 0" by simp
    then show False using assms(2) b by (simp add: unat_eq_0)
  qed
  have "(2::nat) ^ s dvd 10 ^ s" by (rule dvd_power_same) simp
  then have ex: "2 ^ s dvd 10 ^ s * a" by simp
  define l where "l = (LEAST k. 2 ^ s dvd 10 ^ k * a)"
  have l: "2 ^ s dvd 10 ^ l * a" unfolding l_def by (rule LeastI) (rule ex)
  then obtain l' where l': "l = Suc l'" using nz by (cases l) auto
  have "(LEAST k. 2 ^ s dvd 10 ^ k * ((10 * a) mod 2 ^ s)) \<le> l'"
    by (rule Least_le) (use l l' shift in simp)
  then show ?thesis using l' b by (simp add: l_def a_def)
qed

function digit_gen_fractional ::
  "nat \<Rightarrow> uint64_t \<Rightarrow> uint64_t \<Rightarrow> uint64_t \<Rightarrow> nat \<Rightarrow> string
   \<Rightarrow> (string \<times> nat \<times> uint64_t \<times> uint64_t \<times> uint64_t) outcome" where
  "digit_gen_fractional s p2 delta dist m buf =
     (if 0x1999999999999999 < p2
      then Inl (Assertion_failed ''p2 <= (std::numeric_limits<std::uint64_t>::max)() / 10'')
      else
        let p = 10 * p2; d = drop_bit s p; r = p AND (push_bit s 1 - 1)
        in if 9 < d then Inl (Assertion_failed ''d <= 9'')
           else
             let buf1 = buf @ [digit_char (unat d)]; delta1 = 10 * delta; dist1 = 10 * dist
             in if r \<le> delta1 then Inr (buf1, m + 1, r, delta1, dist1)
                else digit_gen_fractional s r delta1 dist1 (m + 1) buf1)"
  by pat_completeness auto
termination
proof (relation "measure (\<lambda>(s, p2, _). LEAST k. 2 ^ s dvd 10 ^ k * unat p2)", goal_cases)
  case (2 s p2 delta dist m buf p d r)
  then have "p2 \<le> 0x1999999999999999" "take_bit s (10 * p2) \<noteq> 0"
    by (auto simp: and_mask_take_bit not_less)
  then show ?case using frac_step_measure [of p2 s] 2 by (auto simp: and_mask_take_bit)
qed simp

declare digit_gen_fractional.simps [simp del]

text \<open>\<^verbatim>\<open>grisu2_digit_gen\<close>: the digits and the change of the decimal exponent.\<close>

definition grisu2_digit_gen :: "int \<Rightarrow> diyfp \<Rightarrow> diyfp \<Rightarrow> diyfp \<Rightarrow> (string \<times> int) outcome" where
  "grisu2_digit_gen decimal_exponent M_minus w M_plus =
     (if fp_e M_plus < kAlpha then Inl (Assertion_failed ''M_plus.e >= kAlpha'')
      else if kGamma < fp_e M_plus then Inl (Assertion_failed ''M_plus.e <= kGamma'')
      else
        case diyfp_sub M_plus M_minus of
          Inl err \<Rightarrow> Inl err
        | Inr delta' \<Rightarrow>
        (case diyfp_sub M_plus w of
          Inl err \<Rightarrow> Inl err
        | Inr dist' \<Rightarrow>
            let delta = fp_f delta'; dist = fp_f dist';
                s = nat (- fp_e M_plus);
                p1 = ucast (drop_bit s (fp_f M_plus)) :: uint32_t;
                p2 = fp_f M_plus AND (push_bit s 1 - 1)
            in if p1 = 0 then Inl (Assertion_failed ''p1 > 0'')
               else
                 let (pow10, k) = find_largest_pow10 p1
                 in case digit_gen_integral k s delta p2 p1 pow10 [] of
                      Inl err \<Rightarrow> Inl err
                    | Inr (buf, Some (n, rest, ten_n)) \<Rightarrow>
                        (case grisu2_round buf dist delta rest ten_n of
                           Inl err \<Rightarrow> Inl err
                         | Inr buf1 \<Rightarrow> Inr (buf1, decimal_exponent + int n))
                    | Inr (buf, None) \<Rightarrow>
                        if p2 \<le> delta then Inl (Assertion_failed ''p2 > delta'')
                        else
                          (case digit_gen_fractional s p2 delta dist 0 buf of
                             Inl err \<Rightarrow> Inl err
                           | Inr (buf1, m, r, delta1, dist1) \<Rightarrow>
                               (case grisu2_round buf1 dist1 delta1 r (push_bit s 1) of
                                  Inl err \<Rightarrow> Inl err
                                | Inr buf2 \<Rightarrow> Inr (buf2, decimal_exponent - int m)))))"

text \<open>\<^verbatim>\<open>grisu2\<close> on the boundaries, and on a positive double.\<close>

definition grisu2_boundaries :: "diyfp \<Rightarrow> diyfp \<Rightarrow> diyfp \<Rightarrow> (string \<times> int) outcome" where
  "grisu2_boundaries m_minus v m_plus =
     (if fp_e m_plus \<noteq> fp_e m_minus then Inl (Assertion_failed ''m_plus.e == m_minus.e'')
      else if fp_e m_plus \<noteq> fp_e v then Inl (Assertion_failed ''m_plus.e == v.e'')
      else
        case get_cached_power_for_binary_exponent (fp_e m_plus) of
          Inl err \<Rightarrow> Inl err
        | Inr (cf, ce, ck) \<Rightarrow>
            let c_minus_k = \<lparr>fp_f = cf, fp_e = ce\<rparr>;
                w = diyfp_mul v c_minus_k;
                w_minus = diyfp_mul m_minus c_minus_k;
                w_plus = diyfp_mul m_plus c_minus_k;
                M_minus = \<lparr>fp_f = fp_f w_minus + 1, fp_e = fp_e w_minus\<rparr>;
                M_plus = \<lparr>fp_f = fp_f w_plus - 1, fp_e = fp_e w_plus\<rparr>
            in grisu2_digit_gen (- ck) M_minus w M_plus)"

definition grisu2 :: "nat \<Rightarrow> int \<Rightarrow> (string \<times> int) outcome" where
  "grisu2 m e =
     (case compute_boundaries m e of
        Inl err \<Rightarrow> Inl err
      | Inr b \<Rightarrow> grisu2_boundaries (bd_minus b) (bd_w b) (bd_plus b))"

section \<open>Formatting\<close>

definition append_exponent :: "int \<Rightarrow> string outcome" where
  "append_exponent e =
     (if e \<le> - 1000 then Inl (Assertion_failed ''e > -1000'')
      else if 1000 \<le> e then Inl (Assertion_failed ''e <  1000'')
      else
        let k = nat (abs e);
            sign = (if e < 0 then CHR ''-'' else CHR ''+'')
        in Inr (sign #
             (if k < 10 then [CHR ''0'', digit_char k]
              else if k < 100 then [digit_char (k div 10), digit_char (k mod 10)]
              else [digit_char (k div 100), digit_char (k mod 100 div 10), digit_char (k mod 100 mod 10)])))"

definition format_buffer :: "string \<Rightarrow> int \<Rightarrow> int \<Rightarrow> int \<Rightarrow> string outcome" where
  "format_buffer buf decimal_exponent min_exp max_exp =
     (if 0 \<le> min_exp then Inl (Assertion_failed ''min_exp < 0'')
      else if max_exp \<le> 0 then Inl (Assertion_failed ''max_exp > 0'')
      else
        let k = int (length buf); n = k + decimal_exponent
        in if k \<le> n \<and> n \<le> max_exp
           then Inr (buf @ replicate (nat n - nat k) (CHR ''0'') @ ''.0'')
           else if 0 < n \<and> n \<le> max_exp
           then if k \<le> n then Inl (Assertion_failed ''k > n'')
                else Inr (take (nat n) buf @ ''.'' @ drop (nat n) buf)
           else if min_exp < n \<and> n \<le> 0
           then Inr (''0.'' @ replicate (nat (- n)) (CHR ''0'') @ buf)
           else
             let mantissa = (if k = 1 then buf else take 1 buf @ ''.'' @ drop 1 buf)
             in case append_exponent (n - 1) of
                  Inl err \<Rightarrow> Inl err
                | Inr ex \<Rightarrow> Inr (mantissa @ ''e'' @ ex))"

text \<open>\<^verbatim>\<open>to_chars\<close> into a buffer of \<open>room0\<close> characters.\<close>

definition to_chars :: "nat \<Rightarrow> double \<Rightarrow> string outcome" where
  "to_chars room0 value =
     (case value of
        Double_inf s \<Rightarrow> Inl (Assertion_failed ''std::isfinite(value)'')
      | Double_nan s f \<Rightarrow> Inl (Assertion_failed ''std::isfinite(value)'')
      | Double_fin s m e \<Rightarrow>
          let sign = (if s then ''-'' else []);
              room = int room0 - int (length sign)
          in if m = 0 then Inr (sign @ ''0.0'')
             else if room < 17
             then Inl (Assertion_failed ''last - first >= std::numeric_limits<FloatType>::max_digits10'')
             else
               case grisu2 m e of
                 Inl err \<Rightarrow> Inl err
               | Inr (buf, decimal_exponent) \<Rightarrow>
                   if 17 < length buf
                   then Inl (Assertion_failed ''len <= std::numeric_limits<FloatType>::max_digits10'')
                   else if room < 17
                   then Inl (Assertion_failed ''last - first >= kMaxExp + 2'')
                   else if room < 22
                   then Inl (Assertion_failed
                     ''last - first >= 2 + (-kMinExp - 1) + std::numeric_limits<FloatType>::max_digits10'')
                   else if room < 23
                   then Inl (Assertion_failed
                     ''last - first >= std::numeric_limits<FloatType>::max_digits10 + 6'')
                   else
                     case format_buffer buf decimal_exponent (- 4) 15 of
                       Inl err \<Rightarrow> Inl err
                     | Inr text1 \<Rightarrow> Inr (sign @ text1))"

end
