(* ===== verification/Json_Powers.thy ===== *)
theory Json_Powers
  imports Json_Float Complex_Main
begin

text \<open>
  The table of cached powers of ten of \<^verbatim>\<open>Json_Float\<close>: every entry is the power of ten rounded to
  64 bits, and the search finds, for every binary exponent a double can have, an entry that brings
  the exponent of the product into the range digit generation needs.
\<close>

section \<open>Cached powers of ten\<close>

text \<open>
  The entries are 64-bit significands with decimal exponents in steps of eight. Each is the power
  of ten rounded to nearest, and its binary exponent fits the range of exponents that lead to it.
\<close>

definition rounds_power :: "cached_power \<Rightarrow> bool" where
  "rounds_power c =
     (case c of (f, e, k) \<Rightarrow>
        2 * \<bar>int (unat f) * 2 ^ nat e * 10 ^ nat (- k) - 10 ^ nat k * 2 ^ nat (- e)\<bar>
          \<le> 2 ^ nat e * 10 ^ nat (- k))"

lemma length_kCachedPowers: "length kCachedPowers = 79"
  by (simp add: kCachedPowers_def)

text \<open>Checked upwards from \<open>10\<^sup>4\<close> and downwards from \<open>10\<^sup>-\<^sup>4\<close>, the power carried along.\<close>

fun powers_up :: "int \<Rightarrow> int \<Rightarrow> cached_power list \<Rightarrow> bool" where
  "powers_up n p [] = True"
| "powers_up n p ((f, e, k) # cs) =
     (k = n \<and> 2 * \<bar>int (unat f) * 2 ^ nat e - p * 2 ^ nat (- e)\<bar> \<le> 2 ^ nat e \<and> powers_up (n + 8) (p * 100000000) cs)"

fun powers_down :: "int \<Rightarrow> int \<Rightarrow> cached_power list \<Rightarrow> bool" where
  "powers_down n p [] = True"
| "powers_down n p ((f, e, k) # cs) =
     (k = - n \<and> 2 * \<bar>int (unat f) * 2 ^ nat e * p - 2 ^ nat (- e)\<bar> \<le> 2 ^ nat e * p \<and> powers_down (n + 8) (p * 100000000) cs)"

lemma powers_up_round:
  "powers_up n p cs \<Longrightarrow> 0 \<le> n \<Longrightarrow> p = 10 ^ nat n \<Longrightarrow> list_all rounds_power cs"
proof (induction n p cs rule: powers_up.induct)
  case (2 n p f e k cs)
  then have "p * 100000000 = 10 ^ nat (n + 8)" by (simp add: nat_add_distrib power_add)
  then show ?case using 2 by (simp add: rounds_power_def)
qed simp

lemma powers_down_round:
  "powers_down n p cs \<Longrightarrow> 0 \<le> n \<Longrightarrow> p = 10 ^ nat n \<Longrightarrow> list_all rounds_power cs"
proof (induction n p cs rule: powers_down.induct)
  case (2 n p f e k cs)
  then have "p * 100000000 = 10 ^ nat (n + 8)" by (simp add: nat_add_distrib power_add)
  then show ?case using 2 by (simp add: rounds_power_def)
qed simp

lemma kCachedPowers_up: "powers_up 4 (10 ^ nat 4) (drop 38 kCachedPowers)"
  by (simp add: kCachedPowers_def)

lemma kCachedPowers_down: "powers_down 4 (10 ^ nat 4) (rev (take 38 kCachedPowers))"
  by (simp add: kCachedPowers_def)

lemma kCachedPowers_round: "list_all rounds_power kCachedPowers"
proof -
  have "list_all rounds_power (rev (take 38 kCachedPowers))" "list_all rounds_power (drop 38 kCachedPowers)"
    using powers_down_round [OF kCachedPowers_down] powers_up_round [OF kCachedPowers_up] by simp_all
  then show ?thesis using list_all_append [of rounds_power "take 38 kCachedPowers" "drop 38 kCachedPowers"]
    by (simp only: append_take_drop_id list_all_rev)
qed


lemma kCachedPowers_normalized: "list_all (\<lambda>(f, e, k). 2 ^ 63 \<le> unat f) kCachedPowers"
  by (simp add: kCachedPowers_def)

lemma kCachedPowers_exponents:
  "list_all (\<lambda>(f, e, k). 262144 * k div 78913 \<le> e + 63 \<and> e + 35 \<le> - (- (262144 * (k - 8)) div 78913)) kCachedPowers"
  by (simp add: kCachedPowers_def)

lemma kCachedPowers_steps: "map (snd \<circ> snd) kCachedPowers = map (\<lambda>i. 8 * int i - 300) [0..<79]"
  by (simp add: kCachedPowers_def upt_rec)

lemma sdiv_bounds:
  fixes a b :: int
  assumes "0 < b"
  shows "0 \<le> a \<Longrightarrow> b * (a sdiv b) \<le> a \<and> a < b * (a sdiv b) + b"
    "a \<le> 0 \<Longrightarrow> a \<le> b * (a sdiv b) \<and> b * (a sdiv b) - b < a"
proof -
  have q: "b * (x div b) \<le> x \<and> x < b * (x div b) + b" for x
    using assms mult_div_mod_eq [of b x] pos_mod_bound [of b x] pos_mod_sign [of b x] by linarith
  show "b * (a sdiv b) \<le> a \<and> a < b * (a sdiv b) + b" if "0 \<le> a"
    using q [of a] assms that by (cases "a = 0") (simp_all add: signed_divide_int_def)
  show "a \<le> b * (a sdiv b) \<and> b * (a sdiv b) - b < a" if "a \<le> 0"
    using q [of "- a"] assms that by (cases "a = 0") (simp_all add: signed_divide_int_def)
qed

lemma cached_index_range:
  fixes f :: int
  defines "k \<equiv> (f * 78913) sdiv 262144 + (if 0 < f then 1 else 0)"
  assumes "- 1021 \<le> f" "f \<le> 1076"
  shows "262144 * (k - 1) \<le> 78913 * f" "78913 * f \<le> 262144 * k" "- 307 \<le> k" "k \<le> 324"
proof -
  have q: "262144 * (k - 1) \<le> 78913 * f \<and> 78913 * f \<le> 262144 * k"
    using sdiv_bounds [of 262144 "f * 78913"] by (cases "0 < f") (simp_all add: k_def)
  then show "262144 * (k - 1) \<le> 78913 * f" "78913 * f \<le> 262144 * k" by simp_all
  show "- 307 \<le> k"
  proof (cases "0 < f")
    case False
    then have "262144 * ((f * 78913) sdiv 262144) - 262144 < 78913 * f \<and> 78913 * f \<le> 262144 * ((f * 78913) sdiv 262144)"
      using sdiv_bounds(2) [of 262144 "f * 78913"] by simp
    then show ?thesis using assms(2) False unfolding k_def by simp
  qed (use q in simp)
  show "k \<le> 324" using q assms(3) by simp
qed

lemma cached_entry:
  assumes "i < 79" and "kCachedPowers ! i = (cf, ce, ck)"
  shows "ck = 8 * int i - 300" "262144 * ck div 78913 \<le> ce + 63" "ce + 35 \<le> - (- (262144 * (ck - 8)) div 78913)"
proof -
  have "map (snd \<circ> snd) kCachedPowers ! i = map (\<lambda>i. 8 * int i - 300) [0..<79] ! i"
    by (simp only: kCachedPowers_steps)
  then show "ck = 8 * int i - 300" using assms by (simp add: length_kCachedPowers)
  have "(cf, ce, ck) \<in> set kCachedPowers"
    using nth_mem [of i kCachedPowers] assms length_kCachedPowers by simp
  then show "262144 * ck div 78913 \<le> ce + 63" "ce + 35 \<le> - (- (262144 * (ck - 8)) div 78913)"
    using kCachedPowers_exponents unfolding list_all_iff by auto
qed

lemma cached_power_found:
  assumes "- 1137 \<le> e" and "e \<le> 960"
  obtains cf ce ck where "get_cached_power_for_binary_exponent e = Inr (cf, ce, ck)"
    "(cf, ce, ck) \<in> set kCachedPowers" "- 60 \<le> ce + e + 64" "ce + e + 64 \<le> - 32"
proof -
  define f where "f = kAlpha - e - 1"
  define k where "k = (f * 78913) sdiv 262144 + (if 0 < f then 1 else 0)"
  define i where "i = (300 + k + 7) sdiv 8"
  have f: "- 1021 \<le> f" "f \<le> 1076" using assms by (simp_all add: f_def kAlpha_def)
  note k = cached_index_range [OF f, folded k_def]
  have i8: "8 * i \<le> 300 + k + 7" "300 + k + 7 < 8 * i + 8"
    using sdiv_bounds(1) [of 8 "300 + k + 7"] k(3) by (simp_all add: i_def)
  then have i: "0 \<le> i" "i < 79" using k(3,4) by simp_all
  obtain cf ce ck where c: "kCachedPowers ! nat i = (cf, ce, ck)" using prod_cases3 by blast
  have "nat i < 79" using i by (simp add: nat_less_iff)
  note entry = cached_entry [OF this c]
  have ck: "ck = 8 * i - 300" using entry(1) i by simp
  have "78913 * f \<le> 262144 * ck" using k(2) i8(2) unfolding ck by simp
  then have "f \<le> 262144 * ck div 78913" using zdiv_mono1 [of "78913 * f" "262144 * ck" 78913] by simp
  then have up: "- 60 \<le> ce + e + 64" using entry(2) i by (simp add: f_def kAlpha_def)
  have "262144 * (ck - 8) \<le> 78913 * f" using k(1) i8(1) unfolding ck by simp
  then have "- f \<le> - (262144 * (ck - 8)) div 78913" using zdiv_mono1 [of "78913 * - f" "- (262144 * (ck - 8))" 78913] by simp
  then have down: "ce + e + 64 \<le> - 32" using entry(3) i by (simp add: f_def kAlpha_def)
  have "get_cached_power_for_binary_exponent e = Inr (cf, ce, ck)"
    using assms i up down
    unfolding get_cached_power_for_binary_exponent_def Let_def f_def [symmetric] k_def [symmetric] i_def [symmetric]
    by (simp add: length_kCachedPowers c kAlpha_def kGamma_def)
  moreover have "(cf, ce, ck) \<in> set kCachedPowers"
    using nth_mem [of "nat i" kCachedPowers] i c length_kCachedPowers by simp
  ultimately show ?thesis using up down that by blast
qed

text \<open>The error of an entry, as a real number.\<close>

lemma rounds_power_real:
  assumes "rounds_power (f, e, k)"
  shows "\<bar>real (unat f) - 10 powi k / 2 powi e\<bar> \<le> 1 / 2"
proof -
  define A B C D :: int where "A = 2 ^ nat e" and "B = 10 ^ nat (- k)" and "C = 10 ^ nat k" and "D = 2 ^ nat (- e)"
  have pos: "0 < A" "0 < B" by (simp_all add: A_def B_def)
  have "real_of_int C / real_of_int B = 10 powi k"
    by (cases "0 \<le> k") (simp_all add: B_def C_def power_int_def power_one_over inverse_eq_divide)
  moreover have "real_of_int A / real_of_int D = 2 powi e"
    by (cases "0 \<le> e") (simp_all add: A_def D_def power_int_def power_one_over inverse_eq_divide)
  moreover have "2 * \<bar>int (unat f) * A * B - C * D\<bar> \<le> A * B"
    using assms by (simp add: rounds_power_def A_def B_def C_def D_def)
  then have "2 * \<bar>real (unat f) * A * B - real_of_int C * D\<bar> \<le> real_of_int A * B"
    by (metis (mono_tags, lifting) of_int_abs of_int_diff of_int_le_iff of_int_mult of_int_numeral of_int_of_nat_eq)
  then have "2 * (\<bar>real (unat f) * A * B - real_of_int C * D\<bar> / (real_of_int A * B)) \<le> 1"
    using pos by (simp add: divide_le_eq)
  moreover have "\<bar>real (unat f) * A * B - real_of_int C * D\<bar> / (real_of_int A * B)
      = \<bar>real (unat f) - (real_of_int C * D) / (real_of_int A * B)\<bar>"
  proof -
    have "(real (unat f) * A * B - real_of_int C * D) / (real_of_int A * B)
        = real (unat f) - (real_of_int C * D) / (real_of_int A * B)"
      using pos by (simp add: diff_divide_distrib)
    then show ?thesis using pos abs_divide [of "real (unat f) * A * B - real_of_int C * D" "real_of_int A * B"]
      by (simp add: abs_mult)
  qed
  moreover have "(real_of_int C * D) / (real_of_int A * B) = (real_of_int C / B) / (real_of_int A / D)"
    by simp
  ultimately show ?thesis by simp
qed

lemma cached_power_accurate:
  assumes "(f, e, k) \<in> set kCachedPowers"
  shows "\<bar>real (unat f) - 10 powi k / 2 powi e\<bar> \<le> 1 / 2" "2 ^ 63 \<le> unat f"
  using assms kCachedPowers_round kCachedPowers_normalized rounds_power_real
  by (auto simp: list_all_iff)

end
