(* ===== verification/Json_Grisu.thy ===== *)
theory Json_Grisu
  imports Json_Powers
begin

text \<open>
  Correctness of the Grisu2 printer of \<^verbatim>\<open>Json_Float\<close>: the multiplication of significands is the
  rounded product, the boundaries of a double are exact, every binary exponent of a double has a
  cached power, digit generation stays inside the boundaries and stops after at most seventeen
  digits, and no assertion on the way fails.
\<close>

unbundle bit_operations_syntax

section \<open>Multiplication of significands\<close>

lemma unat_and_low32: "unat ((w :: 64 word) AND 0xFFFFFFFF) = unat w mod 2 ^ 32"
proof -
  have "w AND 0xFFFFFFFF = take_bit 32 w" by (simp add: take_bit_eq_mask mask_numeral)
  then show ?thesis by (simp only: unat_take_bit)
qed

lemma regroup:
  fixes a b :: nat
  assumes "z = x * 2 ^ 64 + (a + b) * 2 ^ 32 + y" and "a = a1 * 2 ^ 32 + a0" and "b = b1 * 2 ^ 32 + b0"
  shows "z + 2 ^ 63 = (a0 + b0 + 2 ^ 31) * 2 ^ 32 + y + (x + a1 + b1) * 2 ^ 64"
  unfolding assms by (simp add: algebra_simps)

lemma mul_64_rounded:
  fixes u v :: nat
  assumes "u < 2 ^ 64" and "v < 2 ^ 64"
  defines "ul \<equiv> u mod 2 ^ 32" and "uh \<equiv> u div 2 ^ 32" and "vl \<equiv> v mod 2 ^ 32" and "vh \<equiv> v div 2 ^ 32"
  defines "q \<equiv> ul * vl div 2 ^ 32 + ul * vh mod 2 ^ 32 + uh * vl mod 2 ^ 32 + 2 ^ 31"
  shows "uh * vh + uh * vl div 2 ^ 32 + ul * vh div 2 ^ 32 + q div 2 ^ 32 = (u * v + 2 ^ 63) div 2 ^ 64"
proof -
  have u: "u = uh * 2 ^ 32 + ul" and v: "v = vh * 2 ^ 32 + vl" unfolding uh_def ul_def vh_def vl_def by simp_all
  define a b where "a = ul * vh" and "b = uh * vl"
  have "u * v = uh * vh * 2 ^ 64 + (a + b) * 2 ^ 32 + ul * vl"
    unfolding u v a_def b_def by (simp add: algebra_simps)
  then have "u * v + 2 ^ 63 =
      (a mod 2 ^ 32 + b mod 2 ^ 32 + 2 ^ 31) * 2 ^ 32 + ul * vl + (uh * vh + a div 2 ^ 32 + b div 2 ^ 32) * 2 ^ 64"
    by (rule regroup) simp_all
  then have "(u * v + 2 ^ 63) div 2 ^ 64 =
      uh * vh + a div 2 ^ 32 + b div 2 ^ 32 + ((a mod 2 ^ 32 + b mod 2 ^ 32 + 2 ^ 31) * 2 ^ 32 + ul * vl) div 2 ^ 64"
    by (simp only: div_mult_self1 power_not_zero zero_neq_numeral [symmetric] not_False_eq_True)
  also have "((a mod 2 ^ 32 + b mod 2 ^ 32 + 2 ^ 31) * 2 ^ 32 + ul * vl) div 2 ^ 64 = q div 2 ^ 32"
  proof -
    have "(x * 2 ^ 32 + y) div 2 ^ 64 = (x + y div 2 ^ 32) div 2 ^ 32" for x y :: nat
      using div_mult2_eq [of "x * 2 ^ 32 + y" "2 ^ 32" "2 ^ 32"] by simp
    moreover have "q = a mod 2 ^ 32 + b mod 2 ^ 32 + 2 ^ 31 + ul * vl div 2 ^ 32"
      unfolding q_def a_def b_def by linarith
    ultimately show ?thesis by (simp only:)
  qed
  finally show ?thesis by (simp add: a_def b_def)
qed

lemma mul_32_bound: "a < 2 ^ 32 \<Longrightarrow> b < 2 ^ 32 \<Longrightarrow> a * b \<le> (2 ^ 32 - 1) * (2 ^ 32 - 1 :: nat)"
  by (rule mult_le_mono) simp_all

lemma unat_mul_32:
  assumes "unat a < 2 ^ 32" and "unat b < 2 ^ 32"
  shows "unat (a * b :: 64 word) = unat a * unat b"
  using mul_32_bound [OF assms] by (simp add: unat_word_ariths)

lemma unat_sum4:
  "unat a + unat b + unat c + unat d < 2 ^ 64 \<Longrightarrow> unat (a + b + c + d :: 64 word) = unat a + unat b + unat c + unat d"
  by (simp add: unat_word_ariths)

lemma diyfp_mul_rounded:
  "unat (fp_f (diyfp_mul x y)) = (unat (fp_f x) * unat (fp_f y) + 2 ^ 63) div 2 ^ 64"
proof -
  let ?u = "fp_f x" and ?v = "fp_f y"
  define ul uh vl vh where "ul = ?u AND 0xFFFFFFFF" and "uh = drop_bit 32 ?u"
    and "vl = ?v AND 0xFFFFFFFF" and "vh = drop_bit 32 ?v"
  note parts = ul_def uh_def vl_def vh_def
  have lt: "unat ?u < 2 ^ 64" "unat ?v < 2 ^ 64"
    using unsigned_less [of ?u, where ?'a = nat] unsigned_less [of ?v, where ?'a = nat] by simp_all
  have val: "unat ul = unat ?u mod 2 ^ 32" "unat uh = unat ?u div 2 ^ 32"
    "unat vl = unat ?v mod 2 ^ 32" "unat vh = unat ?v div 2 ^ 32"
    by (simp_all only: parts unat_and_low32 unat_drop_bit)
  have small: "unat ul < 2 ^ 32" "unat uh < 2 ^ 32" "unat vl < 2 ^ 32" "unat vh < 2 ^ 32"
    using lt unfolding val by (simp_all add: less_mult_imp_div_less)
  define q where "q = drop_bit 32 (ul * vl) + (ul * vh AND 0xFFFFFFFF) + (uh * vl AND 0xFFFFFFFF) + push_bit 31 1"
  have "unat (drop_bit 32 (ul * vl)) < 2 ^ 32"
    using unsigned_less [of "ul * vl", where ?'a = nat] by (simp add: unat_drop_bit less_mult_imp_div_less)
  moreover have "unat (ul * vh AND 0xFFFFFFFF) < 2 ^ 32" "unat (uh * vl AND 0xFFFFFFFF) < 2 ^ 32"
    unfolding unat_and_low32 by simp_all
  ultimately have "unat q = unat (drop_bit 32 (ul * vl)) + unat (ul * vh AND 0xFFFFFFFF)
      + unat (uh * vl AND 0xFFFFFFFF) + 2 ^ 31"
    unfolding q_def by (simp add: unat_word_ariths)
  then have q: "unat q = unat ul * unat vl div 2 ^ 32 + unat ul * unat vh mod 2 ^ 32 + unat uh * unat vl mod 2 ^ 32 + 2 ^ 31"
    by (simp only: unat_drop_bit unat_and_low32 unat_mul_32 small)
  define h where "h = uh * vh + drop_bit 32 (uh * vl) + drop_bit 32 (ul * vh) + drop_bit 32 q"
  have sum: "unat uh * unat vh + unat uh * unat vl div 2 ^ 32 + unat ul * unat vh div 2 ^ 32 + unat q div 2 ^ 32
      = (unat ?u * unat ?v + 2 ^ 63) div 2 ^ 64"
    using mul_64_rounded [OF lt] unfolding q val .
  have "unat ?u * unat ?v \<le> (2 ^ 64 - 1) * (2 ^ 64 - 1)" using lt by (intro mult_le_mono) simp_all
  then have "(unat ?u * unat ?v + 2 ^ 63) div 2 ^ 64 < 2 ^ 64" by (intro less_mult_imp_div_less) simp
  moreover have "unat h = unat (uh * vh) + unat (drop_bit 32 (uh * vl)) + unat (drop_bit 32 (ul * vh)) + unat (drop_bit 32 q)"
    unfolding h_def by (rule unat_sum4) (use calculation sum in \<open>simp only: unat_drop_bit unat_mul_32 small\<close>)
  ultimately have "unat h = (unat ?u * unat ?v + 2 ^ 63) div 2 ^ 64"
    using sum by (simp only: unat_drop_bit unat_mul_32 small)
  then show ?thesis
    by (simp only: diyfp_mul_def Let_def parts [symmetric] q_def [symmetric] h_def [symmetric] diyfp.select_convs)
qed

section \<open>Normalisation\<close>

lemma normalize_loop_shift:
  "2 ^ 63 \<le> unat f * 2 ^ k \<Longrightarrow> unat f * 2 ^ k < 2 ^ 64 \<Longrightarrow>
    normalize_loop f e = \<lparr>fp_f = push_bit k f, fp_e = e - int k\<rparr>"
proof (induction k arbitrary: f e)
  case 0
  then show ?case by (subst normalize_loop.simps) (simp add: drop_bit_zero_iff)
next
  case (Suc k)
  then have pos: "0 < unat f" by (cases "unat f = 0") auto
  have "unat f * 1 \<le> unat f * 2 ^ k" by (intro mult_le_mono) simp_all
  also have "\<dots> < 2 ^ 63" using Suc.prems(2) by simp
  finally have lt: "unat f < 2 ^ 63" by simp
  then have two: "unat (push_bit 1 f) = 2 * unat f" by (subst unat_push_bit) simp_all
  have "normalize_loop f e = normalize_loop (push_bit 1 f) (e - 1)"
    using pos lt by (subst normalize_loop.simps) (auto simp: drop_bit_zero_iff)
  also have "\<dots> = \<lparr>fp_f = push_bit k (push_bit 1 f), fp_e = e - 1 - int k\<rparr>"
    using Suc.prems by (intro Suc.IH) (simp_all only: two, simp_all add: ac_simps)
  finally show ?case by (simp add: push_bit_push_bit del: push_bit_of_Suc_0)
qed

lemma shift_exists:
  fixes n :: nat
  assumes "0 < n" and "n < 2 ^ 64"
  shows "\<exists>k. 2 ^ 63 \<le> n * 2 ^ k \<and> n * 2 ^ k < 2 ^ 64"
proof -
  define k where "k = (LEAST k. 2 ^ 63 \<le> n * 2 ^ k)"
  have "2 ^ 63 \<le> n * 2 ^ 63" using assms(1) by simp
  then have k: "2 ^ 63 \<le> n * 2 ^ k" unfolding k_def by (rule LeastI [where P = "\<lambda>k. 2 ^ 63 \<le> n * 2 ^ k"])
  have "n * 2 ^ k < 2 ^ 64"
  proof (cases k)
    case 0
    then show ?thesis using assms(2) by simp
  next
    case (Suc j)
    then have "\<not> 2 ^ 63 \<le> n * 2 ^ j" using not_less_Least [of j "\<lambda>k. 2 ^ 63 \<le> n * 2 ^ k"] k_def by auto
    then show ?thesis using Suc by simp
  qed
  then show ?thesis using k by blast
qed

lemma normalize_to_shift:
  assumes "unat f * 2 ^ k < 2 ^ 64" and "target = e - int k"
  shows "diyfp_normalize_to \<lparr>fp_f = f, fp_e = e\<rparr> target = Inr \<lparr>fp_f = push_bit k f, fp_e = target\<rparr>"
proof -
  have "unat (push_bit k f) = unat f * 2 ^ k" by (rule unat_push_bit) (use assms(1) in simp)
  then have "unat (drop_bit k (push_bit k f)) = unat f" by (simp only: unat_drop_bit) simp
  then have "drop_bit k (push_bit k f) = f" by (simp only: word_unat_eq_iff)
  then show ?thesis using assms(2) by (simp add: diyfp_normalize_to_def)
qed

definition boundaries_of :: "nat \<Rightarrow> int \<Rightarrow> nat \<Rightarrow> boundaries \<Rightarrow> bool" where
  "boundaries_of m e k b \<longleftrightarrow>
     fp_e (bd_plus b) = e - 1 - int k \<and> fp_e (bd_w b) = e - 1 - int k \<and> fp_e (bd_minus b) = e - 1 - int k \<and>
     unat (fp_f (bd_plus b)) = (2 * m + 1) * 2 ^ k \<and> unat (fp_f (bd_w b)) = 2 * m * 2 ^ k \<and>
     unat (fp_f (bd_minus b)) =
       (if m = 2 ^ 52 \<and> e \<noteq> - 1074 then (4 * m - 1) * 2 ^ (k - 1) else (2 * m - 1) * 2 ^ k)"

lemma boundary_shift:
  assumes "0 < m" and "m < 2 ^ 53"
  obtains k where "10 \<le> k" "k \<le> 62" "2 ^ 63 \<le> (2 * m + 1) * 2 ^ k" "(2 * m + 1) * 2 ^ k < (2 :: nat) ^ 64"
    "2 ^ 63 \<le> m * 2 ^ (k + 1)"
proof -
  obtain k where k: "2 ^ 63 \<le> (2 * m + 1) * 2 ^ k" "(2 * m + 1) * 2 ^ k < (2 :: nat) ^ 64"
    using shift_exists [of "2 * m + 1"] assms by auto
  have "10 \<le> k"
  proof (rule ccontr)
    assume "\<not> 10 \<le> k"
    then have "(2 :: nat) ^ k \<le> 2 ^ 9" by (intro power_increasing) auto
    then have "(2 * m + 1) * 2 ^ k \<le> (2 ^ 54 - 1) * 2 ^ 9" using assms(2) by (intro mult_le_mono) auto
    then show False using k(1) by simp
  qed
  moreover have "k \<le> 62"
  proof (rule ccontr)
    assume "\<not> k \<le> 62"
    then have "(2 :: nat) ^ 63 \<le> 2 ^ k" by (intro power_increasing) auto
    then have "3 * 2 ^ 63 \<le> (2 * m + 1) * 2 ^ k" using assms(1) by (intro mult_le_mono) auto
    then show False using k(2) by simp
  qed
  moreover have "2 ^ 63 \<le> m * 2 ^ (k + 1)"
  proof -
    have split: "(2 :: nat) ^ 63 = 2 ^ (62 - k) * 2 ^ (k + 1)" using \<open>k \<le> 62\<close> by (simp flip: power_add)
    have "(2 * 2 ^ (62 - k)) * 2 ^ k = (2 :: nat) ^ (62 - k) * 2 ^ (k + 1)" by simp
    then have "(2 * 2 ^ (62 - k)) * 2 ^ k \<le> (2 * m + 1) * 2 ^ k" using k(1) split by (simp only:)
    then have "2 * 2 ^ (62 - k) \<le> 2 * m + 1" by (simp only: mult_le_cancel2) simp
    then have "2 ^ (62 - k) \<le> m" by simp
    then show ?thesis unfolding split by (rule mult_le_mono1)
  qed
  ultimately show ?thesis using k by (intro that)
qed

lemma double_fields_value:
  assumes "0 < m" and "m < 2 ^ 53" and "- 1074 \<le> e" and "e \<le> 971" and "m < 2 ^ 52 \<longrightarrow> e = - 1074"
    and "double_fields m e = (E, F)"
  shows "unat (if E = 0 then F else F + 0x10000000000000) = m"
    "(if E = 0 then - 1074 else uint E - 1075) = e"
    "F = 0 \<and> 1 < E \<longleftrightarrow> m = 2 ^ 52 \<and> e \<noteq> - 1074"
proof -
  have small: "unat (of_nat n :: 64 word) = n" if "n < 2 ^ 53" for n
    using that by (simp add: unat_of_nat)
  have "unat (if E = 0 then F else F + 0x10000000000000) = m
    \<and> (if E = 0 then - 1074 else uint E - 1075) = e
    \<and> (F = 0 \<and> 1 < E \<longleftrightarrow> m = 2 ^ 52 \<and> e \<noteq> - 1074)"
  proof (cases "m < 2 ^ 52")
    case True
    then have EF: "E = 0" "F = of_nat m" using assms(6) by (simp_all add: double_fields_def)
    then show ?thesis using small assms(2,5) True by simp
  next
    case False
    then have EF: "E = of_int (e + 1075)" "F = of_nat (m - 2 ^ 52)" using assms(6) by (simp_all add: double_fields_def)
    have uE: "uint E = e + 1075" unfolding EF(1) using assms(3,4) by (simp only: uint_word_of_int) (simp add: mod_pos_pos_trivial)
    then have E: "E \<noteq> 0" using assms(3) by auto
    have uF: "unat F = m - 2 ^ 52" unfolding EF(2) using assms(2) by (intro small) simp
    then have "unat (F + 0x10000000000000) = m" using assms(2) False by (simp add: unat_word_ariths)
    moreover have "F = 0 \<longleftrightarrow> m = 2 ^ 52" using uF False by (metis diff_is_0_eq' diff_self_eq_0 le_antisym not_less unat_eq_0 diff_is_0_eq)
    moreover have "1 < E \<longleftrightarrow> e \<noteq> - 1074" using uE assms(3) by (auto simp: word_less_def)
    ultimately show ?thesis using E uE by simp
  qed
  then show "unat (if E = 0 then F else F + 0x10000000000000) = m"
    "(if E = 0 then - 1074 else uint E - 1075) = e"
    "F = 0 \<and> 1 < E \<longleftrightarrow> m = 2 ^ 52 \<and> e \<noteq> - 1074"
    by blast+
qed

lemma unat_small_arith:
  fixes f :: "64 word"
  assumes "unat f = m" and "0 < m" and "m < 2 ^ 53"
  shows "unat (2 * f + 1) = 2 * m + 1" "unat (2 * f - 1) = 2 * m - 1" "unat (4 * f - 1) = 4 * m - 1"
proof -
  have two: "unat (2 * f) = 2 * m" and four: "unat (4 * f) = 4 * m"
    using assms(1,3) by (simp_all add: unat_word_ariths)
  show "unat (2 * f + 1) = 2 * m + 1" using assms(1,3) by (simp add: unat_word_ariths)
  have "2 * f \<noteq> 0" "4 * f \<noteq> 0" using two four assms(2) by (auto simp flip: unat_eq_0)
  then show "unat (2 * f - 1) = 2 * m - 1" "unat (4 * f - 1) = 4 * m - 1"
    using unat_minus_one [of "2 * f"] unat_minus_one [of "4 * f"] two four by simp_all
qed

lemma compute_boundaries_exact:
  assumes wf: "0 < m" "m < 2 ^ 53" "- 1074 \<le> e" "e \<le> 971" "m < 2 ^ 52 \<longrightarrow> e = - 1074"
  obtains k b where "10 \<le> k" "k \<le> 62" "compute_boundaries m e = Inr b" "boundaries_of m e k b"
    "2 ^ 63 \<le> unat (fp_f (bd_plus b))"
proof -
  obtain k where k: "10 \<le> k" "k \<le> 62" "2 ^ 63 \<le> (2 * m + 1) * 2 ^ k" "(2 * m + 1) * 2 ^ k < (2 :: nat) ^ 64"
    "2 ^ 63 \<le> m * 2 ^ (k + 1)"
    using boundary_shift wf(1,2) .
  obtain E F where EF: "double_fields m e = (E, F)" by fastforce
  define f where "f = (if E = 0 then F else F + 0x10000000000000)"
  have f: "unat f = m" using double_fields_value(1) [OF wf EF] by (simp add: f_def)
  have v: "(if E = 0 then \<lparr>fp_f = F, fp_e = - 1074\<rparr> else \<lparr>fp_f = F + 0x10000000000000, fp_e = uint E - 1075\<rparr>)
      = \<lparr>fp_f = f, fp_e = e\<rparr>"
    using double_fields_value(2) [OF wf EF] by (auto simp: f_def split: if_splits)
  note closer = double_fields_value(3) [OF wf EF]
  note u = unat_small_arith [OF f wf(1,2)]
  define c where "c \<longleftrightarrow> m = 2 ^ 52 \<and> e \<noteq> - 1074"
  define wp where "wp = \<lparr>fp_f = push_bit k (2 * f + 1), fp_e = e - 1 - int k\<rparr>"
  define wm where "wm = (if c then \<lparr>fp_f = push_bit (k - 1) (4 * f - 1), fp_e = e - 1 - int k\<rparr>
    else \<lparr>fp_f = push_bit k (2 * f - 1), fp_e = e - 1 - int k\<rparr>)"
  define w where "w = \<lparr>fp_f = push_bit (k + 1) f, fp_e = e - 1 - int k\<rparr>"
  have bd: "2 * m * 2 ^ k < 2 ^ 64" "(2 * m - 1) * 2 ^ k < 2 ^ 64" "(4 * m - 1) * 2 ^ (k - 1) < 2 ^ 64"
    "m * 2 ^ (k + 1) < 2 ^ 64"
  proof -
    have le: "2 * m * 2 ^ k \<le> (2 * m + 1) * 2 ^ k" "(2 * m - 1) * 2 ^ k \<le> (2 * m + 1) * 2 ^ k"
      by (intro mult_le_mono1, simp)+
    then show "2 * m * 2 ^ k < 2 ^ 64" "(2 * m - 1) * 2 ^ k < 2 ^ 64" using k(4) by (simp_all only: le_less_trans)
    then show "m * 2 ^ (k + 1) < 2 ^ 64" by simp
    have "(2 :: nat) ^ k = 2 * 2 ^ (k - 1)" using k(1) by (cases k) simp_all
    then have "(4 * m - 1) * 2 ^ (k - 1) \<le> 2 * m * 2 ^ k" by (simp add: algebra_simps)
    then show "(4 * m - 1) * 2 ^ (k - 1) < 2 ^ 64" using \<open>2 * m * 2 ^ k < 2 ^ 64\<close> by (rule le_less_trans)
  qed
  have plus: "diyfp_normalize \<lparr>fp_f = 2 * f + 1, fp_e = e - 1\<rparr> = Inr wp"
  proof -
    have "2 * f + 1 \<noteq> 0" using u(1) by (auto simp flip: unat_eq_0)
    then show ?thesis using normalize_loop_shift [of "2 * f + 1" k "e - 1"] k(3,4)
      by (simp only: diyfp_normalize_def u wp_def diyfp.select_convs if_False)
  qed
  have mid: "diyfp_normalize \<lparr>fp_f = f, fp_e = e\<rparr> = Inr w"
  proof -
    have "f \<noteq> 0" using f wf(1) by auto
    then show ?thesis using normalize_loop_shift [of f "k + 1" e] k(5) bd(4) f by (simp add: diyfp_normalize_def w_def)
  qed
  have minus: "diyfp_normalize_to (if c then \<lparr>fp_f = 4 * f - 1, fp_e = e - 2\<rparr> else \<lparr>fp_f = 2 * f - 1, fp_e = e - 1\<rparr>)
      (fp_e wp) = Inr wm"
    using normalize_to_shift [of "4 * f - 1" "k - 1" "e - 1 - int k" "e - 2"]
      normalize_to_shift [of "2 * f - 1" k "e - 1 - int k" "e - 1"] bd(2,3) k(1)
    by (auto simp: u wp_def wm_def of_nat_diff)
  have cb: "compute_boundaries m e = Inr \<lparr>bd_w = w, bd_minus = wm, bd_plus = wp\<rparr>"
    using wf(1) plus minus mid
    by (simp only: compute_boundaries_def EF Let_def case_prod_conv v closer c_def [symmetric] diyfp.select_convs) simp
  have fw: "unat (fp_f wp) = (2 * m + 1) * 2 ^ k" "unat (fp_f w) = 2 * m * 2 ^ k"
    "unat (fp_f wm) = (if c then (4 * m - 1) * 2 ^ (k - 1) else (2 * m - 1) * 2 ^ k)"
    using bd k(4) unat_push_bit [of f "k + 1"]
    by (auto simp: wp_def w_def wm_def unat_push_bit u f simp del: push_bit_Suc)
  show ?thesis
    by (rule that [OF k(1,2) cb])
      (use fw k(3) in \<open>simp_all add: boundaries_of_def c_def wp_def w_def wm_def\<close>)
qed

section \<open>Rounding the last digit\<close>

text \<open>
  Rounding lowers the last digit while the remainder stays within the interval. The remainder and
  the digits always add up to the same number; \<open>d\<close> is the last digit and \<open>r\<close> the remainder.
\<close>

lemma decrement_last_digit:
  assumes "0 < d" and "d \<le> 9"
  shows "decrement_last (ds @ [digit_char d]) = ds @ [digit_char (d - 1)]"
  using assms by (simp add: decrement_last_def char_nat_digit_char) (simp add: digit_char_def)

lemma digit_char_not_zero: "0 < d \<Longrightarrow> d \<le> 9 \<Longrightarrow> digit_char d \<noteq> CHR ''0''"
  using char_nat_digit_char [of d] by (auto simp: char_nat_def)

lemma grisu2_round_loop_digit:
  "unat rest + d * unat ten_k = whole \<Longrightarrow> unat delta < whole \<Longrightarrow> unat rest \<le> unat delta \<Longrightarrow> d \<le> 9 \<Longrightarrow>
    \<exists>d' r. grisu2_round_loop (ds @ [digit_char d]) dst delta rest ten_k = Inr (ds @ [digit_char d'])
      \<and> 0 < d' \<and> d' \<le> d \<and> r + d' * unat ten_k = whole \<and> r \<le> unat delta"
proof (induction d arbitrary: rest)
  case 0
  then show ?case by simp
next
  case (Suc d)
  show ?case
  proof (cases "dst \<le> delta \<and> 0 < ten_k \<and> rest < dst \<and> ten_k \<le> delta - rest \<and>
      (rest + ten_k < dst \<or> rest + ten_k - dst < dst - rest)")
    case True
    then have "rest < delta" by auto
    note sum = word_add_within [OF this, of ten_k]
    have le: "unat (rest + ten_k) \<le> unat delta" "unat (rest + ten_k) = unat rest + unat ten_k"
      using sum True by (simp_all add: word_le_nat_alt)
    have step: "grisu2_round_loop (ds @ [digit_char (Suc d)]) dst delta rest ten_k
        = grisu2_round_loop (ds @ [digit_char d]) dst delta (rest + ten_k) ten_k"
      using True Suc.prems(4) digit_char_not_zero [of "Suc d"] decrement_last_digit [of "Suc d" ds]
      by (subst grisu2_round_loop.simps) simp
    have "unat (rest + ten_k) + d * unat ten_k = whole" using Suc.prems(1) le(2) by simp
    from Suc.IH [OF this Suc.prems(2) le(1)] obtain d' r where
      "grisu2_round_loop (ds @ [digit_char d]) dst delta (rest + ten_k) ten_k = Inr (ds @ [digit_char d'])"
      "0 < d'" "d' \<le> d" "r + d' * unat ten_k = whole" "r \<le> unat delta"
      using Suc.prems(4) by auto
    then show ?thesis using step by (intro exI [of _ d'] exI [of _ r]) simp
  next
    case False
    then have "grisu2_round_loop (ds @ [digit_char (Suc d)]) dst delta rest ten_k = Inr (ds @ [digit_char (Suc d)])"
      by (subst grisu2_round_loop.simps) (simp only: if_False)
    then show ?thesis using Suc.prems by (intro exI [of _ "Suc d"] exI [of _ "unat rest"]) auto
  qed
qed

lemma grisu2_round_digit:
  assumes "unat rest + d * unat ten_k = whole" and "unat delta < whole" and "unat rest \<le> unat delta" and "d \<le> 9"
    and "dst \<le> delta" and "0 < unat ten_k"
  obtains d' r where "grisu2_round (ds @ [digit_char d]) dst delta rest ten_k = Inr (ds @ [digit_char d'])"
    "0 < d'" "d' \<le> d" "r + d' * unat ten_k = whole" "r \<le> unat delta"
proof -
  have "ten_k \<noteq> 0" using assms(6) by auto
  moreover have "\<not> delta < dst" "\<not> delta < rest" using assms(3,5) by (auto simp: word_less_nat_alt word_le_nat_alt)
  ultimately show ?thesis
    using grisu2_round_loop_digit [OF assms(1-4), of ds dst] that by (auto simp: grisu2_round_def)
qed

section \<open>The digits of the integral part\<close>

text \<open>Decimal digits without a leading zero.\<close>

definition lead_digits :: "string \<Rightarrow> bool" where
  "lead_digits ds \<longleftrightarrow> (\<forall>c \<in> set ds. is_digit c) \<and> (ds \<noteq> [] \<longrightarrow> hd ds \<noteq> CHR ''0'')"

lemma lead_digits_snoc:
  "lead_digits ds \<Longrightarrow> d \<le> 9 \<Longrightarrow> (ds = [] \<longrightarrow> 0 < d) \<Longrightarrow> lead_digits (ds @ [digit_char d])"
  using digit_char_not_zero [of d] by (cases ds) (auto simp: lead_digits_def)

lemma unat_rest:
  assumes "unat r * 2 ^ s + unat p2 < 2 ^ 64"
  shows "unat (push_bit s (ucast (r :: 32 word)) + p2 :: 64 word) = unat r * 2 ^ s + unat p2"
proof -
  have "unat r < 2 ^ 64" using unsigned_less [of r, where ?'a = nat] by simp
  then have u: "unat (ucast r :: 64 word) = unat r" by (simp add: unsigned_ucast_eq take_bit_nat_eq_self)
  have "unat (push_bit s (ucast r) :: 64 word) = unat r * 2 ^ s"
    using assms by (subst unat_push_bit) (simp_all only: u, simp)
  then show ?thesis using assms by (simp add: unat_word_ariths)
qed

text \<open>
  \<open>whole\<close> is the upper boundary in units of \<open>2\<^sup>-\<^sup>s\<close>: the digits written so far and what is left
  always make it up, and what is left is larger than \<open>delta\<close> until the loop stops.
\<close>

definition integral_stop :: "nat \<Rightarrow> nat \<Rightarrow> nat \<Rightarrow> nat \<Rightarrow> string \<Rightarrow> nat \<Rightarrow> nat \<Rightarrow> nat \<Rightarrow> nat \<Rightarrow> bool" where
  "integral_stop whole delta s len ds d n rest ten \<longleftrightarrow>
     lead_digits ds \<and> d \<le> 9 \<and> (ds = [] \<longrightarrow> 0 < d) \<and> Suc (length ds) + n = len \<and> ten = 10 ^ n * 2 ^ s \<and>
     dec_value (ds @ [digit_char d]) * ten + rest = whole \<and> rest \<le> delta \<and> delta < rest + d * ten \<and>
     delta < 10 * ten"

lemma digit_gen_integral_spec:
  assumes "whole < 2 ^ 64" and "unat p2 < 2 ^ s"
  shows "unat p1 < 10 ^ n \<Longrightarrow> (0 < n \<longrightarrow> unat pow10 = 10 ^ (n - 1) \<and> 10 ^ (n - 1) * 2 ^ s < (2 :: nat) ^ 64) \<Longrightarrow>
    (dec_value buf * 10 ^ n + unat p1) * 2 ^ s + unat p2 = whole \<Longrightarrow> unat delta < unat p1 * 2 ^ s + unat p2 \<Longrightarrow>
    lead_digits buf \<Longrightarrow> (buf = [] \<longrightarrow> 0 < n \<and> 10 ^ (n - 1) \<le> unat p1) \<Longrightarrow> length buf + n = len \<Longrightarrow>
    (\<exists>ds d n' rest ten. digit_gen_integral n s delta p2 p1 pow10 buf = Inr (ds @ [digit_char d], Some (n', rest, ten))
       \<and> integral_stop whole (unat delta) s len ds d n' (unat rest) (unat ten)) \<or>
    (\<exists>ds. digit_gen_integral n s delta p2 p1 pow10 buf = Inr (ds, None)
       \<and> lead_digits ds \<and> ds \<noteq> [] \<and> length ds = len \<and> dec_value ds * 2 ^ s + unat p2 = whole \<and> unat delta < unat p2)"
proof (induction n arbitrary: p1 pow10 buf)
  case 0
  then show ?case by (auto simp: unat_eq_0)
next
  case (Suc n)
  define d r where "d = p1 div pow10" and "r = p1 mod pow10"
  have pow: "unat pow10 = 10 ^ n" "10 ^ n * 2 ^ s < (2 :: nat) ^ 64" using Suc.prems(2) by simp_all
  have dr: "unat d = unat p1 div 10 ^ n" "unat r = unat p1 mod 10 ^ n"
    by (simp_all add: d_def r_def unat_div unat_mod pow(1))
  have split: "unat p1 = unat d * 10 ^ n + unat r" "unat r < 10 ^ n" unfolding dr by (simp_all only: div_mult_mod_eq, simp)
  have "unat d < 10" using Suc.prems(1) unfolding dr by (simp add: less_mult_imp_div_less)
  then have d9: "unat d \<le> 9" "\<not> 9 < d" by (simp_all add: word_less_nat_alt)
  have whole: "(dec_value (buf @ [digit_char (unat d)]) * 10 ^ n + unat r) * 2 ^ s + unat p2 = whole"
    using Suc.prems(3) split(1) d9(1) by (simp add: algebra_simps)
  define rest where "rest = push_bit s (ucast r) + p2"
  have "unat r * 2 ^ s + unat p2 \<le> whole" using whole by (simp add: add_mult_distrib)
  then have rest: "unat rest = unat r * 2 ^ s + unat p2"
    unfolding rest_def using assms(1) by (intro unat_rest) simp
  have lead: "buf = [] \<longrightarrow> 0 < unat d"
    using Suc.prems(6) unfolding dr by (auto simp: div_greater_zero_iff)
  have "unat delta < (unat d * 10 ^ n + unat r) * 2 ^ s + unat p2" using Suc.prems(4) split(1) by simp
  then have before: "unat delta < unat rest + unat d * (10 ^ n * 2 ^ s)" unfolding rest by (simp add: algebra_simps)
  show ?case
  proof (cases "rest \<le> delta")
    case True
    have "(unat r + 1) * 2 ^ s \<le> 10 ^ n * 2 ^ s" using split(2) by (intro mult_le_mono1) simp
    then have "unat rest < 10 ^ n * 2 ^ s" unfolding rest using assms(2) by simp
    moreover have "unat d * (10 ^ n * 2 ^ s) \<le> 9 * (10 ^ n * 2 ^ s)" using d9(1) by (intro mult_le_mono1)
    ultimately have "unat delta < 10 * (10 ^ n * 2 ^ s)" using before by linarith
    moreover have "unat (push_bit s (ucast pow10) :: 64 word) = 10 ^ n * 2 ^ s"
      using unat_rest [of pow10 s 0] pow by simp
    ultimately have "integral_stop whole (unat delta) s len buf (unat d) n (unat rest) (unat (push_bit s (ucast pow10) :: 64 word))"
      using True whole before Suc.prems(5,7) d9(1) lead
      unfolding integral_stop_def rest by (simp add: word_le_nat_alt rest algebra_simps)
    moreover have "digit_gen_integral (Suc n) s delta p2 p1 pow10 buf
        = Inr (buf @ [digit_char (unat d)], Some (n, rest, push_bit s (ucast pow10)))"
      using True d9(2) by (simp add: Let_def d_def [symmetric] r_def [symmetric] rest_def [symmetric])
    ultimately show ?thesis by blast
  next
    case False
    have "digit_gen_integral (Suc n) s delta p2 p1 pow10 buf
        = digit_gen_integral n s delta p2 r (pow10 div 10) (buf @ [digit_char (unat d)])"
      using False d9(2) by (simp add: Let_def d_def [symmetric] r_def [symmetric] rest_def [symmetric])
    moreover have "0 < n \<longrightarrow> unat (pow10 div 10) = 10 ^ (n - 1) \<and> 10 ^ (n - 1) * 2 ^ s < (2 :: nat) ^ 64"
    proof
      assume "0 < n"
      then have ten: "(10 :: nat) ^ n = 10 * 10 ^ (n - 1)" by (cases n) simp_all
      then have "unat (pow10 div 10) = 10 ^ (n - 1)" by (simp add: unat_div pow(1))
      moreover have "10 ^ (n - 1) * 2 ^ s \<le> 10 ^ n * (2 :: nat) ^ s" unfolding ten by (intro mult_le_mono1) simp
      then have "10 ^ (n - 1) * 2 ^ s < (2 :: nat) ^ 64" using pow(2) by (rule le_less_trans)
      ultimately show "unat (pow10 div 10) = 10 ^ (n - 1) \<and> 10 ^ (n - 1) * 2 ^ s < (2 :: nat) ^ 64" ..
    qed
    moreover have "unat delta < unat r * 2 ^ s + unat p2" using False rest by (simp add: word_le_nat_alt)
    ultimately show ?thesis
      using Suc.IH [of r "pow10 div 10" "buf @ [digit_char (unat d)]"] split(2) whole
        lead_digits_snoc [OF Suc.prems(5) d9(1) lead] Suc.prems(7)
      by simp
  qed
qed

section \<open>The digits of the fractional part\<close>

text \<open>After \<open>m\<close> digits behind the point everything is scaled by \<open>10\<^sup>m\<close>.\<close>

definition fractional_stop ::
  "nat \<Rightarrow> nat \<Rightarrow> nat \<Rightarrow> nat \<Rightarrow> string \<Rightarrow> nat \<Rightarrow> nat \<Rightarrow> nat \<Rightarrow> nat \<Rightarrow> nat \<Rightarrow> bool" where
  "fractional_stop whole delta dst s ds d m rest delta1 dst1 \<longleftrightarrow>
     lead_digits ds \<and> ds \<noteq> [] \<and> d \<le> 9 \<and> delta1 = delta * 10 ^ m \<and> dst1 = dst * 10 ^ m \<and>
     dec_value (ds @ [digit_char d]) * 2 ^ s + rest = whole * 10 ^ m \<and> rest \<le> delta1 \<and>
     delta1 < rest + d * 2 ^ s \<and> delta1 < 10 * 2 ^ s"

lemma digit_gen_fractional_spec:
  "s \<le> 60 \<Longrightarrow> unat p2 < 2 ^ s \<Longrightarrow> unat delta < unat p2 \<Longrightarrow> dst \<le> delta \<Longrightarrow>
    unat delta = D * 10 ^ m \<Longrightarrow> unat dst = T * 10 ^ m \<Longrightarrow>
    dec_value buf * 2 ^ s + unat p2 = whole * 10 ^ m \<Longrightarrow> lead_digits buf \<Longrightarrow> buf \<noteq> [] \<Longrightarrow>
    \<exists>ds d m' r delta1 dst1. digit_gen_fractional s p2 delta dst m buf = Inr (ds @ [digit_char d], m', r, delta1, dst1)
      \<and> fractional_stop whole D T s ds d m' (unat r) (unat delta1) (unat dst1)
      \<and> length ds + m + 1 = length buf + m'"
proof (induction s p2 delta dst m buf rule: digit_gen_fractional.induct)
  case (1 s p2 delta dst m buf)
  have s60: "(2 :: nat) ^ s \<le> 2 ^ 60" using "1.prems"(1) by (intro power_increasing) simp_all
  define d r delta1 dst1 where "d = drop_bit s (10 * p2)" and "r = (10 * p2) AND (push_bit s 1 - 1)"
    and "delta1 = 10 * delta" and "dst1 = 10 * dst"
  note defs = this
  have small: "unat p2 < 2 ^ 60" "unat delta < 2 ^ 60" "unat dst < 2 ^ 60"
    using "1.prems"(2-4) s60 by (auto simp: word_le_nat_alt)
  have p2: "\<not> 0x1999999999999999 < p2" using small(1) by (simp add: word_less_nat_alt)
  have p: "unat (10 * p2) = 10 * unat p2" using small(1) by (simp add: unat_word_ariths)
  have dr: "unat d = 10 * unat p2 div 2 ^ s" "unat r = 10 * unat p2 mod 2 ^ s"
    by (simp_all add: defs unat_drop_bit and_mask_take_bit unat_take_bit p)
  have split: "10 * unat p2 = unat d * 2 ^ s + unat r" "unat r < 2 ^ s" unfolding dr by (simp_all only: div_mult_mod_eq, simp)
  have "unat d < 10" using "1.prems"(2) unfolding dr by (simp add: less_mult_imp_div_less)
  then have d9: "unat d \<le> 9" "\<not> 9 < d" by (simp_all add: word_less_nat_alt)
  have del: "unat delta1 = 10 * unat delta" "unat dst1 = 10 * unat dst"
    using small by (simp_all add: defs unat_word_ariths)
  then have le: "dst1 \<le> delta1" using "1.prems"(4) by (simp add: word_le_nat_alt)
  have scaled: "unat delta1 = D * 10 ^ (m + 1)" "unat dst1 = T * 10 ^ (m + 1)"
    using "1.prems"(5,6) del by simp_all
  have whole: "dec_value (buf @ [digit_char (unat d)]) * 2 ^ s + unat r = whole * 10 ^ (m + 1)"
    using "1.prems"(7) split(1) d9(1) by (simp add: algebra_simps)
  have more: "unat delta1 < unat r + unat d * 2 ^ s" using "1.prems"(3) split(1) del(1) by simp
  show ?case
  proof (cases "r \<le> delta1")
    case True
    have "unat d * 2 ^ s \<le> 9 * 2 ^ s" using d9(1) by (intro mult_le_mono1)
    then have "unat delta1 < 10 * 2 ^ s" using more split(2) by linarith
    then have "fractional_stop whole D T s buf (unat d) (m + 1) (unat r) (unat delta1) (unat dst1)"
      unfolding fractional_stop_def using True more whole scaled d9(1) "1.prems"(8,9)
      by (simp add: word_le_nat_alt)
    moreover have "digit_gen_fractional s p2 delta dst m buf = Inr (buf @ [digit_char (unat d)], m + 1, r, delta1, dst1)"
      using True p2 d9(2) by (subst digit_gen_fractional.simps) (simp add: Let_def defs)
    ultimately show ?thesis
      by (intro exI [of _ buf] exI [of _ "unat d"] exI [of _ "m + 1"] exI [of _ r] exI [of _ delta1] exI [of _ dst1]) simp
  next
    case False
    then have "digit_gen_fractional s p2 delta dst m buf = digit_gen_fractional s r delta1 dst1 (m + 1) (buf @ [digit_char (unat d)])"
      using p2 d9(2) by (subst digit_gen_fractional.simps) (simp add: Let_def defs)
    moreover have "unat delta1 < unat r" using False by (simp add: word_le_nat_alt)
    ultimately show ?thesis
      using "1.IH" [OF p2 refl d_def r_def, unfolded not_less, OF _ refl delta1_def dst1_def]
        "1.prems"(1) d9(2) False split(2) le scaled whole lead_digits_snoc [OF "1.prems"(8) d9(1)] "1.prems"(9) 
      by simp
  qed
qed

section \<open>Digit generation\<close>

lemma find_largest_pow10_bounds:
  assumes "n \<noteq> 0" and "find_largest_pow10 n = (p, k)"
  shows "0 < k" "k \<le> 10" "unat p = 10 ^ (k - 1)" "10 ^ (k - 1) \<le> unat n" "unat n < 10 ^ k"
proof -
  have pos: "0 < unat n" using assms(1) by (simp add: unat_gt_0)
  have "0 < k \<and> k \<le> 10 \<and> unat p = 10 ^ (k - 1) \<and> 10 ^ (k - 1) \<le> unat n \<and> unat n < 10 ^ k"
    using assms(2) pos unsigned_less [of n, where ?'a = nat] unfolding find_largest_pow10_def
    by (auto simp: word_le_nat_alt split: if_splits)
  then show "0 < k" "k \<le> 10" "unat p = 10 ^ (k - 1)" "10 ^ (k - 1) \<le> unat n" "unat n < 10 ^ k" by blast+
qed

lemma rounded_value:
  assumes "dec_value (ds @ [digit_char d]) * ten + rest = (whole :: nat)" and "r + d' * ten = rest + d * ten"
    and "d \<le> 9" and "d' \<le> d"
  shows "dec_value (ds @ [digit_char d']) * ten + r = whole"
  using assms by (simp add: add_mult_distrib)

text \<open>
  What digit generation promises: digits without a leading zero, at most one more than the interval
  needs, and a number in the interval.
\<close>

definition digits_between :: "nat \<Rightarrow> nat \<Rightarrow> nat \<Rightarrow> string \<Rightarrow> int \<Rightarrow> bool" where
  "digits_between lower upper s ds x \<longleftrightarrow>
     lead_digits ds \<and> ds \<noteq> [] \<and> 10 ^ (length ds - 1) * (upper - lower) < 10 * upper \<and>
     real lower \<le> real (dec_value ds) * 10 powi x * 2 ^ s \<and> real (dec_value ds) * 10 powi x * 2 ^ s \<le> real upper"

lemma digits_between_integral:
  assumes stop: "integral_stop upper (upper - lower) s len ds d n rest ten" and "lower \<le> upper"
    and "10 ^ (len - 1) * 2 ^ s \<le> upper" and "0 < d'" and "d' \<le> d"
    and "dec_value (ds @ [digit_char d']) * ten + r = upper" and "r \<le> upper - lower"
  shows "digits_between lower upper s (ds @ [digit_char d']) (int n)"
proof -
  have n: "len = Suc (length ds) + n" "ten = 10 ^ n * 2 ^ s" and less: "upper - lower < 10 * ten"
    and ds: "lead_digits ds" "d' \<le> 9"
    using stop assms(5) by (auto simp: integral_stop_def)
  have "10 ^ length ds * (upper - lower) < 10 ^ length ds * (10 * ten)" using less by simp
  also have "\<dots> = 10 * (10 ^ (len - 1) * 2 ^ s)" by (simp add: n power_add)
  also have "\<dots> \<le> 10 * upper" using assms(3) by simp
  finally have "10 ^ length ds * (upper - lower) < 10 * upper" .
  moreover have "real (dec_value (ds @ [digit_char d'])) * 10 powi int n * 2 ^ s + real r = real upper"
    using arg_cong [OF assms(6), of real] by (simp add: n(2))
  moreover have "real r \<le> real upper - real lower" using assms(2,7) by linarith
  ultimately show ?thesis
    using lead_digits_snoc [OF ds] assms(4) by (simp add: digits_between_def)
qed

lemma digits_between_fractional:
  assumes stop: "fractional_stop upper (upper - lower) t s ds d m rest delta1 dst1" and "lower \<le> upper"
    and "10 ^ (len - 1) * 2 ^ s \<le> upper" and "length ds + 1 = len + m" and "0 < len" and "0 < d'" and "d' \<le> d"
    and "dec_value (ds @ [digit_char d']) * 2 ^ s + r = upper * 10 ^ m" and "r \<le> delta1"
  shows "digits_between lower upper s (ds @ [digit_char d']) (- int m)"
proof -
  have delta1: "delta1 = (upper - lower) * 10 ^ m" "delta1 < 10 * 2 ^ s" and ds: "lead_digits ds" "d' \<le> 9"
    using stop assms(7) by (auto simp: fractional_stop_def)
  have len: "length ds = len - 1 + m" using assms(4,5) by simp
  have "10 ^ length ds * (upper - lower) = 10 ^ (len - 1) * delta1" by (simp add: len power_add delta1(1))
  also have "\<dots> < 10 ^ (len - 1) * (10 * 2 ^ s)" using delta1(2) by simp
  also have "\<dots> = 10 * (10 ^ (len - 1) * 2 ^ s)" by simp
  also have "\<dots> \<le> 10 * upper" using assms(3) by simp
  finally have "10 ^ length ds * (upper - lower) < 10 * upper" .
  moreover define R where "R = real r / 10 ^ m"
  have "real (dec_value (ds @ [digit_char d'])) * 10 powi (- int m) * 2 ^ s + R = real upper"
    unfolding R_def using arg_cong [OF assms(8), of real] by (simp add: power_int_minus field_simps)
  moreover have "R \<le> real upper - real lower"
  proof -
    have "r \<le> (upper - lower) * 10 ^ m" using assms(9) delta1(1) by simp
    then have "real r \<le> real ((upper - lower) * 10 ^ m)" by (rule of_nat_mono)
    then have "real r / 10 ^ m \<le> real upper - real lower" using assms(2) by (simp add: of_nat_diff field_simps)
    then show ?thesis by (simp only: R_def)
  qed
  moreover have "0 \<le> R" by (simp add: R_def)
  ultimately show ?thesis
    using lead_digits_snoc [OF ds] assms(6) unfolding digits_between_def
    by (simp del: dec_value_snoc)
qed

lemma diyfp_sub_eq:
  assumes "fp_e x = fp_e y" and "unat (fp_f y) \<le> unat (fp_f x)"
  shows "\<exists>z. diyfp_sub x y = Inr z \<and> unat (fp_f z) = unat (fp_f x) - unat (fp_f y)"
  using assms by (auto simp: diyfp_sub_def word_less_nat_alt word_le_nat_alt unat_sub)


lemma grisu2_digit_gen_between:
  assumes e: "fp_e M_plus = - int s" "fp_e w = - int s" "fp_e M_minus = - int s" and s: "32 \<le> s" "s \<le> 60"
    and le: "unat (fp_f M_minus) \<le> unat (fp_f w)" "unat (fp_f w) \<le> unat (fp_f M_plus)"
    and pos: "0 < unat (fp_f M_minus)" and big: "2 ^ 60 \<le> unat (fp_f M_plus)"
  shows "\<exists>ds x. grisu2_digit_gen k M_minus w M_plus = Inr (ds, k + x)
    \<and> digits_between (unat (fp_f M_minus)) (unat (fp_f M_plus)) s ds x"
proof -
  define lower upper where "lower = unat (fp_f M_minus)" and "upper = unat (fp_f M_plus)"
  have upper: "upper < 2 ^ 64" using unsigned_less [of "fp_f M_plus", where ?'a = nat] by (simp add: upper_def)
  obtain delta' dst' where sub: "diyfp_sub M_plus M_minus = Inr delta'" "diyfp_sub M_plus w = Inr dst'"
    "unat (fp_f delta') = upper - lower" "unat (fp_f dst') = upper - unat (fp_f w)"
    using diyfp_sub_eq [of M_plus M_minus] diyfp_sub_eq [of M_plus w] e le by (auto simp: upper_def lower_def)
  define p1 where "p1 = (ucast (drop_bit s (fp_f M_plus)) :: uint32_t)"
  define p2 where "p2 = fp_f M_plus AND (push_bit s 1 - 1)"
  have p2: "unat p2 = upper mod 2 ^ s" by (simp add: p2_def and_mask_take_bit unat_take_bit upper_def)
  have "upper div 2 ^ s < 2 ^ 32"
  proof -
    have "(2 :: nat) ^ 64 = 2 ^ 32 * 2 ^ 32" by simp
    also have "\<dots> \<le> 2 ^ 32 * 2 ^ s" using s(1) by (intro mult_le_mono2 power_increasing) simp_all
    finally show ?thesis using upper by (intro less_mult_imp_div_less) simp
  qed
  then have p1: "unat p1 = upper div 2 ^ s"
    by (simp add: p1_def unsigned_ucast_eq unat_drop_bit upper_def [symmetric] take_bit_nat_eq_self)
  have "(2 :: nat) ^ s \<le> 2 ^ 60" using s(2) by (intro power_increasing) simp_all
  then have "2 ^ s \<le> upper" using big by (simp add: upper_def)
  then have "0 < unat p1" unfolding p1 by (simp add: div_greater_zero_iff)
  then have nz: "p1 \<noteq> 0" by auto
  obtain pow10 len where pow: "find_largest_pow10 p1 = (pow10, len)" by fastforce
  note ten = find_largest_pow10_bounds [OF nz pow]
  have whole: "unat p1 * 2 ^ s + unat p2 = upper" unfolding p1 p2 by (rule div_mult_mod_eq)
  have first: "10 ^ (len - 1) * 2 ^ s \<le> upper"
    using mult_le_mono1 [OF ten(4), of "2 ^ s"] whole by linarith
  have kept: "lower \<le> upper" "upper - lower < upper" using le pos by (auto simp: lower_def upper_def)
  have gen: "grisu2_digit_gen k M_minus w M_plus =
     (case digit_gen_integral len s (fp_f delta') p2 p1 pow10 [] of
        Inl err \<Rightarrow> Inl err
      | Inr (buf, Some (n, rest, ten_n)) \<Rightarrow>
          (case grisu2_round buf (fp_f dst') (fp_f delta') rest ten_n of
             Inl err \<Rightarrow> Inl err
           | Inr buf1 \<Rightarrow> Inr (buf1, k + int n))
      | Inr (buf, None) \<Rightarrow>
          if p2 \<le> fp_f delta' then Inl (Assertion_failed ''p2 > delta'')
          else
            (case digit_gen_fractional s p2 (fp_f delta') (fp_f dst') 0 buf of
               Inl err \<Rightarrow> Inl err
             | Inr (buf1, m, r, delta1, dist1) \<Rightarrow>
                 (case grisu2_round buf1 dist1 delta1 r (push_bit s 1) of
                    Inl err \<Rightarrow> Inl err
                  | Inr buf2 \<Rightarrow> Inr (buf2, k - int m))))"
  proof -
    have "nat (- fp_e M_plus) = s" "\<not> fp_e M_plus < kAlpha" "\<not> kGamma < fp_e M_plus"
      using s by (simp_all add: e(1) kAlpha_def kGamma_def)
    then show ?thesis
      using nz by (simp only: grisu2_digit_gen_def Let_def sub(1,2) p1_def [symmetric] p2_def [symmetric] pow sum.case
        case_prod_conv if_False)
  qed
  have p2_less: "unat p2 < 2 ^ s" unfolding p2 by simp
  have start: "unat (fp_f delta') < unat p1 * 2 ^ s + unat p2" using sub(3) kept(2) whole by simp
  have pows: "0 < len \<longrightarrow> unat pow10 = 10 ^ (len - 1) \<and> 10 ^ (len - 1) * 2 ^ s < (2 :: nat) ^ 64"
    using ten(3) first upper by auto
  have lead: "lead_digits []" "[] = [] \<longrightarrow> 0 < len \<and> 10 ^ (len - 1) \<le> unat p1" "length [] + len = len"
    using ten(1,4) by (simp_all add: lead_digits_def)
  have dst: "unat (fp_f dst') \<le> unat (fp_f delta')" using sub(3,4) le by (simp add: lower_def)
  have "(dec_value [] * 10 ^ len + unat p1) * 2 ^ s + unat p2 = upper" using whole by simp
  from digit_gen_integral_spec [OF upper p2_less ten(5) pows this start lead]
  consider (integral) ds d n rest ten where
      "digit_gen_integral len s (fp_f delta') p2 p1 pow10 [] = Inr (ds @ [digit_char d], Some (n, rest, ten))"
      "integral_stop upper (upper - lower) s len ds d n (unat rest) (unat ten)"
    | (fractional) ds where "digit_gen_integral len s (fp_f delta') p2 p1 pow10 [] = Inr (ds, None)"
      "lead_digits ds" "ds \<noteq> []" "length ds = len" "dec_value ds * 2 ^ s + unat p2 = upper"
      "unat (fp_f delta') < unat p2"
    unfolding sub(3) by blast
  then show ?thesis
  proof cases
    case integral
    have stop: "unat ten = 10 ^ n * 2 ^ s" "unat rest \<le> upper - lower" "upper - lower < unat rest + d * unat ten"
      "d \<le> 9" "dec_value (ds @ [digit_char d]) * unat ten + unat rest = upper"
      using integral(2) unfolding integral_stop_def by blast+
    obtain d' r where r: "grisu2_round (ds @ [digit_char d]) (fp_f dst') (fp_f delta') rest ten = Inr (ds @ [digit_char d'])"
      "0 < d'" "d' \<le> d" "r + d' * unat ten = unat rest + d * unat ten" "r \<le> unat (fp_f delta')"
      using grisu2_round_digit [OF refl, of "fp_f delta'" rest d ten "fp_f dst'" ds] stop sub(3) dst
      by (auto simp: word_le_nat_alt)
    have "digits_between lower upper s (ds @ [digit_char d']) (int n)"
      using digits_between_integral [OF integral(2) kept(1) first r(2,3) rounded_value [OF stop(5) r(4) stop(4) r(3)]]
        r(5) sub(3) by simp
    then show ?thesis
      unfolding gen lower_def [symmetric] upper_def [symmetric] using integral(1) r(1) by auto
  next
    case fractional
    then have "\<not> p2 \<le> fp_f delta'" by (simp add: word_le_nat_alt)
    have dst1: "fp_f dst' \<le> fp_f delta'" using dst by (simp add: word_le_nat_alt)
    have "dec_value ds * 2 ^ s + unat p2 = upper * 10 ^ 0" using fractional(5) by simp
    from digit_gen_fractional_spec [OF s(2) p2_less fractional(6) dst1 _ _ this fractional(2,3), of "upper - lower" "upper - unat (fp_f w)"]
    obtain fs d m r0 delta1 dst1 where f: "digit_gen_fractional s p2 (fp_f delta') (fp_f dst') 0 ds = Inr (fs @ [digit_char d], m, r0, delta1, dst1)"
      "fractional_stop upper (upper - lower) (upper - unat (fp_f w)) s fs d m (unat r0) (unat delta1) (unat dst1)"
      "length fs + 1 = len + m"
      using sub(3,4) fractional(4) by auto
    have stop: "unat r0 \<le> unat delta1" "unat delta1 < unat r0 + d * 2 ^ s" "d \<le> 9"
      "dec_value (fs @ [digit_char d]) * 2 ^ s + unat r0 = upper * 10 ^ m"
      "unat delta1 = (upper - lower) * 10 ^ m" "unat dst1 = (upper - unat (fp_f w)) * 10 ^ m"
      using f(2) unfolding fractional_stop_def by blast+
    have one: "unat (push_bit s 1 :: 64 word) = 2 ^ s" using unat_push_bit [of "1 :: 64 word" s] \<open>(2 :: nat) ^ s \<le> 2 ^ 60\<close> by simp
    have "unat dst1 \<le> unat delta1" unfolding stop(5,6) using le by (intro mult_le_mono1) (simp add: lower_def)
    then obtain d' r where r: "grisu2_round (fs @ [digit_char d]) dst1 delta1 r0 (push_bit s 1) = Inr (fs @ [digit_char d'])"
      "0 < d'" "d' \<le> d" "r + d' * 2 ^ s = unat r0 + d * 2 ^ s" "r \<le> unat delta1"
      using grisu2_round_digit [OF refl, of delta1 r0 d "push_bit s 1" dst1 fs] stop
      unfolding one by (auto simp: word_le_nat_alt)
    have "digits_between lower upper s (fs @ [digit_char d']) (- int m)"
      using digits_between_fractional [OF f(2) kept(1) first f(3) ten(1) r(2,3) rounded_value [OF stop(4) r(4) stop(3) r(3)] r(5)] .
    then show ?thesis
      unfolding gen lower_def [symmetric] upper_def [symmetric]
      using fractional(1) f(1) r(1) \<open>\<not> p2 \<le> fp_f delta'\<close> by (auto intro!: exI [of _ "- int m"])
  qed
qed

section \<open>Scaling by a cached power\<close>

lemma rounded_product:
  fixes f c :: nat
  shows "\<bar>real ((f * c + 2 ^ 63) div 2 ^ 64) - real f * real c / 2 ^ 64\<bar> \<le> 1 / 2"
proof -
  define q where "q = (f * c + 2 ^ 63) div 2 ^ 64"
  have "q * 2 ^ 64 \<le> f * c + 2 ^ 63" "f * c + 2 ^ 63 < q * 2 ^ 64 + 2 ^ 64"
    using div_mult_mod_eq [of "f * c + 2 ^ 63" "2 ^ 64"] mod_less_divisor [of "2 ^ 64" "f * c + 2 ^ 63"]
    unfolding q_def by (linarith, simp)
  then have "real (q * 2 ^ 64) \<le> real (f * c + 2 ^ 63)" "real (f * c + 2 ^ 63) < real (q * 2 ^ 64 + 2 ^ 64)"
    by (simp_all only: of_nat_le_iff of_nat_less_iff)
  then show ?thesis unfolding q_def [symmetric] by (simp add: abs_le_iff field_simps)
qed

lemma scaled_product:
  fixes f c :: nat and g :: real
  assumes "f < 2 ^ 64" and "\<bar>real c - g\<bar> \<le> 1 / 2"
  shows "\<bar>real ((f * c + 2 ^ 63) div 2 ^ 64) - real f * g / 2 ^ 64\<bar> < 1"
proof -
  have "\<bar>real f * real c / 2 ^ 64 - real f * g / 2 ^ 64\<bar> = real f / 2 ^ 64 * \<bar>real c - g\<bar>"
    by (simp add: abs_mult flip: diff_divide_distrib right_diff_distrib)
  also have "\<dots> \<le> real f / 2 ^ 64 * (1 / 2)" using assms(2) by (intro mult_left_mono) simp_all
  also have "\<dots> < 1 / 2"
    using of_nat_less_iff [of f "2 ^ 64", where ?'a = real] assms(1) by simp
  finally show ?thesis using rounded_product [of f c] by linarith
qed

text \<open>
  The scaled boundaries are ordered, keep their distance, and are close enough that sixteen more
  digits than the leading one tell them apart.
\<close>

lemma scaled_order:
  fixes fm fw fp c :: nat
  defines "sc \<equiv> \<lambda>f. (f * c + 2 ^ 63) div 2 ^ 64"
  assumes c: "2 ^ 63 \<le> c" and fp: "2 ^ 63 \<le> fp"
    and gaps: "fm + 2 ^ 9 \<le> fw" "fw + 2 ^ 10 \<le> fp" and near: "fp \<le> 2 ^ 53 * (fp - fm)"
  shows "sc fm + 1 \<le> sc fw" "sc fw \<le> sc fp - 1" "2 ^ 61 \<le> sc fp"
    "sc fp - 1 \<le> 10 ^ 16 * ((sc fp - 1) - (sc fm + 1))"
proof -
  define R where "R f = real f * real c / 2 ^ 64" for f :: nat
  have near_R: "\<bar>real (sc f) - R f\<bar> \<le> 1 / 2" for f
    unfolding sc_def R_def by (rule rounded_product)
  have c': "2 ^ 63 \<le> real c" using of_nat_mono [OF c, where ?'a = real] by simp
  have gap: "R f + real d / 2 \<le> R f'" if "f + d \<le> f'" for f d f'
  proof -
    have "real d * 2 ^ 63 \<le> real d * real c" using c' by (intro mult_left_mono) simp_all
    moreover have "(real f + real d) * real c \<le> real f' * real c" using that by (intro mult_right_mono) simp_all
    ultimately show ?thesis by (simp add: R_def field_simps)
  qed
  have g1: "R fm + 256 \<le> R fw" using gap [OF gaps(1)] by simp
  have g2: "R fw + 512 \<le> R fp" using gap [OF gaps(2)] by simp
  have pos: "0 \<le> R fm" by (simp add: R_def)
  have "(2 ^ 63 :: real) * 2 ^ 63 \<le> real fp * real c"
    using c' of_nat_mono [OF fp, where ?'a = real] by (intro mult_mono) simp_all
  then have big: "2 ^ 62 \<le> R fp" by (simp add: R_def field_simps)
  have "real fp \<le> 2 ^ 53 * (real fp - real fm)"
    using of_nat_mono [OF near, where ?'a = real] gaps by (simp add: of_nat_diff)
  then have "real fp * real c \<le> 2 ^ 53 * (real fp - real fm) * real c" by (intro mult_right_mono) simp_all
  then have close: "R fp \<le> 2 ^ 53 * (R fp - R fm)" by (simp add: R_def field_simps)
  have "real (sc fm) + 1 \<le> real (sc fw)" using near_R [of fm] near_R [of fw] g1 unfolding abs_le_iff by linarith
  then show o1: "sc fm + 1 \<le> sc fw" by linarith
  have "real (sc fw) + 1 \<le> real (sc fp)" using near_R [of fp] near_R [of fw] g2 unfolding abs_le_iff by linarith
  then show o2: "sc fw \<le> sc fp - 1" by linarith
  have "(2 :: real) ^ 61 \<le> 2 ^ 62 - 1 / 2" by simp
  then have "2 ^ 61 \<le> real (sc fp)" using near_R [of fp] big unfolding abs_le_iff by linarith
  then have "real (2 ^ 61) \<le> real (sc fp)" by simp
  then show "2 ^ 61 \<le> sc fp" by (simp only: of_nat_le_iff)
  have "real (sc fp) - 1 \<le> 10 ^ 16 * ((real (sc fp) - 1) - (real (sc fm) + 1))"
    using near_R [of fp] near_R [of fm] big close unfolding abs_le_iff by simp
  also have "\<dots> = real (10 ^ 16 * ((sc fp - 1) - (sc fm + 1)))" using o1 o2 by (simp add: of_nat_diff)
  finally have "real (sc fp - 1) \<le> real (10 ^ 16 * ((sc fp - 1) - (sc fm + 1)))" using o1 o2 by (simp add: of_nat_diff)
  then show "sc fp - 1 \<le> 10 ^ 16 * ((sc fp - 1) - (sc fm + 1))" by (simp only: of_nat_le_iff)
qed

lemma boundaries_gaps:
  assumes "boundaries_of m e k b" and "0 < m" and "m < 2 ^ 53" and "10 \<le> k"
  shows "unat (fp_f (bd_minus b)) + 2 ^ 9 \<le> unat (fp_f (bd_w b))"
    "unat (fp_f (bd_w b)) + 2 ^ 10 \<le> unat (fp_f (bd_plus b))"
    "unat (fp_f (bd_plus b)) \<le> 2 ^ 53 * (unat (fp_f (bd_plus b)) - unat (fp_f (bd_minus b)))"
proof -
  obtain j where j: "k = Suc j" "9 \<le> j" using assms(4) by (cases k) auto
  have "(2 :: nat) ^ 9 \<le> 2 ^ j" using j(2) by (intro power_increasing) simp_all
  moreover define J where "J = (2 :: nat) ^ j"
  ultimately have J: "512 \<le> J" by simp
  have b: "unat (fp_f (bd_plus b)) = (4 * m + 2) * J" "unat (fp_f (bd_w b)) = 4 * m * J"
    "unat (fp_f (bd_minus b)) = (if m = 2 ^ 52 \<and> e \<noteq> - 1074 then (4 * m - 1) * J else (4 * m - 2) * J)"
    using assms(1) by (simp_all add: boundaries_of_def j(1) J_def algebra_simps)
  have le: "unat (fp_f (bd_minus b)) \<le> (4 * m - 1) * J" unfolding b(3) by (auto intro: mult_le_mono1)
  have "(4 * m - 1) * J + J = 4 * m * J" using assms(2) by (cases m) (simp_all add: algebra_simps)
  then show "unat (fp_f (bd_minus b)) + 2 ^ 9 \<le> unat (fp_f (bd_w b))" using le J unfolding b(2) by simp
  show "unat (fp_f (bd_w b)) + 2 ^ 10 \<le> unat (fp_f (bd_plus b))" using J unfolding b(1,2) by (simp add: algebra_simps)
  show "unat (fp_f (bd_plus b)) \<le> 2 ^ 53 * (unat (fp_f (bd_plus b)) - unat (fp_f (bd_minus b)))"
  proof (cases "m = 2 ^ 52 \<and> e \<noteq> - 1074")
    case True
    then have "unat (fp_f (bd_plus b)) - unat (fp_f (bd_minus b)) = 3 * J" unfolding b by (simp flip: diff_mult_distrib)
    then show ?thesis using True unfolding b by simp
  next
    case False
    then have "unat (fp_f (bd_plus b)) - unat (fp_f (bd_minus b)) = (4 * m + 2 - (4 * m - 2)) * J"
      unfolding b diff_mult_distrib by (simp only: if_False)
    also have "4 * m + 2 - (4 * m - 2) = 4" using assms(2) by simp
    finally have "unat (fp_f (bd_plus b)) - unat (fp_f (bd_minus b)) = 4 * J" .
    moreover have "(4 * m + 2) * J \<le> 2 ^ 55 * J" using assms(3) by (intro mult_le_mono1) simp
    ultimately show ?thesis unfolding b by simp
  qed
qed

section \<open>The shortest digits of a double\<close>

text \<open>The numbers that round to the double \<open>m \<cdot> 2\<^sup>e\<close> lie between these two.\<close>

definition rounds_from :: "nat \<Rightarrow> int \<Rightarrow> real" where
  "rounds_from m e = (if m = 2 ^ 52 \<and> e \<noteq> - 1074 then real m - 1 / 4 else real m - 1 / 2) * 2 powi e"

definition rounds_below :: "nat \<Rightarrow> int \<Rightarrow> real" where
  "rounds_below m e = (real m + 1 / 2) * 2 powi e"

lemma boundaries_real:
  assumes "boundaries_of m e k b" and "0 < m" and "1 \<le> k"
  shows "real (unat (fp_f (bd_minus b))) * 2 powi (e - 1 - int k) = rounds_from m e"
    "real (unat (fp_f (bd_plus b))) * 2 powi (e - 1 - int k) = rounds_below m e"
proof -
  obtain j where j: "k = Suc j" using assms(3) by (cases k) auto
  define J where "J = (2 :: nat) ^ j"
  have p: "2 powi (e - 1 - int k) = (2 powi e :: real) / (4 * real J)"
    by (simp add: j J_def power_int_diff power_int_add)
  have J: "real J \<noteq> 0" by (simp add: J_def)
  have b: "unat (fp_f (bd_plus b)) = (4 * m + 2) * J"
    "unat (fp_f (bd_minus b)) = (if m = 2 ^ 52 \<and> e \<noteq> - 1074 then (4 * m - 1) * J else (4 * m - 2) * J)"
    using assms(1) by (simp_all add: boundaries_of_def j(1) J_def algebra_simps)
  show "real (unat (fp_f (bd_plus b))) * 2 powi (e - 1 - int k) = rounds_below m e"
    using J unfolding b p rounds_below_def by (simp add: field_simps)
  have "real (4 * m - 1) = 4 * real m - 1" "real (4 * m - 2) = 4 * real m - 2" using assms(2) by linarith+
  then show "real (unat (fp_f (bd_minus b))) * 2 powi (e - 1 - int k) = rounds_from m e"
    using J unfolding b p rounds_from_def of_nat_mult by (auto simp: field_simps of_nat_mult simp del: of_nat_diff)
qed

text \<open>Both sides of a comparison in the scaled world carry the factor \<open>10\<^sup>c\<^sup>k \<cdot> 2\<^sup>s\<close>.\<close>

lemma unscale:
  fixes V F :: real
  assumes "- int s = ce + e + 64"
  shows "V * 10 powi x * 2 ^ s = V * 10 powi (x - ck) * (10 powi ck * 2 ^ s)"
    "F * (10 powi ck / 2 powi ce) / 2 ^ 64 = F * 2 powi e * (10 powi ck * 2 ^ s)"
proof -
  show "V * 10 powi x * 2 ^ s = V * 10 powi (x - ck) * (10 powi ck * 2 ^ s)"
    by (simp add: power_int_diff)
  have "e = - ce - 64 - int s" using assms by simp
  moreover have "(2 :: real) powi (- ce - 64 - int s) = 1 / (2 powi ce * 2 ^ 64 * 2 ^ s)"
    by (simp add: power_int_diff power_int_minus power_int_add field_simps)
  ultimately have "(2 :: real) powi e = 1 / (2 powi ce * 2 ^ 64 * 2 ^ s)" by (simp only:)
  then show "F * (10 powi ck / 2 powi ce) / 2 ^ 64 = F * 2 powi e * (10 powi ck * 2 ^ s)" by simp
qed

lemma grisu2_between:
  assumes wf: "0 < m" "m < 2 ^ 53" "- 1074 \<le> e" "e \<le> 971" "m < 2 ^ 52 \<longrightarrow> e = - 1074"
  obtains ds x where "grisu2 m e = Inr (ds, x)" "lead_digits ds" "ds \<noteq> []" "length ds \<le> 17"
    "rounds_from m e < real (dec_value ds) * 10 powi x" "real (dec_value ds) * 10 powi x < rounds_below m e"
proof -
  obtain k b where k: "10 \<le> k" "k \<le> 62" and cb: "compute_boundaries m e = Inr b" and b: "boundaries_of m e k b"
    and norm: "2 ^ 63 \<le> unat (fp_f (bd_plus b))"
    using compute_boundaries_exact [OF wf] .
  define e' where "e' = e - 1 - int k"
  have ex: "fp_e (bd_plus b) = e'" "fp_e (bd_w b) = e'" "fp_e (bd_minus b) = e'"
    using b by (simp_all add: boundaries_of_def e'_def)
  obtain cf ce ck where c: "get_cached_power_for_binary_exponent e' = Inr (cf, ce, ck)" "(cf, ce, ck) \<in> set kCachedPowers"
    "- 60 \<le> ce + e' + 64" "ce + e' + 64 \<le> - 32"
    using cached_power_found [of e'] wf(3,4) k unfolding e'_def by auto
  note acc = cached_power_accurate [OF c(2)]
  define s where "s = nat (- (ce + e' + 64))"
  have s: "- int s = ce + e' + 64" "32 \<le> s" "s \<le> 60" using c(3,4) by (simp_all add: s_def)
  define fm fw fp where "fm = unat (fp_f (bd_minus b))" and "fw = unat (fp_f (bd_w b))" and "fp = unat (fp_f (bd_plus b))"
  define sc where "sc f = (f * unat cf + 2 ^ 63) div 2 ^ 64" for f
  note ord = scaled_order [OF acc(2) norm boundaries_gaps [OF b wf(1,2) k(1)], folded fm_def fw_def fp_def, folded sc_def]
  define C where "C = \<lparr>fp_f = cf, fp_e = ce\<rparr>"
  define wm w wp where "wm = diyfp_mul (bd_minus b) C" and "w = diyfp_mul (bd_w b) C" and "wp = diyfp_mul (bd_plus b) C"
  have mul: "unat (fp_f wm) = sc fm" "unat (fp_f w) = sc fw" "unat (fp_f wp) = sc fp"
    by (simp_all only: wm_def w_def wp_def diyfp_mul_rounded sc_def fm_def fw_def fp_def C_def diyfp.select_convs)
  have me: "fp_e wm = - int s" "fp_e w = - int s" "fp_e wp = - int s"
    unfolding s(1) by (simp_all add: wm_def w_def wp_def diyfp_mul_def Let_def ex C_def)
  have "sc fp < 2 ^ 64" using mul(3) unsigned_less [of "fp_f wp", where ?'a = nat] by simp
  then have up: "unat (fp_f wm + 1) = sc fm + 1" using ord(1,2) mul(1) by (simp add: unat_word_ariths)
  have "fp_f wp \<noteq> 0" using mul(3) ord(3) by auto
  then have down: "unat (fp_f wp - 1) = sc fp - 1" using mul(3) by (simp add: unat_minus_one)
  have big: "2 ^ 60 \<le> sc fp - 1" using ord(3) by simp
  obtain ds x where gen: "grisu2_digit_gen (- ck) \<lparr>fp_f = fp_f wm + 1, fp_e = fp_e wm\<rparr> w \<lparr>fp_f = fp_f wp - 1, fp_e = fp_e wp\<rparr>
      = Inr (ds, - ck + x)" and between: "digits_between (sc fm + 1) (sc fp - 1) s ds x"
    using grisu2_digit_gen_between [of "\<lparr>fp_f = fp_f wp - 1, fp_e = fp_e wp\<rparr>" s w
        "\<lparr>fp_f = fp_f wm + 1, fp_e = fp_e wm\<rparr>" "- ck"] me s(2,3) ord(1,2) big mul(2) up down by auto
  have g: "grisu2 m e = Inr (ds, x - ck)"
    using gen by (simp add: grisu2_def cb grisu2_boundaries_def ex c(1) Let_def C_def [symmetric] wm_def w_def wp_def)
  have len: "length ds \<le> 17"
  proof -
    have "10 ^ (length ds - 1) * ((sc fp - 1) - (sc fm + 1)) < 10 * (sc fp - 1)" using between by (simp add: digits_between_def)
    also have "\<dots> \<le> 10 ^ 17 * ((sc fp - 1) - (sc fm + 1))" using ord(4) by simp
    finally have "(10 :: nat) ^ (length ds - 1) < 10 ^ 17" by simp
    then have "length ds - 1 < 17" by (simp only: power_strict_increasing_iff)
    then show ?thesis by simp
  qed
  have lt: "fm < 2 ^ 64" "fp < 2 ^ 64"
    using unsigned_less [of "fp_f (bd_minus b)", where ?'a = nat] unsigned_less [of "fp_f (bd_plus b)", where ?'a = nat]
    by (simp_all add: fm_def fp_def)
  note err = scaled_product [OF lt(1) acc(1), folded sc_def] scaled_product [OF lt(2) acc(1), folded sc_def]
  have "1 \<le> k" using k(1) by simp
  note real_bd = boundaries_real [OF b wf(1) this, folded e'_def fm_def fp_def]
  define V where "V = real (dec_value ds)"
  have pos: "0 < (10 :: real) powi ck * 2 ^ s" by simp
  have "real (sc fm + 1) \<le> V * 10 powi x * 2 ^ s" "V * 10 powi x * 2 ^ s \<le> real (sc fp - 1)"
    using between by (simp_all only: digits_between_def V_def)
  then have "real fm * (10 powi ck / 2 powi ce) / 2 ^ 64 < V * 10 powi x * 2 ^ s"
    "V * 10 powi x * 2 ^ s < real fp * (10 powi ck / 2 powi ce) / 2 ^ 64"
    using err ord(1,2) by (simp_all add: abs_less_iff of_nat_diff)
  then have "real fm * 2 powi e' < V * 10 powi (x - ck)" "V * 10 powi (x - ck) < real fp * 2 powi e'"
    unfolding unscale [OF s(1), where ck = ck] using mult_less_cancel_right_pos [OF pos] by simp_all
  then show ?thesis
    using that [OF g _ _ len] between unfolding real_bd V_def digits_between_def by auto
qed

section \<open>The properties\<close>

lemma diyfp_mul_exact_parts:
  "unat (fp_f (diyfp_mul x y)) = (unat (fp_f x) * unat (fp_f y) + 2 ^ 63) div 2 ^ 64"
  "fp_e (diyfp_mul x y) = fp_e x + fp_e y + 64"
  by (rule diyfp_mul_rounded) (simp add: diyfp_mul_def Let_def)

text \<open>
  The product of two significands, computed on 32-bit halves, is the upper half of the exact
  128-bit product, rounded to nearest; no intermediate sum wraps.
\<close>

theorem diyfp_mul_exact:
  "unat (fp_f (diyfp_mul x y)) = (unat (fp_f x) * unat (fp_f y) + 2 ^ 63) div 2 ^ 64
    \<and> fp_e (diyfp_mul x y) = fp_e x + fp_e y + 64"
  using diyfp_mul_exact_parts by blast

text \<open>
  C15: For every positive finite double, subnormal numbers and the ends of the range included,
  Grisu2 ends without failing one of its assertions and returns at most seventeen digits, without a
  leading zero, whose value lies strictly between the boundaries within which numbers round to the
  double.
\<close>

theorem grisu2_digits:
  assumes "double_wf (Double_fin s m e)" and "0 < m"
  shows "\<exists>ds x. grisu2 m e = Inr (ds, x) \<and> ds \<noteq> [] \<and> length ds \<le> 17 \<and> (\<forall>c \<in> set ds. is_digit c) \<and> hd ds \<noteq> CHR ''0''
    \<and> rounds_from m e < real (dec_value ds) * 10 powi x \<and> real (dec_value ds) * 10 powi x < rounds_below m e"
proof -
  obtain ds x where "grisu2 m e = Inr (ds, x)" "lead_digits ds" "ds \<noteq> []" "length ds \<le> 17"
    "rounds_from m e < real (dec_value ds) * 10 powi x" "real (dec_value ds) * 10 powi x < rounds_below m e"
    using grisu2_between [of m e] assms by auto
  then show ?thesis by (auto simp: lead_digits_def)
qed

lemma grisu2_digits_witness:
  "\<exists>ds x. grisu2 1 (- 1074) = Inr (ds, x) \<and> ds \<noteq> [] \<and> length ds \<le> 17 \<and> (\<forall>c \<in> set ds. is_digit c) \<and> hd ds \<noteq> CHR ''0''
    \<and> rounds_from 1 (- 1074) < real (dec_value ds) * 10 powi x \<and> real (dec_value ds) * 10 powi x < rounds_below 1 (- 1074)"
  by (rule grisu2_digits [of False]) simp_all

end
