(* ===== verification/Json_Escape.thy ===== *)
theory Json_Escape
  imports Json_Value Json_Lexer
begin

text \<open>
  Escaping of strings in the serializer of \<^verbatim>\<open>include/nlohmann/json.hpp\<close>
  (\<^verbatim>\<open>serializer::dump_escaped\<close>): the UTF-8 decoder driven by a table (\<^verbatim>\<open>decode\<close>), the
  escapes, the 512 byte buffer that is written out when fewer than 13 bytes are free, and the
  three ways to treat invalid input. The first part of \<^verbatim>\<open>string_buffer\<close>, as far as it is
  written, is \<open>es_buffer\<close>; the counters of the code are the lengths of its prefixes. A write
  behind the end of the buffer is a branch.
\<close>

unbundle bit_operations_syntax

type_synonym code_point = "32 word"

datatype error_handler_t = Strict | Replace | Ignore

section \<open>The UTF-8 decoder\<close>

definition utf8d :: "nat list" where
  "utf8d =
     [0, 0, 0, 0, 0, 0, 0, 0, 0, 0, 0, 0, 0, 0, 0, 0, 0, 0, 0, 0, 0, 0, 0, 0, 0, 0, 0, 0, 0, 0, 0, 0,
      0, 0, 0, 0, 0, 0, 0, 0, 0, 0, 0, 0, 0, 0, 0, 0, 0, 0, 0, 0, 0, 0, 0, 0, 0, 0, 0, 0, 0, 0, 0, 0,
      0, 0, 0, 0, 0, 0, 0, 0, 0, 0, 0, 0, 0, 0, 0, 0, 0, 0, 0, 0, 0, 0, 0, 0, 0, 0, 0, 0, 0, 0, 0, 0,
      0, 0, 0, 0, 0, 0, 0, 0, 0, 0, 0, 0, 0, 0, 0, 0, 0, 0, 0, 0, 0, 0, 0, 0, 0, 0, 0, 0, 0, 0, 0, 0,
      1, 1, 1, 1, 1, 1, 1, 1, 1, 1, 1, 1, 1, 1, 1, 1, 9, 9, 9, 9, 9, 9, 9, 9, 9, 9, 9, 9, 9, 9, 9, 9,
      7, 7, 7, 7, 7, 7, 7, 7, 7, 7, 7, 7, 7, 7, 7, 7, 7, 7, 7, 7, 7, 7, 7, 7, 7, 7, 7, 7, 7, 7, 7, 7,
      8, 8, 2, 2, 2, 2, 2, 2, 2, 2, 2, 2, 2, 2, 2, 2, 2, 2, 2, 2, 2, 2, 2, 2, 2, 2, 2, 2, 2, 2, 2, 2,
      10, 3, 3, 3, 3, 3, 3, 3, 3, 3, 3, 3, 3, 4, 3, 3,
      11, 6, 6, 6, 5, 8, 8, 8, 8, 8, 8, 8, 8, 8, 8, 8,
      0, 1, 2, 3, 5, 8, 7, 1, 1, 1, 4, 6, 1, 1, 1, 1,
      1, 1, 1, 1, 1, 1, 1, 1, 1, 1, 1, 1, 1, 1, 1, 1, 1, 0, 1, 1, 1, 1, 1, 0, 1, 0, 1, 1, 1, 1, 1, 1,
      1, 2, 1, 1, 1, 1, 1, 2, 1, 2, 1, 1, 1, 1, 1, 1, 1, 1, 1, 1, 1, 1, 1, 2, 1, 1, 1, 1, 1, 1, 1, 1,
      1, 2, 1, 1, 1, 1, 1, 1, 1, 2, 1, 1, 1, 1, 1, 1, 1, 1, 1, 1, 1, 1, 1, 3, 1, 3, 1, 1, 1, 1, 1, 1,
      1, 3, 1, 1, 1, 1, 1, 3, 1, 3, 1, 1, 1, 1, 1, 1, 1, 3, 1, 1, 1, 1, 1, 1, 1, 1, 1, 1, 1, 1, 1, 1]"

text \<open>The new state and code point; states 0 and 1 are \<^verbatim>\<open>UTF8_ACCEPT\<close> and \<^verbatim>\<open>UTF8_REJECT\<close>.\<close>

definition utf8_decode :: "nat \<Rightarrow> code_point \<Rightarrow> nat \<Rightarrow> (nat \<times> code_point) outcome" where
  "utf8_decode state codep byte =
     (if length utf8d \<le> byte then Inl (Assertion_failed ''byte < utf8d.size()'')
      else
        let type = utf8d ! byte;
            codep1 = (if state \<noteq> 0 then (of_nat byte AND 0x3F) OR push_bit 6 codep
                      else drop_bit type 0xFF AND of_nat byte);
            index = 256 + state * 16 + type
        in if length utf8d \<le> index then Inl (Assertion_failed ''index < utf8d.size()'')
           else Inr (utf8d ! index, codep1))"

section \<open>The buffer\<close>

record escape =
  es_out :: string
  es_buffer :: string
  es_accepted :: nat
  es_undumped :: nat
  es_state :: nat
  es_codepoint :: code_point

text \<open>Write \<open>cs\<close> at \<^verbatim>\<open>bytes\<close>, touching \<open>room\<close> bytes of the buffer.\<close>

definition es_write :: "nat \<Rightarrow> string \<Rightarrow> escape \<Rightarrow> escape outcome" where
  "es_write room cs es =
     (if 512 < length (es_buffer es) + room then Inl (Undefined_behaviour ''write past string_buffer'')
      else Inr (es\<lparr>es_buffer := es_buffer es @ cs\<rparr>))"

definition es_flush :: "escape \<Rightarrow> escape" where
  "es_flush es =
     (if 512 - length (es_buffer es) < 13
      then es\<lparr>es_out := es_out es @ es_buffer es, es_buffer := []\<rparr> else es)"

section \<open>Escapes\<close>

definition hex_lower :: "nat \<Rightarrow> char" where
  "hex_lower d = (if d < 10 then char_of (48 + d) else char_of (87 + d))"

text \<open>The \<^verbatim>\<open>snprintf\<close> of a backslash, the letter u and \<^verbatim>\<open>%04x\<close> of a 16-bit number.\<close>

definition unicode_escape :: "code_point \<Rightarrow> string" where
  "unicode_escape c =
     (let n = unat (take_bit 16 c)
      in [bslash, CHR ''u'', hex_lower (n div 4096), hex_lower (n div 256 mod 16),
          hex_lower (n div 16 mod 16), hex_lower (n mod 16)])"

definition hex_bytes :: "nat \<Rightarrow> string" where
  "hex_bytes byte = [hex_char (byte div 16), hex_char (byte mod 16)]"

text \<open>A code point has been decoded, \<open>c\<close> is its last byte.\<close>

definition es_code_point :: "bool \<Rightarrow> char \<Rightarrow> escape \<Rightarrow> escape outcome" where
  "es_code_point ensure_ascii c es =
     (let cp = es_codepoint es
      in if cp = 0x08 then es_write 2 [bslash, CHR ''b''] es
         else if cp = 0x09 then es_write 2 [bslash, CHR ''t''] es
         else if cp = 0x0A then es_write 2 [bslash, CHR ''n''] es
         else if cp = 0x0C then es_write 2 [bslash, CHR ''f''] es
         else if cp = 0x0D then es_write 2 [bslash, CHR ''r''] es
         else if cp = 0x22 then es_write 2 [bslash, CHR 0x22] es
         else if cp = 0x5C then es_write 2 [bslash, bslash] es
         else if cp \<le> 0x1F \<or> ensure_ascii \<and> 0x7F \<le> cp
         then if cp \<le> 0xFFFF then es_write 7 (unicode_escape cp) es
              else es_write 13 (unicode_escape (0xD7C0 + drop_bit 10 cp)
                                @ unicode_escape (0xDC00 + (cp AND 0x3FF))) es
         else es_write 1 [c] es)"

definition es_accept :: "bool \<Rightarrow> char \<Rightarrow> escape \<Rightarrow> escape outcome" where
  "es_accept ensure_ascii c es =
     (case es_code_point ensure_ascii c es of
        Inl e \<Rightarrow> Inl e
      | Inr es1 \<Rightarrow>
          (let es2 = es_flush es1
           in Inr (es2\<lparr>es_accepted := length (es_buffer es2), es_undumped := 0\<rparr>)))"

definition replacement :: "bool \<Rightarrow> string" where
  "replacement ensure_ascii =
     (if ensure_ascii then bslash # ''ufffd'' else [CHR 0xEF, CHR 0xBF, CHR 0xBD])"

text \<open>
  An invalid byte at index \<open>i\<close>: the flag of the result tells whether the byte is read again
  (\<^verbatim>\<open>--i\<close>).
\<close>

definition es_reject ::
  "error_handler_t \<Rightarrow> bool \<Rightarrow> nat \<Rightarrow> char \<Rightarrow> escape \<Rightarrow> (bool \<times> escape) outcome" where
  "es_reject error_handler ensure_ascii i c es =
     (if error_handler = Strict
      then Inl (type_error 316 (''invalid UTF-8 byte at index '' @ to_string i @ '': 0x''
                                  @ hex_bytes (char_nat c)))
      else
        let again = (0 < es_undumped es);
            es1 = es\<lparr>es_buffer := take (es_accepted es) (es_buffer es)\<rparr>
        in case (if error_handler = Replace
                 then (let cs = replacement ensure_ascii
                       in case es_write (length cs) cs es1 of
                            Inl e \<Rightarrow> Inl e
                          | Inr es2 \<Rightarrow>
                              (let es3 = es_flush es2
                               in Inr (es3\<lparr>es_accepted := length (es_buffer es3)\<rparr>)))
                 else Inr es1) of
             Inl e \<Rightarrow> Inl e
           | Inr es4 \<Rightarrow> Inr (again, es4\<lparr>es_undumped := 0, es_state := 0\<rparr>))"

text \<open>One turn of the loop, on the byte \<open>c\<close> at index \<open>i\<close>.\<close>

definition es_step ::
  "error_handler_t \<Rightarrow> bool \<Rightarrow> nat \<Rightarrow> char \<Rightarrow> escape \<Rightarrow> (bool \<times> escape) outcome" where
  "es_step error_handler ensure_ascii i c es =
     (case utf8_decode (es_state es) (es_codepoint es) (char_nat c) of
        Inl e \<Rightarrow> Inl e
      | Inr (state, codepoint) \<Rightarrow>
          (let es1 = es\<lparr>es_state := state, es_codepoint := codepoint\<rparr>
           in if state = 0
              then (case es_accept ensure_ascii c es1 of Inl e \<Rightarrow> Inl e | Inr es2 \<Rightarrow> Inr (False, es2))
              else if state = 1 then es_reject error_handler ensure_ascii i c es1
              else
                case (if ensure_ascii then Inr es1 else es_write 1 [c] es1) of
                  Inl e \<Rightarrow> Inl e
                | Inr es2 \<Rightarrow> Inr (False, es2\<lparr>es_undumped := es_undumped es2 + 1\<rparr>)))"

text \<open>
  The loop over the bytes from index \<open>i\<close>. A byte is read again at most once: the first reading
  has reset the number of pending bytes.
\<close>

lemma es_step_again:
  "es_step h a i c es = Inr (True, es') \<Longrightarrow> 0 < es_undumped es \<and> es_undumped es' = 0"
  by (auto simp: es_step_def es_reject_def Let_def split: sum.splits if_splits prod.splits)

function es_loop ::
  "error_handler_t \<Rightarrow> bool \<Rightarrow> nat \<Rightarrow> string \<Rightarrow> escape \<Rightarrow> escape outcome" where
  "es_loop error_handler ensure_ascii i [] es = Inr es"
| "es_loop error_handler ensure_ascii i (c # cs) es =
     (case es_step error_handler ensure_ascii i c es of
        Inl e \<Rightarrow> Inl e
      | Inr (True, es1) \<Rightarrow> es_loop error_handler ensure_ascii i (c # cs) es1
      | Inr (False, es1) \<Rightarrow> es_loop error_handler ensure_ascii (i + 1) cs es1)"
  by pat_completeness auto
termination
  by (relation "measures [\<lambda>(_, _, _, cs, _). length cs, \<lambda>(_, _, _, _, es). es_undumped es]")
    (auto dest: es_step_again)

declare es_loop.simps(2) [simp del]

text \<open>The end of \<^verbatim>\<open>dump_escaped\<close>: what is still written.\<close>

definition es_finish :: "error_handler_t \<Rightarrow> bool \<Rightarrow> string \<Rightarrow> escape \<Rightarrow> string outcome" where
  "es_finish error_handler ensure_ascii s es =
     (if es_state es = 0 then Inr (es_out es @ es_buffer es)
      else case error_handler of
             Strict \<Rightarrow> Inl (type_error 316
               (''incomplete UTF-8 string; last byte: 0x'' @ hex_bytes (char_nat (last s))))
           | Ignore \<Rightarrow> Inr (es_out es @ take (es_accepted es) (es_buffer es))
           | Replace \<Rightarrow> Inr (es_out es @ take (es_accepted es) (es_buffer es) @ replacement ensure_ascii))"

definition new_escape :: "string \<Rightarrow> escape" where
  "new_escape out =
     \<lparr>es_out = out, es_buffer = [], es_accepted = 0, es_undumped = 0, es_state = 0, es_codepoint = 0\<rparr>"

text \<open>\<^verbatim>\<open>dump_escaped\<close> appends to the output \<open>out\<close>.\<close>

definition dump_escaped :: "error_handler_t \<Rightarrow> bool \<Rightarrow> string \<Rightarrow> string \<Rightarrow> string outcome" where
  "dump_escaped error_handler ensure_ascii s out =
     (case es_loop error_handler ensure_ascii 0 s (new_escape out) of
        Inl e \<Rightarrow> Inl e
      | Inr es \<Rightarrow> es_finish error_handler ensure_ascii s es)"

end
