(* ===== verification/Json_Serializer.thy ===== *)
theory Json_Serializer
  imports Json_Escape Json_Float
begin

text \<open>
  The serializer of \<^verbatim>\<open>include/nlohmann/json.hpp\<close> (\<^verbatim>\<open>class serializer\<close>) writing to a string, and
  \<^verbatim>\<open>basic_json::dump\<close>. The serializer object is the record \<open>serializer\<close>, its output adapter the
  string \<open>sz_out\<close>; a member function is an action on the record, and a sequence of calls is run by
  \<open>run_actions\<close>, which stops at an exception. A read behind the end of the indentation string and
  a write in front of the number buffer are branches.
\<close>

section \<open>The serializer object\<close>

record serializer =
  sz_out :: string
  sz_number_buffer :: string
  sz_indent_char :: char
  sz_indent_string :: string
  sz_error_handler :: error_handler_t

type_synonym action = "serializer \<Rightarrow> serializer outcome"

definition new_serializer :: "char \<Rightarrow> error_handler_t \<Rightarrow> serializer" where
  "new_serializer ichar error_handler =
     \<lparr>sz_out = [], sz_number_buffer = replicate 64 (CHR 0x00), sz_indent_char = ichar,
      sz_indent_string = replicate 512 ichar, sz_error_handler = error_handler\<rparr>"

definition write_characters :: "string \<Rightarrow> action" where
  "write_characters cs sz = Inr (sz\<lparr>sz_out := sz_out sz @ cs\<rparr>)"

text \<open>
  \<^verbatim>\<open>write_characters(indent_string.c_str(), n)\<close>: one character more than the string holds is its
  terminating null character, more than that are outside of it.
\<close>

definition write_indent :: "nat \<Rightarrow> action" where
  "write_indent n sz =
     (if n \<le> length (sz_indent_string sz) then write_characters (take n (sz_indent_string sz)) sz
      else if n = length (sz_indent_string sz) + 1
      then write_characters (sz_indent_string sz @ [CHR 0x00]) sz
      else Inl (Undefined_behaviour ''read past indent_string''))"

definition grow_indent :: "nat \<Rightarrow> action" where
  "grow_indent new_indent sz =
     Inr (if length (sz_indent_string sz) < new_indent
          then sz\<lparr>sz_indent_string :=
                 sz_indent_string sz @ replicate (length (sz_indent_string sz)) (CHR '' '')\<rparr>
          else sz)"

definition write_escaped :: "bool \<Rightarrow> string \<Rightarrow> action" where
  "write_escaped ensure_ascii s sz =
     (case dump_escaped (sz_error_handler sz) ensure_ascii s (sz_out sz) of
        Inl e \<Rightarrow> Inl e
      | Inr out \<Rightarrow> Inr (sz\<lparr>sz_out := out\<rparr>))"

section \<open>Integers\<close>

lemma unat_div_less: "0 < unat x \<Longrightarrow> 1 < unat d \<Longrightarrow> unat (x div d) < unat (x :: 'a::len word)"
  by (simp add: unat_div_distrib)

function count_digits_loop :: "uint64_t \<Rightarrow> nat \<Rightarrow> nat" where
  "count_digits_loop x n_digits =
     (if x < 10 then n_digits
      else if x < 100 then n_digits + 1
      else if x < 1000 then n_digits + 2
      else if x < 10000 then n_digits + 3
      else count_digits_loop (x div 10000) (n_digits + 4))"
  by pat_completeness auto
termination
  by (relation "measure (\<lambda>(x, n). unat x)") (auto simp: word_less_nat_alt intro!: unat_div_less)

declare count_digits_loop.simps [simp del]

definition count_digits :: "uint64_t \<Rightarrow> nat" where
  "count_digits x = count_digits_loop x 1"

definition digits_to_99 :: "string list" where
  "digits_to_99 = map (\<lambda>i. [digit_char (i div 10), digit_char (i mod 10)]) [0..<100]"

text \<open>\<^verbatim>\<open>*(--buffer_ptr) = c\<close> for the characters of \<open>cs\<close>, the last one first.\<close>

definition put_back :: "string \<Rightarrow> nat \<times> string \<Rightarrow> (nat \<times> string) outcome" where
  "put_back cs pb =
     (let (ptr, buf) = pb
      in if ptr < length cs \<or> length buf < ptr
         then Inl (Undefined_behaviour ''write outside of number_buffer'')
         else Inr (ptr - length cs, take (ptr - length cs) buf @ cs @ drop ptr buf))"

function write_digits :: "uint64_t \<Rightarrow> nat \<times> string \<Rightarrow> (nat \<times> string) outcome" where
  "write_digits abs_value pb =
     (if 100 \<le> abs_value
      then (case put_back (digits_to_99 ! unat (abs_value mod 100)) pb of
              Inl e \<Rightarrow> Inl e
            | Inr pb1 \<Rightarrow> write_digits (abs_value div 100) pb1)
      else if 10 \<le> abs_value then put_back (digits_to_99 ! unat abs_value) pb
      else put_back [digit_char (unat abs_value)] pb)"
  by pat_completeness auto
termination
  by (relation "measure (\<lambda>(x, pb). unat x)") (auto simp: word_le_nat_alt intro!: unat_div_less)

declare write_digits.simps [simp del]

text \<open>\<^verbatim>\<open>remove_sign\<close> of a negative 64-bit integer: the plus and minus one avoid an overflow.\<close>

definition remove_sign :: "int64_t \<Rightarrow> uint64_t" where
  "remove_sign x = - (x + 1) + 1"

text \<open>
  The common part of \<^verbatim>\<open>dump_integer\<close> for signed and unsigned types: \<open>negative\<close> is
  \<^verbatim>\<open>is_negative_number(x)\<close>, which is constantly false for unsigned ones.
\<close>

definition dump_word :: "bool \<Rightarrow> uint64_t \<Rightarrow> action" where
  "dump_word negative x sz =
     (if x = 0 then write_characters ''0'' sz
      else
        let abs_value = (if negative then remove_sign x else x);
            n_chars = (if negative then 1 else 0) + count_digits abs_value;
            buffer = (if negative then (sz_number_buffer sz)[0 := CHR ''-''] else sz_number_buffer sz)
        in if \<not> n_chars < 63 then Inl (Assertion_failed ''n_chars < number_buffer.size() - 1'')
           else
             case write_digits abs_value (n_chars, buffer) of
               Inl e \<Rightarrow> Inl e
             | Inr (ptr, buffer1) \<Rightarrow>
                 write_characters (take n_chars buffer1) (sz\<lparr>sz_number_buffer := buffer1\<rparr>))"

definition dump_integer :: "int64_t \<Rightarrow> action" where
  "dump_integer x = dump_word (x <s 0) x"

definition dump_unsigned :: "uint64_t \<Rightarrow> action" where
  "dump_unsigned x = dump_word False x"

section \<open>Doubles\<close>

text \<open>\<^verbatim>\<open>dump_float\<close> for IEEE double precision.\<close>

definition dump_float :: "double \<Rightarrow> action" where
  "dump_float x sz =
     (if \<not> double_finite x then write_characters ''null'' sz
      else
        case to_chars 64 x of
          Inl e \<Rightarrow> Inl e
        | Inr cs \<Rightarrow>
            write_characters cs
              (sz\<lparr>sz_number_buffer := cs @ drop (length cs) (sz_number_buffer sz)\<rparr>))"

section \<open>Values\<close>

text \<open>The bytes of a binary value, separated.\<close>

fun dump_bytes :: "string \<Rightarrow> string \<Rightarrow> action" where
  "dump_bytes sep [] = Inr"
| "dump_bytes sep [c] = dump_unsigned (of_nat (char_nat c))"
| "dump_bytes sep (c # cs) =
     run_actions [dump_unsigned (of_nat (char_nat c)), write_characters sep, dump_bytes sep cs]"

text \<open>\<^verbatim>\<open>unsigned int\<close> addition.\<close>

definition add_indent :: "nat \<Rightarrow> nat \<Rightarrow> nat" where
  "add_indent current_indent indent_step = (current_indent + indent_step) mod 2 ^ 32"

definition dump_binary :: "bool \<Rightarrow> nat \<Rightarrow> nat \<Rightarrow> string \<Rightarrow> nat option \<Rightarrow> action" where
  "dump_binary pretty_print indent_step current_indent bytes subtype =
     (if pretty_print
      then (let new_indent = add_indent current_indent indent_step
            in run_actions
                 [write_characters (''{'' @ [newline]),
                  grow_indent new_indent,
                  write_indent new_indent,
                  write_characters ([CHR 0x22] @ ''bytes'' @ [CHR 0x22] @ '': [''),
                  dump_bytes '', '' bytes,
                  write_characters (''],'' @ [newline]),
                  write_indent new_indent,
                  write_characters ([CHR 0x22] @ ''subtype'' @ [CHR 0x22] @ '': ''),
                  (case subtype of None \<Rightarrow> write_characters ''null''
                                 | Some t \<Rightarrow> dump_unsigned (of_nat t)),
                  write_characters [newline],
                  write_indent current_indent,
                  write_characters ''}''])
      else run_actions
             [write_characters (''{'' @ [CHR 0x22] @ ''bytes'' @ [CHR 0x22] @ '':[''),
              dump_bytes '','' bytes,
              write_characters (''],'' @ [CHR 0x22] @ ''subtype'' @ [CHR 0x22] @ '':''),
              (case subtype of None \<Rightarrow> write_characters ''null}''
                 | Some t \<Rightarrow> run_actions [dump_unsigned (of_nat t), write_characters ''}''])])"

text \<open>
  \<^verbatim>\<open>serializer::dump\<close>, with the loops over the elements of an array and the members of an
  object; \<open>indent\<close> is there the indentation of the elements.
\<close>

function sz_dump :: "bool \<Rightarrow> bool \<Rightarrow> nat \<Rightarrow> nat \<Rightarrow> json \<Rightarrow> action"
  and sz_elements :: "bool \<Rightarrow> bool \<Rightarrow> nat \<Rightarrow> nat \<Rightarrow> json list \<Rightarrow> action"
  and sz_members :: "bool \<Rightarrow> bool \<Rightarrow> nat \<Rightarrow> nat \<Rightarrow> (string \<times> json) list \<Rightarrow> action" where
  "sz_dump pretty ascii step cur (JObject kvs) =
     (if kvs = [] then write_characters ''{}''
      else if pretty
      then run_actions
             [write_characters (''{'' @ [newline]),
              grow_indent (add_indent cur step),
              sz_members pretty ascii step (add_indent cur step) kvs,
              write_characters [newline],
              write_indent cur,
              write_characters ''}'']
      else run_actions
             [write_characters ''{'',
              sz_members pretty ascii step cur kvs,
              write_characters ''}''])"
| "sz_dump pretty ascii step cur (JArray xs) =
     (if xs = [] then write_characters ''[]''
      else if pretty
      then run_actions
             [write_characters (''['' @ [newline]),
              grow_indent (add_indent cur step),
              sz_elements pretty ascii step (add_indent cur step) xs,
              write_characters [newline],
              write_indent cur,
              write_characters '']'']
      else run_actions
             [write_characters ''['',
              sz_elements pretty ascii step cur xs,
              write_characters '']''])"
| "sz_dump pretty ascii step cur (JString s) =
     run_actions [write_characters [CHR 0x22], write_escaped ascii s, write_characters [CHR 0x22]]"
| "sz_dump pretty ascii step cur (JBinary bytes subtype) = dump_binary pretty step cur bytes subtype"
| "sz_dump pretty ascii step cur (JBoolean b) = write_characters (if b then ''true'' else ''false'')"
| "sz_dump pretty ascii step cur (JInteger i) = dump_integer i"
| "sz_dump pretty ascii step cur (JUnsigned u) = dump_unsigned u"
| "sz_dump pretty ascii step cur (JFloat d) = dump_float d"
| "sz_dump pretty ascii step cur JDiscarded = write_characters ''<discarded>''"
| "sz_dump pretty ascii step cur JNull = write_characters ''null''"
| "sz_elements pretty ascii step indent [] = Inr"
| "sz_elements pretty ascii step indent (x # xs) =
     run_actions
       ((if pretty then [write_indent indent] else [])
        @ [sz_dump pretty ascii step indent x]
        @ (if xs = [] then []
           else [write_characters (if pretty then '','' @ [newline] else '',''),
                 sz_elements pretty ascii step indent xs]))"
| "sz_members pretty ascii step indent [] = Inr"
| "sz_members pretty ascii step indent ((k, v) # kvs) =
     run_actions
       ((if pretty then [write_indent indent] else [])
        @ [write_characters [CHR 0x22],
           write_escaped ascii k,
           write_characters (if pretty then [CHR 0x22] @ '': '' else [CHR 0x22] @ '':''),
           sz_dump pretty ascii step indent v]
        @ (if kvs = [] then []
           else [write_characters (if pretty then '','' @ [newline] else '',''),
                 sz_members pretty ascii step indent kvs]))"
  by pat_completeness auto
termination
  by (relation "measure (\<lambda>a. case a of
        Inl (_, _, _, _, j) \<Rightarrow> 2 * size j
      | Inr (Inl (_, _, _, _, xs)) \<Rightarrow> 2 * size_list size xs + 1
      | Inr (Inr (_, _, _, _, kvs)) \<Rightarrow> 2 * size_list (size_prod (\<lambda>_. 0) size) kvs + 1)") auto

text \<open>\<^verbatim>\<open>basic_json::dump\<close>, whose \<^verbatim>\<open>int indent\<close> is negative for the compact form.\<close>

definition json_dump :: "int \<Rightarrow> char \<Rightarrow> bool \<Rightarrow> error_handler_t \<Rightarrow> json \<Rightarrow> string outcome" where
  "json_dump indent indent_char ensure_ascii error_handler j =
     (let s = new_serializer indent_char error_handler
      in case (if 0 \<le> indent then sz_dump True ensure_ascii (nat indent) 0 j s
               else sz_dump False ensure_ascii 0 0 j s) of
           Inl e \<Rightarrow> Inl e
         | Inr s1 \<Rightarrow> Inr (sz_out s1))"

end
