(* ===== verification/Json_Utf8.thy ===== *)
theory Json_Utf8
  imports Json_Escape
begin

text \<open>
  Correctness of the string escaping of \<^verbatim>\<open>include/nlohmann/json.hpp\<close>: the table of the decoder
  accepts exactly the byte sequences the lexer accepts in a string (\<open>utf8_valid\<close>, stated with the
  lexer's own byte ranges), the 512 byte buffer never overflows, and in strict mode without
  \<^verbatim>\<open>ensure_ascii\<close> the text written is the bytewise escape \<open>escape_text\<close>.
\<close>

unbundle bit_operations_syntax

section \<open>The table of the decoder\<close>

definition byte_type :: "nat \<Rightarrow> nat" where
  "byte_type n =
     (if n < 0x80 then 0 else if n < 0x90 then 1 else if n < 0xA0 then 9 else if n < 0xC0 then 7
      else if n < 0xC2 then 8 else if n < 0xE0 then 2 else if n = 0xE0 then 10
      else if n < 0xED then 3 else if n = 0xED then 4 else if n < 0xF0 then 3
      else if n = 0xF0 then 11 else if n < 0xF4 then 6 else if n = 0xF4 then 5 else 8)"

text \<open>The rows of the second half of the table, one per state.\<close>

definition transitions :: "nat list list" where
  "transitions =
     [[0, 1, 2, 3, 5, 8, 7, 1, 1, 1, 4, 6, 1, 1, 1, 1],
      [1, 1, 1, 1, 1, 1, 1, 1, 1, 1, 1, 1, 1, 1, 1, 1],
      [1, 0, 1, 1, 1, 1, 1, 0, 1, 0, 1, 1, 1, 1, 1, 1],
      [1, 2, 1, 1, 1, 1, 1, 2, 1, 2, 1, 1, 1, 1, 1, 1],
      [1, 1, 1, 1, 1, 1, 1, 2, 1, 1, 1, 1, 1, 1, 1, 1],
      [1, 2, 1, 1, 1, 1, 1, 1, 1, 2, 1, 1, 1, 1, 1, 1],
      [1, 1, 1, 1, 1, 1, 1, 3, 1, 3, 1, 1, 1, 1, 1, 1],
      [1, 3, 1, 1, 1, 1, 1, 3, 1, 3, 1, 1, 1, 1, 1, 1],
      [1, 3, 1, 1, 1, 1, 1, 1, 1, 1, 1, 1, 1, 1, 1, 1]]"

lemma utf8d_split: "utf8d = map byte_type [0..<256] @ concat transitions"
  by code_simp

lemma byte_type_less: "byte_type n < 12"
  by (simp add: byte_type_def)

lemma utf8d_byte: "n < 256 \<Longrightarrow> utf8d ! n = byte_type n"
  by (simp add: utf8d_split nth_append)

lemma nth_concat_rows:
  assumes "\<forall>r \<in> set rs. length r = m" and "i < length rs" and "j < m"
  shows "concat rs ! (i * m + j) = rs ! i ! j"
  using assms
proof (induction rs arbitrary: i)
  case (Cons r rs)
  then show ?case
  proof (cases i)
    case (Suc i')
    have "concat rs ! (i' * m + j) = rs ! i' ! j" using Cons Suc by auto
    then show ?thesis using Cons.prems Suc by (simp add: nth_append add.assoc)
  qed (simp add: nth_append)
qed simp

lemma length_utf8d: "length utf8d = 400"
  by (simp add: utf8d_split transitions_def)

lemma utf8d_transition: "st < 9 \<Longrightarrow> t < 16 \<Longrightarrow> utf8d ! (256 + st * 16 + t) = transitions ! st ! t"
  using nth_concat_rows [of transitions 16 st t]
  by (simp add: utf8d_split nth_append transitions_def add.assoc)

section \<open>Valid UTF-8\<close>

text \<open>The ranges of the bytes that may follow in a state.\<close>

fun pending :: "nat \<Rightarrow> (nat \<times> nat) list" where
  "pending st =
     (if st = 2 then [(0x80, 0xBF)]
      else if st = 3 then [(0x80, 0xBF), (0x80, 0xBF)]
      else if st = 4 then [(0xA0, 0xBF), (0x80, 0xBF)]
      else if st = 5 then [(0x80, 0x9F), (0x80, 0xBF)]
      else if st = 6 then [(0x90, 0xBF), (0x80, 0xBF), (0x80, 0xBF)]
      else if st = 7 then [(0x80, 0xBF), (0x80, 0xBF), (0x80, 0xBF)]
      else if st = 8 then [(0x80, 0x8F), (0x80, 0xBF), (0x80, 0xBF)]
      else [])"

declare pending.simps [simp del]

definition range_next :: "(nat \<times> nat) list \<Rightarrow> nat \<Rightarrow> (nat \<times> nat) list option" where
  "range_next rs n =
     (case rs of
        [] \<Rightarrow> if n < 0x80 then Some [] else utf8_tail_ranges n
      | (lo, hi) # rs' \<Rightarrow> if lo \<le> n \<and> n \<le> hi then Some rs' else None)"

fun utf8_from :: "(nat \<times> nat) list \<Rightarrow> string \<Rightarrow> bool" where
  "utf8_from rs [] \<longleftrightarrow> rs = []"
| "utf8_from rs (c # cs) \<longleftrightarrow>
     (case range_next rs (char_nat c) of None \<Rightarrow> False | Some rs' \<Rightarrow> utf8_from rs' cs)"

definition utf8_valid :: "string \<Rightarrow> bool" where
  "utf8_valid s \<longleftrightarrow> utf8_from [] s"

definition dfa_next :: "nat \<Rightarrow> nat \<Rightarrow> nat" where
  "dfa_next st n = transitions ! st ! byte_type n"

lemma states:
  "st < 9 \<Longrightarrow> st \<noteq> 1 \<Longrightarrow> st = 0 \<or> st = 2 \<or> st = 3 \<or> st = 4 \<or> st = 5 \<or> st = 6 \<or> st = 7 \<or> st = (8 :: nat)"
  by auto

lemma bytes:
  fixes n :: nat
  shows "n < 0x80 \<and> byte_type n = 0 \<or> 0x80 \<le> n \<and> n < 0x90 \<and> byte_type n = 1
    \<or> 0x90 \<le> n \<and> n < 0xA0 \<and> byte_type n = 9 \<or> 0xA0 \<le> n \<and> n < 0xC0 \<and> byte_type n = 7
    \<or> 0xC0 \<le> n \<and> n < 0xC2 \<and> byte_type n = 8 \<or> 0xC2 \<le> n \<and> n < 0xE0 \<and> byte_type n = 2
    \<or> n = 0xE0 \<and> byte_type n = 10 \<or> 0xE1 \<le> n \<and> n < 0xED \<and> byte_type n = 3
    \<or> n = 0xED \<and> byte_type n = 4 \<or> 0xEE \<le> n \<and> n < 0xF0 \<and> byte_type n = 3
    \<or> n = 0xF0 \<and> byte_type n = 11 \<or> 0xF1 \<le> n \<and> n < 0xF4 \<and> byte_type n = 6
    \<or> n = 0xF4 \<and> byte_type n = 5 \<or> 0xF5 \<le> n \<and> byte_type n = 8"
  unfolding byte_type_def by (auto split: if_splits)

lemma rows:
  "transitions ! 0 = [0, 1, 2, 3, 5, 8, 7, 1, 1, 1, 4, 6, 1, 1, 1, 1]"
  "transitions ! 2 = [1, 0, 1, 1, 1, 1, 1, 0, 1, 0, 1, 1, 1, 1, 1, 1]"
  "transitions ! 3 = [1, 2, 1, 1, 1, 1, 1, 2, 1, 2, 1, 1, 1, 1, 1, 1]"
  "transitions ! 4 = [1, 1, 1, 1, 1, 1, 1, 2, 1, 1, 1, 1, 1, 1, 1, 1]"
  "transitions ! 5 = [1, 2, 1, 1, 1, 1, 1, 1, 1, 2, 1, 1, 1, 1, 1, 1]"
  "transitions ! 6 = [1, 1, 1, 1, 1, 1, 1, 3, 1, 3, 1, 1, 1, 1, 1, 1]"
  "transitions ! 7 = [1, 3, 1, 1, 1, 1, 1, 3, 1, 3, 1, 1, 1, 1, 1, 1]"
  "transitions ! 8 = [1, 3, 1, 1, 1, 1, 1, 1, 1, 1, 1, 1, 1, 1, 1, 1]"
  by (simp_all add: transitions_def)

lemma dfa_lead:
  "dfa_next 0 n =
     (if n < 0x80 then 0 else if n < 0xC2 then 1 else if n < 0xE0 then 2 else if n = 0xE0 then 4
      else if n < 0xED then 3 else if n = 0xED then 5 else if n < 0xF0 then 3
      else if n = 0xF0 then 6 else if n < 0xF4 then 7 else if n = 0xF4 then 8 else 1)"
  using bytes [of n] by (elim disjE conjE) (simp_all add: dfa_next_def rows)

lemma dfa_tail:
  "dfa_next 2 n = (if 0x80 \<le> n \<and> n \<le> 0xBF then 0 else 1)"
  "dfa_next 3 n = (if 0x80 \<le> n \<and> n \<le> 0xBF then 2 else 1)"
  "dfa_next 4 n = (if 0xA0 \<le> n \<and> n \<le> 0xBF then 2 else 1)"
  "dfa_next 5 n = (if 0x80 \<le> n \<and> n \<le> 0x9F then 2 else 1)"
  "dfa_next 6 n = (if 0x90 \<le> n \<and> n \<le> 0xBF then 3 else 1)"
  "dfa_next 7 n = (if 0x80 \<le> n \<and> n \<le> 0xBF then 3 else 1)"
  "dfa_next 8 n = (if 0x80 \<le> n \<and> n \<le> 0x8F then 3 else 1)"
  using bytes [of n] by (elim disjE conjE; simp add: dfa_next_def rows)+

lemma dfa_next_ranges:
  assumes st: "st < 9" "st \<noteq> 1"
  shows "dfa_next st n < 9 \<and> range_next (pending st) n
    = (if dfa_next st n = 1 then None else Some (pending (dfa_next st n)))"
  using states [OF st]
  by (elim disjE)
    (simp_all add: dfa_lead dfa_tail range_next_def utf8_tail_ranges_def pending.simps, presburger)

section \<open>The code point\<close>

lemma unat_mask_and:
  assumes "k < 32"
  shows "unat (mask k AND of_nat n :: code_point) = n mod 2 ^ k"
proof -
  have "(2::nat) ^ k dvd 2 ^ 32" using assms by (intro le_imp_power_dvd) simp
  then have "n mod 2 ^ 32 mod 2 ^ k = n mod 2 ^ k" by (rule mod_mod_cancel)
  then have "unat (take_bit k (of_nat n :: code_point)) = n mod 2 ^ k"
    by (simp only: unat_take_bit unat_of_nat) simp
  then show ?thesis by (simp add: take_bit_eq_mask and.commute)
qed

lemma low_six_bits: "of_nat b AND 0x3F = (take_bit 6 (of_nat b) :: code_point)"
  by (simp add: take_bit_eq_mask mask_eq_exp_minus_1)

lemma unat_continuation:
  assumes "unat c < 2 ^ 26"
  shows "unat ((of_nat b AND 0x3F) OR push_bit 6 c :: code_point) = 64 * unat c + b mod 64"
proof -
  have "take_bit 6 (of_nat b) AND push_bit 6 c = (0 :: code_point)"
    by (rule bit_eqI) (auto simp: bit_simps)
  then have "take_bit 6 (of_nat b) OR push_bit 6 c = take_bit 6 (of_nat b) + (push_bit 6 c :: code_point)"
    by (rule disjunctive_add_eq_or [symmetric])
  moreover have "unat (take_bit 6 (of_nat b) :: code_point) = b mod 64"
    using unat_mask_and [of 6 b] by (simp add: take_bit_eq_mask and.commute)
  moreover have "unat (push_bit 6 c) = unat c * 64" using assms by (subst unat_push_bit) simp_all
  ultimately show ?thesis using assms by (subst low_six_bits) (simp add: unat_word_ariths)
qed

lemma unat_lead:
  "unat (255 AND of_nat n :: code_point) = n mod 256" "unat (63 AND of_nat n :: code_point) = n mod 64"
  "unat (31 AND of_nat n :: code_point) = n mod 32" "unat (15 AND of_nat n :: code_point) = n mod 16"
  "unat (7 AND of_nat n :: code_point) = n mod 8" "unat (3 AND of_nat n :: code_point) = n mod 4"
  using unat_mask_and [of 8 n] unat_mask_and [of 6 n] unat_mask_and [of 5 n] unat_mask_and [of 4 n]
    unat_mask_and [of 3 n] unat_mask_and [of 2 n]
  by (simp_all add: mask_eq_exp_minus_1)

text \<open>Bounds of the code point while bytes are missing; a complete one is not below 128.\<close>

definition cp_inv :: "nat \<Rightarrow> nat \<Rightarrow> bool" where
  "cp_inv st cp \<longleftrightarrow>
     (if st = 2 then 2 \<le> cp \<and> cp < 2 ^ 17
      else if st = 4 then cp < 2 ^ 11
      else if st = 3 \<or> st = 5 then 1 \<le> cp \<and> cp < 2 ^ 11
      else if st = 6 then cp < 2 ^ 5
      else if st = 7 \<or> st = 8 then 1 \<le> cp \<and> cp < 2 ^ 5
      else True)"

definition lead_point :: "nat \<Rightarrow> code_point" where
  "lead_point n = drop_bit (byte_type n) 0xFF AND of_nat n"

lemma lead_point_inv:
  assumes "n < 256" and "dfa_next 0 n \<noteq> 1"
  shows "if dfa_next 0 n = 0 then unat (lead_point n) = n else cp_inv (dfa_next 0 n) (unat (lead_point n))"
proof -
  have m: "n mod 64 = n - 0xC0" if "0xC0 \<le> n" "n < 0xE0"
    using that mod_mult_self4 [of 64 3 "n - 0xC0"] by simp
  have m2: "n mod 32 = n - 0xE0" if "0xE0 \<le> n" "n < 0xF0"
    using that mod_mult_self4 [of 32 7 "n - 0xE0"] by simp
  have m3: "n mod 4 = n - 0xF0" if "0xF0 \<le> n" "n < 0xF4"
    using that mod_mult_self4 [of 4 60 "n - 0xF0"] by simp
  show ?thesis
    using bytes [of n] assms
    by (elim disjE conjE)
      (simp_all add: lead_point_def dfa_lead unat_lead cp_inv_def m m2 m3, linarith+)
qed

lemma tail_point_inv:
  assumes "st < 9" "st \<noteq> 1" "st \<noteq> 0" and "cp_inv st cp" and "dfa_next st n \<noteq> 1"
  shows "if dfa_next st n = 0 then 0x80 \<le> 64 * cp + n mod 64 else cp_inv (dfa_next st n) (64 * cp + n mod 64)"
proof -
  have r: "n mod 64 < 64" by simp
  have "n mod 64 = n - 128" if "128 \<le> n" "n \<le> 0xBF"
    using that mod_add_self2 [of "n - 128" 64] mod_add_self2 [of "n - 64" 64] by simp
  then have h: "0xA0 \<le> n \<Longrightarrow> n \<le> 0xBF \<Longrightarrow> 0x20 \<le> n mod 64" "0x90 \<le> n \<Longrightarrow> n \<le> 0xBF \<Longrightarrow> 0x10 \<le> n mod 64"
    by simp_all
  define l where "l = n mod 64"
  show ?thesis
    using states [OF assms(1,2)] assms(3-) r h unfolding l_def [symmetric]
    by (elim disjE) (simp_all add: dfa_tail cp_inv_def split: if_splits)
qed

lemma cp_inv_less: "st < 9 \<Longrightarrow> st \<noteq> 0 \<Longrightarrow> st \<noteq> 1 \<Longrightarrow> cp_inv st cp \<Longrightarrow> cp < 2 ^ 26"
  by (auto simp: cp_inv_def split: if_splits)

lemma utf8_decode_ok:
  assumes st: "st < 9" "st \<noteq> 1" and n: "n < 256" and inv: "st \<noteq> 0 \<Longrightarrow> cp_inv st (unat cp)"
  shows "\<exists>cp'. utf8_decode st cp n = Inr (dfa_next st n, cp') \<and>
    (dfa_next st n \<noteq> 1 \<longrightarrow>
      (if dfa_next st n = 0 then (if st = 0 then unat cp' = n else 0x80 \<le> unat cp')
       else cp_inv (dfa_next st n) (unat cp')))"
proof -
  have t: "byte_type n < 16" using byte_type_less [of n] by simp
  have idx: "256 + st * 16 + byte_type n < 400" using st(1) byte_type_less [of n] by simp
  show ?thesis
  proof (cases "st = 0")
    case True
    have "utf8d ! (256 + byte_type n) = dfa_next 0 n"
      using utf8d_transition [of 0 "byte_type n"] t by (simp add: dfa_next_def)
    then show ?thesis
      using True lead_point_inv [OF n] n idx
      by (auto simp add: utf8_decode_def length_utf8d utf8d_byte Let_def simp flip: lead_point_def)
  next
    case False
    have "utf8d ! (256 + st * 16 + byte_type n) = dfa_next st n"
      using utf8d_transition [of st "byte_type n"] t st by (simp add: dfa_next_def)
    moreover have "unat ((of_nat n AND 0x3F) OR push_bit 6 cp :: code_point) = 64 * unat cp + n mod 64"
      by (rule unat_continuation) (use cp_inv_less [of st] st False inv in simp)
    ultimately show ?thesis
      using False tail_point_inv [OF st False] inv n idx
      by (auto simp add: utf8_decode_def length_utf8d utf8d_byte Let_def)
  qed
qed

section \<open>The buffer never overflows\<close>

definition es_inv :: "bool \<Rightarrow> escape \<Rightarrow> bool" where
  "es_inv ensure_ascii es \<longleftrightarrow>
     es_state es < 9 \<and> es_state es \<noteq> 1
     \<and> (es_state es \<noteq> 0 \<longrightarrow> cp_inv (es_state es) (unat (es_codepoint es)))
     \<and> (if es_state es = 0 then es_undumped es = 0
        else es_undumped es + length (pending (es_state es)) \<le> 4)
     \<and> es_accepted es \<le> 499 \<and> es_accepted es \<le> length (es_buffer es)
     \<and> length (es_buffer es) \<le> es_accepted es + (if ensure_ascii then 0 else es_undumped es)"

definition utf8_error :: "cpp_error \<Rightarrow> bool" where
  "utf8_error e \<longleftrightarrow> (\<exists>m. e = Json_type_error 316 m)"

lemma utf8_error_simps [simp]: "utf8_error (type_error 316 m)"
  by (simp add: utf8_error_def type_error_def)

lemma char_nat_less [simp]: "char_nat c < 256"
  by (simp add: char_nat_def)

lemma es_write_ok:
  "length (es_buffer es) + room \<le> 512 \<Longrightarrow> es_write room cs es = Inr (es\<lparr>es_buffer := es_buffer es @ cs\<rparr>)"
  by (simp add: es_write_def)

lemma es_flush_sel [simp]:
  "es_state (es_flush es) = es_state es" "es_codepoint (es_flush es) = es_codepoint es"
  "es_undumped (es_flush es) = es_undumped es" "es_accepted (es_flush es) = es_accepted es"
  "es_out (es_flush es) @ es_buffer (es_flush es) = es_out es @ es_buffer es"
  by (simp_all add: es_flush_def)

lemma es_flush_room: "length (es_buffer (es_flush es)) \<le> 499"
  by (simp add: es_flush_def, linarith)

text \<open>What is written for a code point with last byte \<open>c\<close>.\<close>

definition point_text :: "bool \<Rightarrow> char \<Rightarrow> code_point \<Rightarrow> string" where
  "point_text ensure_ascii c cp =
     (if cp = 0x08 then [bslash, CHR ''b''] else if cp = 0x09 then [bslash, CHR ''t'']
      else if cp = 0x0A then [bslash, CHR ''n''] else if cp = 0x0C then [bslash, CHR ''f'']
      else if cp = 0x0D then [bslash, CHR ''r''] else if cp = 0x22 then [bslash, CHR 0x22]
      else if cp = 0x5C then [bslash, bslash]
      else if cp \<le> 0x1F \<or> ensure_ascii \<and> 0x7F \<le> cp
      then if cp \<le> 0xFFFF then unicode_escape cp
           else unicode_escape (0xD7C0 + drop_bit 10 cp) @ unicode_escape (0xDC00 + (cp AND 0x3FF))
      else [c])"

lemma es_code_point_text:
  assumes "length (es_buffer es) \<le> (if ensure_ascii then 499 else 502)"
  shows "es_code_point ensure_ascii c es =
    Inr (es\<lparr>es_buffer := es_buffer es @ point_text ensure_ascii c (es_codepoint es)\<rparr>)"
proof -
  have w: "es_write room cs es = Inr (es\<lparr>es_buffer := es_buffer es @ cs\<rparr>)" if "room \<le> 10" for room cs
    using assms that by (intro es_write_ok) (simp split: if_splits)
  have w13: "es_write 13 cs es = Inr (es\<lparr>es_buffer := es_buffer es @ cs\<rparr>)" if "ensure_ascii" for cs
    using assms that by (intro es_write_ok) simp
  have small: "cp \<le> 0xFFFF" if "cp \<le> 0x1F" for cp :: code_point
    using that by (rule order_trans) simp
  show ?thesis
    using small [of "es_codepoint es"]
    by (auto simp: es_code_point_def point_text_def Let_def w w13)
qed

lemma es_accept_ok:
  assumes "length (es_buffer es) \<le> (if ensure_ascii then 499 else 502)" and "es_state es = 0"
  shows "\<exists>es'. es_accept ensure_ascii c es = Inr es' \<and> es_inv ensure_ascii es' \<and> es_state es' = 0 \<and>
    es_out es' @ es_buffer es' = es_out es @ es_buffer es @ point_text ensure_ascii c (es_codepoint es)"
proof -
  define es1 where "es1 = es\<lparr>es_buffer := es_buffer es @ point_text ensure_ascii c (es_codepoint es)\<rparr>"
  have "es_accept ensure_ascii c es
      = Inr ((es_flush es1)\<lparr>es_accepted := length (es_buffer (es_flush es1)), es_undumped := 0\<rparr>)"
    using es_code_point_text [OF assms(1)] by (simp add: es_accept_def es1_def Let_def)
  moreover have "es_out (es_flush es1) @ es_buffer (es_flush es1)
      = es_out es @ es_buffer es @ point_text ensure_ascii c (es_codepoint es)"
    by (simp only: es_flush_sel) (simp add: es1_def)
  moreover have "es_state (es_flush es1) = 0" using assms(2) by (simp add: es1_def)
  ultimately show ?thesis using es_flush_room [of es1] by (simp add: es_inv_def)
qed

lemma es_reject_ok:
  assumes "es_accepted es \<le> 499" and "es_accepted es \<le> length (es_buffer es)"
  shows "case es_reject h ensure_ascii i c es of
      Inl e \<Rightarrow> h = Strict \<and> utf8_error e
    | Inr (b, es') \<Rightarrow> h \<noteq> Strict \<and> es_inv ensure_ascii es'"
proof (cases "h = Replace")
  case True
  let ?es1 = "es\<lparr>es_buffer := take (es_accepted es) (es_buffer es)\<rparr>"
  let ?cs = "replacement ensure_ascii"
  have len: "length ?cs \<le> 6" by (simp add: replacement_def)
  then have "es_write (length ?cs) ?cs ?es1 = Inr (?es1\<lparr>es_buffer := es_buffer ?es1 @ ?cs\<rparr>)"
    using assms by (intro es_write_ok) simp
  then show ?thesis
    using True es_flush_room [of "?es1\<lparr>es_buffer := es_buffer ?es1 @ ?cs\<rparr>"]
    by (simp add: es_reject_def Let_def es_inv_def)
next
  case False
  then show ?thesis
    using assms by (cases h) (simp_all add: es_reject_def Let_def es_inv_def)
qed

lemma length_pending:
  assumes "st < 9" "st \<noteq> 1" "dfa_next st n \<noteq> 1" "dfa_next st n \<noteq> 0"
  shows "if st = 0 then length (pending (dfa_next st n)) + 1 \<le> 4
    else length (pending (dfa_next st n)) + 1 = length (pending st)"
  using states [OF assms(1,2)] assms(3,4)
  by (elim disjE) (simp_all add: dfa_lead dfa_tail pending.simps split: if_splits)

lemma es_step_ok:
  assumes inv: "es_inv ensure_ascii es"
  shows "case es_step h ensure_ascii i c es of
      Inl e \<Rightarrow> h = Strict \<and> utf8_error e \<and> dfa_next (es_state es) (char_nat c) = 1
    | Inr (b, es') \<Rightarrow> es_inv ensure_ascii es' \<and>
        (h = Strict \<longrightarrow> \<not> b \<and> dfa_next (es_state es) (char_nat c) \<noteq> 1
          \<and> es_state es' = dfa_next (es_state es) (char_nat c))"
proof -
  let ?st = "es_state es"
  have st: "?st < 9" "?st \<noteq> 1" using inv by (simp_all add: es_inv_def)
  obtain cp' where d: "utf8_decode ?st (es_codepoint es) (char_nat c) = Inr (dfa_next ?st (char_nat c), cp')"
    and cp': "dfa_next ?st (char_nat c) \<noteq> 1 \<longrightarrow> dfa_next ?st (char_nat c) \<noteq> 0 \<longrightarrow>
      cp_inv (dfa_next ?st (char_nat c)) (unat cp')"
    using utf8_decode_ok [OF st char_nat_less, of "es_codepoint es" c] inv by (auto simp: es_inv_def split: if_splits)
  let ?st' = "dfa_next ?st (char_nat c)"
  let ?es1 = "es\<lparr>es_state := ?st', es_codepoint := cp'\<rparr>"
  have st': "?st' < 9" using dfa_next_ranges [OF st] by simp
  have pend: "1 \<le> length (pending ?st)" if "?st \<noteq> 0"
    using that states [OF st] by (auto simp: pending.simps)
  have len: "length (es_buffer es) \<le> (if ensure_ascii then 499 else 502)"
    using inv pend by (simp add: es_inv_def split: if_splits; linarith)
  consider "?st' = 0" | "?st' = 1" | "?st' \<noteq> 0" "?st' \<noteq> 1" by blast
  then show ?thesis
  proof cases
    case 1
    then show ?thesis
      using es_accept_ok [of ?es1 ensure_ascii c] len d by (auto simp: es_step_def)
  next
    case 2
    then show ?thesis
      using es_reject_ok [of ?es1 h ensure_ascii i c] inv d
      by (auto simp: es_step_def es_inv_def split: sum.splits)
  next
    case 3
    have "es_write 1 [c] ?es1 = Inr (?es1\<lparr>es_buffer := es_buffer es @ [c]\<rparr>)" if "\<not> ensure_ascii"
      using len that by (subst es_write_ok) simp_all
    then show ?thesis
      using 3 d st' cp' inv length_pending [OF st 3(2,1)]
      by (auto simp: es_step_def es_inv_def split: if_splits)
  qed
qed

section \<open>The loop\<close>

lemma pending_Nil: "st < 9 \<Longrightarrow> st \<noteq> 1 \<Longrightarrow> pending st = [] \<longleftrightarrow> st = 0"
  using states [of st] by (auto simp: pending.simps)

lemma es_inv_states: "es_inv a es \<Longrightarrow> es_state es < 9 \<and> es_state es \<noteq> 1"
  by (simp add: es_inv_def)

lemma utf8_from_step:
  assumes "st < 9" "st \<noteq> 1"
  shows "utf8_from (pending st) (c # cs) \<longleftrightarrow>
    dfa_next st (char_nat c) \<noteq> 1 \<and> utf8_from (pending (dfa_next st (char_nat c))) cs"
  using dfa_next_ranges [OF assms, of "char_nat c"] by simp

lemma es_loop_ok:
  "es_inv a es \<Longrightarrow>
    (case es_loop h a i cs es of
       Inl e \<Rightarrow> h = Strict \<and> utf8_error e \<and> \<not> utf8_from (pending (es_state es)) cs
     | Inr es' \<Rightarrow> es_inv a es' \<and> (h = Strict \<longrightarrow> (es_state es' = 0 \<longleftrightarrow> utf8_from (pending (es_state es)) cs)))"
proof (induction h a i cs es rule: es_loop.induct)
  case (1 h a i es)
  then show ?case using pending_Nil [of "es_state es"] es_inv_states [of a es] by auto
next
  case (2 h a i c cs es)
  note step = es_step_ok [OF "2.prems", where h = h and i = i and c = c]
  note nxt = utf8_from_step [of "es_state es" c cs] es_inv_states [OF "2.prems"]
  show ?case
  proof (cases "es_step h a i c es")
    case (Inl e)
    then show ?thesis using step nxt by (simp add: es_loop.simps(2) del: utf8_from.simps)
  next
    case (Inr x)
    obtain b es1 where x: "x = (b, es1)" by (cases x)
    have inv: "es_inv a es1" using step Inr x by simp
    show ?thesis
    proof (cases b)
      case True
      then have "h \<noteq> Strict" using step Inr x by auto
      moreover have "es_loop h a i (c # cs) es = es_loop h a i (c # cs) es1"
        using Inr x True by (subst es_loop.simps(2)) simp
      ultimately show ?thesis
        using "2.IH"(1) [of x b es1] Inr x True inv by (auto split: sum.splits)
    next
      case False
      then show ?thesis
        using "2.IH"(2) [of x b es1] Inr x inv step nxt
        by (auto simp add: es_loop.simps(2) simp del: utf8_from.simps split: sum.splits)
    qed
  qed
qed

lemma new_escape_inv [simp]: "es_inv a (new_escape out)"
  by (simp add: es_inv_def new_escape_def)

lemma dump_escaped_cases:
  "case dump_escaped h a s out of
     Inl e \<Rightarrow> h = Strict \<and> utf8_error e \<and> \<not> utf8_valid s
   | Inr r \<Rightarrow> h = Strict \<longrightarrow> utf8_valid s"
proof -
  have p: "pending (es_state (new_escape out)) = []" by (simp add: new_escape_def pending.simps)
  note loop = es_loop_ok [OF new_escape_inv, where h = h and a = a and i = 0 and cs = s and out1 = out, unfolded p]
  show ?thesis
  proof (cases "es_loop h a 0 s (new_escape out)")
    case (Inl e)
    then show ?thesis using loop by (simp add: dump_escaped_def utf8_valid_def)
  next
    case (Inr es)
    then show ?thesis
      using loop by (cases h) (simp_all add: dump_escaped_def utf8_valid_def es_finish_def)
  qed
qed

section \<open>The text of a valid string\<close>

definition escape_byte :: "char \<Rightarrow> string" where
  "escape_byte c =
     (let n = char_nat c
      in if n = 0x08 then [bslash, CHR ''b''] else if n = 0x09 then [bslash, CHR ''t'']
         else if n = 0x0A then [bslash, CHR ''n''] else if n = 0x0C then [bslash, CHR ''f'']
         else if n = 0x0D then [bslash, CHR ''r''] else if n = 0x22 then [bslash, CHR 0x22]
         else if n = 0x5C then [bslash, bslash]
         else if n \<le> 0x1F
         then [bslash, CHR ''u'', CHR ''0'', CHR ''0'', hex_lower (n div 16), hex_lower (n mod 16)]
         else [c])"

definition escape_text :: "string \<Rightarrow> string" where
  "escape_text s = concat (map escape_byte s)"

lemma hex_lower_0: "hex_lower 0 = CHR ''0''"
  by code_simp

lemma point_text_ascii:
  assumes "unat cp = char_nat c"
  shows "point_text False c cp = escape_byte c"
proof -
  have eq: "cp = of_nat k \<longleftrightarrow> char_nat c = k" if "k < 256" for k
    using assms that by (simp add: word_unat_eq_iff unat_of_nat)
  have "cp \<le> 0x1F \<longleftrightarrow> char_nat c \<le> 0x1F" using assms by (simp add: word_le_nat_alt)
  moreover have "unicode_escape cp = [bslash, CHR ''u'', CHR ''0'', CHR ''0'',
      hex_lower (char_nat c div 16), hex_lower (char_nat c mod 16)]" if "char_nat c \<le> 0x1F"
  proof -
    have "unat (take_bit 16 cp) = char_nat c"
      using that by (simp only: unat_take_bit assms) simp
    moreover have "char_nat c div 4096 = 0" "char_nat c div 256 = 0" "char_nat c div 16 mod 16 = char_nat c div 16"
      using that by simp_all
    ultimately show ?thesis by (simp add: unicode_escape_def hex_lower_0 Let_def)
  qed
  moreover have "cp \<le> 0xFFFF" if "char_nat c \<le> 0x1F" using that assms by (simp add: word_le_nat_alt)
  ultimately show ?thesis
    using eq [of 8] eq [of 9] eq [of 10] eq [of 12] eq [of 13] eq [of "0x22"] eq [of "0x5C"]
    by (simp add: point_text_def escape_byte_def Let_def)
qed

lemma point_text_high: "0x80 \<le> unat cp \<Longrightarrow> point_text False c cp = [c]"
  by (auto simp: point_text_def word_le_nat_alt)

lemma escape_byte_high: "0x80 \<le> char_nat c \<Longrightarrow> escape_byte c = [c]"
  by (simp add: escape_byte_def)

lemma dfa_high:
  assumes "st < 9" "st \<noteq> 1" "dfa_next st n \<noteq> 1" "st \<noteq> 0 \<or> dfa_next st n \<noteq> 0"
  shows "0x80 \<le> n"
  using states [OF assms(1,2)] assms(3,4)
  by (elim disjE) (simp_all add: dfa_lead dfa_tail split: if_splits)

lemma es_step_text:
  assumes inv: "es_inv False es" and ok: "dfa_next (es_state es) (char_nat c) \<noteq> 1"
  shows "\<exists>es'. es_step Strict False i c es = Inr (False, es') \<and> es_inv False es'
    \<and> es_state es' = dfa_next (es_state es) (char_nat c)
    \<and> es_out es' @ es_buffer es' = es_out es @ es_buffer es @ escape_byte c"
proof -
  let ?st = "es_state es" and ?st' = "dfa_next (es_state es) (char_nat c)"
  have st: "?st < 9" "?st \<noteq> 1" using inv by (simp_all add: es_inv_def)
  obtain es' where es': "es_step Strict False i c es = Inr (False, es')" "es_inv False es'" "es_state es' = ?st'"
    using es_step_ok [OF inv, where h = Strict and i = i and c = c] ok by (auto split: sum.splits)
  obtain cp' where d: "utf8_decode ?st (es_codepoint es) (char_nat c) = Inr (?st', cp')"
    and cp': "?st' = 0 \<longrightarrow> (if ?st = 0 then unat cp' = char_nat c else 0x80 \<le> unat cp')"
    using utf8_decode_ok [OF st char_nat_less, of "es_codepoint es" c] inv ok
    by (auto simp: es_inv_def split: if_splits)
  let ?es1 = "es\<lparr>es_state := ?st', es_codepoint := cp'\<rparr>"
  have len: "length (es_buffer es) \<le> 502"
    using inv pending_Nil [OF st] by (cases "pending ?st") (auto simp: es_inv_def split: if_splits)
  have "es_out es' @ es_buffer es' = es_out es @ es_buffer es @ escape_byte c"
  proof (cases "?st' = 0")
    case True
    have "point_text False c cp' = escape_byte c"
      using cp' True point_text_ascii point_text_high [of cp' c] escape_byte_high [of c]
        dfa_high [OF st ok] by (auto split: if_splits)
    moreover obtain es2 where "es_accept False c ?es1 = Inr es2"
      "es_out es2 @ es_buffer es2 = es_out es @ es_buffer es @ point_text False c cp'"
      using es_accept_ok [of ?es1 False c] len True by auto
    ultimately show ?thesis using es'(1) d True by (simp add: es_step_def)
  next
    case False
    then have "escape_byte c = [c]" using escape_byte_high dfa_high [OF st ok] by blast
    moreover have "es_write 1 [c] ?es1 = Inr (?es1\<lparr>es_buffer := es_buffer es @ [c]\<rparr>)"
      using len by (subst es_write_ok) simp_all
    ultimately show ?thesis using es'(1) d False ok by (auto simp: es_step_def)
  qed
  then show ?thesis using es' by blast
qed

lemma es_loop_text:
  "es_inv False es \<Longrightarrow> utf8_from (pending (es_state es)) cs \<Longrightarrow>
    \<exists>es'. es_loop Strict False i cs es = Inr es' \<and> es_state es' = 0
      \<and> es_out es' @ es_buffer es' = es_out es @ es_buffer es @ escape_text cs"
proof (induction cs arbitrary: i es)
  case Nil
  then show ?case using pending_Nil [of "es_state es"] es_inv_states by (auto simp: escape_text_def)
next
  case (Cons c cs)
  have st: "es_state es < 9" "es_state es \<noteq> 1" using es_inv_states Cons.prems by auto
  have ok: "dfa_next (es_state es) (char_nat c) \<noteq> 1"
    and rest: "utf8_from (pending (dfa_next (es_state es) (char_nat c))) cs"
    using Cons.prems(2) utf8_from_step [OF st, of c cs] by blast+
  obtain es1 where s: "es_step Strict False i c es = Inr (False, es1)" "es_inv False es1"
    "es_state es1 = dfa_next (es_state es) (char_nat c)"
    "es_out es1 @ es_buffer es1 = es_out es @ es_buffer es @ escape_byte c"
    using es_step_text [OF Cons.prems(1) ok] by blast
  obtain es' where "es_loop Strict False (i + 1) cs es1 = Inr es'" "es_state es' = 0"
    "es_out es' @ es_buffer es' = es_out es1 @ es_buffer es1 @ escape_text cs"
    using Cons.IH [OF s(2), of "i + 1"] rest s(3) by auto
  then show ?case using s by (simp add: es_loop.simps(2) escape_text_def)
qed

lemma dump_escaped_text:
  assumes "utf8_valid s"
  shows "dump_escaped Strict False s out = Inr (out @ escape_text s)"
proof -
  have "pending (es_state (new_escape out)) = []" by (simp add: new_escape_def pending.simps)
  then obtain es where "es_loop Strict False 0 s (new_escape out) = Inr es" "es_state es = 0"
    "es_out es @ es_buffer es = es_out (new_escape out) @ es_buffer (new_escape out) @ escape_text s"
    using es_loop_text [OF new_escape_inv, of out s 0] assms by (auto simp: utf8_valid_def)
  then show ?thesis by (simp add: dump_escaped_def es_finish_def new_escape_def)
qed

end
