(* ===== verification/Json_Dump.thy ===== *)
theory Json_Dump
  imports Json_Serializer Json_Utf8
begin

text \<open>
  Correctness of the serializer: integers are written as their decimal digits, and a value without
  invalid strings is written as its reference text \<open>json_text\<close>, in the compact form and in the
  indented one as far as the indentation stays within the first 512 columns.
\<close>

section \<open>Integers\<close>

lemma to_string_small: "n < 10 \<Longrightarrow> to_string n = [digit_char n]"
  by (simp add: to_string.simps [of n])

lemma to_string_step: "10 \<le> n \<Longrightarrow> to_string n = to_string (n div 10) @ [digit_char (n mod 10)]"
  by (simp add: to_string.simps [of n])

lemma to_string_pair:
  assumes "10 \<le> n" "n < 100"
  shows "to_string n = [digit_char (n div 10), digit_char (n mod 10)]"
  using assms by (simp add: to_string_step to_string_small)

lemma to_string_hundred:
  assumes "100 \<le> n"
  shows "to_string n = to_string (n div 100) @ [digit_char (n mod 100 div 10), digit_char (n mod 100 mod 10)]"
proof -
  have "n mod 100 div 10 = n div 10 mod 10"
    using mod_mult2_eq [of n 10 10] by simp
  moreover have "n mod 100 mod 10 = n mod 10" by (rule mod_mod_cancel) simp
  ultimately show ?thesis
    using assms by (simp add: to_string_step [of n] to_string_step [of "n div 10"] flip: div_mult2_eq)
qed

lemma digits_to_99_pair: "i < 100 \<Longrightarrow> digits_to_99 ! i = [digit_char (i div 10), digit_char (i mod 10)]"
  by (simp add: digits_to_99_def)

lemma length_to_string_step: "10 \<le> n \<Longrightarrow> length (to_string n) = Suc (length (to_string (n div 10)))"
  by (simp add: to_string_step)

lemma count_digits_loop_length:
  "Suc (count_digits_loop x n) = n + length (to_string (unat x))"
proof (induction x n rule: count_digits_loop.induct)
  case (1 x n)
  have lt: "x < of_nat k \<longleftrightarrow> unat x < k" if "k < 2 ^ 64" for k
    using that by (simp add: word_less_nat_alt unat_of_nat)
  have div: "unat (x div 10000) = unat x div 10 div 10 div 10 div 10"
    by (simp add: unat_div_distrib flip: div_mult2_eq)
  show ?case
    using "1.IH" lt [of 10] lt [of 100] lt [of 1000] lt [of 10000]
    by (auto simp: count_digits_loop.simps [of x] div length_to_string_step to_string_small not_less
        simp flip: div_mult2_eq)
qed

lemma count_digits_length: "count_digits x = length (to_string (unat x))"
  using count_digits_loop_length [of x 1] by (simp add: count_digits_def)

lemma put_back_ok:
  "length cs \<le> ptr \<Longrightarrow> ptr \<le> length buf \<Longrightarrow>
    put_back cs (ptr, buf) = Inr (ptr - length cs, take (ptr - length cs) buf @ cs @ drop ptr buf)"
  by (simp add: put_back_def)

lemma write_digits_text:
  "length (to_string (unat x)) \<le> ptr \<Longrightarrow> ptr \<le> length buf \<Longrightarrow>
    write_digits x (ptr, buf) = Inr (ptr - length (to_string (unat x)),
      take (ptr - length (to_string (unat x))) buf @ to_string (unat x) @ drop ptr buf)"
proof (induction x "(ptr, buf)" arbitrary: ptr buf rule: write_digits.induct)
  case (1 x ptr buf)
  have le: "of_nat k \<le> x \<longleftrightarrow> k \<le> unat x" if "k < 2 ^ 64" for k
    using that by (simp add: word_le_nat_alt unat_of_nat)
  show ?case
  proof (cases "100 \<le> x")
    case True
    then have ge: "100 \<le> unat x" using le [of 100] by simp
    let ?d = "digits_to_99 ! unat (x mod 100)"
    have d: "?d = [digit_char (unat x mod 100 div 10), digit_char (unat x mod 100 mod 10)]"
      by (simp add: digits_to_99_pair unat_mod_distrib)
    have u: "unat (x div 100) = unat x div 100" by (simp add: unat_div_distrib)
    note str = to_string_hundred [OF ge]
    have pb: "put_back ?d (ptr, buf) = Inr (ptr - 2, take (ptr - 2) buf @ ?d @ drop ptr buf)"
      using "1.prems" str d by (subst put_back_ok) (auto simp: numeral_2_eq_2)
    define t where "t = to_string (unat (x div 100))"
    have strt: "to_string (unat x) = t @ ?d" using str d by (simp add: t_def u)
    have lt: "length t + 2 \<le> ptr" using "1.prems" strt d by simp
    have "write_digits x (ptr, buf) = write_digits (x div 100) (ptr - 2, take (ptr - 2) buf @ ?d @ drop ptr buf)"
      by (subst write_digits.simps) (simp only: True if_True pb sum.case)
    also have "\<dots> = Inr (ptr - 2 - length t, take (ptr - 2 - length t) (take (ptr - 2) buf @ ?d @ drop ptr buf)
         @ t @ drop (ptr - 2) (take (ptr - 2) buf @ ?d @ drop ptr buf))"
      unfolding t_def
      by (rule "1.hyps" [OF True pb]) (use lt "1.prems" d in \<open>simp_all add: t_def [symmetric]\<close>)
    finally show ?thesis
      using lt "1.prems"(2) unfolding strt by (simp add: d min_def)
  next
    case False
    then have lt: "unat x < 100" using le [of 100] by simp
    show ?thesis
    proof (cases "10 \<le> x")
      case True
      then have "10 \<le> unat x" using le [of 10] by simp
      then show ?thesis
        using False True lt "1.prems"
        by (subst write_digits.simps) (simp add: put_back_ok digits_to_99_pair to_string_pair)
    next
      case F2: False
      then have "unat x < 10" using le [of 10] by simp
      then show ?thesis
        using False F2 "1.prems"
        by (subst write_digits.simps) (simp add: put_back_ok to_string_small)
    qed
  qed
qed

lemma length_to_string_le: "n < 10 ^ Suc k \<Longrightarrow> length (to_string n) \<le> Suc k"
proof (induction k arbitrary: n)
  case 0
  then show ?case by (simp add: to_string_small)
next
  case (Suc k)
  then have "n div 10 < 10 ^ Suc k" by (simp add: div_less_iff_less_mult)
  then show ?case using Suc.IH [of "n div 10"] by (cases "n < 10") (simp_all add: to_string_small to_string_step)
qed

lemma length_to_string_word: "length (to_string (unat (x :: 64 word))) \<le> 20"
proof -
  have "unat x < 10 ^ Suc 19" by (rule less_le_trans [OF unsigned_less]) simp
  then show ?thesis using length_to_string_le by fastforce
qed

definition sign_text :: "bool \<Rightarrow> uint64_t \<Rightarrow> string" where
  "sign_text negative x =
     (if x = 0 then ''0'' else if negative then CHR ''-'' # to_string (unat (- x)) else to_string (unat x))"

lemma remove_sign_minus: "remove_sign x = - x"
  by (simp add: remove_sign_def)

lemma dump_word_text:
  assumes "length (sz_number_buffer sz) = 64"
  shows "\<exists>nb. length nb = 64 \<and>
    dump_word negative x sz = Inr (sz\<lparr>sz_number_buffer := nb, sz_out := sz_out sz @ sign_text negative x\<rparr>)"
proof (cases "x = 0")
  case True
  have "sz = sz\<lparr>sz_number_buffer := sz_number_buffer sz\<rparr>" by simp
  then show ?thesis
    using True assms by (auto simp: dump_word_def write_characters_def sign_text_def)
next
  case False
  define v where "v = (if negative then - x else x)"
  define s where "s = (if negative then [CHR ''-''] else [])"
  define buf where "buf = (if negative then (sz_number_buffer sz)[0 := CHR ''-''] else sz_number_buffer sz)"
  define t where "t = to_string (unat v)"
  have len: "length t \<le> 20" "length buf = 64" "length s \<le> 1"
    using assms length_to_string_word [of v] by (simp_all add: t_def buf_def s_def)
  have w: "write_digits v (length s + length t, buf)
      = Inr (length s, take (length s) buf @ t @ drop (length s + length t) buf)"
    using write_digits_text [of v "length s + length t" buf] len by (simp add: t_def)
  have hd: "take (length s) buf = s" using assms by (cases "sz_number_buffer sz") (auto simp: s_def buf_def)
  have sign: "sign_text negative x = s @ t" using False by (simp add: sign_text_def s_def t_def v_def)
  have n: "(if negative then 1 else 0) + count_digits (if negative then remove_sign x else x) = length s + length t"
    by (simp add: count_digits_length remove_sign_minus s_def t_def v_def)
  have "dump_word negative x sz = Inr (sz\<lparr>sz_number_buffer := s @ t @ drop (length s + length t) buf,
      sz_out := sz_out sz @ s @ t\<rparr>)"
    using w hd len False n
    by (cases negative)
      (simp_all add: dump_word_def Let_def write_characters_def remove_sign_minus v_def buf_def)
  moreover have "length (s @ t @ drop (length s + length t) buf) = 64" using len by simp
  ultimately show ?thesis using sign by (intro exI conjI) simp_all
qed

section \<open>The reference text\<close>

record layout =
  ly_pretty :: bool
  ly_char :: char
  ly_step :: nat

definition ly_newline :: "layout \<Rightarrow> string" where
  "ly_newline ly = (if ly_pretty ly then [newline] else [])"

definition ly_indent :: "layout \<Rightarrow> nat \<Rightarrow> string" where
  "ly_indent ly n = (if ly_pretty ly then replicate n (ly_char ly) else [])"

definition ly_colon :: "layout \<Rightarrow> string" where
  "ly_colon ly = (if ly_pretty ly then '': '' else '':'')"

definition ly_next :: "layout \<Rightarrow> nat \<Rightarrow> nat" where
  "ly_next ly n = (if ly_pretty ly then n + ly_step ly else n)"

definition string_text :: "string \<Rightarrow> string" where
  "string_text s = [CHR 0x22] @ escape_text s @ [CHR 0x22]"

definition float_text :: "double \<Rightarrow> string" where
  "float_text d = (if double_finite d then case to_chars 64 d of Inl e \<Rightarrow> [] | Inr t \<Rightarrow> t else ''null'')"

function json_text :: "layout \<Rightarrow> nat \<Rightarrow> json \<Rightarrow> string"
  and elements_text :: "layout \<Rightarrow> nat \<Rightarrow> json list \<Rightarrow> string"
  and members_text :: "layout \<Rightarrow> nat \<Rightarrow> (string \<times> json) list \<Rightarrow> string" where
  "json_text ly n JNull = ''null''"
| "json_text ly n (JBoolean b) = (if b then ''true'' else ''false'')"
| "json_text ly n (JInteger i) = sign_text (i <s 0) i"
| "json_text ly n (JUnsigned u) = to_string (unat u)"
| "json_text ly n (JFloat d) = float_text d"
| "json_text ly n (JString s) = string_text s"
| "json_text ly n (JArray xs) =
     (if xs = [] then ''[]''
      else ''['' @ ly_newline ly @ elements_text ly (ly_next ly n) xs
             @ ly_newline ly @ ly_indent ly n @ '']'')"
| "json_text ly n (JObject kvs) =
     (if kvs = [] then ''{}''
      else ''{'' @ ly_newline ly @ members_text ly (ly_next ly n) kvs
             @ ly_newline ly @ ly_indent ly n @ ''}'')"
| "json_text ly n (JBinary bytes subtype) = []"
| "json_text ly n JDiscarded = ''<discarded>''"
| "elements_text ly n [] = []"
| "elements_text ly n (x # xs) =
     ly_indent ly n @ json_text ly n x
       @ (if xs = [] then [] else '','' @ ly_newline ly @ elements_text ly n xs)"
| "members_text ly n [] = []"
| "members_text ly n ((k, v) # kvs) =
     ly_indent ly n @ string_text k @ ly_colon ly @ json_text ly n v
       @ (if kvs = [] then [] else '','' @ ly_newline ly @ members_text ly n kvs)"
  by pat_completeness auto
termination
  by (relation "measure (\<lambda>a. case a of
        Inl (_, _, j) \<Rightarrow> 2 * size j
      | Inr (Inl (_, _, xs)) \<Rightarrow> 2 * size_list size xs + 1
      | Inr (Inr (_, _, kvs)) \<Rightarrow> 2 * size_list (size_prod (\<lambda>_. 0) size) kvs + 1)") auto

text \<open>Values that can be written: valid strings and keys, doubles that print, no binary value.\<close>

definition float_prints :: "double \<Rightarrow> bool" where
  "float_prints d = (\<not> double_finite d \<or> (case to_chars 64 d of Inl e \<Rightarrow> False | Inr t \<Rightarrow> True))"

fun printable :: "json \<Rightarrow> bool" where
  "printable (JString s) = utf8_valid s"
| "printable (JFloat d) = float_prints d"
| "printable (JBinary bytes subtype) = False"
| "printable (JArray xs) = list_all printable xs"
| "printable (JObject kvs) = list_all (\<lambda>kv. utf8_valid (fst kv) \<and> printable (snd kv)) kvs"
| "printable _ = True"

text \<open>The deepest indentation, in steps.\<close>

fun json_depth :: "json \<Rightarrow> nat" where
  "json_depth (JArray xs) = (if xs = [] then 0 else Suc (fold max (map json_depth xs) 0))"
| "json_depth (JObject kvs) = (if kvs = [] then 0 else Suc (fold max (map (\<lambda>kv. json_depth (snd kv)) kvs) 0))"
| "json_depth _ = 0"

definition fits :: "layout \<Rightarrow> nat \<Rightarrow> nat \<Rightarrow> bool" where
  "fits ly n depth \<longleftrightarrow> (ly_pretty ly \<longrightarrow> n + ly_step ly * depth \<le> 512)"

section \<open>Actions that write a text\<close>

definition writes :: "layout \<Rightarrow> string \<Rightarrow> action \<Rightarrow> bool" where
  "writes ly t a \<longleftrightarrow>
     (\<forall>sz. length (sz_number_buffer sz) = 64 \<and> sz_error_handler sz = Strict
         \<and> sz_indent_string sz = replicate 512 (ly_char ly) \<longrightarrow>
       (\<exists>nb. length nb = 64 \<and> a sz = Inr (sz\<lparr>sz_number_buffer := nb, sz_out := sz_out sz @ t\<rparr>)))"

lemma writes_out:
  assumes "\<And>sz. sz_error_handler sz = Strict \<Longrightarrow> sz_indent_string sz = replicate 512 (ly_char ly) \<Longrightarrow>
    a sz = Inr (sz\<lparr>sz_out := sz_out sz @ t\<rparr>)"
  shows "writes ly t a"
proof -
  have "sz\<lparr>sz_out := out\<rparr> = sz\<lparr>sz_number_buffer := sz_number_buffer sz, sz_out := out\<rparr>"
    for sz :: serializer and out by simp
  then show ?thesis unfolding writes_def using assms by metis
qed

lemma writes_characters [simp]: "writes ly t (write_characters t)"
  by (rule writes_out) (simp add: write_characters_def)

lemma writes_done [simp]: "writes ly [] Inr"
  by (rule writes_out) simp

lemma writes_seq:
  assumes "writes ly t a" and "writes ly u (run_actions as)"
  shows "writes ly (t @ u) (run_actions (a # as))"
  unfolding writes_def
proof (intro allI impI)
  fix sz :: serializer
  assume sz: "length (sz_number_buffer sz) = 64 \<and> sz_error_handler sz = Strict
    \<and> sz_indent_string sz = replicate 512 (ly_char ly)"
  obtain nb where nb: "length nb = 64" "a sz = Inr (sz\<lparr>sz_number_buffer := nb, sz_out := sz_out sz @ t\<rparr>)"
    using assms(1) sz unfolding writes_def by blast
  obtain nb' where "length nb' = 64" "run_actions as (sz\<lparr>sz_number_buffer := nb, sz_out := sz_out sz @ t\<rparr>)
      = Inr ((sz\<lparr>sz_number_buffer := nb, sz_out := sz_out sz @ t\<rparr>)
          \<lparr>sz_number_buffer := nb', sz_out := (sz_out sz @ t) @ u\<rparr>)"
    using assms(2) [unfolded writes_def, rule_format, of "sz\<lparr>sz_number_buffer := nb, sz_out := sz_out sz @ t\<rparr>"]
      sz nb(1) by auto
  then show "\<exists>nb. length nb = 64 \<and>
      run_actions (a # as) sz = Inr (sz\<lparr>sz_number_buffer := nb, sz_out := sz_out sz @ t @ u\<rparr>)"
    using nb(2) by auto
qed

lemma writes_nil: "writes ly [] (run_actions [])"
  by (rule writes_out) simp

lemma writes_run:
  "list_all2 (writes ly) ts as \<Longrightarrow> writes ly (concat ts) (run_actions as)"
  by (induction rule: list_all2_induct) (auto intro: writes_nil writes_seq simp del: run_actions.simps)

lemma writes_escaped: "utf8_valid s \<Longrightarrow> writes ly (escape_text s) (write_escaped False s)"
  by (rule writes_out) (simp add: write_escaped_def dump_escaped_text)

lemma writes_word: "writes ly (sign_text negative x) (dump_word negative x)"
  using dump_word_text by (auto simp: writes_def)

lemma writes_unsigned: "writes ly (to_string (unat u)) (dump_unsigned u)"
proof -
  have "sign_text False u = to_string (unat u)"
    by (cases "u = 0") (simp_all add: sign_text_def to_string_small digit_char_def, code_simp)
  then show ?thesis using writes_word [of ly False u] by (simp add: dump_unsigned_def)
qed

lemma writes_indent:
  "ly_pretty ly \<Longrightarrow> n \<le> 512 \<Longrightarrow> writes ly (ly_indent ly n) (write_indent n)"
  by (rule writes_out) (simp add: write_indent_def write_characters_def ly_indent_def min_def)

lemma writes_grow: "n \<le> 512 \<Longrightarrow> writes ly [] (grow_indent n)"
  by (rule writes_out) (simp add: grow_indent_def)

lemma append_exponent_length: "append_exponent e = Inr t \<Longrightarrow> length t \<le> 4"
  by (auto simp: append_exponent_def Let_def split: if_splits)

lemma format_buffer_forms:
  fixes x :: int and buf :: string
  defines "k \<equiv> int (length buf)"
  shows
    "0 \<le> x \<Longrightarrow> k + x \<le> 15 \<Longrightarrow>
      format_buffer buf x (- 4) 15 = Inr (buf @ replicate (nat x) (CHR ''0'') @ ''.0'')"
    "x < 0 \<Longrightarrow> 0 < k + x \<Longrightarrow> k + x \<le> 15 \<Longrightarrow>
      format_buffer buf x (- 4) 15 = Inr (take (nat (k + x)) buf @ ''.'' @ drop (nat (k + x)) buf)"
    "- 4 < k + x \<Longrightarrow> k + x \<le> 0 \<Longrightarrow> x < 0 \<Longrightarrow>
      format_buffer buf x (- 4) 15 = Inr (''0.'' @ replicate (nat (- (k + x))) (CHR ''0'') @ buf)"
    "k + x \<le> - 4 \<or> 15 < k + x \<Longrightarrow>
      format_buffer buf x (- 4) 15 =
        (case append_exponent (k + x - 1) of
           Inl e \<Rightarrow> Inl e
         | Inr ex \<Rightarrow> Inr ((if k = 1 then buf else take 1 buf @ ''.'' @ drop 1 buf) @ ''e'' @ ex))"
proof -
  show "format_buffer buf x (- 4) 15 = Inr (buf @ replicate (nat x) (CHR ''0'') @ ''.0'')"
    if "0 \<le> x" "k + x \<le> 15"
    using that by (simp add: format_buffer_def Let_def nat_diff_distrib k_def nat_add_distrib)
  show "format_buffer buf x (- 4) 15 = Inr (take (nat (k + x)) buf @ ''.'' @ drop (nat (k + x)) buf)"
    if "x < 0" "0 < k + x" "k + x \<le> 15"
    using that by (simp add: format_buffer_def Let_def k_def)
  show "format_buffer buf x (- 4) 15 = Inr (''0.'' @ replicate (nat (- (k + x))) (CHR ''0'') @ buf)"
    if "- 4 < k + x" "k + x \<le> 0" "x < 0"
    using that by (simp add: format_buffer_def Let_def k_def)
  show "format_buffer buf x (- 4) 15 =
      (case append_exponent (k + x - 1) of
         Inl e \<Rightarrow> Inl e
       | Inr ex \<Rightarrow> Inr ((if k = 1 then buf else take 1 buf @ ''.'' @ drop 1 buf) @ ''e'' @ ex))"
    if "k + x \<le> - 4 \<or> 15 < k + x"
  proof -
    have c: "\<not> (k \<le> k + x \<and> k + x \<le> 15)" "\<not> (0 < k + x \<and> k + x \<le> 15)" "\<not> (- 4 < k + x \<and> k + x \<le> 0)"
      using that by (auto simp: k_def)
    show ?thesis unfolding format_buffer_def Let_def k_def [symmetric] by (simp only: c if_False) simp
  qed
qed

lemma format_buffer_length:
  assumes "format_buffer buf x (- 4) 15 = Inr t" and "length buf \<le> 17"
  shows "length t \<le> 24"
proof -
  define k where "k = int (length buf)"
  consider "0 \<le> x" "k + x \<le> 15" | "x < 0" "0 < k + x" "k + x \<le> 15"
    | "- 4 < k + x" "k + x \<le> 0" "x < 0" | "k + x \<le> - 4 \<or> 15 < k + x"
    by (simp add: k_def) linarith
  then show ?thesis
  proof cases
    case 4
    then obtain ex where "append_exponent (k + x - 1) = Inr ex"
      and t: "t = (if k = 1 then buf else take 1 buf @ ''.'' @ drop 1 buf) @ ''e'' @ ex"
      using assms(1) format_buffer_forms(4) [where x = x and buf = buf] unfolding k_def by (auto split: sum.splits)
    then have "length ex \<le> 4" using append_exponent_length by blast
    then show ?thesis using t assms(2) by (cases buf) (auto split: if_splits)
  qed (use assms format_buffer_forms(1-3) [where x = x and buf = buf] in \<open>auto simp: k_def\<close>)
qed

lemma to_chars_length:
  assumes "to_chars 64 d = Inr t"
  shows "length t \<le> 64"
proof (cases d)
  case (Double_fin s m e)
  show ?thesis
  proof (cases "m = 0")
    case True
    then show ?thesis using assms Double_fin by (auto simp: to_chars_def)
  next
    case False
    then obtain buf x t1 where "grisu2 m e = Inr (buf, x)" "length buf \<le> 17"
      "format_buffer buf x (- 4) 15 = Inr t1" "t = (if s then ''-'' else []) @ t1"
      using assms Double_fin
      by (auto simp: to_chars_def Let_def split: sum.splits prod.splits if_splits)
    then show ?thesis using format_buffer_length [of buf x t1] by simp
  qed
qed (use assms in \<open>simp_all add: to_chars_def\<close>)

lemma writes_float:
  assumes "float_prints d"
  shows "writes ly (float_text d) (dump_float d)"
proof (cases "double_finite d")
  case False
  then have "dump_float d = write_characters ''null''" by (auto simp: dump_float_def)
  then show ?thesis using False by (simp add: float_text_def)
next
  case True
  then obtain t where t: "to_chars 64 d = Inr t" using assms by (auto simp: float_prints_def split: sum.splits)
  then show ?thesis
    using True to_chars_length [OF t] unfolding writes_def
    by (intro allI impI exI [where x = "t @ drop (length t) (sz_number_buffer sz)" for sz])
      (auto simp: dump_float_def float_text_def write_characters_def)
qed

section \<open>Values\<close>

lemma fold_max_le: "fold max ns m \<le> k \<longleftrightarrow> m \<le> k \<and> (\<forall>n \<in> set ns. n \<le> (k :: nat))"
  by (induction ns arbitrary: m) auto

lemma fits_weaken: "fits ly n d \<Longrightarrow> d' \<le> d \<Longrightarrow> fits ly n d'"
  by (auto simp: fits_def) (meson add_le_mono1 add_left_mono le_trans mult_le_mono2)

lemma fits_step: "fits ly n (Suc d) \<Longrightarrow> fits ly (ly_next ly n) d"
  by (simp add: fits_def ly_next_def add.assoc)

lemma fits_elements:
  assumes "fits ly n (json_depth (JArray xs))" and "x \<in> set xs"
  shows "fits ly (ly_next ly n) (json_depth x)"
proof -
  have "xs \<noteq> []" using assms(2) by auto
  then have "fits ly (ly_next ly n) (fold max (map json_depth xs) 0)" using assms(1) fits_step by simp
  moreover have "json_depth x \<le> fold max (map json_depth xs) 0"
    using fold_max_le [of "map json_depth xs" 0 "fold max (map json_depth xs) 0"] assms(2) by auto
  ultimately show ?thesis by (rule fits_weaken)
qed

lemma fits_members:
  assumes "fits ly n (json_depth (JObject kvs))" and "(k, v) \<in> set kvs"
  shows "fits ly (ly_next ly n) (json_depth v)"
proof -
  let ?ds = "map (\<lambda>kv. json_depth (snd kv)) kvs"
  have "kvs \<noteq> []" using assms(2) by auto
  then have "fits ly (ly_next ly n) (fold max ?ds 0)" using assms(1) fits_step by simp
  moreover have "json_depth v \<le> fold max ?ds 0"
    using fold_max_le [of ?ds 0 "fold max ?ds 0"] assms(2) by force
  ultimately show ?thesis by (rule fits_weaken)
qed

lemma sz_dump_writes:
  "\<not> ascii \<Longrightarrow> ly_pretty ly = pretty \<Longrightarrow> ly_step ly = step \<Longrightarrow> printable j \<Longrightarrow> fits ly n (json_depth j)
    \<Longrightarrow> writes ly (json_text ly n j) (sz_dump pretty ascii step n j)"
  "\<not> ascii \<Longrightarrow> ly_pretty ly = pretty \<Longrightarrow> ly_step ly = step \<Longrightarrow> list_all printable xs
    \<Longrightarrow> (\<forall>x \<in> set xs. fits ly n (json_depth x))
    \<Longrightarrow> writes ly (elements_text ly n xs) (sz_elements pretty ascii step n xs)"
  "\<not> ascii \<Longrightarrow> ly_pretty ly = pretty \<Longrightarrow> ly_step ly = step
    \<Longrightarrow> list_all (\<lambda>kv. utf8_valid (fst kv) \<and> printable (snd kv)) kvs
    \<Longrightarrow> (\<forall>kv \<in> set kvs. fits ly n (json_depth (snd kv)))
    \<Longrightarrow> writes ly (members_text ly n kvs) (sz_members pretty ascii step n kvs)"
proof (induction pretty ascii step n j and pretty ascii step n xs and pretty ascii step n kvs
    rule: sz_dump_sz_elements_sz_members.induct)
  case (1 pretty ascii step cur kvs)
  have sub: "\<forall>kv \<in> set kvs. fits ly (ly_next ly cur) (json_depth (snd kv))"
    using fits_members "1.prems"(5) by fastforce
  show ?case
  proof (cases "kvs \<noteq> [] \<and> pretty")
    case False
    have "writes ly (concat [''{'', members_text ly cur kvs, ''}''])
        (run_actions [write_characters ''{'', sz_members pretty ascii step cur kvs, write_characters ''}''])"
      if "kvs \<noteq> []" "\<not> pretty"
      using that 1 sub by (intro writes_run) (auto simp: ly_next_def)
    then show ?thesis using False "1.prems" by (auto simp: ly_newline_def ly_indent_def ly_next_def simp del: run_actions.simps)
  next
    case True
    let ?next = "add_indent cur step"
    have n: "?next = ly_next ly cur" "ly_next ly cur \<le> 512" "cur \<le> 512"
      using "1.prems" True by (auto simp: add_indent_def ly_next_def fits_def)
    have "writes ly (concat [''{'' @ [newline], [], members_text ly ?next kvs, [newline], ly_indent ly cur, ''}''])
        (run_actions [write_characters (''{'' @ [newline]), grow_indent ?next,
           sz_members pretty ascii step ?next kvs, write_characters [newline], write_indent cur,
           write_characters ''}''])"
      using True 1 sub n by (intro writes_run) (simp add: writes_grow writes_indent)
    then show ?thesis using True "1.prems" n by (simp add: ly_newline_def del: run_actions.simps)
  qed
next
  case (2 pretty ascii step cur xs)
  have sub: "\<forall>x \<in> set xs. fits ly (ly_next ly cur) (json_depth x)"
    using fits_elements "2.prems"(5) by blast
  show ?case
  proof (cases "xs \<noteq> [] \<and> pretty")
    case False
    have "writes ly (concat [''['', elements_text ly cur xs, '']''])
        (run_actions [write_characters ''['', sz_elements pretty ascii step cur xs, write_characters '']''])"
      if "xs \<noteq> []" "\<not> pretty"
      using that 2 sub by (intro writes_run) (auto simp: ly_next_def)
    then show ?thesis using False "2.prems" by (auto simp: ly_newline_def ly_indent_def ly_next_def simp del: run_actions.simps)
  next
    case True
    let ?next = "add_indent cur step"
    have n: "?next = ly_next ly cur" "ly_next ly cur \<le> 512" "cur \<le> 512"
      using "2.prems" True by (auto simp: add_indent_def ly_next_def fits_def)
    have "writes ly (concat [''['' @ [newline], [], elements_text ly ?next xs, [newline], ly_indent ly cur, '']''])
        (run_actions [write_characters (''['' @ [newline]), grow_indent ?next,
           sz_elements pretty ascii step ?next xs, write_characters [newline], write_indent cur,
           write_characters '']''])"
      using True 2 sub n by (intro writes_run) (simp add: writes_grow writes_indent)
    then show ?thesis using True "2.prems" n by (simp add: ly_newline_def del: run_actions.simps)
  qed
next
  case (3 pretty ascii step cur s)
  have "writes ly (concat [[CHR 0x22], escape_text s, [CHR 0x22]])
      (run_actions [write_characters [CHR 0x22], write_escaped ascii s, write_characters [CHR 0x22]])"
    using 3 by (intro writes_run) (simp add: writes_escaped)
  then show ?case by (simp add: string_text_def del: run_actions.simps)
next
  case (12 pretty ascii step indent x xs)
  let ?nl = "if pretty then '','' @ [newline] else '',''"
  let ?ind = "if pretty then [write_indent indent] else []"
  let ?rest = "if xs = [] then [] else [write_characters ?nl, sz_elements pretty ascii step indent xs]"
  have "indent \<le> 512" if pretty using that "12.prems" by (simp add: fits_def)
  then have "writes ly (concat ((if pretty then [ly_indent ly indent] else []) @ [json_text ly indent x]
        @ (if xs = [] then [] else [?nl, elements_text ly indent xs])))
      (run_actions (?ind @ [sz_dump pretty ascii step indent x] @ ?rest))"
    using 12 by (intro writes_run) (cases pretty; simp add: writes_indent)
  then show ?case using "12.prems" by (simp add: ly_indent_def ly_newline_def del: run_actions.simps split: if_splits)
next
  case (14 pretty ascii step indent k v kvs)
  let ?nl = "if pretty then '','' @ [newline] else '',''"
  let ?colon = "if pretty then [CHR 0x22] @ '': '' else [CHR 0x22] @ '':''"
  let ?ind = "if pretty then [write_indent indent] else []"
  let ?rest = "if kvs = [] then [] else [write_characters ?nl, sz_members pretty ascii step indent kvs]"
  have "indent \<le> 512" if pretty using that "14.prems" by (simp add: fits_def)
  then have "writes ly (concat ((if pretty then [ly_indent ly indent] else [])
        @ [[CHR 0x22], escape_text k, ?colon, json_text ly indent v]
        @ (if kvs = [] then [] else [?nl, members_text ly indent kvs])))
      (run_actions (?ind @ [write_characters [CHR 0x22], write_escaped ascii k, write_characters ?colon,
         sz_dump pretty ascii step indent v] @ ?rest))"
    using 14 by (intro writes_run) (cases pretty; simp add: writes_indent writes_escaped)
  then show ?case
    using "14.prems" by (simp add: ly_indent_def ly_newline_def ly_colon_def string_text_def del: run_actions.simps split: if_splits)
qed (simp_all add: writes_float writes_unsigned writes_word dump_integer_def)

definition layout_of :: "int \<Rightarrow> char \<Rightarrow> layout" where
  "layout_of indent ic = \<lparr>ly_pretty = (0 \<le> indent), ly_char = ic, ly_step = nat indent\<rparr>"

lemma json_dump_is_text:
  assumes "printable j" and "fits (layout_of indent ic) 0 (json_depth j)"
  shows "json_dump indent ic False Strict j = Inr (json_text (layout_of indent ic) 0 j)"
proof -
  let ?ly = "layout_of indent ic"
  let ?a = "sz_dump (0 \<le> indent) False (nat indent) 0 j"
  have w: "writes ?ly (json_text ?ly 0 j) ?a"
    by (rule sz_dump_writes(1)) (use assms in \<open>simp_all add: layout_of_def\<close>)
  have sz: "length (sz_number_buffer (new_serializer ic Strict)) = 64
      \<and> sz_error_handler (new_serializer ic Strict) = Strict
      \<and> sz_indent_string (new_serializer ic Strict) = replicate 512 (ly_char ?ly)
      \<and> sz_out (new_serializer ic Strict) = []"
    by (simp add: new_serializer_def layout_of_def)
  have "(if 0 \<le> indent then sz_dump True False (nat indent) 0 j (new_serializer ic Strict)
      else sz_dump False False 0 0 j (new_serializer ic Strict)) = ?a (new_serializer ic Strict)"
    by simp
  then show ?thesis
    using w [unfolded writes_def, rule_format, of "new_serializer ic Strict"] sz
    by (auto simp: json_dump_def Let_def)
qed

section \<open>Signed integers\<close>

lemma sint_bounds: "- (2 ^ 63) \<le> sint (i :: 64 word) \<and> sint i < 2 ^ 63"
  using sint_ge [of i] sint_lt [of i] by simp

lemma uint_as_sint: "uint (i :: 64 word) = sint i mod 2 ^ 64"
  using uint_sint [of i] by (simp add: take_bit_eq_mod)

lemma unat_sint_nonneg: "0 \<le> sint i \<Longrightarrow> unat (i :: 64 word) = nat (sint i)"
  using uint_as_sint [of i] sint_bounds [of i] by (simp add: unat_eq_nat_uint)

lemma unat_minus_sint:
  assumes "sint i < 0"
  shows "unat (- i :: 64 word) = nat (- sint i)"
proof -
  have "uint (- i) = (- uint i) mod 2 ^ 64" by (simp add: uint_word_ariths)
  also have "\<dots> = (- sint i) mod 2 ^ 64" unfolding uint_as_sint by (rule mod_minus_eq)
  also have "\<dots> = - sint i" using assms sint_bounds [of i] by simp
  finally show ?thesis by (simp add: unat_eq_nat_uint)
qed

lemma to_string_zero: "to_string 0 = ''0''"
  by (simp add: to_string_small digit_char_def, code_simp)

lemma sign_text_int:
  "sign_text (i <s 0) i = (if sint i < 0 then CHR ''-'' # to_string (nat (- sint i)) else to_string (nat (sint i)))"
proof -
  have "i <s 0 \<longleftrightarrow> sint i < 0" by (simp add: word_sless_alt)
  then show ?thesis
    using unat_minus_sint [of i] unat_sint_nonneg [of i]
    by (auto simp: sign_text_def to_string_zero)
qed

section \<open>Properties of the serializer\<close>

text \<open>
  \<open>dump\<close> writes a signed or unsigned 64-bit integer as its decimal digits, with a minus sign for a
  negative one; this includes the smallest one, whose absolute value is not a signed integer. The
  digit count, the table of digit pairs and the buffer that is filled from its end agree.
\<close>

theorem integers_dump_as_decimals:
  "json_dump (- 1) ic ascii h (JInteger i) =
     Inr (if sint i < 0 then CHR ''-'' # to_string (nat (- sint i)) else to_string (nat (sint i)))
   \<and> json_dump (- 1) ic ascii h (JUnsigned u) = Inr (to_string (unat u))"
proof -
  let ?s = "new_serializer ic h"
  have s: "length (sz_number_buffer ?s) = 64" "sz_out ?s = []" by (simp_all add: new_serializer_def)
  have "sign_text False u = to_string (unat u)" by (simp add: sign_text_def to_string_zero)
  then show ?thesis
    using dump_word_text [OF s(1), of "i <s 0" i] dump_word_text [OF s(1), of False u] s(2)
    by (auto simp: json_dump_def dump_integer_def dump_unsigned_def Let_def sign_text_int)
qed

text \<open>
  C36: An indentation of more than 1025 columns makes \<open>dump\<close> of a non-empty array read behind the end
  of the indentation string, which one resize only brings to 1024 columns.
\<close>

theorem deep_indent_overruns:
  assumes "1025 < indent" and "indent < 2 ^ 31"
  shows "json_dump indent ic ascii h (JArray (x # xs)) = Inl (Undefined_behaviour ''read past indent_string'')"
proof -
  obtain k where k: "indent = int k" using assms(1) by (metis nonneg_int_cases less_imp_le order_trans zero_le_numeral)
  then have "add_indent 0 k = k" "1025 < k" using assms by (simp_all add: add_indent_def)
  then show ?thesis
    by (simp add: k json_dump_def write_characters_def grow_indent_def write_indent_def new_serializer_def Let_def)
qed

lemma deep_indent_overruns_witness:
  "json_dump 2000 CHR '' '' False Strict (JArray [JNull]) = Inl (Undefined_behaviour ''read past indent_string'')"
  by (rule deep_indent_overruns) simp_all

end
