(* ===== verification/Json_Scan.thy ===== *)
theory Json_Scan
  imports Json_Dump Json_Parser
begin

text \<open>
  What the lexer of \<^verbatim>\<open>include/nlohmann/json.hpp\<close> returns on the tokens the serializer writes:
  \<open>lx_at s r\<close> says that a lexer has the text \<open>r\<close> still to read, and every lemma on a kind of token
  gives the token, the value the lexer stores with it and the text that is left.
\<close>

section \<open>The text a lexer has still to read\<close>

definition lx_at :: "lexer \<Rightarrow> string \<Rightarrow> bool" where
  "lx_at s r \<longleftrightarrow> \<not> lx_ignore_comments s \<and>
     (if lx_next_unget s
      then (case lx_current s of None \<Rightarrow> r = [] \<and> lx_input s = [] | Some c \<Rightarrow> r = c # lx_input s)
      else r = lx_input s)"

definition opt_hd :: "string \<Rightarrow> char option" where
  "opt_hd r = (case r of [] \<Rightarrow> None | c # _ \<Rightarrow> Some c)"

lemma opt_hd_simps [simp]: "opt_hd [] = None" "opt_hd (c # r) = Some c"
  by (simp_all add: opt_hd_def)

lemma lx_at_get:
  assumes "lx_at s r"
  shows "lx_current (lx_get s) = opt_hd r" "lx_at (lx_get s) (tl r)"
    "lx_at (lx_unget (lx_get s)) r"
  using assms
  by (auto simp: lx_at_def lx_get_def lx_unget_def get_character_def opt_hd_def Let_def
      split: if_splits option.splits list.splits)

lemma lx_buffer_get [simp]:
  "lx_token_buffer (lx_get s) = lx_token_buffer s" "lx_token_buffer (lx_unget s) = lx_token_buffer s"
  by (auto simp: lx_get_def lx_unget_def get_character_def Let_def split: option.splits list.splits)

lemma lx_at_updates [simp]:
  "lx_at (s\<lparr>lx_error_message := e\<rparr>) r = lx_at s r"
  "lx_at (s\<lparr>lx_token_buffer := b\<rparr>) r = lx_at s r"
  "lx_at (s\<lparr>lx_token_string := b\<rparr>) r = lx_at s r"
  "lx_at (s\<lparr>lx_value_unsigned := u\<rparr>) r = lx_at s r"
  "lx_at (s\<lparr>lx_value_integer := i\<rparr>) r = lx_at s r"
  "lx_at (s\<lparr>lx_value_float := f\<rparr>) r = lx_at s r"
  by (simp_all add: lx_at_def split: option.split)

lemma lx_at_add [simp]: "lx_at (lx_add c s) r = lx_at s r"
  by (simp add: lx_add_def)

lemma lx_at_adds [simp]: "lx_at (lx_adds cs s) r = lx_at s r"
  unfolding lx_adds_def by (induction cs arbitrary: s) simp_all

lemma lx_buffer_add [simp]: "lx_token_buffer (lx_add (Some c) s) = lx_token_buffer s @ [c]"
  by (simp add: lx_add_def)

lemma lx_buffer_adds [simp]: "lx_token_buffer (lx_adds cs s) = lx_token_buffer s @ cs"
  unfolding lx_adds_def by (induction cs arbitrary: s) simp_all

lemma lx_reset_sel [simp]:
  "lx_at (lx_reset s) r = lx_at s r" "lx_token_buffer (lx_reset s) = []"
  "lx_current (lx_reset s) = lx_current s"
  by (simp_all add: lx_reset_def)

lemma lx_next:
  assumes "lx_at s (c # r)"
  shows "lx_current (lx_get s) = Some c" "lx_at (lx_get s) r"
  using lx_at_get [OF assms] by simp_all

section \<open>The start of a token\<close>

definition ws_string :: "string \<Rightarrow> bool" where
  "ws_string ws \<longleftrightarrow> list_all (\<lambda>c. is_ws (Some c)) ws"

lemma skip_whitespace_at:
  assumes "lx_at s (ws @ r)" and "ws_string ws" and "\<not> is_ws (opt_hd r)"
  shows "lx_current (lx_skip_whitespace s) = opt_hd r \<and> lx_at (lx_skip_whitespace s) (tl r)"
  using assms
proof (induction ws arbitrary: s)
  case Nil
  then show ?case
    using lx_at_get [of s r] by (subst (1 2) lx_skip_whitespace.simps) (simp add: Let_def)
next
  case (Cons c ws)
  then have "lx_current (lx_get s) = Some c" "lx_at (lx_get s) (ws @ r)" "is_ws (Some c)"
    using lx_next [of s c "ws @ r"] by (auto simp: ws_string_def)
  then show ?case
    using Cons by (subst (1 2) lx_skip_whitespace.simps) (simp add: Let_def ws_string_def)
qed

lemma skip_bom_at:
  assumes "lx_at s r" and "opt_hd r \<noteq> Some CHR 0xEF"
  shows "fst (lx_skip_bom s) \<and> lx_at (snd (lx_skip_bom s)) r"
  using lx_at_get [OF assms(1)] assms(2) by (simp add: lx_skip_bom_def Let_def)

lemma scan_start:
  assumes at: "lx_at s (ws @ r)" and ws: "ws_string ws" and r: "\<not> is_ws (opt_hd r)" "opt_hd r \<noteq> Some CHR 0xEF"
  shows "\<exists>s'. lx_scan s = lx_scan_token s' \<and> lx_current s' = opt_hd r \<and> lx_at s' (tl r)"
proof -
  have hd: "opt_hd (ws @ r) \<noteq> Some CHR 0xEF"
    using ws r(2) by (cases ws) (auto simp: ws_string_def is_ws_def)
  define b where "b = (if chars_read_total (lx_position s) = 0 then lx_skip_bom s else (True, s))"
  have b: "fst b" "lx_at (snd b) (ws @ r)"
    using skip_bom_at [OF at hd] at by (simp_all add: b_def)
  let ?s2 = "lx_skip_whitespace (snd b)"
  have s2: "lx_current ?s2 = opt_hd r" "lx_at ?s2 (tl r)"
    using skip_whitespace_at [OF b(2) ws r(1)] by auto
  have "lx_skip_comments ?s2 = (True, ?s2)"
    using s2(2) by (subst lx_skip_comments.simps) (simp add: lx_at_def)
  then have "lx_scan s = lx_scan_token ?s2"
    using b(1) by (cases b) (simp add: lx_scan_def b_def [symmetric])
  then show ?thesis using s2 by blast
qed

lemma scan_end:
  assumes "lx_at s []"
  shows "fst (lx_scan s) = Tok_end_of_input"
  using scan_start [of s "[]" "[]"] assms
  by (auto simp: ws_string_def is_ws_def lx_scan_token_def)

fun punctuation :: "char \<Rightarrow> token_type option" where
  "punctuation c =
     (if c = CHR ''['' then Some Tok_begin_array else if c = CHR '']'' then Some Tok_end_array
      else if c = CHR ''{'' then Some Tok_begin_object else if c = CHR ''}'' then Some Tok_end_object
      else if c = CHR '':'' then Some Tok_name_separator else if c = CHR '','' then Some Tok_value_separator
      else None)"

lemma scan_punctuation:
  assumes "lx_at s (ws @ c # r)" and "ws_string ws" and "punctuation c = Some t"
  shows "\<exists>s'. lx_scan s = (t, s') \<and> lx_at s' r"
proof -
  have "\<not> is_ws (Some c)" "c \<noteq> CHR 0xEF" using assms(3) by (auto simp: is_ws_def split: if_splits)
  then obtain s' where "lx_scan s = lx_scan_token s'" "lx_current s' = Some c" "lx_at s' r"
    using scan_start [OF assms(1,2)] by auto
  then show ?thesis using assms(3) by (auto simp: lx_scan_token_def split: if_splits)
qed

lemma literal_loop_at:
  "lx_at s (cs @ r) \<Longrightarrow> \<exists>s'. lx_literal_loop cs t s = (t, s') \<and> lx_at s' r"
proof (induction cs arbitrary: s)
  case (Cons c cs)
  then show ?case using lx_next [of s c "cs @ r"] by (simp add: Let_def)
qed simp

lemma scan_literal:
  assumes "lx_at s (ws @ l @ r)" and "ws_string ws"
    and "(l, t) \<in> {(''true'', Tok_literal_true), (''false'', Tok_literal_false), (''null'', Tok_literal_null)}"
  shows "\<exists>s'. lx_scan s = (t, s') \<and> lx_at s' r"
proof -
  have "\<not> is_ws (opt_hd (l @ r))" "opt_hd (l @ r) \<noteq> Some CHR 0xEF"
    using assms(3) by (auto simp: is_ws_def)
  then obtain s' where s': "lx_scan s = lx_scan_token s'" "lx_current s' = opt_hd (l @ r)" "lx_at s' (tl (l @ r))"
    using scan_start [OF assms(1,2)] by auto
  have "tl (l @ r) = tl l @ r" using assms(3) by auto
  then show ?thesis
    using s' assms(3) literal_loop_at [of s' "tl l" r t]
    by (auto simp: lx_scan_token_def lx_scan_literal_def)
qed

section \<open>Strings\<close>

lemma char_nat_char_of: "n < 256 \<Longrightarrow> char_nat (char_of n) = n"
  by (simp add: char_nat_def of_char_of)

lemma hex_digit_lower: "d < 16 \<Longrightarrow> hex_digit (Some (hex_lower d)) = Some d"
  by (simp add: hex_digit_def hex_lower_def char_nat_char_of Let_def)

lemma hex_digit_zero: "hex_digit (Some CHR ''0'') = Some 0"
  using hex_digit_lower [of 0] by (simp add: hex_lower_0)

lemma get_codepoint_low:
  assumes "lx_at s ([CHR ''0'', CHR ''0'', hex_lower a, hex_lower b] @ r)" and "a < 16" "b < 16"
  shows "\<exists>s'. lx_get_codepoint s = (Some (16 * a + b), s') \<and> lx_at s' r \<and> lx_token_buffer s' = lx_token_buffer s"
proof -
  have 1: "lx_current (lx_get s) = Some CHR ''0''" "lx_at (lx_get s) ([CHR ''0'', hex_lower a, hex_lower b] @ r)"
    using lx_next [of s] assms(1) by simp_all
  have 2: "lx_current (lx_get (lx_get s)) = Some CHR ''0''"
    "lx_at (lx_get (lx_get s)) ([hex_lower a, hex_lower b] @ r)"
    using lx_next [of "lx_get s"] 1(2) by simp_all
  have 3: "lx_current (lx_get (lx_get (lx_get s))) = Some (hex_lower a)"
    "lx_at (lx_get (lx_get (lx_get s))) ([hex_lower b] @ r)"
    using lx_next [of "lx_get (lx_get s)"] 2(2) by simp_all
  have 4: "lx_current (lx_get (lx_get (lx_get (lx_get s)))) = Some (hex_lower b)"
    "lx_at (lx_get (lx_get (lx_get (lx_get s)))) r"
    using lx_next [of "lx_get (lx_get (lx_get s))"] 3(2) by simp_all
  note 1 2 3 4
  then show ?thesis
    using assms(2,3)
    by (simp add: lx_get_codepoint_def hex_digit_zero hex_digit_lower Let_def push_bit_eq_mult)
qed

lemma utf8_bytes_low: "n < 0x80 \<Longrightarrow> utf8_bytes n = [char_of n]"
  by (simp add: utf8_bytes_def)

lemma char_of_char_nat [simp]: "char_of (char_nat c) = c"
  by (simp add: char_nat_def)

lemma char_nat_eq: "char_nat c = n \<longleftrightarrow> c = char_of n" if "n < 256"
  using that by (metis char_of_char_nat char_nat_def of_char_of mod_less)

lemma string_step_low:
  assumes at: "lx_at s (escape_byte c @ r)" and c: "char_nat c < 0x80"
  shows "\<exists>s'. lx_string_step s = (None, s') \<and> lx_at s' r \<and> lx_token_buffer s' = lx_token_buffer s @ [c]"
proof -
  have chars: "char_of (8 :: nat) = CHR 0x08" "char_of (9 :: nat) = CHR 0x09" "char_of (10 :: nat) = CHR 0x0A"
    "char_of (12 :: nat) = CHR 0x0C" "char_of (13 :: nat) = CHR 0x0D" "char_of (34 :: nat) = CHR 0x22"
    "char_of (92 :: nat) = CHR 0x5C"
    by code_simp+
  have esc: "\<exists>s'. lx_string_step s = (None, s') \<and> lx_at s' r \<and> lx_token_buffer s' = lx_token_buffer s @ [c]"
    if e: "escape_byte c = [bslash, d]"
      and d: "(d, c) \<in> {(CHR 0x22, CHR 0x22), (bslash, bslash), (CHR ''b'', CHR 0x08),
                (CHR ''f'', CHR 0x0C), (CHR ''n'', CHR 0x0A), (CHR ''r'', CHR 0x0D), (CHR ''t'', CHR 0x09)}" for d
  proof -
    have "lx_current (lx_get s) = Some bslash" "lx_current (lx_get (lx_get s)) = Some d"
      "lx_at (lx_get (lx_get s)) r"
      using at e lx_next [of s bslash "d # r"] lx_next [of "lx_get s" d r] by auto
    then show ?thesis using d by (auto simp: lx_string_step_def lx_escape_def Let_def)
  qed
  consider "char_nat c \<in> {8, 9, 10, 12, 13, 34, 92}" | "char_nat c \<le> 0x1F" "char_nat c \<notin> {8, 9, 10, 12, 13}"
    | "plain_ascii (char_nat c)"
    using c by (cases "char_nat c \<le> 0x1F") (auto simp: plain_ascii_def)
  then show ?thesis
  proof cases
    case 1
    then show ?thesis
      using esc by (auto simp: char_nat_eq chars escape_byte_def Let_def)
  next
    case 2
    let ?n = "char_nat c"
    have e: "escape_byte c = [bslash, CHR ''u'', CHR ''0'', CHR ''0'', hex_lower (?n div 16), hex_lower (?n mod 16)]"
      using 2 by (simp add: escape_byte_def Let_def)
    have cur: "lx_current (lx_get s) = Some bslash" "lx_current (lx_get (lx_get s)) = Some CHR ''u''"
      and at2: "lx_at (lx_get (lx_get s)) ([CHR ''0'', CHR ''0'', hex_lower (?n div 16), hex_lower (?n mod 16)] @ r)"
      using at e lx_next [of s bslash] lx_next [of "lx_get s" "CHR ''u''"] by auto
    obtain s4 where "lx_get_codepoint (lx_get (lx_get s)) = (Some ?n, s4)" "lx_at s4 r"
      "lx_token_buffer s4 = lx_token_buffer s"
      using get_codepoint_low [OF at2] 2 by (auto simp: div_less_iff_less_mult)
    then show ?thesis
      using cur 2 utf8_bytes_low [of ?n]
      by (simp add: lx_string_step_def lx_escape_def lx_unicode_escape_def Let_def)
  next
    case 3
    have e: "escape_byte c = [c]" using 3 by (simp add: escape_byte_def plain_ascii_def)
    then have "lx_current (lx_get s) = Some c" "lx_at (lx_get s) r" using at lx_next [of s c r] by auto
    moreover have "c \<noteq> CHR 0x22" "c \<noteq> bslash" "\<not> char_nat c \<le> 0x1F"
      using 3 by (auto simp: plain_ascii_def char_nat_def)
    ultimately show ?thesis using 3 by (simp add: lx_string_step_def Let_def)
  qed
qed

text \<open>A sequence of several bytes.\<close>

lemma utf8_from_ranges:
  "utf8_from rs u \<Longrightarrow> \<exists>v w. u = v @ w \<and> utf8_from [] w
     \<and> list_all2 (\<lambda>rg c. fst rg \<le> char_nat c \<and> char_nat c \<le> snd rg) rs v"
proof (induction rs arbitrary: u)
  case (Cons rg rs)
  obtain lo hi where rg: "rg = (lo, hi)" by (cases rg)
  obtain c u' where u: "u = c # u'" "lo \<le> char_nat c" "char_nat c \<le> hi" "utf8_from rs u'"
    using Cons.prems by (cases u) (auto simp: rg range_next_def split: if_splits)
  obtain v w where "u' = v @ w" "utf8_from [] w"
    "list_all2 (\<lambda>rg c. fst rg \<le> char_nat c \<and> char_nat c \<le> snd rg) rs v"
    using Cons.IH [OF u(4)] by blast
  then have "u = (c # v) @ w \<and> utf8_from [] w
      \<and> list_all2 (\<lambda>rg c. fst rg \<le> char_nat c \<and> char_nat c \<le> snd rg) (rg # rs) (c # v)"
    using u rg by simp
  then show ?case by blast
qed simp

lemma range_loop_at:
  "lx_at s (v @ r) \<Longrightarrow> list_all2 (\<lambda>rg c. fst rg \<le> char_nat c \<and> char_nat c \<le> snd rg) rs v \<Longrightarrow>
    \<exists>s'. lx_range_loop rs s = (True, s') \<and> lx_at s' r \<and> lx_token_buffer s' = lx_token_buffer s @ v"
proof (induction rs arbitrary: s v)
  case (Cons rg rs)
  obtain lo hi where rg: "rg = (lo, hi)" by (cases rg)
  obtain c v' where v: "v = c # v'" using Cons.prems by (cases v) auto
  have "lx_current (lx_get s) = Some c" "lx_at (lx_get s) (v' @ r)"
    using Cons.prems(1) v lx_next [of s c "v' @ r"] by auto
  then show ?case
    using Cons.prems Cons.IH [of "lx_add (Some c) (lx_get s)" v'] by (simp add: rg v Let_def)
qed simp

lemma tail_ranges_high:
  "utf8_tail_ranges n = Some rs \<Longrightarrow> 0x80 \<le> n \<and> (\<forall>rg \<in> set rs. 0x80 \<le> fst rg)"
  by (auto simp: utf8_tail_ranges_def split: if_splits)

lemma ranges_high:
  "list_all2 (\<lambda>rg c. fst rg \<le> char_nat c \<and> char_nat c \<le> snd rg) rs v \<Longrightarrow>
    \<forall>rg \<in> set rs. 0x80 \<le> fst rg \<Longrightarrow> \<forall>d \<in> set v. 0x80 \<le> char_nat d"
  by (induction rule: list_all2_induct) auto

lemma escape_text_high:
  "\<forall>c \<in> set v. 0x80 \<le> char_nat c \<Longrightarrow> escape_text v = v"
  by (induction v) (simp_all add: escape_text_def escape_byte_high)

lemma escape_text_append: "escape_text (u @ v) = escape_text u @ escape_text v"
  by (simp add: escape_text_def)

lemma string_step_high:
  assumes at: "lx_at s (c # v @ r)" and rs: "utf8_tail_ranges (char_nat c) = Some rs"
    and v: "list_all2 (\<lambda>rg c. fst rg \<le> char_nat c \<and> char_nat c \<le> snd rg) rs v"
  shows "\<exists>s'. lx_string_step s = (None, s') \<and> lx_at s' r \<and> lx_token_buffer s' = lx_token_buffer s @ c # v"
proof -
  have cur: "lx_current (lx_get s) = Some c" "lx_at (lx_get s) (v @ r)" using lx_next [OF at] by auto
  have "0x80 \<le> char_nat c" using tail_ranges_high [OF rs] by simp
  then have "c \<noteq> CHR 0x22" "c \<noteq> bslash" "\<not> char_nat c \<le> 0x1F" "\<not> plain_ascii (char_nat c)"
    by (auto simp: plain_ascii_def char_nat_def)
  moreover obtain s' where "lx_range_loop rs (lx_add (Some c) (lx_get s)) = (True, s')" "lx_at s' r"
    "lx_token_buffer s' = lx_token_buffer s @ c # v"
    using range_loop_at [of "lx_add (Some c) (lx_get s)" v r rs] cur v by auto
  ultimately show ?thesis
    using cur rs by (simp add: lx_string_step_def lx_multibyte_def lx_next_byte_in_range_def Let_def)
qed

lemma string_loop_at:
  "lx_at s (escape_text u @ CHR 0x22 # r) \<Longrightarrow> utf8_from [] u \<Longrightarrow>
    \<exists>s'. lx_string_loop s = (Tok_value_string, s') \<and> lx_at s' r \<and> lx_token_buffer s' = lx_token_buffer s @ u"
proof (induction u arbitrary: s rule: length_induct)
  case (1 u)
  show ?case
  proof (cases u)
    case Nil
    have "lx_current (lx_get s) = Some CHR 0x22" "lx_at (lx_get s) r"
      using "1.prems"(1) lx_next [of s "CHR 0x22" r] Nil by (auto simp: escape_text_def)
    then show ?thesis
      using Nil by (subst lx_string_loop.simps) (simp add: lx_string_step_def Let_def)
  next
    case (Cons c u')
    obtain v w where u: "u = c # v @ w" and w: "utf8_from [] w"
      and step: "\<exists>s'. lx_string_step s = (None, s') \<and> lx_at s' (escape_text w @ CHR 0x22 # r)
        \<and> lx_token_buffer s' = lx_token_buffer s @ c # v"
    proof (cases "char_nat c < 0x80")
      case True
      then have "utf8_from [] u'" using "1.prems"(2) Cons by (simp add: range_next_def)
      moreover have "\<exists>s'. lx_string_step s = (None, s') \<and> lx_at s' (escape_text u' @ CHR 0x22 # r)
        \<and> lx_token_buffer s' = lx_token_buffer s @ [c]"
        using string_step_low [of s c] "1.prems"(1) True Cons by (simp add: escape_text_def)
      ultimately show ?thesis using that [of "[]" u'] Cons by simp
    next
      case False
      then obtain rs where rs: "utf8_tail_ranges (char_nat c) = Some rs" "utf8_from rs u'"
        using "1.prems"(2) Cons by (auto simp: range_next_def split: option.splits)
      obtain v w where vw: "u' = v @ w" "utf8_from [] w"
        "list_all2 (\<lambda>rg c. fst rg \<le> char_nat c \<and> char_nat c \<le> snd rg) rs v"
        using utf8_from_ranges [OF rs(2)] by blast
      have "\<forall>d \<in> set (c # v). 0x80 \<le> char_nat d"
        using tail_ranges_high [OF rs(1)] ranges_high [OF vw(3)] by auto
      then have "lx_at s (c # v @ escape_text w @ CHR 0x22 # r)"
        using "1.prems"(1) Cons vw(1) escape_text_high [of "c # v"] escape_text_append [of "c # v" w] by simp
      then show ?thesis using string_step_high [OF _ rs(1) vw(3)] that [of v w] Cons vw by simp
    qed
    then obtain s' where s': "lx_string_step s = (None, s')" "lx_at s' (escape_text w @ CHR 0x22 # r)"
      "lx_token_buffer s' = lx_token_buffer s @ c # v"
      by blast
    obtain s'' where "lx_string_loop s' = (Tok_value_string, s'')" "lx_at s'' r"
      "lx_token_buffer s'' = lx_token_buffer s' @ w"
      using "1.IH" [rule_format, of w s'] u w s'(2) by auto
    then show ?thesis using s' u by (subst lx_string_loop.simps) simp
  qed
qed

lemma scan_string:
  assumes "lx_at s (ws @ string_text u @ r)" and "ws_string ws" and "utf8_valid u"
  shows "\<exists>s'. lx_scan s = (Tok_value_string, s') \<and> lx_at s' r \<and> lx_token_buffer s' = u"
proof -
  have "\<not> is_ws (opt_hd (string_text u @ r))" "opt_hd (string_text u @ r) \<noteq> Some CHR 0xEF"
    by (auto simp: is_ws_def string_text_def)
  then obtain s' where s': "lx_scan s = lx_scan_token s'" "lx_current s' = opt_hd (string_text u @ r)"
    "lx_at s' (tl (string_text u @ r))"
    using scan_start [OF assms(1,2)] by blast
  then show ?thesis
    using string_loop_at [of "lx_reset s'" u r] assms(3)
    by (simp add: lx_scan_token_def string_text_def lx_scan_string_def utf8_valid_def)
qed

section \<open>Numbers\<close>

text \<open>The run of the number automaton over a text it does not stop in.\<close>

fun num_run :: "num_state \<Rightarrow> token_type \<Rightarrow> string \<Rightarrow> (num_state \<times> token_type) option" where
  "num_run st ty [] = Some (st, ty)"
| "num_run st ty (c # cs) =
     (case num_next st (Some c) of
        Inl m \<Rightarrow> None
      | Inr st' \<Rightarrow> if st' = NDone then None else num_run st' (num_enter st ty) cs)"

lemma number_loop_at:
  "lx_at s (cs @ r) \<Longrightarrow> num_run st ty cs = Some (st', ty') \<Longrightarrow> num_next st' (opt_hd r) = Inr NDone \<Longrightarrow>
    \<exists>s'. lx_number_loop st ty s = lx_number_done (num_enter st' ty') s'
      \<and> lx_at (lx_unget s') r \<and> lx_token_buffer s' = lx_token_buffer s @ cs"
proof (induction cs arbitrary: st ty s)
  case Nil
  then show ?case
    using lx_at_get [of s r] by (subst lx_number_loop.simps) (auto simp: Let_def)
next
  case (Cons c cs)
  have cur: "lx_current (lx_get s) = Some c" "lx_at (lx_get s) (cs @ r)"
    using Cons.prems(1) lx_next [of s c "cs @ r"] by auto
  obtain st1 where st1: "num_next st (Some c) = Inr st1" "st1 \<noteq> NDone"
    "num_run st1 (num_enter st ty) cs = Some (st', ty')"
    using Cons.prems(2) by (auto split: sum.splits if_splits)
  obtain s' where "lx_number_loop st1 (num_enter st ty) (lx_add (Some c) (lx_get s)) = lx_number_done (num_enter st' ty') s'"
    "lx_at (lx_unget s') r" "lx_token_buffer s' = lx_token_buffer s @ c # cs"
    using Cons.IH [of "lx_add (Some c) (lx_get s)" st1 "num_enter st ty"] cur st1 Cons.prems(3) by auto
  then show ?case
    using cur st1 by (subst lx_number_loop.simps) (auto simp: Let_def)
qed

lemma num_run_append:
  "num_run st ty (cs @ ds) = (case num_run st ty cs of None \<Rightarrow> None | Some (st', ty') \<Rightarrow> num_run st' ty' ds)"
  by (induction cs arbitrary: st ty) (auto split: sum.split)

text \<open>The first state and type, by the first character.\<close>

definition num_first :: "char \<Rightarrow> num_state" where
  "num_first c = (if c = CHR ''-'' then NMinus else if c = CHR ''0'' then NZero else NAny1)"

lemma scan_number:
  assumes at: "lx_at s (ws @ (c # cs) @ r)" and ws: "ws_string ws" and c: "c = CHR ''-'' \<or> is_digit c"
    and run: "num_run (num_first c) Tok_value_unsigned cs = Some (st', ty')"
    and stop: "num_next st' (opt_hd r) = Inr NDone"
  shows "\<exists>s'. lx_scan s = lx_number_done (num_enter st' ty') s'
    \<and> lx_at (lx_unget s') r \<and> lx_token_buffer s' = c # cs"
proof -
  have special: "c \<notin> set (''[]{}:,tfn'' @ [CHR 0x22, CHR 0x00, CHR 0xEF, CHR '' '', CHR 0x09, newline, CHR 0x0D])"
    using c by (auto simp: is_digit_def char_nat_def)
  then have "\<not> is_ws (opt_hd ((c # cs) @ r))" "opt_hd ((c # cs) @ r) \<noteq> Some CHR 0xEF"
    by (auto simp: is_ws_def)
  then obtain s1 where s1: "lx_scan s = lx_scan_token s1" "lx_current s1 = Some c" "lx_at s1 (cs @ r)"
    using scan_start [OF at ws] by auto
  have "lx_scan_token s1 = lx_number_loop (num_first c) Tok_value_unsigned (lx_add (Some c) (lx_reset s1))"
    using s1(2) special c by (auto simp: lx_scan_token_def lx_scan_number_def num_first_def Let_def)
  then show ?thesis
    using s1 number_loop_at [of "lx_add (Some c) (lx_reset s1)" cs r, OF _ run stop] by auto
qed

section \<open>Integers\<close>

lemma num_run_digits:
  "\<forall>c \<in> set ds. is_digit c \<Longrightarrow> st \<in> {NAny1, NDecimal2, NAny2} \<Longrightarrow> num_run st ty ds = Some (st, ty)"
proof (induction ds arbitrary: ty)
  case (Cons d ds)
  then have "num_next st (Some d) = Inr st" "num_enter st ty = ty" by (auto simp: is_opt_digit_def)
  then show ?case using Cons by auto
qed simp

definition num_delim :: "string \<Rightarrow> bool" where
  "num_delim r \<longleftrightarrow> opt_hd r \<in> {None, Some CHR '','', Some CHR '']'', Some CHR ''}'', Some newline}"

lemma num_delim_done:
  "num_delim r \<Longrightarrow> st \<in> {NZero, NAny1, NDecimal2, NAny2} \<Longrightarrow> num_next st (opt_hd r) = Inr NDone"
  by (auto simp: num_delim_def is_opt_digit_def is_opt_exp_def is_digit_def char_nat_def)

lemma to_string_shape:
  assumes "0 < n"
  obtains c cs where "to_string n = c # cs" "is_digit c" "c \<noteq> CHR ''0''" "\<forall>c \<in> set cs. is_digit c"
proof -
  obtain c cs where "to_string n = c # cs" by (meson neq_Nil_conv to_string_nonempty)
  then show thesis using that to_string_digits [of _ n] to_string_hd [OF assms] by auto
qed

lemma scan_unsigned:
  assumes "lx_at s (ws @ to_string (unat u) @ r)" and "ws_string ws" and "num_delim r"
  shows "\<exists>s'. lx_scan s = (Tok_value_unsigned, s') \<and> lx_at s' r \<and> lx_value_unsigned s' = u"
proof -
  obtain c cs st where c: "to_string (unat u) = c # cs" "is_digit c"
    and run: "num_run (num_first c) Tok_value_unsigned cs = Some (st, Tok_value_unsigned)"
    and st: "st \<in> {NZero, NAny1}"
  proof (cases "unat u = 0")
    case True
    then show ?thesis
      using that [of "CHR ''0''" "[]" NZero] by (auto simp: to_string_zero num_first_def is_digit_def char_nat_def)
  next
    case False
    then obtain c cs where "to_string (unat u) = c # cs" "is_digit c" "c \<noteq> CHR ''0''" "\<forall>c \<in> set cs. is_digit c"
      using to_string_shape [of "unat u"] by auto
    then show ?thesis
      using that [of c cs NAny1] num_run_digits [of cs NAny1] digit_not_special by (auto simp: num_first_def)
  qed
  obtain s' where s': "lx_scan s = lx_number_done Tok_value_unsigned s'" "lx_at (lx_unget s') r"
    "lx_token_buffer s' = to_string (unat u)"
    using scan_number [of s ws c cs r st Tok_value_unsigned] assms c run st num_delim_done [OF assms(3), of st]
    by auto
  have "unat u < 2 ^ 64" using unsigned_less [of u, where ?'a = nat] by simp
  then show ?thesis
    using s' dec_value_to_string [of "unat u"] by (simp add: lx_number_done_def Let_def)
qed

lemma scan_negative:
  assumes "lx_at s (ws @ (CHR ''-'' # to_string (nat (- sint i))) @ r)" and "ws_string ws" and "num_delim r"
    and "sint i < 0"
  shows "\<exists>s'. lx_scan s = (Tok_value_integer, s') \<and> lx_at s' r \<and> lx_value_integer s' = i"
proof -
  let ?n = "nat (- sint i)"
  have "0 < ?n" using assms(4) by simp
  then obtain c cs where c: "to_string ?n = c # cs" "is_digit c" "c \<noteq> CHR ''0''" "\<forall>c \<in> set cs. is_digit c"
    by (rule to_string_shape)
  have "num_run NMinus Tok_value_unsigned (c # cs) = Some (NAny1, Tok_value_integer)"
    using c num_run_digits [of cs NAny1 Tok_value_integer] by (auto simp: is_opt_digit_def)
  then obtain s' where s': "lx_scan s = lx_number_done Tok_value_integer s'" "lx_at (lx_unget s') r"
    "lx_token_buffer s' = CHR ''-'' # to_string ?n"
    using scan_number [of s ws "CHR ''-''" "c # cs" r NAny1 Tok_value_integer] assms c
      num_delim_done [OF assms(3), of NAny1] by (auto simp: num_first_def)
  have "- int ?n = sint i" "?n \<le> 2 ^ 63" using assms(4) sint_bounds [of i] by auto
  then show ?thesis
    using s' dec_value_to_string [of ?n] by (simp add: lx_number_done_def Let_def)
qed

end
