(* ===== verification/Json_Double.thy ===== *)
theory Json_Double
  imports Json_Grisu Json_Scan Json_Dump
begin

text \<open>
  The text of a double reads back as the same double: \<^verbatim>\<open>strtod\<close> rounds to the nearest double, the
  digits of Grisu2 lie between the neighbours of the double they stand for, and \<^verbatim>\<open>format_buffer\<close>
  places the decimal point so that the text is a JSON number of that value.
\<close>

section \<open>Rounding to the nearest double\<close>

lemma bit_len_bounds: "0 < n \<Longrightarrow> 2 ^ bit_len n \<le> 2 * n \<and> n < 2 ^ bit_len n"
proof (induction n rule: bit_len.induct)
  case (1 n)
  show ?case
  proof (cases "n = 1")
    case True
    then show ?thesis by (simp add: bit_len.simps)
  next
    case False
    then have "2 ^ bit_len (n div 2) \<le> 2 * (n div 2) \<and> n div 2 < 2 ^ bit_len (n div 2)" using 1 by simp
    moreover have "bit_len n = Suc (bit_len (n div 2))" using "1.prems" by (simp add: bit_len.simps [of n])
    ultimately show ?thesis by auto
  qed
qed

lemma powi_nat_split: "(2 :: real) powi q = 2 ^ nat q / 2 ^ nat (- q)"
  by (cases "0 \<le> q") (simp_all add: power_int_def power_one_over inverse_eq_divide)

lemma div_half_even_near:
  assumes "0 < d" and "2 * n < (2 * m + 1) * d" and "2 * m * d < 2 * n + d"
  shows "div_half_even n d = m"
proof -
  define q r where "q = n div d" and "r = n mod d"
  have n: "n = q * d + r" "r < d" using assms(1) by (simp_all only: q_def r_def div_mult_mod_eq) simp
  have "2 * q * d < (2 * m + 1) * d" using assms(2) n by (simp add: algebra_simps)
  then have "2 * q < 2 * m + 1" by (simp only: mult_less_cancel2)
  then have "q \<le> m" by simp
  have "2 * m * d < (2 * q + 3) * d" using assms(3) n by (simp add: algebra_simps)
  then have "2 * m < 2 * q + 3" by (simp only: mult_less_cancel2)
  then have "m \<le> q + 1" by simp
  have dhe: "div_half_even n d = (if 2 * r < d then q else if d < 2 * r then q + 1 else if even q then q else q + 1)"
    by (simp add: div_half_even_def q_def r_def Let_def)
  show ?thesis
  proof (cases "m = q")
    case True
    then have "2 * r < d" using assms(2) n(1) by (simp add: algebra_simps)
    then show ?thesis using dhe True by simp
  next
    case False
    then have m: "m = q + 1" using \<open>q \<le> m\<close> \<open>m \<le> q + 1\<close> by simp
    then have "d < 2 * r" using assms(3) n(1) by (simp add: algebra_simps)
    then show ?thesis using dhe m by simp
  qed
qed

lemma div_half_even_real:
  assumes "0 < den" and "(real m - 1 / 2) * 2 powi q < real num / real den" and "real num / real den < (real m + 1 / 2) * 2 powi q"
  shows "div_half_even (num * 2 ^ nat (- q)) (den * 2 ^ nat q) = m"
proof (rule div_half_even_near)
  define a b where "a = (2 :: nat) ^ nat q" and "b = (2 :: nat) ^ nat (- q)"
  have q: "(2 :: real) powi q = real a / real b" and pos: "0 < real a" "0 < real b" "0 < real den"
    using assms(1) by (simp_all add: powi_nat_split a_def b_def)
  have "(2 * real m - 1) * (real den * real a) < 2 * (real num * real b)"
    using assms(2) pos unfolding q by (simp add: field_simps)
  then have "real (2 * m * (den * a)) < real (2 * (num * b) + den * a)" by (simp add: algebra_simps)
  then show "2 * m * (den * 2 ^ nat q) < 2 * (num * 2 ^ nat (- q)) + den * 2 ^ nat q"
    unfolding a_def b_def by (simp only: of_nat_less_iff)
  have "2 * (real num * real b) < (2 * real m + 1) * (real den * real a)"
    using assms(3) pos unfolding q by (simp add: field_simps)
  then have "real (2 * (num * b)) < real ((2 * m + 1) * (den * a))" by (simp add: algebra_simps)
  then show "2 * (num * 2 ^ nat (- q)) < (2 * m + 1) * (den * 2 ^ nat q)"
    unfolding a_def b_def by (simp only: of_nat_less_iff)
  show "0 < den * 2 ^ nat q" using assms(1) by simp
qed

text \<open>The exponent \<^verbatim>\<open>round_double\<close> starts from makes the quotient a number of 53 bits.\<close>

definition rd_exponent :: "nat \<Rightarrow> nat \<Rightarrow> int" where
  "rd_exponent num den =
     (let q0 = int (bit_len num) - int (bit_len den) - 53
      in if 2 ^ 53 * den * 2 ^ nat q0 \<le> num * 2 ^ nat (- q0) then q0 + 1 else q0)"

lemma rd_exponent_bounds:
  assumes "0 < num" and "0 < den"
  shows "2 ^ 52 * 2 powi rd_exponent num den \<le> real num / real den"
    "real num / real den < 2 ^ 53 * 2 powi rd_exponent num den"
proof -
  define ln ld q0 where "ln = bit_len num" and "ld = bit_len den" and "q0 = int ln - int ld - 53"
  have pos: "0 < real den" using assms by simp
  have "real (2 ^ ln) \<le> real (2 * num)" "real num < real (2 ^ ln)" "real (2 ^ ld) \<le> real (2 * den)" "real den < real (2 ^ ld)"
    unfolding ln_def ld_def using bit_len_bounds [OF assms(1)] bit_len_bounds [OF assms(2)]
    by (simp_all only: of_nat_le_iff of_nat_less_iff)
  then have b: "2 ^ ln \<le> 2 * real num" "real num < 2 ^ ln" "2 ^ ld \<le> 2 * real den" "real den < 2 ^ ld" by simp_all
  have q0: "(2 :: real) powi q0 = 2 ^ ln / (2 ^ ld * 2 ^ 53)"
    by (simp add: q0_def power_int_diff)
  have low: "2 ^ 52 * 2 powi q0 \<le> real num / real den"
  proof -
    have "2 ^ ln * real den \<le> 2 * real num * 2 ^ ld" using b pos by (intro mult_mono) simp_all
    then show ?thesis using pos unfolding q0 by (simp add: field_simps)
  qed
  have high: "real num / real den < 2 ^ 54 * 2 powi q0"
  proof -
    have "real num * 2 ^ ld < 2 ^ ln * (2 * real den)" using b pos by (intro mult_less_le_imp_less) simp_all
    then show ?thesis using pos unfolding q0 by (simp add: field_simps)
  qed
  have test: "2 ^ 53 * den * 2 ^ nat q0 \<le> num * 2 ^ nat (- q0) \<longleftrightarrow> 2 ^ 53 * 2 powi q0 \<le> real num / real den"
  proof -
    have "2 ^ 53 * 2 powi q0 \<le> real num / real den \<longleftrightarrow>
        real (2 ^ 53 * den * 2 ^ nat q0) \<le> real (num * 2 ^ nat (- q0))"
      using pos unfolding powi_nat_split by (simp add: field_simps)
    then show ?thesis by (simp only: of_nat_le_iff)
  qed
  have "rd_exponent num den = (if 2 ^ 53 * 2 powi q0 \<le> real num / real den then q0 + 1 else q0)"
    unfolding rd_exponent_def Let_def ln_def [symmetric] ld_def [symmetric] q0_def [symmetric] test ..
  then show "2 ^ 52 * 2 powi rd_exponent num den \<le> real num / real den"
    "real num / real den < 2 ^ 53 * 2 powi rd_exponent num den"
    using low high by (auto simp: power_int_add)
qed

lemma two_powi_less: "(2 :: real) ^ j * 2 powi a < 2 ^ k * 2 powi b \<Longrightarrow> int j + a < int k + b"
proof -
  assume "(2 :: real) ^ j * 2 powi a < 2 ^ k * 2 powi b"
  then have "(2 :: real) powi (int j + a) < 2 powi (int k + b)" by (simp add: power_int_add)
  then have "\<not> int k + b \<le> int j + a" using power_int_increasing [of "int k + b" "int j + a" "2 :: real"] by linarith
  then show ?thesis by simp
qed

lemma round_double_eq:
  assumes "0 < num"
  shows "round_double neg num den =
    (let q = max (- 1074) (rd_exponent num den); m = div_half_even (num * 2 ^ nat (- q)) (den * 2 ^ nat q)
     in if 971 < q \<or> q = 971 \<and> 2 ^ 53 \<le> m then Double_inf neg
        else if m = 0 then Double_fin neg 0 0
        else if m = 2 ^ 53 then Double_fin neg (2 ^ 52) (q + 1)
        else Double_fin neg m q)"
proof -
  have "num \<noteq> 0" using assms by simp
  then show ?thesis by (simp only: round_double_def rd_exponent_def Let_def if_False)
qed

lemma round_double_nearest:
  assumes wf: "0 < m" "m < 2 ^ 53" "- 1074 \<le> e" "e \<le> 971" "m < 2 ^ 52 \<longrightarrow> e = - 1074"
    and "0 < num" "0 < den"
    and from_m: "rounds_from m e < real num / real den" and below: "real num / real den < rounds_below m e"
  shows "round_double neg num den = Double_fin neg m e"
proof -
  define X where "X = real num / real den"
  define q1 where "q1 = rd_exponent num den"
  note q1 = rd_exponent_bounds [OF assms(6,7), folded X_def q1_def]
  have X: "X < (real m + 1 / 2) * 2 powi e" using below by (simp add: X_def rounds_below_def)
  have pos: "0 < (2 :: real) powi e" by simp
  have m53: "real m + 1 \<le> 2 ^ 53" using of_nat_mono [of "m + 1" "2 ^ 53", where ?'a = real] wf(2) by simp
  have "(real m + 1 / 2) * 2 powi e \<le> 2 ^ 53 * 2 powi e" using m53 by (intro mult_right_mono) simp_all
  then have "X < 2 ^ 53 * 2 powi e" using X by linarith
  then have "(2 :: real) ^ 52 * 2 powi q1 < 2 ^ 53 * 2 powi e" using q1(1) by linarith
  then have q1_le: "q1 \<le> e" using two_powi_less by fastforce
  have q1_ge: "a \<le> q1" if "2 ^ 52 * 2 powi a \<le> X" for a
  proof -
    have "(2 :: real) ^ 52 * 2 powi a < 2 ^ 53 * 2 powi q1" using q1(2) that by linarith
    then show ?thesis using two_powi_less by fastforce
  qed
  show ?thesis
  proof (cases "m = 2 ^ 52 \<and> e \<noteq> - 1074 \<and> X < 2 ^ 52 * 2 powi e")
    case True
    then have m: "m = 2 ^ 52" "e \<noteq> - 1074" and less: "X < 2 ^ 52 * 2 powi e" by simp_all
    have e1: "(2 :: real) powi e = 2 * 2 powi (e - 1)" by (simp add: power_int_diff)
    have above: "(2 ^ 53 - 1 / 2) * 2 powi (e - 1) < X"
      using from_m m unfolding rounds_from_def X_def [symmetric] e1 by simp
    have "2 ^ 52 * 2 powi (e - 1) \<le> (2 ^ 53 - 1 / 2 :: real) * 2 powi (e - 1)" by (intro mult_right_mono) simp_all
    then have "e - 1 \<le> q1" using above by (intro q1_ge) linarith
    moreover have "(2 :: real) ^ 52 * 2 powi q1 < 2 ^ 52 * 2 powi e" using q1(1) less by linarith
    then have "q1 < e" using two_powi_less by fastforce
    ultimately have q: "max (- 1074) q1 = e - 1" using m(2) wf(3) by simp
    have "div_half_even (num * 2 ^ nat (- (e - 1))) (den * 2 ^ nat (e - 1)) = 2 ^ 53"
    proof (rule div_half_even_real [OF assms(7)])
      show "(real (2 ^ 53) - 1 / 2) * 2 powi (e - 1) < real num / real den" using above by (simp add: X_def)
      have "X < 2 ^ 53 * 2 powi (e - 1)" using less unfolding e1 by simp
      also have "\<dots> \<le> (real (2 ^ 53) + 1 / 2) * 2 powi (e - 1)" by (intro mult_right_mono) simp_all
      finally show "real num / real den < (real (2 ^ 53) + 1 / 2) * 2 powi (e - 1)" by (simp add: X_def)
    qed
    then show ?thesis
      using wf(4) m(1) unfolding round_double_eq [OF assms(6)] Let_def q1_def [symmetric] q by simp
  next
    case False
    have q: "max (- 1074) q1 = e"
    proof (cases "e = - 1074")
      case True
      then show ?thesis using q1_le by simp
    next
      case noteq: False
      then have m: "2 ^ 52 \<le> m" using wf(5) by simp
      have "2 ^ 52 * 2 powi e \<le> X"
      proof (cases "m = 2 ^ 52")
        case True
        then show ?thesis using False noteq by simp
      next
        case neq: False
        then have "2 ^ 52 + 1 \<le> real m" using m of_nat_mono [of "2 ^ 52 + 1" m, where ?'a = real] by simp
        then have "2 ^ 52 * 2 powi e \<le> (real m - 1 / 2) * 2 powi e" by (intro mult_right_mono) simp_all
        moreover have "rounds_from m e = (real m - 1 / 2) * 2 powi e" using neq by (simp add: rounds_from_def)
        ultimately show ?thesis using from_m unfolding X_def [symmetric] by linarith
      qed
      then have "e \<le> q1" by (rule q1_ge)
      then show ?thesis using q1_le wf(3) by simp
    qed
    have "div_half_even (num * 2 ^ nat (- e)) (den * 2 ^ nat e) = m"
    proof (rule div_half_even_real [OF assms(7)])
      have "(real m - 1 / 2) * 2 powi e \<le> rounds_from m e"
        unfolding rounds_from_def by (intro mult_right_mono) simp_all
      then show "(real m - 1 / 2) * 2 powi e < real num / real den" using from_m by linarith
      show "real num / real den < (real m + 1 / 2) * 2 powi e" using X by (simp add: X_def)
    qed
    then show ?thesis
      using wf unfolding round_double_eq [OF assms(6)] Let_def q1_def [symmetric] q by auto
  qed
qed

lemma scaled_double_nearest:
  assumes wf: "0 < m" "m < 2 ^ 53" "- 1074 \<le> e" "e \<le> 971" "m < 2 ^ 52 \<longrightarrow> e = - 1074"
    and "0 < n" "rounds_from m e < real n * 10 powi x" "real n * 10 powi x < rounds_below m e"
  shows "scaled_double neg n x = Double_fin neg m e"
proof -
  have "real (n * 10 ^ nat x) / real (10 ^ nat (- x)) = real n * 10 powi x"
    by (cases "0 \<le> x") (simp_all add: power_int_def power_one_over inverse_eq_divide)
  then show ?thesis unfolding scaled_double_def using assms by (intro round_double_nearest) simp_all
qed

section \<open>The text of a double\<close>

lemma dec_value_append: "dec_value (as @ bs) = dec_value as * 10 ^ length bs + dec_value bs"
proof (induction bs rule: rev_induct)
  case (snoc b bs)
  then show ?case by (simp flip: append_assoc add: algebra_simps)
qed simp

lemma digit_val_zero: "digit_val (CHR ''0'') = 0"
  by (simp add: digit_val_def char_nat_def)

lemma dec_value_Cons: "dec_value (c # cs) = digit_val c * 10 ^ length cs + dec_value cs"
  using dec_value_append [of "[c]" cs] dec_value_snoc [of "[]" c] by simp

lemma dec_value_zeros: "dec_value (replicate n (CHR ''0'')) = 0"
  by (induction n) (simp_all add: dec_value_Cons digit_val_zero)

text \<open>The tokens the lexer reads as a number with a fraction or an exponent.\<close>

definition float_token :: "string \<Rightarrow> bool" where
  "float_token t \<longleftrightarrow>
     (\<exists>c cs st. t = c # cs \<and> is_digit c \<and> st \<in> {NDecimal2, NAny2} \<and>
        (\<forall>ty. num_run (if c = CHR ''0'' then NZero else NAny1) ty cs = Some (st, Tok_value_float)))"

lemma is_digit_zero: "is_digit (CHR ''0'')"
  by (simp add: is_digit_def char_nat_def)

lemma not_digit_point: "\<not> is_digit (CHR ''.'')" "\<not> is_digit (CHR ''e'')"
  by (simp_all add: is_digit_def char_nat_def)

lemma num_run_fraction:
  assumes "\<forall>c \<in> set fp. is_digit c" and "fp \<noteq> []" and "st \<in> {NZero, NAny1}"
  shows "num_run st ty (CHR ''.'' # fp) = Some (NDecimal2, Tok_value_float)"
proof -
  obtain c cs where fp: "fp = c # cs" "is_digit c" "\<forall>c \<in> set cs. is_digit c" using assms(1,2) by (cases fp) auto
  have "num_next st (Some (CHR ''.'')) = Inr NDecimal1"
    using assms(3) not_digit_point by (auto simp: is_opt_digit_def)
  then show ?thesis using fp num_run_digits [of cs NDecimal2] by (simp add: is_opt_digit_def)
qed

lemma num_run_exponent:
  assumes "\<forall>c \<in> set ex. is_digit c" and "ex \<noteq> []" and "g = CHR ''+'' \<or> g = CHR ''-''" and "st \<in> {NAny1, NDecimal2}"
  shows "num_run st ty (CHR ''e'' # g # ex) = Some (NAny2, Tok_value_float)"
proof -
  obtain c cs where ex: "ex = c # cs" "is_digit c" "\<forall>c \<in> set cs. is_digit c" using assms(1,2) by (cases ex) auto
  have "num_next st (Some (CHR ''e'')) = Inr NExponent"
    using assms(4) not_digit_point by (auto simp: is_opt_digit_def is_opt_exp_def)
  moreover have "num_next NExponent (Some g) = Inr NSign" using assms(3) by auto
  ultimately show ?thesis using ex num_run_digits [of cs NAny2] by (simp add: is_opt_digit_def)
qed

lemma float_token_point:
  assumes "is_digit c" and "c = CHR ''0'' \<longrightarrow> ip = []" and "\<forall>c \<in> set ip. is_digit c" and "\<forall>c \<in> set fp. is_digit c" "fp \<noteq> []"
  shows "float_token (c # ip @ CHR ''.'' # fp)"
proof -
  have "num_run (if c = CHR ''0'' then NZero else NAny1) ty (ip @ CHR ''.'' # fp) = Some (NDecimal2, Tok_value_float)" for ty
    using assms(2,3) num_run_digits [of ip NAny1 ty] num_run_fraction [OF assms(4,5)]
    by (auto simp: num_run_append simp del: num_run.simps(2))
  then show ?thesis unfolding float_token_def using assms(1) by blast
qed

lemma float_token_exponent:
  assumes "is_digit c" and "c \<noteq> CHR ''0''" and "\<forall>c \<in> set fp. is_digit c"
    and "\<forall>c \<in> set ex. is_digit c" "ex \<noteq> []" and "g = CHR ''+'' \<or> g = CHR ''-''"
  shows "float_token (c # (if fp = [] then [] else CHR ''.'' # fp) @ CHR ''e'' # g # ex)"
proof -
  have "num_run NAny1 ty ((if fp = [] then [] else CHR ''.'' # fp) @ CHR ''e'' # g # ex) = Some (NAny2, Tok_value_float)" for ty
    using num_run_exponent [OF assms(4,5,6)] num_run_fraction [OF assms(3), of NAny1]
    by (simp add: num_run_append del: num_run.simps(2))
  then show ?thesis unfolding float_token_def using assms(1,2) by auto
qed

text \<open>What \<^verbatim>\<open>strtod\<close> makes of them.\<close>

abbreviation signed_text :: "bool \<Rightarrow> string \<Rightarrow> string" where
  "signed_text neg t \<equiv> (if neg then ''-'' else []) @ t"

lemma strtod_body:
  assumes "t = c # cs" and "is_digit c"
  shows "strtod (signed_text neg t) =
     (let ip = takeWhile is_digit t;
          r1 = dropWhile is_digit t;
          (fp, r2) = (case r1 of
              c # r \<Rightarrow> if c = CHR ''.'' then (takeWhile is_digit r, dropWhile is_digit r)
                       else ([], r1)
            | [] \<Rightarrow> ([], []));
          ex = (case r2 of
              c # r \<Rightarrow> if c = CHR ''e'' \<or> c = CHR ''E''
                       then (case r of
                           d # ds \<Rightarrow> if d = CHR ''-'' then - int (dec_value ds)
                                     else if d = CHR ''+'' then int (dec_value ds)
                                     else int (dec_value r)
                         | [] \<Rightarrow> 0)
                       else 0
            | [] \<Rightarrow> 0)
      in scaled_double neg (dec_value (ip @ fp)) (ex - int (length fp)))"
proof -
  have "c \<noteq> CHR ''-''" using assms(2) digit_not_special by blast
  then have "(case signed_text neg t of c # _ \<Rightarrow> c = CHR ''-'' | [] \<Rightarrow> False) = neg"
    "(if neg then tl (signed_text neg t) else signed_text neg t) = t"
    using assms(1) by simp_all
  then show ?thesis unfolding strtod_def Let_def by (simp only:)
qed

lemma digits_then:
  assumes "\<forall>c \<in> set ds. is_digit c" and "r = [] \<or> \<not> is_digit (hd r)"
  shows "takeWhile is_digit (ds @ r) = ds" "dropWhile is_digit (ds @ r) = r"
  using assms by (auto simp: takeWhile_append dropWhile_append takeWhile_eq_Nil_iff dropWhile_eq_self_iff)

lemma strtod_point:
  assumes "\<forall>c \<in> set ip. is_digit c" "ip \<noteq> []" and "\<forall>c \<in> set fp. is_digit c"
  shows "strtod (signed_text neg (ip @ CHR ''.'' # fp)) = scaled_double neg (dec_value (ip @ fp)) (- int (length fp))"
proof -
  obtain c cs where "ip = c # cs" "is_digit c" using assms(1,2) by (cases ip) auto
  then have t: "ip @ CHR ''.'' # fp = c # (cs @ CHR ''.'' # fp)" "is_digit c" by simp_all
  show ?thesis
    unfolding strtod_body [OF t] Let_def
    using digits_then [OF assms(1), of "CHR ''.'' # fp"] digits_then [OF assms(3), of "[]"] not_digit_point
    by (simp del: takeWhile_eq_all_conv dropWhile_eq_Nil_conv)
qed

lemma strtod_exponent:
  assumes "is_digit c" and "\<forall>c \<in> set fp. is_digit c" and "g = CHR ''+'' \<or> g = CHR ''-''"
  shows "strtod (signed_text neg (c # (if fp = [] then [] else CHR ''.'' # fp) @ CHR ''e'' # g # ex)) =
    scaled_double neg (dec_value (c # fp)) ((if g = CHR ''-'' then - int (dec_value ex) else int (dec_value ex)) - int (length fp))"
proof -
  let ?t = "(if fp = [] then [] else CHR ''.'' # fp) @ CHR ''e'' # g # ex"
  show ?thesis
    unfolding strtod_body [OF refl assms(1)] Let_def
    using digits_then [of "[c]" ?t] digits_then [OF assms(2), of "CHR ''e'' # g # ex"] assms(1,3) not_digit_point by auto
qed

lemma append_exponent_value:
  assumes "- 1000 < e" and "e < 1000"
  obtains g ex where "append_exponent e = Inr (g # ex)" "g = CHR ''+'' \<or> g = CHR ''-''" "\<forall>c \<in> set ex. is_digit c" "ex \<noteq> []"
    "(if g = CHR ''-'' then - int (dec_value ex) else int (dec_value ex)) = e"
proof -
  define k where "k = nat (abs e)"
  define ex where "ex = (if k < 10 then [CHR ''0'', digit_char k]
              else if k < 100 then [digit_char (k div 10), digit_char (k mod 10)]
              else [digit_char (k div 100), digit_char (k mod 100 div 10), digit_char (k mod 100 mod 10)])"
  define g where "g = (if e < 0 then CHR ''-'' else CHR ''+'')"
  have k: "k < 1000" using assms by (simp add: k_def nat_less_iff abs_less_iff)
  then have d: "k div 100 < 10" "k mod 100 div 10 < 10" "k mod 100 mod 10 < 10" "k < 100 \<Longrightarrow> k div 10 < 10" "k mod 10 < 10"
    by (simp_all add: less_mult_imp_div_less)
  have digits: "\<forall>c \<in> set ex. is_digit c" "ex \<noteq> []" using d is_digit_zero by (auto simp: ex_def)
  have "k mod 100 mod 10 = k mod 10" using mod_mod_cancel [of 10 100 k] by simp
  then have "100 * (k div 100) + (10 * (k mod 100 div 10) + k mod 100 mod 10) = k"
    using div_mult_mod_eq [of k 100] div_mult_mod_eq [of "k mod 100" 10] by linarith
  moreover have "10 * (k div 10) + k mod 10 = k" using div_mult_mod_eq [of k 10] by linarith
  ultimately have "dec_value ex = k"
    using d by (simp add: ex_def dec_value_Cons digit_val_zero)
  then have "(if g = CHR ''-'' then - int (dec_value ex) else int (dec_value ex)) = e" by (auto simp: g_def k_def)
  moreover have "append_exponent e = Inr (g # ex)"
    using assms by (simp add: append_exponent_def Let_def g_def ex_def k_def [symmetric])
  ultimately show ?thesis using that digits by (auto simp: g_def)
qed

text \<open>The result of \<^verbatim>\<open>format_buffer\<close> is a number token that reads back as digits times a power of ten.\<close>

definition reads_as :: "string \<Rightarrow> nat \<Rightarrow> int \<Rightarrow> bool" where
  "reads_as t m e \<longleftrightarrow> float_token t \<and>
     (\<exists>M E. (\<forall>neg. strtod (signed_text neg t) = scaled_double neg M E) \<and> real M * 10 powi E = real m * 10 powi e)"

lemma format_buffer_reads:
  assumes "lead_digits ds" and "ds \<noteq> []" and "- 900 \<le> int (length ds) + x" "int (length ds) + x \<le> 900"
  shows "\<exists>t. format_buffer ds x (- 4) 15 = Inr t \<and> reads_as t (dec_value ds) x"
proof -
  define k where "k = int (length ds)"
  have dig: "\<forall>c \<in> set ds. is_digit c" "hd ds \<noteq> CHR ''0''" using assms(1,2) by (simp_all add: lead_digits_def)
  have hd_digit: "is_digit (hd ds)" and tl_digit: "\<forall>c \<in> set (tl ds). is_digit c"
    using dig(1) assms(2) by (cases ds; simp)+
  note forms = format_buffer_forms [where x = x and buf = ds, folded k_def]
  consider "0 \<le> x" "k + x \<le> 15" | "x < 0" "0 < k + x" "k + x \<le> 15" | "- 4 < k + x" "k + x \<le> 0" "x < 0"
    | "k + x \<le> - 4 \<or> 15 < k + x"
    unfolding k_def by linarith
  then show ?thesis
  proof cases
    case 1
    define ip where "ip = ds @ replicate (nat x) (CHR ''0'')"
    have ip: "\<forall>c \<in> set ip. is_digit c" "ip \<noteq> []" "ip = hd ds # (tl ds @ replicate (nat x) (CHR ''0''))"
      using dig(1) assms(2) is_digit_zero by (auto simp: ip_def)
    have fp: "\<forall>c \<in> set ''0''. is_digit c" using is_digit_zero by simp
    have rest: "\<forall>c \<in> set (tl ds @ replicate (nat x) (CHR ''0'')). is_digit c" using tl_digit is_digit_zero by auto
    have "hd ds = CHR ''0'' \<longrightarrow> tl ds @ replicate (nat x) (CHR ''0'') = []" using dig(2) by simp
    from float_token_point [OF hd_digit this rest fp]
    have "float_token (ip @ CHR ''.'' # ''0'')" unfolding ip(3) by simp
    moreover have "real (dec_value (ip @ ''0'')) * 10 powi (- 1) = real (dec_value ds) * 10 powi x"
      using 1(1) by (simp add: ip_def dec_value_append dec_value_zeros dec_value_Cons digit_val_zero power_int_def inverse_eq_divide)
    ultimately have "reads_as (ip @ CHR ''.'' # ''0'') (dec_value ds) x"
      using strtod_point [OF ip(1,2) fp] unfolding reads_as_def by fastforce
    then show ?thesis using forms(1) [OF 1] by (simp add: ip_def)
  next
    case 2
    define n where "n = nat (k + x)"
    have n: "0 < n" "n < length ds" using 2 by (simp_all add: n_def k_def nat_less_iff)
    have digs: "\<forall>c \<in> set (take n ds). is_digit c" "\<forall>c \<in> set (drop n ds). is_digit c"
      using dig(1) by (meson in_set_takeD in_set_dropD)+
    have ne: "take n ds \<noteq> []" "drop n ds \<noteq> []" using n by auto
    have "take n ds = hd ds # tl (take n ds)" using ne(1) n(1) by (cases ds; cases n) auto
    then have "float_token (take n ds @ CHR ''.'' # drop n ds)"
      using float_token_point [of "hd ds" "tl (take n ds)" "drop n ds"] digs ne dig(2) hd_digit
      by (metis append_Cons list.set_intros(2))
    moreover have "- int (length (drop n ds)) = x" using 2 n by (simp add: n_def k_def of_nat_diff)
    ultimately have "reads_as (take n ds @ CHR ''.'' # drop n ds) (dec_value ds) x"
      using strtod_point [OF digs(1) ne(1) digs(2)] unfolding reads_as_def by (metis append_take_drop_id)
    then show ?thesis using forms(2) [OF 2] by (simp add: n_def)
  next
    case 3
    define fp where "fp = replicate (nat (- (k + x))) (CHR ''0'') @ ds"
    have fp: "\<forall>c \<in> set fp. is_digit c" "fp \<noteq> []" using dig(1) assms(2) is_digit_zero by (auto simp: fp_def)
    have zero: "\<forall>c \<in> set ''0''. is_digit c" "''0'' \<noteq> []" using is_digit_zero by simp_all
    have "float_token (CHR ''0'' # [] @ CHR ''.'' # fp)" using fp is_digit_zero by (intro float_token_point) simp_all
    moreover have "dec_value (''0'' @ fp) = dec_value ds"
      by (simp add: fp_def dec_value_append dec_value_Cons dec_value_zeros digit_val_zero)
    moreover have "- int (length fp) = x" using 3 by (simp add: fp_def k_def)
    ultimately have "reads_as (''0'' @ CHR ''.'' # fp) (dec_value ds) x"
      using strtod_point [OF zero fp(1)] unfolding reads_as_def by auto
    then show ?thesis using forms(3) [OF 3] by (simp add: fp_def)
  next
    case 4
    obtain g ex where ex: "append_exponent (k + x - 1) = Inr (g # ex)" "g = CHR ''+'' \<or> g = CHR ''-''"
      "\<forall>c \<in> set ex. is_digit c" "ex \<noteq> []"
      "(if g = CHR ''-'' then - int (dec_value ex) else int (dec_value ex)) = k + x - 1"
      using append_exponent_value [of "k + x - 1"] assms(3,4) unfolding k_def by auto
    define t where "t = hd ds # (if tl ds = [] then [] else CHR ''.'' # tl ds) @ CHR ''e'' # g # ex"
    have "format_buffer ds x (- 4) 15 = Inr t"
      using forms(4) [OF 4] ex(1) assms(2) by (cases ds) (auto simp: t_def k_def)
    moreover have "float_token t"
      unfolding t_def by (rule float_token_exponent [OF hd_digit dig(2) tl_digit ex(3,4,2)])
    moreover have x: "k + x - 1 - int (length (tl ds)) = x" using assms(2) by (cases ds) (simp_all add: k_def)
    have "hd ds # tl ds = ds" using assms(2) by simp
    then have "strtod (signed_text neg t) = scaled_double neg (dec_value ds) x" for neg
      using strtod_exponent [OF hd_digit tl_digit ex(2), of neg ex] x unfolding ex(5) t_def by (simp only:)
    ultimately show ?thesis unfolding reads_as_def by blast
  qed
qed

lemma dec_value_bounds:
  assumes "lead_digits ds" and "ds \<noteq> []"
  shows "1 \<le> dec_value ds" "dec_value ds < 10 ^ length ds"
proof -
  have "\<forall>c \<in> set cs. is_digit c \<Longrightarrow> dec_value cs < 10 ^ length cs" for cs
  proof (induction cs rule: rev_induct)
    case (snoc c cs)
    then have "digit_val c \<le> 9" "dec_value cs + 1 \<le> 10 ^ length cs" by (auto simp: is_digit_def digit_val_def)
    then show ?case by simp
  qed simp
  then show "dec_value ds < 10 ^ length ds" using assms(1) by (simp add: lead_digits_def)
  obtain c cs where ds: "ds = c # cs" using assms(2) by (cases ds) auto
  then have "is_digit c" "c \<noteq> CHR ''0''" using assms(1) by (simp_all add: lead_digits_def)
  then have "char_nat c \<noteq> char_nat CHR ''0''" "48 \<le> char_nat c"
    by (simp_all only: is_digit_def char_nat_def of_char_eq_iff) simp
  then have "1 \<le> digit_val c" by (simp add: digit_val_def) (simp add: char_nat_def)
  then have "1 * 1 \<le> digit_val c * 10 ^ length cs" by (intro mult_le_mono) simp_all
  then show "1 \<le> dec_value ds" unfolding ds dec_value_Cons by linarith
qed

lemma two_ten_powers:
  "(2 :: real) powi 1024 \<le> 10 powi 512" "(10 :: real) powi (- 538) \<le> 2 powi (- 1076)"
proof -
  have le: "(2 :: real) ^ (2 * k) \<le> 10 ^ k" for k
    unfolding power_mult by (intro power_mono) simp_all
  have "(2 :: nat) * 512 = 1024" "(2 :: nat) * 538 = 1076" by simp_all
  then have pow: "(2 :: real) ^ 1024 \<le> 10 ^ 512" "(2 :: real) ^ 1076 \<le> 10 ^ 538"
    using le [of 512] le [of 538] by (simp_all only:)
  show "(2 :: real) powi 1024 \<le> 10 powi 512" using pow(1) by (simp only: power_int_numeral)
  have "inverse ((10 :: real) ^ 538) \<le> inverse (2 ^ 1076)" by (rule le_imp_inverse_le [OF pow(2)]) (rule zero_less_power, simp)
  then show "(10 :: real) powi (- 538) \<le> 2 powi (- 1076)" by (simp only: power_int_minus power_int_numeral)
qed

lemma decimal_exponent_bounds:
  fixes V :: real
  assumes wf: "0 < m" "m < 2 ^ 53" "- 1074 \<le> e" "e \<le> 971"
    and "1 \<le> V" "V < 10 ^ 17" "rounds_from m e < V * 10 powi x" "V * 10 powi x < rounds_below m e"
  shows "- 600 < x" "x < 600"
proof -
  have m: "real m + 1 \<le> 2 ^ 53" "1 \<le> real m"
    using of_nat_mono [of "m + 1" "2 ^ 53", where ?'a = real] wf(1,2) by simp_all
  have "(10 :: real) powi x \<le> V * 10 powi x" using assms(5) by simp
  also have "\<dots> < rounds_below m e" by (rule assms(8))
  also have "\<dots> \<le> 2 powi 53 * 2 powi 971"
    unfolding rounds_below_def using m wf(4) by (intro mult_mono power_int_increasing) simp_all
  also have "\<dots> = 2 powi (53 + 971)" by (rule power_int_add [symmetric]) simp
  also have "(53 :: int) + 971 = 1024" by simp
  also have "(2 :: real) powi 1024 \<le> 10 powi 512" by (rule two_ten_powers(1))
  finally show "x < 600" using power_int_increasing [of 512 x "10 :: real"] by linarith
  have "(10 :: real) powi (- 538) \<le> 2 powi (- 1076)" by (rule two_ten_powers(2))
  also have "\<dots> \<le> 2 powi (- 1 + - 1074)" by (intro power_int_increasing) simp_all
  also have "\<dots> = 2 powi (- 1) * 2 powi (- 1074)" by (rule power_int_add) simp
  also have "\<dots> \<le> rounds_from m e"
    unfolding rounds_from_def using m wf(3) by (intro mult_mono power_int_increasing) (simp_all add: power_int_minus)
  also have "\<dots> < V * 10 powi x" by (rule assms(7))
  also have "\<dots> \<le> 10 powi 17 * 10 powi x" using assms(6) by (intro mult_right_mono) simp_all
  also have "\<dots> = 10 powi (17 + x)" by (rule power_int_add [symmetric]) simp
  finally show "- 600 < x" using power_int_increasing [of "17 + x" "- 538" "10 :: real"] by linarith
qed

lemma to_chars_reads_back:
  assumes "double_wf (Double_fin s m e)" and "23 \<le> room0 - 1"
  shows "\<exists>t. to_chars room0 (Double_fin s m e) = Inr (signed_text s t) \<and> float_token t
    \<and> strtod (signed_text s t) = Double_fin s m e"
proof (cases "m = 0")
  case True
  have zero: "\<forall>c \<in> set ''0''. is_digit c" "''0'' \<noteq> []" using is_digit_zero by simp_all
  have "strtod (signed_text s (''0'' @ CHR ''.'' # ''0'')) = Double_fin s 0 0"
    unfolding strtod_point [OF zero zero(1)]
    by (simp add: dec_value_Cons digit_val_zero scaled_double_def round_double_def)
  moreover have "float_token (CHR ''0'' # [] @ CHR ''.'' # ''0'')"
    using zero is_digit_zero by (intro float_token_point) simp_all
  moreover have "to_chars room0 (Double_fin s m e) = Inr (signed_text s ''0.0'')" using True by (simp add: to_chars_def)
  ultimately show ?thesis using True assms(1) by (intro exI [of _ "''0.0''"]) simp
next
  case False
  then have wf: "0 < m" "m < 2 ^ 53" "- 1074 \<le> e" "e \<le> 971" "m < 2 ^ 52 \<longrightarrow> e = - 1074" using assms(1) by simp_all
  obtain ds x where g: "grisu2 m e = Inr (ds, x)" "lead_digits ds" "ds \<noteq> []" "length ds \<le> 17"
    "rounds_from m e < real (dec_value ds) * 10 powi x" "real (dec_value ds) * 10 powi x < rounds_below m e"
    using grisu2_between [OF wf] .
  note dv = dec_value_bounds [OF g(2,3)]
  have "(10 :: nat) ^ length ds \<le> 10 ^ 17" using g(4) by (intro power_increasing) simp_all
  then have "real (dec_value ds) < real (10 ^ 17)" using dv(2) by (simp only: of_nat_less_iff)
  then have "- 600 < x" "x < 600"
    using decimal_exponent_bounds [OF wf(1-4) _ _ g(5,6)] dv(1) by simp_all
  then obtain t where t: "format_buffer ds x (- 4) 15 = Inr t" "reads_as t (dec_value ds) x"
    using format_buffer_reads [OF g(2,3), of x] g(4) by auto
  then obtain M E where ME: "\<And>neg. strtod (signed_text neg t) = scaled_double neg M E"
    "real M * 10 powi E = real (dec_value ds) * 10 powi x" and tok: "float_token t"
    by (auto simp: reads_as_def)
  have "0 < M" using ME(2) dv(1) by (cases M) auto
  then have "strtod (signed_text s t) = Double_fin s m e"
    unfolding ME(1) using g(5,6) unfolding ME(2) [symmetric] by (intro scaled_double_nearest [OF wf])
  moreover have "to_chars room0 (Double_fin s m e) = Inr (signed_text s t)"
    using False assms(2) g(1,4) t(1) by (auto simp: to_chars_def Let_def)
  ultimately show ?thesis using tok by blast
qed

section \<open>Doubles as number tokens\<close>

text \<open>A double whose text is a number token that the lexer converts back to it.\<close>

definition float_scans :: "double \<Rightarrow> bool" where
  "float_scans d \<longleftrightarrow> double_finite d \<and> float_prints d \<and> strtod (float_text d) = d \<and>
     (\<exists>c cs st. float_text d = c # cs \<and> (c = CHR ''-'' \<or> is_digit c) \<and> st \<in> {NDecimal2, NAny2} \<and>
        num_run (num_first c) Tok_value_unsigned cs = Some (st, Tok_value_float))"

lemma double_scans:
  assumes "double_wf d" and "double_finite d"
  shows "float_scans d"
proof (cases d)
  case (Double_fin s m e)
  obtain t where t: "to_chars 64 d = Inr (signed_text s t)" "float_token t" "strtod (signed_text s t) = d"
    using to_chars_reads_back [of s m e 64] assms(1) Double_fin by auto
  then have text_d: "float_text d = signed_text s t" and prints: "float_prints d"
    using assms(2) by (simp_all add: float_text_def float_prints_def)
  obtain c cs st where tok: "t = c # cs" "is_digit c" "st \<in> {NDecimal2, NAny2}"
    "\<And>ty. num_run (if c = CHR ''0'' then NZero else NAny1) ty cs = Some (st, Tok_value_float)"
    using t(2) by (auto simp: float_token_def)
  have c: "c \<noteq> CHR ''-''" using tok(2) digit_not_special by blast
  have "\<exists>c cs st. signed_text s t = c # cs \<and> (c = CHR ''-'' \<or> is_digit c) \<and> st \<in> {NDecimal2, NAny2} \<and>
      num_run (num_first c) Tok_value_unsigned cs = Some (st, Tok_value_float)"
  proof (cases s)
    case True
    have "num_run NMinus Tok_value_unsigned (c # cs) = Some (st, Tok_value_float)"
      using tok(2,4) by (auto simp: is_opt_digit_def split: if_splits)
    then show ?thesis using True tok(1,3) by (auto simp: num_first_def simp del: num_run.simps)
  next
    case False
    have "num_run (num_first c) Tok_value_unsigned cs = Some (st, Tok_value_float)"
      using tok(4) c by (simp add: num_first_def)
    then show ?thesis using False tok(1-3) by auto
  qed
  then show ?thesis using t(3) prints assms(2) unfolding float_scans_def text_d by blast
qed (use assms in simp_all)

section \<open>The property\<close>

text \<open>
  C11: \<^verbatim>\<open>to_chars\<close> writes every finite double into the serializer's buffer of 64 characters without
  failing an assertion, and \<^verbatim>\<open>strtod\<close>, which rounds to nearest, reads the text back as exactly that
  double, the sign of zero included.
\<close>

theorem double_text_reads_back:
  assumes "double_finite d" and "double_wf d"
  shows "\<exists>t. to_chars 64 d = Inr t \<and> length t \<le> 64 \<and> strtod t = d"
proof (cases d)
  case (Double_fin s m e)
  then show ?thesis using to_chars_reads_back [of s m e 64] to_chars_length assms(2) by auto
qed (use assms in simp_all)

lemma double_text_reads_back_witness:
  "\<exists>t. to_chars 64 (Double_fin True 9007199254740991 971) = Inr t \<and> length t \<le> 64
    \<and> strtod t = Double_fin True 9007199254740991 971"
  by (rule double_text_reads_back) simp_all

end
