(* ===== verification/Json_Roundtrip.thy ===== *)
theory Json_Roundtrip
  imports Json_Double Json_Dom
begin

text \<open>
  The round trip of \<^verbatim>\<open>include/nlohmann/json.hpp\<close>: parsing what \<^verbatim>\<open>dump\<close> writes gives the value back,
  in the compact form and in the indented one. The proof follows the parse loop over the reference
  text; \<open>slot\<close> is the place the SAX handler stores the next value in, and \<open>after_value\<close> says that
  the loop arrives behind the text of a value with the value in its slot.
\<close>

section \<open>Doubles\<close>

lemma scan_float:
  assumes "lx_at s (ws @ float_text d @ r)" and "ws_string ws" and "num_delim r" and "double_finite d" "double_wf d"
  shows "\<exists>s'. lx_scan s = (Tok_value_float, s') \<and> lx_at s' r \<and> lx_value_float s' = d"
proof -
  obtain c cs st where c: "float_text d = c # cs" "c = CHR ''-'' \<or> is_digit c" "st \<in> {NDecimal2, NAny2}"
    and run: "num_run (num_first c) Tok_value_unsigned cs = Some (st, Tok_value_float)"
    and d: "strtod (float_text d) = d"
    using double_scans [OF assms(5,4)] unfolding float_scans_def by blast
  have "num_enter st Tok_value_float = Tok_value_float" using c(3) by auto
  then obtain s' where "lx_scan s = lx_number_done Tok_value_float s'" "lx_at (lx_unget s') r"
    "lx_token_buffer s' = float_text d"
    using scan_number [of s ws c cs r st Tok_value_float] assms c run num_delim_done [OF assms(3), of st]
    by auto
  then show ?thesis using d by (simp add: lx_number_done_def lx_as_float_def Let_def)
qed

section \<open>Values that come back\<close>

text \<open>
  A non-negative number comes back as an unsigned one, and the keys of an object come back sorted.
\<close>

fun text_stable :: "json \<Rightarrow> bool" where
  "text_stable (JString s) = utf8_valid s"
| "text_stable (JFloat d) = (double_finite d \<and> double_wf d)"
| "text_stable (JBinary bytes subtype) = False"
| "text_stable JDiscarded = False"
| "text_stable (JInteger i) = (sint i < 0)"
| "text_stable (JArray xs) = list_all text_stable xs"
| "text_stable (JObject kvs) =
     (sorted_wrt (<) (map fst kvs) \<and> list_all (\<lambda>kv. utf8_valid (fst kv) \<and> text_stable (snd kv)) kvs)"
| "text_stable _ = True"

lemma text_stable_printable: "text_stable j \<Longrightarrow> printable j"
proof (induction j)
  case (JObject kvs)
  then show ?case by (auto simp: list_all_iff)
next
  case (JArray xs)
  then show ?case by (auto simp: list_all_iff)
qed (auto simp: float_scans_def dest: double_scans)

section \<open>Where the handler stores the next value\<close>

definition slot :: "dom \<Rightarrow> path \<Rightarrow> (json \<Rightarrow> json) \<Rightarrow> bool" where
  "slot d q F \<longleftrightarrow>
     (\<forall>v. dom_handle_value v d = Inr (q, d\<lparr>dom_root := F v\<rparr>) \<and> json_at q (F v) = Some v \<and>
          (\<forall>w. json_modify q (\<lambda>_. w) (F v) = F w))"

lemma slot_top: "dom_stack d = [] \<Longrightarrow> slot d [] (\<lambda>v. v)"
  by (simp add: slot_def dom_handle_value_def)

lemma slot_array:
  assumes "dom_stack d = p # ps" and at: "json_at p (dom_root d) = Some (JArray xs)"
  shows "slot d (p @ [Index (length xs)]) (\<lambda>v. json_modify p (\<lambda>_. JArray (xs @ [v])) (dom_root d))"
proof -
  have m: "json_modify [Index (length xs)] (\<lambda>_. w) (JArray (xs @ [v])) = JArray (xs @ [w])" for v w
    by simp
  have "json_modify (p @ [Index (length xs)]) (\<lambda>_. w) (json_modify p (\<lambda>_. JArray (xs @ [v])) (dom_root d))
      = json_modify p (\<lambda>_. JArray (xs @ [w])) (dom_root d)" for v w
    unfolding json_modify_append json_modify_modify comp_def m ..
  then show ?thesis
    using assms by (simp add: slot_def dom_handle_value_def json_at_append)
qed

lemma slot_object:
  assumes "dom_stack d = p # ps" and "json_at p (dom_root d) = Some (JObject kvs)"
    and "dom_element d = Some (p @ [Key k])" and "map_find k kvs = Some v0"
  shows "slot d (p @ [Key k]) (\<lambda>v. json_modify (p @ [Key k]) (\<lambda>_. v) (dom_root d))"
proof -
  have "json_at (p @ [Key k]) (dom_root d) = Some v0" using assms by (simp add: json_at_append)
  then show ?thesis
    using assms(1-3) by (simp add: slot_def dom_handle_value_def comp_def)
qed

section \<open>The parser on the text of a value\<close>

definition after_value :: "bool list \<Rightarrow> parser \<Rightarrow> string \<Rightarrow> json \<Rightarrow> path list \<Rightarrow> bool" where
  "after_value states p r whole stack \<longleftrightarrow>
     (\<exists>p'. sax_loop False states p = sax_loop True states p' \<and> lx_at (ps_lexer p') r
        \<and> dom_root (ps_dom p') = whole \<and> dom_stack (ps_dom p') = stack)"

lemma sax_loop_value:
  assumes "sax_value_step states p = Inr (False, states', p')"
  shows "sax_loop False states p = sax_loop True states' p'"
  using assms by (simp add: sax_loop.simps [of False states p] sax_loop.simps [of True states' p'] sax_step_def)

lemma sax_loop_open:
  assumes "sax_value_step states p = Inr (True, states', p')"
  shows "sax_loop False states p = sax_loop False states' p'"
  using assms by (simp add: sax_loop.simps [of False states p] sax_step_def)

lemma sax_loop_state:
  assumes "sax_state_step states p = Inr (Some skip, states', p')"
  shows "sax_loop True states p = sax_loop skip states' p'"
  using assms by (simp add: sax_loop.simps [of True states p] sax_step_def)

lemma slotD:
  assumes "slot d q F"
  shows "dom_handle_value v d = Inr (q, d\<lparr>dom_root := F v\<rparr>)" "json_at q (F v) = Some v"
    "json_modify q (\<lambda>_. w) (F v) = F w"
  using assms by (simp_all add: slot_def)

lemma scalar_after:
  assumes "sax_value_step states p = sax_scalar p v states" and "lx_at (ps_lexer p) r" and "slot (ps_dom p) q F"
  shows "after_value states p r (F v) (dom_stack (ps_dom p))"
proof -
  let ?p' = "p\<lparr>ps_dom := (ps_dom p)\<lparr>dom_root := F v\<rparr>\<rparr>"
  have "sax_value_step states p = Inr (False, states, ?p')"
    using assms(1) slotD(1) [OF assms(3)] by (simp add: sax_scalar_def dom_value_def on_dom_def)
  then have "sax_loop False states p = sax_loop True states ?p'" by (rule sax_loop_value)
  moreover have "lx_at (ps_lexer ?p') r" "dom_root (ps_dom ?p') = F v"
    "dom_stack (ps_dom ?p') = dom_stack (ps_dom p)"
    using assms(2) by simp_all
  ultimately show ?thesis unfolding after_value_def by blast
qed

lemma get_token_eq:
  assumes "lx_scan (ps_lexer p) = (t, l)"
  shows "ps_get_token p = p\<lparr>ps_last_token := t, ps_lexer := l\<rparr>"
  using assms by (simp add: ps_get_token_def)

fun is_container :: "json \<Rightarrow> bool" where
  "is_container (JArray xs) = True"
| "is_container (JObject kvs) = True"
| "is_container _ = False"

lemma scalar_value:
  assumes at: "lx_at (ps_lexer p0) (ws @ json_text ly n j @ r)" and ws: "ws_string ws" and r: "num_delim r"
    and ok: "text_stable j" "\<not> is_container j" and slot: "slot (ps_dom p0) q F"
  shows "after_value states (ps_get_token p0) r (F j) (dom_stack (ps_dom p0))"
proof -
  have main: ?thesis
    if scan: "lx_scan (ps_lexer p0) = (t, l)" and l: "lx_at l r"
      and step: "\<And>p. ps_last_token p = t \<Longrightarrow> ps_lexer p = l \<Longrightarrow> sax_value_step states p = sax_scalar p j states"
    for t l
  proof -
    let ?p = "ps_get_token p0"
    have "sax_value_step states ?p = sax_scalar ?p j states" using scan by (intro step) simp_all
    moreover have "lx_at (ps_lexer ?p) r" using scan l by simp
    moreover have "slot (ps_dom ?p) q F" using slot by simp
    ultimately have "after_value states ?p r (F j) (dom_stack (ps_dom ?p))" by (rule scalar_after)
    then show ?thesis by simp
  qed
  show ?thesis
  proof (cases j)
    case JNull
    then obtain l where "lx_scan (ps_lexer p0) = (Tok_literal_null, l)" "lx_at l r"
      using scan_literal [of "ps_lexer p0" ws "''null''" r Tok_literal_null] at ws by auto
    then show ?thesis using JNull by (intro main) (auto simp: sax_value_step_def)
  next
    case (JBoolean b)
    let ?t = "if b then Tok_literal_true else Tok_literal_false"
    obtain l where "lx_scan (ps_lexer p0) = (?t, l)" "lx_at l r"
      using scan_literal [of "ps_lexer p0" ws "if b then ''true'' else ''false''" r ?t] JBoolean at ws by (cases b) auto
    then show ?thesis using JBoolean by (intro main) (auto simp: sax_value_step_def)
  next
    case (JInteger i)
    then obtain l where "lx_scan (ps_lexer p0) = (Tok_value_integer, l)" "lx_at l r" "lx_value_integer l = i"
      using scan_negative [of "ps_lexer p0" ws i r] at ws r ok by (auto simp: sign_text_int)
    then show ?thesis using JInteger by (intro main) (auto simp: sax_value_step_def)
  next
    case (JUnsigned u)
    then obtain l where "lx_scan (ps_lexer p0) = (Tok_value_unsigned, l)" "lx_at l r" "lx_value_unsigned l = u"
      using scan_unsigned [of "ps_lexer p0" ws u r] at ws r by auto
    then show ?thesis using JUnsigned by (intro main) (auto simp: sax_value_step_def)
  next
    case (JFloat d)
    then obtain l where "lx_scan (ps_lexer p0) = (Tok_value_float, l)" "lx_at l r" "lx_value_float l = d"
      using scan_float [of "ps_lexer p0" ws d r] at ws r ok by auto
    then show ?thesis using JFloat ok by (intro main) (auto simp: sax_value_step_def)
  next
    case (JString s)
    then obtain l where "lx_scan (ps_lexer p0) = (Tok_value_string, l)" "lx_at l r" "lx_token_buffer l = s"
      using scan_string [of "ps_lexer p0" ws s r] at ws ok by auto
    then show ?thesis using JString by (intro main) (auto simp: sax_value_step_def)
  qed (use ok in auto)
qed

text \<open>The opening bracket of a container that is not empty, and its end.\<close>

lemma layout_ws:
  assumes "is_ws (Some (ly_char ly))"
  shows "ws_string (ly_newline ly)" "ws_string (ly_indent ly n)" "ws_string []"
    "ws_string u \<Longrightarrow> ws_string v \<Longrightarrow> ws_string (u @ v)"
  using assms by (auto simp: ws_string_def ly_newline_def ly_indent_def is_ws_def list_all_iff)

lemma end_array_after:
  assumes "lx_at (ps_lexer p) (ws @ CHR '']'' # r)" and "ws_string ws"
    and "dom_stack (ps_dom p) = q # st" and "json_at q (dom_root (ps_dom p)) = Some (JArray xs)"
  shows "\<exists>p'. sax_loop True (True # states) p = sax_loop True states p' \<and> lx_at (ps_lexer p') r
    \<and> dom_root (ps_dom p') = dom_root (ps_dom p) \<and> dom_stack (ps_dom p') = st"
proof -
  obtain l where l: "lx_scan (ps_lexer p) = (Tok_end_array, l)" "lx_at l r"
    using scan_punctuation [OF assms(1,2), of Tok_end_array] by auto
  let ?p' = "(ps_get_token p)\<lparr>ps_dom := (ps_dom p)\<lparr>dom_stack := st\<rparr>\<rparr>"
  have "sax_state_step (True # states) p = Inr (Some True, states, ?p')"
    using l assms(3,4) by (simp add: sax_state_step_def Let_def dom_end_array_def on_dom_def)
  then have "sax_loop True (True # states) p = sax_loop True states ?p'" by (rule sax_loop_state)
  moreover have "lx_at (ps_lexer ?p') r" using l by simp
  ultimately show ?thesis by (intro exI [of _ ?p']) simp
qed

lemma end_object_after:
  assumes "lx_at (ps_lexer p) (ws @ CHR ''}'' # r)" and "ws_string ws"
    and "dom_stack (ps_dom p) = q # st" and "json_at q (dom_root (ps_dom p)) = Some (JObject kvs)"
  shows "\<exists>p'. sax_loop True (False # states) p = sax_loop True states p' \<and> lx_at (ps_lexer p') r
    \<and> dom_root (ps_dom p') = dom_root (ps_dom p) \<and> dom_stack (ps_dom p') = st"
proof -
  obtain l where l: "lx_scan (ps_lexer p) = (Tok_end_object, l)" "lx_at l r"
    using scan_punctuation [OF assms(1,2), of Tok_end_object] by auto
  let ?p' = "(ps_get_token p)\<lparr>ps_dom := (ps_dom p)\<lparr>dom_stack := st\<rparr>\<rparr>"
  have "sax_state_step (False # states) p = Inr (Some True, states, ?p')"
    using l assms(3,4) by (simp add: sax_state_step_def Let_def dom_end_object_def on_dom_def)
  then have "sax_loop True (False # states) p = sax_loop True states ?p'" by (rule sax_loop_state)
  moreover have "lx_at (ps_lexer ?p') r" using l by simp
  ultimately show ?thesis by (intro exI [of _ ?p']) simp
qed

lemma comma_array:
  assumes "lx_at (ps_lexer p) (CHR '','' # r)"
  shows "\<exists>p1. sax_loop True (True # states) p = sax_loop False (True # states) (ps_get_token p1)
    \<and> lx_at (ps_lexer p1) r \<and> ps_dom p1 = ps_dom p"
proof -
  obtain l where l: "lx_scan (ps_lexer p) = (Tok_value_separator, l)" "lx_at l r"
    using scan_punctuation [of "ps_lexer p" "[]" "CHR '',''" r Tok_value_separator] assms by (auto simp: ws_string_def)
  have "sax_state_step (True # states) p = Inr (Some False, True # states, ps_get_token (ps_get_token p))"
    using l by (simp add: sax_state_step_def Let_def)
  then show ?thesis using l sax_loop_state by (intro exI [of _ "ps_get_token p"]) simp
qed

lemma comma_object:
  assumes "lx_at (ps_lexer p) (CHR '','' # r)"
  shows "\<exists>p1. lx_at (ps_lexer p1) r \<and> ps_dom p1 = ps_dom p \<and>
    (\<forall>p2. parse_key (ps_get_token p1) = Inr p2 \<longrightarrow>
       sax_loop True (False # states) p = sax_loop False (False # states) (ps_get_token p2))"
proof -
  obtain l where l: "lx_scan (ps_lexer p) = (Tok_value_separator, l)" "lx_at l r"
    using scan_punctuation [of "ps_lexer p" "[]" "CHR '',''" r Tok_value_separator] assms by (auto simp: ws_string_def)
  have "sax_state_step (False # states) p = Inr (Some False, False # states, ps_get_token p2)"
    if "parse_key (ps_get_token (ps_get_token p)) = Inr p2" for p2
    using l that by (simp add: sax_state_step_def Let_def)
  then show ?thesis using l sax_loop_state by (intro exI [of _ "ps_get_token p"]) simp
qed

lemma json_modify_Nil: "json_modify [] f = f"
  by (rule ext) simp

lemma map_emplace_last:
  "\<forall>k' \<in> set (map fst kvs). k' < k \<Longrightarrow> map_emplace k v kvs = kvs @ [(k, v)]"
  by (induction kvs) auto

lemma map_adjust_last:
  "k \<notin> set (map fst kvs) \<Longrightarrow> map_adjust k f (kvs @ [(k, v)]) = kvs @ [(k, f v)]"
  by (induction kvs) auto

text \<open>A key and the colon: the handler has an entry for the value.\<close>

lemma parse_key_after:
  assumes at: "lx_at (ps_lexer p0) (ws @ string_text k @ ly_colon ly @ r)" and ws: "ws_string ws"
    and k: "utf8_valid k" "\<forall>k' \<in> set (map fst kvs). k' < k"
    and dom: "dom_stack (ps_dom p0) = q # st" "json_at q (dom_root (ps_dom p0)) = Some (JObject kvs)"
  shows "\<exists>p1 sp. parse_key (ps_get_token p0) = Inr p1 \<and> lx_at (ps_lexer p1) (sp @ r) \<and> ws_string sp
    \<and> dom_stack (ps_dom p1) = q # st
    \<and> slot (ps_dom p1) (q @ [Key k]) (\<lambda>v. json_modify q (\<lambda>_. JObject (kvs @ [(k, v)])) (dom_root (ps_dom p0)))"
proof -
  obtain l where l: "lx_scan (ps_lexer p0) = (Tok_value_string, l)" "lx_at l (ly_colon ly @ r)" "lx_token_buffer l = k"
    using scan_string [OF at ws k(1)] by blast
  define sp where "sp = (if ly_pretty ly then [CHR '' ''] else [])"
  have sp: "ly_colon ly @ r = CHR '':'' # sp @ r" "ws_string sp"
    by (simp_all add: ly_colon_def sp_def ws_string_def is_ws_def)
  obtain l' where l': "lx_scan l = (Tok_name_separator, l')" "lx_at l' (sp @ r)"
    using scan_punctuation [of l "[]" "CHR '':''" "sp @ r" Tok_name_separator] l(2) sp(1) by (auto simp: ws_string_def)
  define whole where "whole = json_modify q (\<lambda>_. JObject (kvs @ [(k, JNull)])) (dom_root (ps_dom p0))"
  define d where "d = (ps_dom p0)\<lparr>dom_root := whole, dom_element := Some (q @ [Key k])\<rparr>"
  define p1 where "p1 = ps_get_token ((ps_get_token p0)\<lparr>ps_dom := d\<rparr>)"
  have "parse_key (ps_get_token p0) = Inr p1"
    using l l' dom map_emplace_last [OF k(2), of JNull]
    by (simp add: parse_key_def dom_key_def on_dom_def Let_def p1_def d_def whole_def)
  moreover have "lx_at (ps_lexer p1) (sp @ r)" using l l' by (simp add: p1_def)
  moreover have p1: "dom_stack (ps_dom p1) = q # st" "ps_dom p1 = d" using dom(1) by (simp_all add: p1_def d_def)
  moreover have "slot (ps_dom p1) (q @ [Key k]) (\<lambda>v. json_modify q (\<lambda>_. JObject (kvs @ [(k, v)])) (dom_root (ps_dom p0)))"
  proof -
    have new: "k \<notin> set (map fst kvs)" using k(2) by auto
    have "json_at q whole = Some (JObject (kvs @ [(k, JNull)]))" using dom(2) by (simp add: whole_def)
    moreover have "map_find k (kvs @ [(k, JNull)]) = Some JNull" using new by (induction kvs) auto
    moreover have "json_modify (q @ [Key k]) (\<lambda>_. v) whole
        = json_modify q (\<lambda>_. JObject (kvs @ [(k, v)])) (dom_root (ps_dom p0))" for v
      using map_adjust_last [OF new, of "\<lambda>_. v" JNull]
      by (simp add: json_modify_append whole_def comp_def json_modify_Nil)
    ultimately show ?thesis
      using slot_object [of d q st "kvs @ [(k, JNull)]" k JNull] p1 by (simp add: d_def)
  qed
  ultimately show ?thesis using sp(2) by blast
qed

section \<open>The round trip\<close>

lemma delim_newline [simp]: "num_delim (ly_newline ly @ ly_indent ly n @ CHR '']'' # r)"
    "num_delim (ly_newline ly @ ly_indent ly n @ CHR ''}'' # r)"
  by (simp_all add: num_delim_def ly_newline_def ly_indent_def)

lemma delim_comma [simp]: "num_delim (CHR '','' # r)"
  by (simp add: num_delim_def)

lemma scalar_values:
  assumes "text_stable j" and "\<not> is_container j"
  shows "\<forall>p0 ws r q F states. lx_at (ps_lexer p0) (ws @ json_text ly n j @ r) \<longrightarrow> ws_string ws
    \<longrightarrow> num_delim r \<longrightarrow> slot (ps_dom p0) q F
    \<longrightarrow> after_value states (ps_get_token p0) r (F j) (dom_stack (ps_dom p0))"
  using scalar_value assms by blast

text \<open>The first token of a value.\<close>

fun first_token :: "json \<Rightarrow> token_type" where
  "first_token JNull = Tok_literal_null"
| "first_token (JBoolean b) = (if b then Tok_literal_true else Tok_literal_false)"
| "first_token (JInteger i) = Tok_value_integer"
| "first_token (JUnsigned u) = Tok_value_unsigned"
| "first_token (JFloat d) = Tok_value_float"
| "first_token (JString s) = Tok_value_string"
| "first_token (JArray xs) = Tok_begin_array"
| "first_token (JObject kvs) = Tok_begin_object"
| "first_token _ = Tok_parse_error"

lemma scan_first_token:
  assumes at: "lx_at s (ws @ json_text ly n j @ r)" and ws: "ws_string ws" and r: "num_delim r"
    and ok: "text_stable j"
  shows "fst (lx_scan s) = first_token j"
proof (cases j)
  case JNull
  then show ?thesis using scan_literal [of s ws "''null''" r Tok_literal_null] at ws by auto
next
  case (JBoolean b)
  then show ?thesis
    using scan_literal [of s ws "''true''" r Tok_literal_true]
      scan_literal [of s ws "''false''" r Tok_literal_false] at ws by (cases b) auto
next
  case (JInteger i)
  then show ?thesis using scan_negative [of s ws i r] at ws r ok by (auto simp: sign_text_int)
next
  case (JUnsigned u)
  then show ?thesis using scan_unsigned [of s ws u r] at ws r by auto
next
  case (JFloat d)
  then show ?thesis using scan_float [of s ws d r] at ws r ok by auto
next
  case (JString t)
  then show ?thesis using scan_string [of s ws t r] at ws ok by auto
next
  case (JArray xs)
  then show ?thesis
    using scan_punctuation [of s ws "CHR ''[''" _ Tok_begin_array] at ws by (fastforce split: if_splits)
next
  case (JObject kvs)
  then show ?thesis
    using scan_punctuation [of s ws "CHR ''{''" _ Tok_begin_object] at ws by (fastforce split: if_splits)
qed (use ok in auto)

lemma elements_first_token:
  assumes "lx_at s (ws @ elements_text ly n (x # xs) @ ly_newline ly @ ly_indent ly m @ CHR '']'' # r)"
    and "ws_string ws" "is_ws (Some (ly_char ly))" and "text_stable x"
  shows "fst (lx_scan s) \<noteq> Tok_end_array"
proof -
  let ?r = "(if xs = [] then [] else '','' @ ly_newline ly @ elements_text ly n xs)
    @ ly_newline ly @ ly_indent ly m @ CHR '']'' # r"
  have "fst (lx_scan s) = first_token x"
    by (rule scan_first_token [of s "ws @ ly_indent ly n" ly n x ?r])
      (use assms layout_ws in auto)
  then show ?thesis using assms(4) by (cases x) auto
qed

lemma text_after:
  "is_ws (Some (ly_char ly)) \<Longrightarrow> text_stable j \<Longrightarrow>
    (\<forall>p0 ws r q F states. lx_at (ps_lexer p0) (ws @ json_text ly n j @ r) \<longrightarrow> ws_string ws \<longrightarrow> num_delim r
      \<longrightarrow> slot (ps_dom p0) q F
      \<longrightarrow> after_value states (ps_get_token p0) r (F j) (dom_stack (ps_dom p0)))"
  "is_ws (Some (ly_char ly)) \<Longrightarrow> list_all text_stable xs \<Longrightarrow> xs \<noteq> [] \<Longrightarrow>
    (\<forall>p0 ws m r q st states ys. lx_at (ps_lexer p0) (ws @ elements_text ly n xs @ ly_newline ly @ ly_indent ly m @ CHR '']'' # r)
      \<longrightarrow> ws_string ws \<longrightarrow> dom_stack (ps_dom p0) = q # st
      \<longrightarrow> json_at q (dom_root (ps_dom p0)) = Some (JArray ys)
      \<longrightarrow> (\<exists>p'. sax_loop False (True # states) (ps_get_token p0) = sax_loop True states p' \<and> lx_at (ps_lexer p') r
        \<and> dom_root (ps_dom p') = json_modify q (\<lambda>_. JArray (ys @ xs)) (dom_root (ps_dom p0))
        \<and> dom_stack (ps_dom p') = st))"
  "is_ws (Some (ly_char ly)) \<Longrightarrow> list_all (\<lambda>kv. utf8_valid (fst kv) \<and> text_stable (snd kv)) kvs \<Longrightarrow> kvs \<noteq> [] \<Longrightarrow>
    (\<forall>p0 ws m r q st states ys. lx_at (ps_lexer p0) (ws @ members_text ly n kvs @ ly_newline ly @ ly_indent ly m @ CHR ''}'' # r)
      \<longrightarrow> ws_string ws \<longrightarrow> dom_stack (ps_dom p0) = q # st
      \<longrightarrow> json_at q (dom_root (ps_dom p0)) = Some (JObject ys)
      \<longrightarrow> sorted_wrt (<) (map fst (ys @ kvs))
      \<longrightarrow> (\<exists>p1 p'. parse_key (ps_get_token p0) = Inr p1
        \<and> sax_loop False (False # states) (ps_get_token p1) = sax_loop True states p' \<and> lx_at (ps_lexer p') r
        \<and> dom_root (ps_dom p') = json_modify q (\<lambda>_. JObject (ys @ kvs)) (dom_root (ps_dom p0))
        \<and> dom_stack (ps_dom p') = st))"
proof (induction ly n j and ly n xs and ly n kvs rule: json_text_elements_text_members_text.induct)
  case (7 ly n xs)
  note lws = layout_ws [OF "7.prems"(1)]
  show ?case
  proof (intro allI impI)
    fix p0 :: parser and ws r q F states
    assume at: "lx_at (ps_lexer p0) (ws @ json_text ly n (JArray xs) @ r)" and ws: "ws_string ws"
      and slot: "slot (ps_dom p0) q F"
    let ?rest = "if xs = [] then '']'' @ r else ly_newline ly @ elements_text ly (ly_next ly n) xs
      @ ly_newline ly @ ly_indent ly n @ CHR '']'' # r"
    have "lx_at (ps_lexer p0) (ws @ CHR ''['' # ?rest)" using at by (auto split: if_splits)
    then obtain l where l: "lx_scan (ps_lexer p0) = (Tok_begin_array, l)" "lx_at l ?rest"
      using scan_punctuation [OF _ ws, of "ps_lexer p0" "CHR ''[''" ?rest Tok_begin_array] by auto
    define p1 where "p1 = (ps_get_token p0)\<lparr>ps_dom := (ps_dom p0)\<lparr>dom_root := F (JArray []), dom_stack := q # dom_stack (ps_dom p0)\<rparr>\<rparr>"
    have start: "on_dom (ps_get_token p0) (dom_start_array (ps_dom (ps_get_token p0))) = Inr p1"
      using slotD(1) [OF slot] by (simp add: dom_start_array_def on_dom_def p1_def)
    have p1: "lx_at (ps_lexer p1) ?rest" "dom_stack (ps_dom p1) = q # dom_stack (ps_dom p0)"
      "dom_root (ps_dom p1) = F (JArray [])" "json_at q (dom_root (ps_dom p1)) = Some (JArray [])"
      using l slotD(2) [OF slot] by (simp_all add: p1_def)
    have step: "sax_value_step states (ps_get_token p0) = sax_begin_array states (ps_get_token p0)"
      using l by (simp add: sax_value_step_def Let_def)
    show "after_value states (ps_get_token p0) r (F (JArray xs)) (dom_stack (ps_dom p0))"
    proof (cases "xs = []")
      case True
      then obtain l2 where l2: "lx_scan (ps_lexer p1) = (Tok_end_array, l2)" "lx_at l2 r"
        using scan_punctuation [of "ps_lexer p1" "[]" "CHR '']''" r Tok_end_array] p1(1) by (auto simp: ws_string_def)
      let ?p' = "(ps_get_token p1)\<lparr>ps_dom := (ps_dom p1)\<lparr>dom_stack := dom_stack (ps_dom p0)\<rparr>\<rparr>"
      have "sax_value_step states (ps_get_token p0) = Inr (False, states, ?p')"
        using l2 p1 unfolding step sax_begin_array_def start
        by (simp add: Let_def dom_end_array_def on_dom_def)
      then have "sax_loop False states (ps_get_token p0) = sax_loop True states ?p'" by (rule sax_loop_value)
      moreover have "lx_at (ps_lexer ?p') r" using l2 by simp
      ultimately show ?thesis
        using True p1(3) unfolding after_value_def by (intro exI [of _ ?p']) simp
    next
      case False
      then obtain x xs' where xs: "xs = x # xs'" by (cases xs) auto
      have at1: "lx_at (ps_lexer p1) (ly_newline ly @ elements_text ly (ly_next ly n) xs
          @ ly_newline ly @ ly_indent ly n @ CHR '']'' # r)"
        using p1(1) False by simp
      have "ps_last_token (ps_get_token p1) \<noteq> Tok_end_array"
        using elements_first_token [OF at1 [unfolded xs] lws(1) "7.prems"(1)] "7.prems"(2) xs by simp
      then have "sax_value_step states (ps_get_token p0) = Inr (True, True # states, ps_get_token p1)"
        unfolding step sax_begin_array_def start by (simp add: Let_def)
      then have "sax_loop False states (ps_get_token p0) = sax_loop False (True # states) (ps_get_token p1)"
        by (rule sax_loop_open)
      moreover have "list_all text_stable xs" using "7.prems" by simp
      from "7.IH" [OF False "7.prems"(1) this False, rule_format, OF at1 lws(1) p1(2) p1(4)]
      obtain p' where "sax_loop False (True # states) (ps_get_token p1) = sax_loop True states p'"
        "lx_at (ps_lexer p') r"
        "dom_root (ps_dom p') = json_modify q (\<lambda>_. JArray ([] @ xs)) (dom_root (ps_dom p1))"
        "dom_stack (ps_dom p') = dom_stack (ps_dom p0)"
        by blast
      ultimately show ?thesis
        using p1(3) slotD(3) [OF slot] unfolding after_value_def by (intro exI [of _ p']) simp
    qed
  qed
next
  case (8 ly n kvs)
  note lws = layout_ws [OF "8.prems"(1)]
  show ?case
  proof (intro allI impI)
    fix p0 :: parser and ws r q F states
    assume at: "lx_at (ps_lexer p0) (ws @ json_text ly n (JObject kvs) @ r)" and ws: "ws_string ws"
      and slot: "slot (ps_dom p0) q F"
    let ?rest = "if kvs = [] then ''}'' @ r else ly_newline ly @ members_text ly (ly_next ly n) kvs
      @ ly_newline ly @ ly_indent ly n @ CHR ''}'' # r"
    have "lx_at (ps_lexer p0) (ws @ CHR ''{'' # ?rest)" using at by (auto split: if_splits)
    then obtain l where l: "lx_scan (ps_lexer p0) = (Tok_begin_object, l)" "lx_at l ?rest"
      using scan_punctuation [OF _ ws, of "ps_lexer p0" "CHR ''{''" ?rest Tok_begin_object] by auto
    define p1 where "p1 = (ps_get_token p0)\<lparr>ps_dom := (ps_dom p0)\<lparr>dom_root := F (JObject []), dom_stack := q # dom_stack (ps_dom p0)\<rparr>\<rparr>"
    have start: "on_dom (ps_get_token p0) (dom_start_object (ps_dom (ps_get_token p0))) = Inr p1"
      using slotD(1) [OF slot] by (simp add: dom_start_object_def on_dom_def p1_def)
    have p1: "lx_at (ps_lexer p1) ?rest" "dom_stack (ps_dom p1) = q # dom_stack (ps_dom p0)"
      "dom_root (ps_dom p1) = F (JObject [])" "json_at q (dom_root (ps_dom p1)) = Some (JObject [])"
      using l slotD(2) [OF slot] by (simp_all add: p1_def)
    have step: "sax_value_step states (ps_get_token p0) = sax_begin_object states (ps_get_token p0)"
      using l by (simp add: sax_value_step_def Let_def)
    show "after_value states (ps_get_token p0) r (F (JObject kvs)) (dom_stack (ps_dom p0))"
    proof (cases "kvs = []")
      case True
      then obtain l2 where l2: "lx_scan (ps_lexer p1) = (Tok_end_object, l2)" "lx_at l2 r"
        using scan_punctuation [of "ps_lexer p1" "[]" "CHR ''}''" r Tok_end_object] p1(1) by (auto simp: ws_string_def)
      let ?p' = "(ps_get_token p1)\<lparr>ps_dom := (ps_dom p1)\<lparr>dom_stack := dom_stack (ps_dom p0)\<rparr>\<rparr>"
      have "sax_value_step states (ps_get_token p0) = Inr (False, states, ?p')"
        using l2 p1 unfolding step sax_begin_object_def start
        by (simp add: Let_def dom_end_object_def on_dom_def)
      then have "sax_loop False states (ps_get_token p0) = sax_loop True states ?p'" by (rule sax_loop_value)
      moreover have "lx_at (ps_lexer ?p') r" using l2 by simp
      ultimately show ?thesis
        using True p1(3) unfolding after_value_def by (intro exI [of _ ?p']) simp
    next
      case False
      have at1: "lx_at (ps_lexer p1) (ly_newline ly @ members_text ly (ly_next ly n) kvs
          @ ly_newline ly @ ly_indent ly n @ CHR ''}'' # r)"
        using p1(1) False by simp
      have ok: "list_all (\<lambda>kv. utf8_valid (fst kv) \<and> text_stable (snd kv)) kvs" "sorted_wrt (<) (map fst ([] @ kvs))"
        using "8.prems" by simp_all
      from "8.IH" [OF False "8.prems"(1) ok(1) False, rule_format, OF at1 lws(1) p1(2) p1(4) ok(2)]
      obtain p2 p' where p2: "parse_key (ps_get_token p1) = Inr p2"
        and p': "sax_loop False (False # states) (ps_get_token p2) = sax_loop True states p'"
        "lx_at (ps_lexer p') r"
        "dom_root (ps_dom p') = json_modify q (\<lambda>_. JObject ([] @ kvs)) (dom_root (ps_dom p1))"
        "dom_stack (ps_dom p') = dom_stack (ps_dom p0)"
        by blast
      have "ps_last_token (ps_get_token p1) = Tok_value_string"
        using p2 by (simp add: parse_key_def split: if_splits)
      then have "sax_value_step states (ps_get_token p0) = Inr (True, False # states, ps_get_token p2)"
        using p2 unfolding step sax_begin_object_def start by (simp add: Let_def)
      then have "sax_loop False states (ps_get_token p0) = sax_loop False (False # states) (ps_get_token p2)"
        by (rule sax_loop_open)
      then show ?thesis
        using p' p1(3) slotD(3) [OF slot] unfolding after_value_def by (intro exI [of _ p']) simp
    qed
  qed
next
  case (12 ly n x xs)
  note lws = layout_ws [OF "12.prems"(1)]
  show ?case
  proof (intro allI impI)
    fix p0 :: parser and ws m r q st states ys
    assume at: "lx_at (ps_lexer p0) (ws @ elements_text ly n (x # xs) @ ly_newline ly @ ly_indent ly m @ CHR '']'' # r)"
      and ws: "ws_string ws" and dom: "dom_stack (ps_dom p0) = q # st"
      "json_at q (dom_root (ps_dom p0)) = Some (JArray ys)"
    let ?close = "ly_newline ly @ ly_indent ly m @ CHR '']'' # r"
    let ?rest = "if xs = [] then ?close else CHR '','' # ly_newline ly @ elements_text ly n xs @ ?close"
    let ?whole = "json_modify q (\<lambda>_. JArray (ys @ [x])) (dom_root (ps_dom p0))"
    have at_x: "lx_at (ps_lexer p0) ((ws @ ly_indent ly n) @ json_text ly n x @ ?rest)"
      using at by (auto split: if_splits)
    have ws_x: "ws_string (ws @ ly_indent ly n)" using ws lws by simp
    have delim: "num_delim ?rest" by simp
    have "text_stable x" using "12.prems" by simp
    from "12.IH"(1) [OF "12.prems"(1) this, rule_format, OF at_x ws_x delim slot_array [OF dom], of "True # states"]
    have "after_value (True # states) (ps_get_token p0) ?rest ?whole (q # st)"
      using dom(1) by simp
    then obtain p1 where p1: "sax_loop False (True # states) (ps_get_token p0) = sax_loop True (True # states) p1"
      "lx_at (ps_lexer p1) ?rest" "dom_root (ps_dom p1) = ?whole" "dom_stack (ps_dom p1) = q # st"
      unfolding after_value_def by blast
    have at_q: "json_at q (dom_root (ps_dom p1)) = Some (JArray (ys @ [x]))" using p1(3) dom(2) by simp
    show "\<exists>p'. sax_loop False (True # states) (ps_get_token p0) = sax_loop True states p' \<and> lx_at (ps_lexer p') r
        \<and> dom_root (ps_dom p') = json_modify q (\<lambda>_. JArray (ys @ x # xs)) (dom_root (ps_dom p0))
        \<and> dom_stack (ps_dom p') = st"
    proof (cases "xs = []")
      case True
      then have close: "lx_at (ps_lexer p1) ((ly_newline ly @ ly_indent ly m) @ CHR '']'' # r)" using p1(2) by simp
      from end_array_after [OF close lws(4) [OF lws(1,2)] p1(4) at_q] show ?thesis
        using p1 True by simp
    next
      case False
      then have "lx_at (ps_lexer p1) (CHR '','' # ly_newline ly @ elements_text ly n xs @ ?close)" using p1(2) by simp
      then obtain p2 where p2: "sax_loop True (True # states) p1 = sax_loop False (True # states) (ps_get_token p2)"
        "lx_at (ps_lexer p2) (ly_newline ly @ elements_text ly n xs @ ?close)" "ps_dom p2 = ps_dom p1"
        using comma_array by blast
      have "list_all text_stable xs" using "12.prems" by simp
      from "12.IH"(2) [OF False "12.prems"(1) this False, rule_format, OF p2(2) lws(1), of q st "ys @ [x]" states]
      obtain p' where "sax_loop False (True # states) (ps_get_token p2) = sax_loop True states p'"
        "lx_at (ps_lexer p') r"
        "dom_root (ps_dom p') = json_modify q (\<lambda>_. JArray ((ys @ [x]) @ xs)) (dom_root (ps_dom p2))"
        "dom_stack (ps_dom p') = st"
        using p1(4) at_q p2(3) by auto
      then show ?thesis using p1 p2 by (intro exI [of _ p']) (simp add: comp_def)
    qed
  qed
next
  case (14 ly n k v kvs)
  note lws = layout_ws [OF "14.prems"(1)]
  show ?case
  proof (intro allI impI)
    fix p0 :: parser and ws m r q st states ys
    assume at: "lx_at (ps_lexer p0) (ws @ members_text ly n ((k, v) # kvs) @ ly_newline ly @ ly_indent ly m @ CHR ''}'' # r)"
      and ws: "ws_string ws" and dom: "dom_stack (ps_dom p0) = q # st"
      "json_at q (dom_root (ps_dom p0)) = Some (JObject ys)"
      and sorted: "sorted_wrt (<) (map fst (ys @ (k, v) # kvs))"
    let ?close = "ly_newline ly @ ly_indent ly m @ CHR ''}'' # r"
    let ?rest = "if kvs = [] then ?close else CHR '','' # ly_newline ly @ members_text ly n kvs @ ?close"
    let ?whole = "json_modify q (\<lambda>_. JObject (ys @ [(k, v)])) (dom_root (ps_dom p0))"
    have k: "utf8_valid k" "\<forall>k' \<in> set (map fst ys). k' < k"
      using "14.prems"(2) sorted by (auto simp: sorted_wrt_append)
    have "lx_at (ps_lexer p0) ((ws @ ly_indent ly n) @ string_text k @ ly_colon ly @ json_text ly n v @ ?rest)"
      using at by (auto split: if_splits)
    moreover have "ws_string (ws @ ly_indent ly n)" using ws lws by simp
    ultimately obtain p1 sp where p1: "parse_key (ps_get_token p0) = Inr p1"
      "lx_at (ps_lexer p1) (sp @ json_text ly n v @ ?rest)" "ws_string sp" "dom_stack (ps_dom p1) = q # st"
      "slot (ps_dom p1) (q @ [Key k]) (\<lambda>v. json_modify q (\<lambda>_. JObject (ys @ [(k, v)])) (dom_root (ps_dom p0)))"
      using parse_key_after [OF _ _ k dom] by blast
    have delim: "num_delim ?rest" by simp
    have "text_stable v" using "14.prems" by simp
    from "14.IH"(1) [OF "14.prems"(1) this, rule_format, OF p1(2,3) delim p1(5), of "False # states"]
    have "after_value (False # states) (ps_get_token p1) ?rest ?whole (q # st)"
      using p1(4) by simp
    then obtain p2 where p2: "sax_loop False (False # states) (ps_get_token p1) = sax_loop True (False # states) p2"
      "lx_at (ps_lexer p2) ?rest" "dom_root (ps_dom p2) = ?whole" "dom_stack (ps_dom p2) = q # st"
      unfolding after_value_def by blast
    have at_q: "json_at q (dom_root (ps_dom p2)) = Some (JObject (ys @ [(k, v)]))" using p2(3) dom(2) by simp
    show "\<exists>p1 p'. parse_key (ps_get_token p0) = Inr p1
        \<and> sax_loop False (False # states) (ps_get_token p1) = sax_loop True states p' \<and> lx_at (ps_lexer p') r
        \<and> dom_root (ps_dom p') = json_modify q (\<lambda>_. JObject (ys @ (k, v) # kvs)) (dom_root (ps_dom p0))
        \<and> dom_stack (ps_dom p') = st"
    proof (cases "kvs = []")
      case True
      then have close: "lx_at (ps_lexer p2) ((ly_newline ly @ ly_indent ly m) @ CHR ''}'' # r)" using p2(2) by simp
      from end_object_after [OF close lws(4) [OF lws(1,2)] p2(4) at_q] show ?thesis
        using p1(1) p2 True by simp
    next
      case False
      then have "lx_at (ps_lexer p2) (CHR '','' # ly_newline ly @ members_text ly n kvs @ ?close)" using p2(2) by simp
      then obtain p3 where p3: "lx_at (ps_lexer p3) (ly_newline ly @ members_text ly n kvs @ ?close)" "ps_dom p3 = ps_dom p2"
        "\<And>p4. parse_key (ps_get_token p3) = Inr p4 \<Longrightarrow>
          sax_loop True (False # states) p2 = sax_loop False (False # states) (ps_get_token p4)"
        using comma_object by blast
      have ok: "list_all (\<lambda>kv. utf8_valid (fst kv) \<and> text_stable (snd kv)) kvs"
        "sorted_wrt (<) (map fst ((ys @ [(k, v)]) @ kvs))"
        using "14.prems" sorted by simp_all
      have dom3: "dom_stack (ps_dom p3) = q # st" "json_at q (dom_root (ps_dom p3)) = Some (JObject (ys @ [(k, v)]))"
        using p2(4) at_q p3(2) by simp_all
      from "14.IH"(2) [OF False "14.prems"(1) ok(1) False, rule_format, OF p3(1) lws(1) dom3 ok(2), of states]
      obtain p4 p' where "parse_key (ps_get_token p3) = Inr p4"
        "sax_loop False (False # states) (ps_get_token p4) = sax_loop True states p'" "lx_at (ps_lexer p') r"
        "dom_root (ps_dom p') = json_modify q (\<lambda>_. JObject ((ys @ [(k, v)]) @ kvs)) (dom_root (ps_dom p3))"
        "dom_stack (ps_dom p') = st"
        by blast
      then show ?thesis using p1(1) p2 p3(2,3) by (intro exI [of _ p1] exI [of _ p']) (simp add: comp_def)
    qed
  qed
next
  case (1 ly n)
  show ?case by (rule scalar_values) simp_all
next
  case (2 ly n b)
  show ?case by (rule scalar_values) simp_all
next
  case (3 ly n i)
  show ?case by (rule scalar_values) (use 3 in simp_all)
next
  case (4 ly n u)
  show ?case by (rule scalar_values) simp_all
next
  case (5 ly n d)
  show ?case by (rule scalar_values) (use 5 in simp_all)
next
  case (6 ly n s)
  show ?case by (rule scalar_values) (use 6 in simp_all)
qed simp_all

lemma new_parser_at: "\<exists>p0. new_parser input = ps_get_token p0 \<and> lx_at (ps_lexer p0) input
    \<and> dom_stack (ps_dom p0) = []"
  by (rule exI [of _ "\<lparr>ps_lexer = new_lexer input False, ps_last_token = Tok_uninitialized,
      ps_dom = new_dom JNull\<rparr>"]) (simp add: new_parser_def lx_at_def new_lexer_def new_dom_def)

lemma parse_json_text:
  assumes "is_ws (Some (ly_char ly))" and "text_stable j"
  shows "json_parse (json_text ly n j) = Inr j"
proof -
  obtain p0 where p0: "new_parser (json_text ly n j) = ps_get_token p0"
    "lx_at (ps_lexer p0) ([] @ json_text ly n j @ [])" "dom_stack (ps_dom p0) = []"
    using new_parser_at [of "json_text ly n j"] by auto
  have "ws_string []" "num_delim []" by (simp_all add: ws_string_def num_delim_def)
  from text_after(1) [OF assms, rule_format, OF p0(2) this slot_top [OF p0(3)], of "[]"]
  obtain p' where p': "sax_loop False [] (ps_get_token p0) = sax_loop True [] p'"
    "lx_at (ps_lexer p') []" "dom_root (ps_dom p') = j"
    unfolding after_value_def by blast
  have "sax_loop True [] p' = Inr p'" by (simp add: sax_loop.simps sax_step_def sax_state_step_def)
  then show ?thesis
    using p0(1) p' scan_end [OF p'(2)]
    by (simp add: json_parse_def parser_parse_def sax_parse_internal_def Let_def)
qed

section \<open>The property\<close>

text \<open>
  C3: \<open>dump\<close> followed by \<open>parse\<close> is the identity on every value whose strings and keys are valid
  UTF-8, whose doubles are finite, and which holds no binary or discarded value; a non-negative
  integer must be an unsigned number, as the parser makes it. This holds for the compact form and
  for an indentation by white space that stays within 512 columns.
\<close>

theorem json_roundtrip:
  assumes "text_stable j" and "fits (layout_of indent ic) 0 (json_depth j)" and "is_ws (Some ic)"
  shows "\<exists>t. json_dump indent ic False Strict j = Inr t \<and> json_parse t = Inr j"
  using json_dump_is_text [OF text_stable_printable [OF assms(1)] assms(2)]
    parse_json_text [of "layout_of indent ic" j 0] assms(1,3)
  by (simp add: layout_of_def)

lemma json_roundtrip_witness:
  "\<exists>t. json_dump 2 CHR '' '' False Strict
      (JObject [(''id'', JUnsigned 7), (''rows'', JArray [JString [CHR 0xC3, CHR 0xA9, CHR 0x0A], JFloat (Double_fin True 7205759403792794 (- 56)), JInteger (- 4)])]) = Inr t
    \<and> json_parse t = Inr
      (JObject [(''id'', JUnsigned 7), (''rows'', JArray [JString [CHR 0xC3, CHR 0xA9, CHR 0x0A], JFloat (Double_fin True 7205759403792794 (- 56)), JInteger (- 4)])])"
  by (rule json_roundtrip)
    (simp_all add: utf8_valid_def range_next_def utf8_tail_ranges_def char_nat_def fits_def layout_of_def is_ws_def)

end
