(* ===== verification/Json_Access.thy ===== *)
theory Json_Access
  imports Json_Value
begin

text \<open>
  Access to and changes of JSON values (\<^verbatim>\<open>class basic_json\<close> of \<^verbatim>\<open>include/nlohmann/json.hpp\<close>): element
  access with and without bounds checks, lookup, capacity, modifiers, \<^verbatim>\<open>update\<close>, \<^verbatim>\<open>merge_patch\<close>,
  construction from an initializer list, and the comparison operators. An operation that changes a
  value returns the changed value; what an operation that throws leaves behind is not modelled. An
  iterator into a value is the position it points to, the past-the-end iterator the size.
\<close>

section \<open>The map behind an object\<close>

fun map_erase :: "string \<Rightarrow> (string \<times> 'v) list \<Rightarrow> (string \<times> 'v) list" where
  "map_erase k [] = []"
| "map_erase k ((k', v) # kvs) = (if k = k' then kvs else (k', v) # map_erase k kvs)"

text \<open>Assignment through \<^verbatim>\<open>std::map::operator[]\<close>.\<close>

definition map_put :: "string \<Rightarrow> 'v \<Rightarrow> (string \<times> 'v) list \<Rightarrow> (string \<times> 'v) list" where
  "map_put k v kvs = map_adjust k (\<lambda>_. v) (map_emplace k v kvs)"

section \<open>Construction from an initializer list\<close>

text \<open>A list of pairs whose first components are strings becomes an object, any other list an array.\<close>

definition is_pair :: "json \<Rightarrow> bool" where
  "is_pair j = (case j of JArray [JString k, v] \<Rightarrow> True | _ \<Rightarrow> False)"

definition pair_entry :: "json \<Rightarrow> string \<times> json" where
  "pair_entry j = (case j of JArray [JString k, v] \<Rightarrow> (k, v) | _ \<Rightarrow> ([], j))"

definition json_of_list :: "json list \<Rightarrow> bool \<Rightarrow> value_t \<Rightarrow> json outcome" where
  "json_of_list init type_deduction manual_type =
     (let is_an_object = list_all is_pair init;
          is_an_object1 = (if \<not> type_deduction \<and> manual_type = VT_array then False else is_an_object)
      in if \<not> type_deduction \<and> manual_type = VT_object \<and> \<not> is_an_object1
         then Inl (type_error 301 ''cannot create object from initializer list'')
         else if is_an_object1
         then Inr (JObject (fold (\<lambda>el kvs. map_emplace (fst (pair_entry el)) (snd (pair_entry el)) kvs) init []))
         else Inr (JArray init))"

section \<open>Element access\<close>

definition index_out_of_range :: "size_t \<Rightarrow> cpp_error" where
  "index_out_of_range idx = json_out_of_range 401 (''array index '' @ to_string (unat idx) @ '' is out of range'')"

definition json_at_idx :: "size_t \<Rightarrow> json \<Rightarrow> json outcome" where
  "json_at_idx idx j =
     (case j of
        JArray xs \<Rightarrow> if unat idx < length xs then Inr (xs ! unat idx) else Inl (index_out_of_range idx)
      | _ \<Rightarrow> Inl (type_error 304 (''cannot use at() with '' @ type_name (json_type j))))"

definition json_at_key :: "string \<Rightarrow> json \<Rightarrow> json outcome" where
  "json_at_key key j =
     (case j of
        JObject kvs \<Rightarrow>
          (case map_find key kvs of
             None \<Rightarrow> Inl (json_out_of_range 403 (''key '' @ quoted key @ '' not found''))
           | Some v \<Rightarrow> Inr v)
      | _ \<Rightarrow> Inl (type_error 304 (''cannot use at() with '' @ type_name (json_type j))))"

text \<open>The largest vector of values, which are 16 bytes large.\<close>

definition array_max_size :: nat where
  "array_max_size = (2 ^ 63 - 1) div 16"

text \<open>
  \<^verbatim>\<open>reference operator[](idx)\<close>: a null value becomes an empty array, and an array too short is filled
  up with null values. The result is the value the reference points to and the changed container.
\<close>

definition json_index_num_mut :: "size_t \<Rightarrow> json \<Rightarrow> (json \<times> json) outcome" where
  "json_index_num_mut idx j =
     (let j1 = (if j = JNull then JArray [] else j)
      in case j1 of
           JArray xs \<Rightarrow>
             if length xs \<le> unat idx
             then let n = unat (idx + 1)
                  in if array_max_size < n then Inl (Length_error ''vector::_M_default_append'')
                     else let ys = take n xs @ replicate (n - length xs) JNull
                          in if unat idx < length ys then Inr (ys ! unat idx, JArray ys)
                             else Inl (Undefined_behaviour ''vector::operator[]'')
             else Inr (xs ! unat idx, JArray xs)
         | _ \<Rightarrow> Inl (type_error 305
                 (''cannot use operator[] with a numeric argument with '' @ type_name (json_type j1))))"

definition json_index_num_const :: "size_t \<Rightarrow> json \<Rightarrow> json outcome" where
  "json_index_num_const idx j =
     (case j of
        JArray xs \<Rightarrow> if unat idx < length xs then Inr (xs ! unat idx)
                     else Inl (Undefined_behaviour ''vector::operator[]'')
      | _ \<Rightarrow> Inl (type_error 305
              (''cannot use operator[] with a numeric argument with '' @ type_name (json_type j))))"

section \<open>Lookup and capacity\<close>

text \<open>\<^verbatim>\<open>find\<close> returns \<^verbatim>\<open>end()\<close>, here \<open>None\<close>, for a missing key and on any value that is no object.\<close>

definition json_find :: "string \<Rightarrow> json \<Rightarrow> json option" where
  "json_find key j = (case j of JObject kvs \<Rightarrow> map_find key kvs | _ \<Rightarrow> None)"

definition json_count :: "string \<Rightarrow> json \<Rightarrow> nat" where
  "json_count key j = (case j of JObject kvs \<Rightarrow> if map_find key kvs = None then 0 else 1 | _ \<Rightarrow> 0)"

definition json_contains :: "string \<Rightarrow> json \<Rightarrow> bool" where
  "json_contains key j = (case j of JObject kvs \<Rightarrow> map_find key kvs \<noteq> None | _ \<Rightarrow> False)"

fun json_empty :: "json \<Rightarrow> bool" where
  "json_empty JNull = True"
| "json_empty (JArray xs) = (xs = [])"
| "json_empty (JObject kvs) = (kvs = [])"
| "json_empty _ = False"

fun json_size :: "json \<Rightarrow> nat" where
  "json_size JNull = 0"
| "json_size (JArray xs) = length xs"
| "json_size (JObject kvs) = length kvs"
| "json_size _ = 1"

section \<open>Modifiers\<close>

fun json_clear :: "json \<Rightarrow> json" where
  "json_clear (JInteger i) = JInteger 0"
| "json_clear (JUnsigned u) = JUnsigned 0"
| "json_clear (JFloat d) = JFloat (Double_fin False 0 0)"
| "json_clear (JBoolean b) = JBoolean False"
| "json_clear (JString s) = JString []"
| "json_clear (JBinary bytes subtype) = JBinary [] subtype"
| "json_clear (JArray xs) = JArray []"
| "json_clear (JObject kvs) = JObject []"
| "json_clear JNull = JNull"
| "json_clear JDiscarded = JDiscarded"

definition json_push_back :: "json \<Rightarrow> json \<Rightarrow> json outcome" where
  "json_push_back val j =
     (case j of
        JNull \<Rightarrow> Inr (JArray [val])
      | JArray xs \<Rightarrow> Inr (JArray (xs @ [val]))
      | _ \<Rightarrow> Inl (type_error 308 (''cannot use push_back() with '' @ type_name (json_type j))))"

text \<open>Adding an entry to an object keeps an entry the key already has.\<close>

definition json_push_back_pair :: "string \<times> json \<Rightarrow> json \<Rightarrow> json outcome" where
  "json_push_back_pair kv j =
     (case j of
        JNull \<Rightarrow> Inr (JObject (map_emplace (fst kv) (snd kv) []))
      | JObject kvs \<Rightarrow> Inr (JObject (map_emplace (fst kv) (snd kv) kvs))
      | _ \<Rightarrow> Inl (type_error 308 (''cannot use push_back() with '' @ type_name (json_type j))))"

definition json_push_back_list :: "json list \<Rightarrow> json \<Rightarrow> json outcome" where
  "json_push_back_list init j =
     (case (j, init) of
        (JObject kvs, [JString k, v]) \<Rightarrow> json_push_back_pair (k, v) j
      | _ \<Rightarrow> (case json_of_list init True VT_array of Inl e \<Rightarrow> Inl e | Inr val \<Rightarrow> json_push_back val j))"

definition json_emplace_back :: "json \<Rightarrow> json \<Rightarrow> json outcome" where
  "json_emplace_back val j =
     (case j of
        JNull \<Rightarrow> Inr (JArray [val])
      | JArray xs \<Rightarrow> Inr (JArray (xs @ [val]))
      | _ \<Rightarrow> Inl (type_error 311 (''cannot use emplace_back() with '' @ type_name (json_type j))))"

text \<open>\<^verbatim>\<open>emplace\<close> also returns whether the entry is new.\<close>

definition json_emplace :: "string \<Rightarrow> json \<Rightarrow> json \<Rightarrow> (bool \<times> json) outcome" where
  "json_emplace key val j =
     (case j of
        JNull \<Rightarrow> Inr (True, JObject (map_emplace key val []))
      | JObject kvs \<Rightarrow> Inr (map_find key kvs = None, JObject (map_emplace key val kvs))
      | _ \<Rightarrow> Inl (type_error 311 (''cannot use emplace() with '' @ type_name (json_type j))))"

definition erase_type_error :: "json \<Rightarrow> cpp_error" where
  "erase_type_error j = type_error 307 (''cannot use erase() with '' @ type_name (json_type j))"

text \<open>\<^verbatim>\<open>erase(key)\<close> returns the number of entries it removed.\<close>

definition json_erase_key :: "string \<Rightarrow> json \<Rightarrow> (nat \<times> json) outcome" where
  "json_erase_key key j =
     (case j of
        JObject kvs \<Rightarrow> Inr (if map_find key kvs = None then 0 else 1, JObject (map_erase key kvs))
      | _ \<Rightarrow> Inl (erase_type_error j))"

definition json_erase_idx :: "size_t \<Rightarrow> json \<Rightarrow> json outcome" where
  "json_erase_idx idx j =
     (case j of
        JArray xs \<Rightarrow> if length xs \<le> unat idx then Inl (index_out_of_range idx)
                     else Inr (JArray (take (unat idx) xs @ drop (Suc (unat idx)) xs))
      | _ \<Rightarrow> Inl (erase_type_error j))"

text \<open>
  \<^verbatim>\<open>erase(pos)\<close> and \<^verbatim>\<open>erase(first, last)\<close> with iterators of the value itself. A primitive value has
  one element, whose removal leaves null.
\<close>

definition json_erase_pos :: "nat \<Rightarrow> json \<Rightarrow> json outcome" where
  "json_erase_pos pos j =
     (case j of
        JObject kvs \<Rightarrow> if pos < length kvs then Inr (JObject (take pos kvs @ drop (Suc pos) kvs))
                       else Inl (Undefined_behaviour ''map::erase'')
      | JArray xs \<Rightarrow> if pos < length xs then Inr (JArray (take pos xs @ drop (Suc pos) xs))
                     else Inl (Undefined_behaviour ''vector::erase'')
      | JNull \<Rightarrow> Inl (erase_type_error j)
      | JDiscarded \<Rightarrow> Inl (erase_type_error j)
      | _ \<Rightarrow> if pos \<noteq> 0 then Inl (Json_invalid_iterator 205 (exn_name ''invalid_iterator'' 205 @ ''iterator out of range''))
             else Inr JNull)"

definition json_erase_range :: "nat \<Rightarrow> nat \<Rightarrow> json \<Rightarrow> json outcome" where
  "json_erase_range i0 i1 j =
     (case j of
        JObject kvs \<Rightarrow> if i0 \<le> i1 \<and> i1 \<le> length kvs then Inr (JObject (take i0 kvs @ drop i1 kvs))
                       else Inl (Undefined_behaviour ''map::erase'')
      | JArray xs \<Rightarrow> if i0 \<le> i1 \<and> i1 \<le> length xs then Inr (JArray (take i0 xs @ drop i1 xs))
                     else Inl (Undefined_behaviour ''vector::erase'')
      | JNull \<Rightarrow> Inl (erase_type_error j)
      | JDiscarded \<Rightarrow> Inl (erase_type_error j)
      | _ \<Rightarrow> if i0 \<noteq> 0 \<or> i1 \<noteq> 1
             then Inl (Json_invalid_iterator 204 (exn_name ''invalid_iterator'' 204 @ ''iterators out of range''))
             else Inr JNull)"

text \<open>\<^verbatim>\<open>insert(pos, val)\<close> and \<^verbatim>\<open>insert(pos, first, last)\<close> with a range of another value.\<close>

definition json_insert_all :: "nat \<Rightarrow> json list \<Rightarrow> json \<Rightarrow> json outcome" where
  "json_insert_all pos vals j =
     (case j of
        JArray xs \<Rightarrow> if pos \<le> length xs then Inr (JArray (take pos xs @ vals @ drop pos xs))
                     else Inl (Undefined_behaviour ''vector::insert'')
      | _ \<Rightarrow> Inl (type_error 309 (''cannot use insert() with '' @ type_name (json_type j))))"

definition json_insert :: "nat \<Rightarrow> json \<Rightarrow> json \<Rightarrow> json outcome" where
  "json_insert pos val j =
     (case j of
        JArray xs \<Rightarrow> if pos \<le> length xs then Inr (JArray (take pos xs @ [val] @ drop pos xs))
                     else Inl (Undefined_behaviour ''vector::insert'')
      | _ \<Rightarrow> Inl (type_error 309 (''cannot use insert() with '' @ type_name (json_type j))))"

section \<open>update and merge_patch\<close>

definition update_type_error :: "json \<Rightarrow> cpp_error" where
  "update_type_error j = type_error 312 (''cannot use update() with '' @ type_name (json_type j))"

fun is_object :: "json \<Rightarrow> bool" where
  "is_object (JObject kvs) = True"
| "is_object _ = False"

text \<open>\<^verbatim>\<open>update(j, merge_objects)\<close>; the first argument is \<open>j\<close>, the last the value that is updated.\<close>

fun json_update :: "json \<Rightarrow> bool \<Rightarrow> json \<Rightarrow> json outcome"
  and update_entries :: "(string \<times> json) list \<Rightarrow> bool \<Rightarrow> (string \<times> json) list \<Rightarrow> (string \<times> json) list outcome"
  where
  "json_update j merge_objects this =
     (let this1 = (if this = JNull then JObject [] else this)
      in case this1 of
           JObject kvs \<Rightarrow>
             (case j of
                JObject news \<Rightarrow>
                  (case update_entries news merge_objects kvs of Inl e \<Rightarrow> Inl e | Inr kvs1 \<Rightarrow> Inr (JObject kvs1))
              | _ \<Rightarrow> Inl (update_type_error j))
         | _ \<Rightarrow> Inl (update_type_error this1))"
| "update_entries [] merge_objects kvs = Inr kvs"
| "update_entries ((k, v) # news) merge_objects kvs =
     (case (if merge_objects \<and> is_object v then map_find k kvs else None) of
        Some old \<Rightarrow>
          (case json_update v True old of
             Inl e \<Rightarrow> Inl e
           | Inr new \<Rightarrow> update_entries news merge_objects (map_put k new kvs))
      | None \<Rightarrow> update_entries news merge_objects (map_put k v kvs))"

text \<open>\<^verbatim>\<open>merge_patch(apply_patch)\<close>: RFC 7396.\<close>

fun json_merge_patch :: "json \<Rightarrow> json \<Rightarrow> json"
  and merge_entries :: "(string \<times> json) list \<Rightarrow> (string \<times> json) list \<Rightarrow> (string \<times> json) list"
  where
  "json_merge_patch apply_patch this =
     (case apply_patch of
        JObject ps \<Rightarrow> JObject (merge_entries ps (case this of JObject kvs \<Rightarrow> kvs | _ \<Rightarrow> []))
      | _ \<Rightarrow> apply_patch)"
| "merge_entries [] kvs = kvs"
| "merge_entries ((k, v) # ps) kvs =
     merge_entries ps
       (if v = JNull then map_erase k kvs
        else map_put k (json_merge_patch v (case map_find k kvs of None \<Rightarrow> JNull | Some old \<Rightarrow> old)) kvs)"

end
