(* ===== verification/Json_Objects.thy ===== *)
theory Json_Objects
  imports Json_Access
begin

text \<open>
  What the operations of \<^verbatim>\<open>Json_Access\<close> do: objects as finite maps (the interface \<open>key_map\<close>, which the
  sorted entry lists provide), \<^verbatim>\<open>merge_patch\<close> and \<^verbatim>\<open>update\<close> key by key, and the well-formedness
  that every operation keeps.
\<close>

section \<open>The interface of a map\<close>

text \<open>
  What the operations on objects rely on: lookup, assignment and removal of keys, and an invariant
  that both keep. An operation that treats a list of entries with distinct keys one after the other,
  each by what the map holds at its key, changes the map at these keys only.
\<close>

locale key_map =
  fixes lookup :: "'k \<Rightarrow> 'm \<Rightarrow> 'v option"
    and put :: "'k \<Rightarrow> 'v \<Rightarrow> 'm \<Rightarrow> 'm"
    and erase :: "'k \<Rightarrow> 'm \<Rightarrow> 'm"
    and inv :: "'m \<Rightarrow> bool"
  assumes lookup_put: "inv m \<Longrightarrow> lookup k' (put k v m) = (if k' = k then Some v else lookup k' m)"
    and lookup_erase: "inv m \<Longrightarrow> lookup k' (erase k m) = (if k' = k then None else lookup k' m)"
    and inv_put: "inv m \<Longrightarrow> inv (put k v m)"
    and inv_erase: "inv m \<Longrightarrow> inv (erase k m)"
    and extensional: "inv m \<Longrightarrow> inv m' \<Longrightarrow> (\<And>k. lookup k m = lookup k m') \<Longrightarrow> m = m'"
begin

definition alter :: "('a \<Rightarrow> 'v option \<Rightarrow> 'v option) \<Rightarrow> 'k \<times> 'a \<Rightarrow> 'm \<Rightarrow> 'm" where
  "alter f p m = (case f (snd p) (lookup (fst p) m) of None \<Rightarrow> erase (fst p) m | Some v \<Rightarrow> put (fst p) v m)"

lemma inv_alter: "inv m \<Longrightarrow> inv (alter f p m)"
  by (simp add: alter_def inv_put inv_erase split: option.split)

lemma inv_fold_alter: "inv m \<Longrightarrow> inv (fold (alter f) ps m)"
  by (induction ps arbitrary: m) (simp_all add: inv_alter)

lemma lookup_alter:
  "inv m \<Longrightarrow> lookup k (alter f p m) = (if k = fst p then f (snd p) (lookup k m) else lookup k m)"
  by (simp add: alter_def lookup_put lookup_erase split: option.split)

lemma lookup_fold_alter:
  "inv m \<Longrightarrow> distinct (map fst ps) \<Longrightarrow>
    lookup k (fold (alter f) ps m) = (case map_of ps k of None \<Rightarrow> lookup k m | Some a \<Rightarrow> f a (lookup k m))"
proof (induction ps arbitrary: m)
  case (Cons p ps)
  then have "map_of ps (fst p) = None" by (auto simp: map_of_eq_None_iff)
  then show ?case using Cons by (cases p) (auto simp: lookup_alter inv_alter split: option.split)
qed simp

text \<open>Treating the same entries twice does no more than once, if treating a key twice does not.\<close>

lemma fold_alter_idem:
  assumes "inv m" "distinct (map fst ps)"
    and "\<And>k a. (k, a) \<in> set ps \<Longrightarrow> f a (f a (lookup k m)) = f a (lookup k m)"
  shows "fold (alter f) ps (fold (alter f) ps m) = fold (alter f) ps m"
proof (rule extensional)
  fix k
  show "lookup k (fold (alter f) ps (fold (alter f) ps m)) = lookup k (fold (alter f) ps m)"
    using assms by (auto simp: lookup_fold_alter inv_fold_alter dest: map_of_SomeD split: option.split)
qed (simp_all add: inv_fold_alter assms(1))

end

section \<open>Objects are maps\<close>

abbreviation sorted_keys :: "(string \<times> 'v) list \<Rightarrow> bool" where
  "sorted_keys kvs \<equiv> sorted_wrt (<) (map fst kvs)"

lemma sorted_keys_distinct: "sorted_keys kvs \<Longrightarrow> distinct (map fst kvs)"
  by (simp add: strict_sorted_iff)

lemma map_find_map_of: "map_find k kvs = map_of kvs k"
  by (induction k kvs rule: map_find.induct) auto

lemma keys_erase: "set (map fst (map_erase k kvs)) \<subseteq> set (map fst kvs)"
  by (induction k kvs rule: map_erase.induct) auto

lemma sorted_erase [wf_intros]: "sorted_keys kvs \<Longrightarrow> sorted_keys (map_erase k kvs)"
proof (induction kvs)
  case (Cons p kvs)
  then show ?case using keys_erase [of k kvs] by (cases p) (fastforce simp: image_iff subset_iff)
qed simp

lemma map_find_erase [simp]:
  "sorted_keys kvs \<Longrightarrow> map_find k' (map_erase k kvs) = (if k' = k then None else map_find k' kvs)"
proof (induction kvs)
  case (Cons p kvs)
  obtain a b where p: "p = (a, b)" by (cases p)
  have "map_find a kvs = None" using Cons.prems by (auto simp: p map_find_None)
  then show ?case using Cons by (auto simp: p)
qed simp

lemma map_find_put [simp]:
  "sorted_keys kvs \<Longrightarrow> map_find k' (map_put k v kvs) = (if k' = k then Some v else map_find k' kvs)"
  by (cases "map_find k kvs") (auto simp: map_put_def)

lemma sorted_put [wf_intros]: "sorted_keys kvs \<Longrightarrow> sorted_keys (map_put k v kvs)"
  by (simp add: map_put_def sorted_emplace)

lemma sorted_keys_ext:
  "sorted_keys a \<Longrightarrow> sorted_keys b \<Longrightarrow> (\<And>k. map_find k a = map_find k b) \<Longrightarrow> a = b"
proof (induction a arbitrary: b)
  case Nil
  show ?case using Nil.prems(3) [of "fst (hd b)"] by (cases b) auto
next
  case (Cons p a)
  obtain k v where p: "p = (k, v)" by (cases p)
  obtain k' v' b' where b: "b = (k', v') # b'"
    using Cons.prems(3) [of k] by (cases b) (auto simp: p)
  have below: "map_find x a = None" if "x \<le> k" for x
    using Cons.prems(1) that by (auto simp: p map_find_None)
  have below': "map_find x b' = None" if "x \<le> k'" for x
    using Cons.prems(2) that by (auto simp: b map_find_None)
  have keys: "k' = k" using Cons.prems(3) [of k] Cons.prems(3) [of k'] below [of k'] below' [of k]
    by (cases k k' rule: linorder_cases) (auto simp: p b less_imp_le split: if_splits)
  have "map_find x a = map_find x b'" for x
    using Cons.prems(3) [of x] below [of x] below' [of x] by (cases "x = k") (simp_all add: p b keys)
  then have "a = b'" using Cons.IH [of b'] Cons.prems(1,2) by (simp add: p b)
  then show ?case using Cons.prems(3) [of k] by (simp add: p b keys)
qed

interpretation objects: key_map map_find map_put map_erase sorted_keys
  by unfold_locales (simp_all add: wf_intros sorted_keys_ext)

section \<open>merge_patch\<close>

text \<open>What RFC 7396 makes of the value of a key when the patch has \<open>v\<close> there.\<close>

definition merged :: "json \<Rightarrow> json option \<Rightarrow> json option" where
  "merged v old =
     (if v = JNull then None
      else Some (json_merge_patch v (case old of None \<Rightarrow> JNull | Some j \<Rightarrow> j)))"

declare json_merge_patch.simps [simp del]

lemma merge_entries_fold: "merge_entries ps kvs = fold (objects.alter merged) ps kvs"
proof (induction ps arbitrary: kvs)
  case (Cons p ps)
  then show ?case by (cases p) (simp add: objects.alter_def merged_def)
qed simp

lemma json_merge_patch_simps [simp]:
  "json_merge_patch (JObject ps) (JObject kvs) = JObject (fold (objects.alter merged) ps kvs)"
  "\<not> is_object j \<Longrightarrow> json_merge_patch (JObject ps) j = json_merge_patch (JObject ps) (JObject [])"
  "\<not> is_object p \<Longrightarrow> json_merge_patch p j = p"
  by (cases j; cases p; simp add: json_merge_patch.simps merge_entries_fold)+

lemma merge_patch_object:
  obtains kvs where "json_merge_patch (JObject ps) j = json_merge_patch (JObject ps) (JObject kvs)"
    "json_wf j \<Longrightarrow> json_wf (JObject kvs)" "\<And>k. json_find k j = map_find k kvs"
proof (cases "is_object j")
  case True
  then obtain kvs where "j = JObject kvs" by (cases j) simp_all
  then show ?thesis using that by (simp add: json_find_def)
next
  case False
  then have "json_find k j = map_find k []" for k by (cases j) (simp_all add: json_find_def)
  then show ?thesis using False that by simp
qed

lemma list_all_put: "P v \<Longrightarrow> list_all (\<lambda>kv. P (snd kv)) kvs \<Longrightarrow> list_all (\<lambda>kv. P (snd kv)) (map_put k v kvs)"
proof -
  assume "P v" "list_all (\<lambda>kv. P (snd kv)) kvs"
  moreover from this have "list_all (\<lambda>kv. P (snd kv)) (map_emplace k v kvs)"
    by (induction k v kvs rule: map_emplace.induct) simp_all
  moreover have "list_all (\<lambda>kv. P (snd kv)) es \<Longrightarrow> list_all (\<lambda>kv. P (snd kv)) (map_adjust k (\<lambda>_. v) es)" for es
    using \<open>P v\<close> by (induction es) auto
  ultimately show ?thesis by (simp add: map_put_def)
qed

lemma list_all_erase: "list_all P kvs \<Longrightarrow> list_all P (map_erase k kvs)"
  by (induction k kvs rule: map_erase.induct) auto

lemma json_wf_find: "json_wf j \<Longrightarrow> json_find k j = Some v \<Longrightarrow> json_wf v"
  using json_wf_step [of j "Key k" v] by (cases j) (simp_all add: json_find_def)

lemma json_wf_put [wf_intros]: "json_wf (JObject kvs) \<Longrightarrow> json_wf v \<Longrightarrow> json_wf (JObject (map_put k v kvs))"
  using list_all_put [of json_wf] sorted_put by auto

lemma json_wf_erase [wf_intros]: "json_wf (JObject kvs) \<Longrightarrow> json_wf (JObject (map_erase k kvs))"
  using list_all_erase [of "\<lambda>kv. json_wf (snd kv)"] sorted_erase by auto

lemma json_wf_merge_patch [wf_intros]: "json_wf p \<Longrightarrow> json_wf j \<Longrightarrow> json_wf (json_merge_patch p j)"
proof (induction p arbitrary: j)
  case (JObject ps)
  obtain kvs where kvs: "json_merge_patch (JObject ps) j = json_merge_patch (JObject ps) (JObject kvs)"
    "json_wf (JObject kvs)"
    using merge_patch_object [of ps j] JObject.prems(2) by metis
  have "json_wf (JObject (objects.alter merged q es))" if "json_wf (JObject es)" "q \<in> set ps" for q es
  proof -
    have "json_wf (snd q)" using JObject.prems(1) that(2) by (auto simp: list_all_iff)
    moreover have "json_wf (case map_find (fst q) es of None \<Rightarrow> JNull | Some j \<Rightarrow> j)"
      using json_wf_find [OF that(1)] by (auto simp: json_find_def split: option.split)
    ultimately have "json_wf (json_merge_patch (snd q) (case map_find (fst q) es of None \<Rightarrow> JNull | Some j \<Rightarrow> j))"
      using JObject.IH [of q "snd q"] that(2) by (cases q) auto
    then show ?thesis using json_wf_put json_wf_erase that(1)
      by (simp add: objects.alter_def merged_def del: json_wf.simps)
  qed
  then have "json_wf (JObject (fold (objects.alter merged) qs es))" if "json_wf (JObject es)" "set qs \<subseteq> set ps" for qs es
    using that by (induction qs arbitrary: es) (simp_all del: json_wf.simps)
  then show ?case using kvs by (simp del: json_wf.simps)
qed simp_all

lemma merged_idem:
  assumes "v \<noteq> JNull \<Longrightarrow> \<exists>j. old = Some j \<Longrightarrow> json_merge_patch v (json_merge_patch v (the old)) = json_merge_patch v (the old)"
    "v \<noteq> JNull \<Longrightarrow> json_merge_patch v (json_merge_patch v JNull) = json_merge_patch v JNull"
  shows "merged v (merged v old) = merged v old"
  using assms by (cases old) (simp_all add: merged_def)

lemma merge_patch_idem:
  "json_wf p \<Longrightarrow> json_wf j \<Longrightarrow> json_merge_patch p (json_merge_patch p j) = json_merge_patch p j"
proof (induction p arbitrary: j)
  case (JObject ps)
  obtain kvs where kvs: "json_merge_patch (JObject ps) j = json_merge_patch (JObject ps) (JObject kvs)"
    "json_wf (JObject kvs)"
    using merge_patch_object [of ps j] JObject.prems(2) by metis
  have "merged a (merged a (map_find k kvs)) = merged a (map_find k kvs)" if "(k, a) \<in> set ps" for k a
  proof (rule merged_idem)
    have IH: "json_merge_patch a (json_merge_patch a v) = json_merge_patch a v" if "json_wf v" for v
      using JObject.IH [of "(k, a)" a v] JObject.prems(1) that \<open>(k, a) \<in> set ps\<close> by (auto simp: list_all_iff)
    then show "json_merge_patch a (json_merge_patch a JNull) = json_merge_patch a JNull" by simp
    assume "\<exists>j. map_find k kvs = Some j"
    then show "json_merge_patch a (json_merge_patch a (the (map_find k kvs))) = json_merge_patch a (the (map_find k kvs))"
      using IH json_wf_find [OF kvs(2), of k] by (auto simp: json_find_def)
  qed
  then show ?case
    using kvs objects.fold_alter_idem [of kvs ps merged] JObject.prems(1) sorted_keys_distinct [of ps]
    by simp
qed simp_all

lemma merge_patch_rfc7396_parts:
  "\<not> is_object p \<Longrightarrow> json_merge_patch p j = p"
  "json_wf (JObject ps) \<Longrightarrow> json_wf j \<Longrightarrow>
     json_find k (json_merge_patch (JObject ps) j) =
       (case map_find k ps of
          None \<Rightarrow> json_find k j
        | Some v \<Rightarrow> if v = JNull then None
                    else Some (json_merge_patch v (case json_find k j of None \<Rightarrow> JNull | Some old \<Rightarrow> old)))"
  "json_wf p \<Longrightarrow> json_wf j \<Longrightarrow> json_wf (json_merge_patch p j)"
  "json_wf p \<Longrightarrow> json_wf j \<Longrightarrow> json_merge_patch p (json_merge_patch p j) = json_merge_patch p j"
proof -
  show "\<not> is_object p \<Longrightarrow> json_merge_patch p j = p" by simp
  show "json_wf p \<Longrightarrow> json_wf j \<Longrightarrow> json_wf (json_merge_patch p j)" by (rule json_wf_merge_patch)
  show "json_wf p \<Longrightarrow> json_wf j \<Longrightarrow> json_merge_patch p (json_merge_patch p j) = json_merge_patch p j"
    by (rule merge_patch_idem)
  assume wf: "json_wf (JObject ps)" "json_wf j"
  obtain kvs where kvs: "json_merge_patch (JObject ps) j = json_merge_patch (JObject ps) (JObject kvs)"
    "json_wf (JObject kvs)" "json_find k j = map_find k kvs"
    using merge_patch_object [of ps j] wf(2) by metis
  have "map_find k (fold (objects.alter merged) ps kvs) =
      (case map_find k ps of None \<Rightarrow> map_find k kvs | Some v \<Rightarrow> merged v (map_find k kvs))"
    using objects.lookup_fold_alter [of kvs ps k merged] wf(1) kvs(2) sorted_keys_distinct [of ps]
    by (simp add: map_find_map_of)
  then show "json_find k (json_merge_patch (JObject ps) j) =
       (case map_find k ps of
          None \<Rightarrow> json_find k j
        | Some v \<Rightarrow> if v = JNull then None
                    else Some (json_merge_patch v (case json_find k j of None \<Rightarrow> JNull | Some old \<Rightarrow> old)))"
    unfolding kvs(1,3) by (simp add: json_find_def merged_def split: option.split)
qed

text \<open>
  C17: merge_patch does what RFC 7396 says: a patch that is no object replaces the value; an object
  patch removes the keys where it has null, leaves the keys it does not name, and elsewhere merges its
  value into the one that was there, or into null. The result is well formed, and applying a patch a
  second time changes nothing.
\<close>

theorem merge_patch_rfc7396:
  "(\<not> is_object p \<longrightarrow> json_merge_patch p j = p)
    \<and> (json_wf (JObject ps) \<and> json_wf j \<longrightarrow>
        json_find k (json_merge_patch (JObject ps) j) =
          (case map_find k ps of
             None \<Rightarrow> json_find k j
           | Some v \<Rightarrow> if v = JNull then None
                       else Some (json_merge_patch v (case json_find k j of None \<Rightarrow> JNull | Some old \<Rightarrow> old))))
    \<and> (json_wf p \<and> json_wf j \<longrightarrow>
        json_wf (json_merge_patch p j) \<and> json_merge_patch p (json_merge_patch p j) = json_merge_patch p j)"
  using merge_patch_rfc7396_parts(1) [of p j] merge_patch_rfc7396_parts(2) [of ps j k]
    merge_patch_rfc7396_parts(3,4) [of p j] by blast

theorem merge_patch_rfc7396_witness:
  "let p = JObject [(''a'', JNull), (''b'', JObject [(''c'', JUnsigned 1)])];
       j = JObject [(''a'', JBoolean True), (''b'', JString ''x''), (''d'', JNull)]
   in json_merge_patch (JArray []) j = JArray []
    \<and> json_find ''d'' (json_merge_patch p j) = Some JNull
    \<and> json_wf (json_merge_patch p j) \<and> json_merge_patch p (json_merge_patch p j) = json_merge_patch p j"
proof -
  define ps where "ps = [(''a'', JNull), (''b'', JObject [(''c'', JUnsigned 1)])]"
  define j where "j = JObject [(''a'', JBoolean True), (''b'', JString ''x''), (''d'', JNull)]"
  have wf: "json_wf (JObject ps)" "json_wf j" by (simp_all add: ps_def j_def)
  have "json_find ''d'' j = Some JNull" "map_find ''d'' ps = None" by (simp_all add: ps_def j_def json_find_def)
  then have "json_find ''d'' (json_merge_patch (JObject ps) j) = Some JNull"
    using merge_patch_rfc7396 [of "JArray []" j ps "''d''"] wf by simp
  moreover have "json_merge_patch (JArray []) j = JArray []"
    using merge_patch_rfc7396 [of "JArray []" j ps "''d''"] by simp
  moreover have "json_wf (json_merge_patch (JObject ps) j)
      \<and> json_merge_patch (JObject ps) (json_merge_patch (JObject ps) j) = json_merge_patch (JObject ps) j"
    using merge_patch_rfc7396 [of "JObject ps" j ps "''d''"] wf by blast
  ultimately show ?thesis unfolding ps_def j_def Let_def by blast
qed

section \<open>update\<close>

text \<open>What \<open>update\<close> makes of the value of a key when the new entries have \<open>v\<close> there.\<close>

definition updated :: "bool \<Rightarrow> json \<Rightarrow> json option \<Rightarrow> json outcome" where
  "updated merge_objects v old =
     (case old of
        Some j \<Rightarrow> if merge_objects \<and> is_object v then json_update v True j else Inr v
      | None \<Rightarrow> Inr v)"

declare json_update.simps [simp del] update_entries.simps [simp del]

lemma update_entries_simps [simp]:
  "update_entries [] m kvs = Inr kvs"
  "update_entries ((k, v) # news) m kvs =
     (case updated m v (map_find k kvs) of Inl e \<Rightarrow> Inl e | Inr new \<Rightarrow> update_entries news m (map_put k new kvs))"
  by (auto simp: update_entries.simps updated_def split: option.split)

lemma json_update_objects:
  "json_update (JObject news) m (JObject kvs) =
     (case update_entries news m kvs of Inl e \<Rightarrow> Inl e | Inr kvs1 \<Rightarrow> Inr (JObject kvs1))"
  by (simp add: json_update.simps)

lemma update_entries_lookup:
  "sorted_keys kvs \<Longrightarrow> distinct (map fst news) \<Longrightarrow> update_entries news m kvs = Inr kvs1 \<Longrightarrow>
    sorted_keys kvs1 \<and>
    (case map_of news k of
       None \<Rightarrow> map_find k kvs1 = map_find k kvs
     | Some v \<Rightarrow> \<exists>new. updated m v (map_find k kvs) = Inr new \<and> map_find k kvs1 = Some new)"
proof (induction news arbitrary: kvs)
  case (Cons p news)
  obtain a v where p: "p = (a, v)" by (cases p)
  obtain new where new: "updated m v (map_find a kvs) = Inr new" "update_entries news m (map_put a new kvs) = Inr kvs1"
    using Cons.prems(3) by (auto simp: p split: sum.splits)
  have "map_of news a = None" using Cons.prems(2) by (simp add: p map_of_eq_None_iff)
  then show ?case using Cons.IH [of "map_put a new kvs"] Cons.prems(1,2) new sorted_put [of kvs a new]
    by (cases "k = a"; cases "map_of news k") (auto simp: p)
qed simp

lemma update_entries_returns:
  "sorted_keys kvs \<Longrightarrow> distinct (map fst news) \<Longrightarrow>
    (\<And>k v. (k, v) \<in> set news \<Longrightarrow> \<exists>new. updated m v (map_find k kvs) = Inr new) \<Longrightarrow>
    \<exists>kvs1. update_entries news m kvs = Inr kvs1"
proof (induction news arbitrary: kvs)
  case (Cons p news)
  obtain a v where p: "p = (a, v)" by (cases p)
  obtain new where new: "updated m v (map_find a kvs) = Inr new" using Cons.prems(3) [of a v] by (auto simp: p)
  have "\<exists>new'. updated m w (map_find k (map_put a new kvs)) = Inr new'" if "(k, w) \<in> set news" for k w
  proof -
    have "k \<noteq> a" using Cons.prems(2) that by (force simp: p)
    then show ?thesis using Cons.prems(1) Cons.prems(3) [of k w] that by (simp add: p)
  qed
  then show ?case using Cons.IH [of "map_put a new kvs"] Cons.prems(1,2) new sorted_put [of kvs a new] by (simp add: p)
qed simp

lemma json_wf_update [wf_intros]:
  "json_wf j \<Longrightarrow> json_wf this \<Longrightarrow> json_update j m this = Inr this1 \<Longrightarrow> json_wf this1"
proof (induction j arbitrary: m this this1)
  case (JObject news)
  obtain kvs where kvs: "json_wf (JObject kvs)" "json_update (JObject news) m this = json_update (JObject news) m (JObject kvs)"
  proof (cases "this = JNull")
    case True
    then show ?thesis using that [of "[]"] by (simp add: json_update.simps)
  next
    case False
    then obtain es where "this = JObject es" using JObject.prems(3) by (cases this) (simp_all add: json_update.simps)
    then show ?thesis using that [of es] JObject.prems(2) by simp
  qed
  have "json_wf (JObject es1)"
    if "json_wf (JObject es)" "update_entries qs m es = Inr es1" "set qs \<subseteq> set news" for qs es es1
    using that
  proof (induction qs arbitrary: es)
    case (Cons q qs)
    obtain a v where q: "q = (a, v)" by (cases q)
    obtain new where new: "updated m v (map_find a es) = Inr new" "update_entries qs m (map_put a new es) = Inr es1"
      using Cons.prems(2) by (auto simp: q split: sum.splits)
    have "(a, v) \<in> set news" using Cons.prems(3) by (simp add: q)
    then have "json_wf v" using JObject.prems(1) by (auto simp: list_all_iff)
    then have "json_wf new"
      using new(1) JObject.IH [OF \<open>(a, v) \<in> set news\<close>, of v _ True new] json_wf_find [OF Cons.prems(1), of a]
      by (auto simp: updated_def json_find_def snds.simps split: option.splits if_splits)
    then show ?case using Cons.IH [of "map_put a new es"] new(2) Cons.prems(1,3) json_wf_put [of es new a]
      by (simp del: json_wf.simps)
  qed simp
  then show ?case using kvs JObject.prems(3) by (auto simp: json_update_objects simp del: json_wf.simps split: sum.splits)
qed (simp_all add: json_update.simps split: json.splits if_splits)

lemma update_entries_of_argument_parts:
  assumes "json_wf (JObject news)" "json_wf (JObject kvs)"
  shows "\<exists>j. json_update (JObject news) False (JObject kvs) = Inr j"
    and "json_update (JObject news) m (JObject kvs) = Inr j \<Longrightarrow>
      case map_find k news of
        None \<Rightarrow> json_find k j = map_find k kvs
      | Some v \<Rightarrow> \<exists>new. updated m v (map_find k kvs) = Inr new \<and> json_find k j = Some new"
proof -
  have sorted: "sorted_keys kvs" "distinct (map fst news)"
    using assms sorted_keys_distinct [of news] by simp_all
  have "\<exists>kvs1. update_entries news False kvs = Inr kvs1"
    using update_entries_returns [OF sorted] by (simp add: updated_def split: option.split)
  then show "\<exists>j. json_update (JObject news) False (JObject kvs) = Inr j" by (auto simp: json_update_objects)
  assume "json_update (JObject news) m (JObject kvs) = Inr j"
  then obtain kvs1 where "update_entries news m kvs = Inr kvs1" "j = JObject kvs1"
    by (auto simp: json_update_objects split: sum.splits)
  then show "case map_find k news of
        None \<Rightarrow> json_find k j = map_find k kvs
      | Some v \<Rightarrow> \<exists>new. updated m v (map_find k kvs) = Inr new \<and> json_find k j = Some new"
    using update_entries_lookup [OF sorted, of m kvs1 k]
    by (cases "map_of news k") (simp_all add: map_find_map_of json_find_def)
qed

text \<open>
  update never fails on two objects without merge_objects, and replaces or adds exactly the
  entries of its argument; with merge_objects it fails or merges the entries that are objects into the
  values that were there. In both cases the other entries stay.
\<close>

theorem update_entries_of_argument:
  assumes "json_wf (JObject news)" "json_wf (JObject kvs)"
  shows "(\<exists>j. json_update (JObject news) False (JObject kvs) = Inr j)
    \<and> (json_update (JObject news) m (JObject kvs) = Inr j \<longrightarrow>
        (case map_find k news of
           None \<Rightarrow> json_find k j = map_find k kvs
         | Some v \<Rightarrow> \<exists>new. updated m v (map_find k kvs) = Inr new \<and> json_find k j = Some new))"
  using update_entries_of_argument_parts [OF assms] by blast

theorem update_entries_of_argument_witness:
  "json_find ''b'' (JObject [(''a'', JNull), (''b'', JUnsigned 2)]) = Some (JUnsigned 2)
    \<and> (\<exists>j. json_update (JObject [(''b'', JUnsigned 2)]) False (JObject [(''a'', JNull)]) = Inr j)"
  using update_entries_of_argument [of "[(''b'', JUnsigned 2)]" "[(''a'', JNull)]" False
      "JObject [(''a'', JNull), (''b'', JUnsigned 2)]" "''b''"]
  by (simp add: json_update_objects map_put_def updated_def)

section \<open>Well-formedness\<close>

lemma list_all_emplace:
  "P (k, v) \<Longrightarrow> list_all P kvs \<Longrightarrow> list_all P (map_emplace k v kvs)"
  by (induction k v kvs rule: map_emplace.induct) simp_all

lemma json_wf_emplace [wf_intros]:
  "json_wf (JObject kvs) \<Longrightarrow> json_wf v \<Longrightarrow> json_wf (JObject (map_emplace k v kvs))"
  using list_all_emplace [of "\<lambda>kv. json_wf (snd kv)"] sorted_emplace by auto

lemma list_all_take_drop: "list_all P xs \<Longrightarrow> list_all P (take n xs) \<and> list_all P (drop n xs)"
  by (auto simp: list_all_iff dest: in_set_takeD in_set_dropD)

lemma sorted_wrt_cut: "sorted_wrt R xs \<Longrightarrow> i \<le> j \<Longrightarrow> sorted_wrt R (take i xs @ drop j xs)"
  by (auto simp: sorted_wrt_append sorted_wrt_iff_nth_less nth_append in_set_conv_nth) 

lemma json_wf_cut:
  "json_wf (JArray xs) \<Longrightarrow> json_wf (JArray (take i xs @ drop j xs))"
  "json_wf (JObject kvs) \<Longrightarrow> i \<le> j \<Longrightarrow> json_wf (JObject (take i kvs @ drop j kvs))"
  using list_all_take_drop [of json_wf xs] list_all_take_drop [of "\<lambda>kv. json_wf (snd kv)" kvs]
    sorted_wrt_cut [of "(<)" "map fst kvs" i j]
  by (simp_all add: take_map drop_map)

lemma json_wf_pair_entry: "json_wf j \<Longrightarrow> is_pair j \<Longrightarrow> json_wf (snd (pair_entry j))"
  by (auto simp: pair_entry_def is_pair_def split: json.splits list.splits)

lemma json_wf_of_list:
  assumes "list_all json_wf init" "json_of_list init td t = Inr j"
  shows "json_wf j"
proof -
  have "json_wf (JObject (fold (\<lambda>el kvs. map_emplace (fst (pair_entry el)) (snd (pair_entry el)) kvs) els kvs))"
    if "list_all json_wf els" "list_all is_pair els" "json_wf (JObject kvs)" for els kvs
    using that
    by (induction els arbitrary: kvs) (simp_all add: json_wf_emplace json_wf_pair_entry del: json_wf.simps(1))
  from this [of init "[]"] show ?thesis
    using assms by (auto simp: json_of_list_def Let_def split: if_splits)
qed

text \<open>The operations that change a value, with their arguments.\<close>

datatype json_op =
    Op_index string
  | Op_index_num size_t
  | Op_push_back json
  | Op_push_back_pair string json
  | Op_push_back_list "json list"
  | Op_emplace_back json
  | Op_emplace string json
  | Op_erase_key string
  | Op_erase_idx size_t
  | Op_erase_pos nat
  | Op_erase_range nat nat
  | Op_insert nat json
  | Op_insert_all nat "json list"
  | Op_clear
  | Op_update json bool
  | Op_merge_patch json

fun run_json_op :: "json_op \<Rightarrow> json \<Rightarrow> json outcome" where
  "run_json_op (Op_index key) j = map_sum id snd (json_index_mut key j)"
| "run_json_op (Op_index_num idx) j = map_sum id snd (json_index_num_mut idx j)"
| "run_json_op (Op_push_back val) j = json_push_back val j"
| "run_json_op (Op_push_back_pair key val) j = json_push_back_pair (key, val) j"
| "run_json_op (Op_push_back_list init) j = json_push_back_list init j"
| "run_json_op (Op_emplace_back val) j = json_emplace_back val j"
| "run_json_op (Op_emplace key val) j = map_sum id snd (json_emplace key val j)"
| "run_json_op (Op_erase_key key) j = map_sum id snd (json_erase_key key j)"
| "run_json_op (Op_erase_idx idx) j = json_erase_idx idx j"
| "run_json_op (Op_erase_pos pos) j = json_erase_pos pos j"
| "run_json_op (Op_erase_range i0 i1) j = json_erase_range i0 i1 j"
| "run_json_op (Op_insert pos val) j = json_insert pos val j"
| "run_json_op (Op_insert_all pos vals) j = json_insert_all pos vals j"
| "run_json_op Op_clear j = Inr (json_clear j)"
| "run_json_op (Op_update val merge_objects) j = json_update val merge_objects j"
| "run_json_op (Op_merge_patch patch) j = Inr (json_merge_patch patch j)"

fun op_values :: "json_op \<Rightarrow> json list" where
  "op_values (Op_push_back val) = [val]"
| "op_values (Op_push_back_pair key val) = [val]"
| "op_values (Op_push_back_list init) = init"
| "op_values (Op_emplace_back val) = [val]"
| "op_values (Op_emplace key val) = [val]"
| "op_values (Op_insert pos val) = [val]"
| "op_values (Op_insert_all pos vals) = vals"
| "op_values (Op_update val merge_objects) = [val]"
| "op_values (Op_merge_patch patch) = [patch]"
| "op_values _ = []"

lemma map_sum_Inr: "map_sum id snd r = Inr j \<longleftrightarrow> (\<exists>v. r = Inr (v, j))"
  by (cases r) auto

lemma json_wf_append: "json_wf (JArray (xs @ ys)) \<longleftrightarrow> json_wf (JArray xs) \<and> json_wf (JArray ys)"
  by simp

lemma json_wf_erase_range:
  "json_wf j \<Longrightarrow> json_erase_range i0 i1 j = Inr r \<Longrightarrow> json_wf r"
  by (cases j) (auto simp: json_erase_range_def simp del: json_wf.simps(1,2) intro: json_wf_cut split: if_splits)

lemma json_wf_erase_pos: "json_wf j \<Longrightarrow> json_erase_pos i j = Inr r \<Longrightarrow> json_wf r"
  by (cases j) (auto simp: json_erase_pos_def simp del: json_wf.simps(1,2) intro: json_wf_cut split: if_splits)

lemma json_wf_erase_idx: "json_wf j \<Longrightarrow> json_erase_idx idx j = Inr r \<Longrightarrow> json_wf r"
  by (cases j) (auto simp: json_erase_idx_def simp del: json_wf.simps(1,2) intro: json_wf_cut split: if_splits)

lemma json_wf_erase_key: "json_wf j \<Longrightarrow> json_erase_key key j = Inr (n, r) \<Longrightarrow> json_wf r"
  by (cases j) (auto simp: json_erase_key_def simp del: json_wf.simps(1,2) intro: json_wf_erase)

lemma json_wf_insert:
  "json_wf j \<Longrightarrow> list_all json_wf vals \<Longrightarrow> json_insert_all pos vals j = Inr r \<Longrightarrow> json_wf r"
  "json_wf j \<Longrightarrow> json_wf val \<Longrightarrow> json_insert pos val j = Inr r \<Longrightarrow> json_wf r"
  by (cases j; force simp: json_insert_all_def json_insert_def dest: list_all_take_drop split: if_splits)+

lemma json_wf_push_back: "json_wf j \<Longrightarrow> json_wf val \<Longrightarrow> json_push_back val j = Inr r \<Longrightarrow> json_wf r"
  by (cases j) (auto simp: json_push_back_def)

lemma json_wf_emplace_back: "json_wf j \<Longrightarrow> json_wf val \<Longrightarrow> json_emplace_back val j = Inr r \<Longrightarrow> json_wf r"
  by (cases j) (auto simp: json_emplace_back_def)

lemma json_wf_push_back_pair:
  "json_wf j \<Longrightarrow> json_wf val \<Longrightarrow> json_push_back_pair (k, val) j = Inr r \<Longrightarrow> json_wf r"
  by (cases j) (auto simp: json_push_back_pair_def simp del: json_wf.simps(1,2) intro: json_wf_emplace, simp)

lemma json_wf_emplace_op:
  "json_wf j \<Longrightarrow> json_wf val \<Longrightarrow> json_emplace k val j = Inr (b, r) \<Longrightarrow> json_wf r"
  by (cases j) (auto simp: json_emplace_def simp del: json_wf.simps(1,2) intro: json_wf_emplace, simp)

lemma json_wf_push_back_list:
  assumes "json_wf j" "list_all json_wf init" "json_push_back_list init j = Inr r"
  shows "json_wf r"
proof (cases "\<exists>kvs k v. j = JObject kvs \<and> init = [JString k, v]")
  case True
  then obtain kvs k v where jv: "j = JObject kvs" "init = [JString k, v]" by blast
  then have "json_push_back_pair (k, v) j = Inr r" "json_wf v"
    using assms(2,3) by (simp_all add: json_push_back_list_def)
  then show ?thesis using assms(1) json_wf_push_back_pair by blast
next
  case False
  have "json_push_back_list init j =
      (case json_of_list init True VT_array of Inl e \<Rightarrow> Inl e | Inr val \<Rightarrow> json_push_back val j)"
    using False by (auto simp: json_push_back_list_def split: json.split list.split)
  then obtain val where "json_of_list init True VT_array = Inr val" "json_push_back val j = Inr r"
    using assms(3) by (simp split: sum.splits)
  then show ?thesis using assms(1,2) json_wf_of_list json_wf_push_back by blast
qed

lemma json_wf_index_num:
  assumes "json_wf j" "json_index_num_mut idx j = Inr (v, r)"
  shows "json_wf r"
proof -
  have "list_all json_wf (replicate m JNull)" "list_all json_wf xs \<Longrightarrow> list_all json_wf (take n xs)" for m n xs
    by (auto simp: list_all_iff dest: in_set_takeD)
  then show ?thesis using assms by (cases j) (auto simp: json_index_num_mut_def Let_def split: if_splits)
qed

lemma json_wf_op:
  assumes "json_wf j" "list_all json_wf (op_values op)" "run_json_op op j = Inr r"
  shows "json_wf r"
proof (cases op)
  case (Op_index key)
  then obtain v where "json_index_mut key j = Inr (v, r)" using assms(3) by (auto simp: map_sum_Inr)
  then show ?thesis using assms(1) json_index_mut_wf by blast
next
  case Op_clear
  then show ?thesis using assms by (cases j) auto
next
  case (Op_update val m)
  then show ?thesis using assms json_wf_update [of val j m r] by simp
next
  case (Op_push_back_list init)
  then show ?thesis using assms json_wf_push_back_list [of j init r] by simp
qed (use assms in \<open>auto simp: map_sum_Inr json_wf_merge_patch dest: json_wf_index_num json_wf_push_back
  json_wf_push_back_pair json_wf_emplace_back json_wf_emplace_op json_wf_insert json_wf_erase_range
  json_wf_erase_pos json_wf_erase_idx json_wf_erase_key\<close>)

text \<open>
  The invariant of \<^verbatim>\<open>std::map\<close> holds of every object at every moment: after any sequence of operations on a
  well formed value, with well formed arguments, the objects inside have strictly increasing keys.
\<close>

theorem json_operations_wf:
  assumes "json_wf j" "\<forall>op\<in>set ops. list_all json_wf (op_values op)"
    and "run_actions (map run_json_op ops) j = Inr r"
  shows "json_wf r"
  using assms
proof (induction ops arbitrary: j)
  case (Cons op ops)
  obtain j1 where "run_json_op op j = Inr j1" "run_actions (map run_json_op ops) j1 = Inr r"
    using Cons.prems(3) by (auto split: sum.splits)
  then show ?case using Cons json_wf_op [of j op j1] by simp
qed simp

theorem json_operations_wf_witness:
  "run_actions (map run_json_op
      [Op_index ''b'', Op_emplace ''a'' (JUnsigned 1), Op_update (JObject [(''b'', JArray [])]) False,
       Op_erase_key ''c'', Op_merge_patch (JObject [(''a'', JNull)])]) JNull = Inr (JObject [(''b'', JArray [])])
    \<and> json_wf (JObject [(''b'', JArray [])])"
proof -
  define ops where "ops = [Op_index ''b'', Op_emplace ''a'' (JUnsigned 1),
    Op_update (JObject [(''b'', JArray [])]) False, Op_erase_key ''c'', Op_merge_patch (JObject [(''a'', JNull)])]"
  have run: "run_actions (map run_json_op ops) JNull = Inr (JObject [(''b'', JArray [])])"
    by (simp add: ops_def json_index_mut_def json_emplace_def json_update.simps updated_def map_put_def
        json_erase_key_def json_merge_patch.simps)
  have "json_wf (JObject [(''b'', JArray [])])"
    by (rule json_operations_wf [OF _ _ run]) (simp_all add: ops_def)
  then show ?thesis using run by (simp add: ops_def)
qed

end
