(* ===== verification/Json_Pointer.thy ===== *)
theory Json_Pointer
  imports Json_Objects
begin

text \<open>
  JSON pointers (\<^verbatim>\<open>class json_pointer\<close> of \<^verbatim>\<open>include/nlohmann/json.hpp\<close>): the list of reference tokens,
  its text, and the ways to follow it into a value. A reference into a value is the path to the place;
  a function that may change the value on its way returns the path and the changed value.
\<close>

section \<open>Escaping\<close>

text \<open>The loop over \<^verbatim>\<open>find\<close> and \<^verbatim>\<open>replace\<close>; the callers' \<^verbatim>\<open>f\<close> is never empty.\<close>

function replace_substring :: "string \<Rightarrow> string \<Rightarrow> string \<Rightarrow> string" where
  "replace_substring f t s =
     (if f = [] \<or> s = [] then s
      else if take (length f) s = f then t @ replace_substring f t (drop (length f) s)
      else hd s # replace_substring f t (tl s))"
  by pat_completeness auto
termination by (relation "measure (\<lambda>(f, t, s). length s)") auto

definition escape_token :: "string \<Rightarrow> string" where
  "escape_token s = replace_substring ''/'' ''~1'' (replace_substring ''~'' ''~0'' s)"

definition unescape_token :: "string \<Rightarrow> string" where
  "unescape_token s = replace_substring ''~0'' ''~'' (replace_substring ''~1'' ''/'' s)"

section \<open>Pointers and their text\<close>

type_synonym json_pointer = "string list"

definition pointer_to_string :: "json_pointer \<Rightarrow> string" where
  "pointer_to_string ptr = foldl (\<lambda>a b. a @ ''/'' @ escape_token b) [] ptr"

text \<open>\<^verbatim>\<open>parse_error::create\<close> with a byte position, 0 for none.\<close>

definition parse_error_at :: "nat \<Rightarrow> nat \<Rightarrow> string \<Rightarrow> cpp_error" where
  "parse_error_at i byte what_arg =
     Json_parse_error i
       (exn_name ''parse_error'' i @ ''parse error'' @ (if byte \<noteq> 0 then '' at byte '' @ to_string byte else [])
        @ '': '' @ what_arg)"

text \<open>A tilde is followed by 0 or 1.\<close>

fun properly_escaped :: "string \<Rightarrow> bool" where
  "properly_escaped [] = True"
| "properly_escaped (c # cs) =
     ((c = CHR ''~'' \<longrightarrow> (case cs of [] \<Rightarrow> False | d # _ \<Rightarrow> d = CHR ''0'' \<or> d = CHR ''1'')) \<and> properly_escaped cs)"

function split_loop :: "string \<Rightarrow> string list outcome" where
  "split_loop s =
     (let reference_token = takeWhile (\<lambda>c. c \<noteq> CHR ''/'') s;
          rest = dropWhile (\<lambda>c. c \<noteq> CHR ''/'') s
      in if \<not> properly_escaped reference_token
         then Inl (parse_error_at 108 0 (''escape character '' @ quoted ''~'' @ '' must be followed with ''
                @ quoted ''0'' @ '' or '' @ quoted ''1''))
         else if rest = [] then Inr [unescape_token reference_token]
         else (case split_loop (tl rest) of
                 Inl e \<Rightarrow> Inl e
               | Inr tokens \<Rightarrow> Inr (unescape_token reference_token # tokens)))"
  by pat_completeness auto
termination
proof (relation "measure length")
  fix s rest :: string
  assume "rest = dropWhile (\<lambda>c. c \<noteq> CHR ''/'') s" "rest \<noteq> []"
  then have "0 < length rest" "length rest \<le> length s" using length_dropWhile_le by simp_all
  then show "(tl rest, s) \<in> measure length" unfolding in_measure length_tl by linarith
qed simp

definition pointer_split :: "string \<Rightarrow> json_pointer outcome" where
  "pointer_split s =
     (if s = [] then Inr []
      else if hd s \<noteq> CHR ''/''
      then Inl (parse_error_at 107 1
             (''JSON pointer must be empty or begin with '' @ quoted ''/'' @ '' - was: '' @ quoted s))
      else split_loop (tl s))"

definition pointer_append :: "json_pointer \<Rightarrow> json_pointer \<Rightarrow> json_pointer" where
  "pointer_append lhs rhs = lhs @ rhs"

definition pointer_push_back :: "string \<Rightarrow> json_pointer \<Rightarrow> json_pointer" where
  "pointer_push_back token ptr = ptr @ [token]"

definition pointer_append_index :: "size_t \<Rightarrow> json_pointer \<Rightarrow> json_pointer" where
  "pointer_append_index idx ptr = pointer_push_back (to_string (unat idx)) ptr"

definition no_parent :: cpp_error where
  "no_parent = json_out_of_range 405 ''JSON pointer has no parent''"

definition pointer_pop_back :: "json_pointer \<Rightarrow> json_pointer outcome" where
  "pointer_pop_back ptr = (if ptr = [] then Inl no_parent else Inr (butlast ptr))"

definition pointer_back :: "json_pointer \<Rightarrow> string outcome" where
  "pointer_back ptr = (if ptr = [] then Inl no_parent else Inr (last ptr))"

definition pointer_top :: "json_pointer \<Rightarrow> json_pointer outcome" where
  "pointer_top ptr = (if ptr = [] then Inl no_parent else Inr [hd ptr])"

definition parent_pointer :: "json_pointer \<Rightarrow> json_pointer outcome" where
  "parent_pointer ptr = (if ptr = [] then Inr ptr else pointer_pop_back ptr)"

section \<open>Array indices\<close>

definition unresolved_token :: "string \<Rightarrow> cpp_error" where
  "unresolved_token s = json_out_of_range 404 (''unresolved reference token '' @ quoted s)"

text \<open>
  When \<^verbatim>\<open>strtoull\<close> is reached, the token has at most one character or starts with a digit, so that
  the white space and the signs it would skip do not occur before a digit.
\<close>

definition array_index :: "string \<Rightarrow> size_t outcome" where
  "array_index s =
     (if 1 < length s \<and> hd s = CHR ''0''
      then Inl (parse_error_at 106 0 (''array index '' @ quoted s @ '' must not begin with '' @ quoted ''0''))
      else if 1 < length s \<and> \<not> (is_digit (hd s) \<and> hd s \<noteq> CHR ''0'')
      then Inl (parse_error_at 109 0 (''array index '' @ quoted s @ '' is not a number''))
      else let digits = takeWhile is_digit s;
               res = dec_value digits
           in if digits = [] \<or> 2 ^ 64 \<le> res \<or> length digits \<noteq> length s then Inl (unresolved_token s)
              else if 2 ^ 64 - 1 \<le> res
              then Inl (json_out_of_range 410 (''array index '' @ s @ '' exceeds size_type''))
              else Inr (of_nat res))"

section \<open>Following a pointer\<close>

definition dash_error :: "json \<Rightarrow> cpp_error" where
  "dash_error j = json_out_of_range 402 (''array index '' @ quoted ''-'' @ '' ('' @ to_string (json_size j)
                    @ '') is out of range'')"

text \<open>What follows the step to an element, and the step itself.\<close>

definition below :: "step \<Rightarrow> path outcome \<Rightarrow> path outcome" where
  "below s r = (case r of Inl e \<Rightarrow> Inl e | Inr p \<Rightarrow> Inr (s # p))"

fun get_checked :: "json_pointer \<Rightarrow> json \<Rightarrow> path outcome" where
  "get_checked [] j = Inr []"
| "get_checked (token # tokens) j =
     (case json_type j of
        VT_object \<Rightarrow>
          (case json_at_key token j of
             Inl e \<Rightarrow> Inl e
           | Inr v \<Rightarrow> below (Key token) (get_checked tokens v))
      | VT_array \<Rightarrow>
          if token = ''-'' then Inl (dash_error j)
          else (case array_index token of
                  Inl e \<Rightarrow> Inl e
                | Inr idx \<Rightarrow>
                    (case json_at_idx idx j of
                       Inl e \<Rightarrow> Inl e
                     | Inr v \<Rightarrow> below (Index (unat idx)) (get_checked tokens v)))
      | _ \<Rightarrow> Inl (unresolved_token token))"

fun get_unchecked_const :: "json_pointer \<Rightarrow> json \<Rightarrow> path outcome" where
  "get_unchecked_const [] j = Inr []"
| "get_unchecked_const (token # tokens) j =
     (case json_type j of
        VT_object \<Rightarrow>
          (case json_index_const token j of
             Inl e \<Rightarrow> Inl e
           | Inr v \<Rightarrow> below (Key token) (get_unchecked_const tokens v))
      | VT_array \<Rightarrow>
          if token = ''-'' then Inl (dash_error j)
          else (case array_index token of
                  Inl e \<Rightarrow> Inl e
                | Inr idx \<Rightarrow>
                    (case json_index_num_const idx j of
                       Inl e \<Rightarrow> Inl e
                     | Inr v \<Rightarrow> below (Index (unat idx)) (get_unchecked_const tokens v)))
      | _ \<Rightarrow> Inl (unresolved_token token))"

text \<open>
  The functions that create what is missing get the element and the changed container from
  \<^verbatim>\<open>operator[]\<close>, and go on in the element.
\<close>

definition create_below :: "step \<Rightarrow> json \<Rightarrow> (path \<times> json) outcome \<Rightarrow> (path \<times> json) outcome" where
  "create_below s container r =
     (case r of Inl e \<Rightarrow> Inl e | Inr (p, v) \<Rightarrow> Inr (s # p, json_modify_step s (\<lambda>_. v) container))"

fun get_unchecked :: "json_pointer \<Rightarrow> json \<Rightarrow> (path \<times> json) outcome" where
  "get_unchecked [] j = Inr ([], j)"
| "get_unchecked (token # tokens) j =
     (let nums = list_all is_digit token;
          j1 = (if j = JNull then if nums \<or> token = ''-'' then JArray [] else JObject [] else j)
      in case json_type j1 of
           VT_object \<Rightarrow>
             (case json_index_mut token j1 of
                Inl e \<Rightarrow> Inl e
              | Inr (v, j2) \<Rightarrow> create_below (Key token) j2 (get_unchecked tokens v))
         | VT_array \<Rightarrow>
             (case (if token = ''-'' then Inr (of_nat (json_size j1)) else array_index token) of
                Inl e \<Rightarrow> Inl e
              | Inr idx \<Rightarrow>
                  (case json_index_num_mut idx j1 of
                     Inl e \<Rightarrow> Inl e
                   | Inr (v, j2) \<Rightarrow> create_below (Index (unat idx)) j2 (get_unchecked tokens v)))
         | _ \<Rightarrow> Inl (unresolved_token token))"

fun get_and_create :: "json_pointer \<Rightarrow> json \<Rightarrow> (path \<times> json) outcome" where
  "get_and_create [] j = Inr ([], j)"
| "get_and_create (token # tokens) j =
     (case json_type j of
        VT_null \<Rightarrow>
          if token = ''0''
          then (case json_index_num_mut 0 j of
                  Inl e \<Rightarrow> Inl e
                | Inr (v, j1) \<Rightarrow> create_below (Index 0) j1 (get_and_create tokens v))
          else (case json_index_mut token j of
                  Inl e \<Rightarrow> Inl e
                | Inr (v, j1) \<Rightarrow> create_below (Key token) j1 (get_and_create tokens v))
      | VT_object \<Rightarrow>
          (case json_index_mut token j of
             Inl e \<Rightarrow> Inl e
           | Inr (v, j1) \<Rightarrow> create_below (Key token) j1 (get_and_create tokens v))
      | VT_array \<Rightarrow>
          (case array_index token of
             Inl e \<Rightarrow> Inl e
           | Inr idx \<Rightarrow>
               (case json_index_num_mut idx j of
                  Inl e \<Rightarrow> Inl e
                | Inr (v, j1) \<Rightarrow> create_below (Index (unat idx)) j1 (get_and_create tokens v)))
      | _ \<Rightarrow> Inl (type_error 313 ''invalid value to unflatten''))"

text \<open>A token that is no array index, which \<^verbatim>\<open>contains\<close> sorts out before the conversion.\<close>

definition no_index :: "string \<Rightarrow> bool" where
  "no_index token \<longleftrightarrow>
     token = ''-'' \<or> length token = 1 \<and> \<not> is_digit (hd token)
     \<or> 1 < length token \<and> (\<not> (is_digit (hd token) \<and> hd token \<noteq> CHR ''0'') \<or> \<not> list_all is_digit (tl token))"

fun pointer_contains :: "json_pointer \<Rightarrow> json \<Rightarrow> bool outcome" where
  "pointer_contains [] j = Inr True"
| "pointer_contains (token # tokens) j =
     (case json_type j of
        VT_object \<Rightarrow>
          if \<not> json_contains token j then Inr False
          else (case json_index_const token j of Inl e \<Rightarrow> Inl e | Inr v \<Rightarrow> pointer_contains tokens v)
      | VT_array \<Rightarrow>
          if no_index token then Inr False
          else (case array_index token of
                  Inl e \<Rightarrow> Inl e
                | Inr idx \<Rightarrow>
                    if json_size j \<le> unat idx then Inr False
                    else (case json_index_num_const idx j of Inl e \<Rightarrow> Inl e | Inr v \<Rightarrow> pointer_contains tokens v))
      | _ \<Rightarrow> Inr False)"

text \<open>The value a reference refers to.\<close>

definition deref :: "path \<Rightarrow> json \<Rightarrow> json outcome" where
  "deref p j = (case json_at p j of None \<Rightarrow> Inl (Undefined_behaviour ''dangling reference'') | Some v \<Rightarrow> Inr v)"

definition at_pointer :: "json_pointer \<Rightarrow> json \<Rightarrow> json outcome" where
  "at_pointer ptr j = (case get_checked ptr j of Inl e \<Rightarrow> Inl e | Inr p \<Rightarrow> deref p j)"

text \<open>\<^verbatim>\<open>value(ptr, default)\<close> with a JSON value as default, on an object only.\<close>

definition json_value_pointer :: "json_pointer \<Rightarrow> json \<Rightarrow> json \<Rightarrow> json outcome" where
  "json_value_pointer ptr default_value j =
     (if is_object j
      then (case at_pointer ptr j of
              Inl (Json_out_of_range i m) \<Rightarrow> Inr default_value
            | r \<Rightarrow> r)
      else Inl (type_error 306 (''cannot use value() with '' @ type_name (json_type j))))"

section \<open>flatten and unflatten\<close>

text \<open>Assignment to \<^verbatim>\<open>result[reference_string]\<close>, where the result is an object.\<close>

definition assign_key :: "string \<Rightarrow> json \<Rightarrow> json \<Rightarrow> json outcome" where
  "assign_key key v result =
     (case json_index_mut key result of
        Inl e \<Rightarrow> Inl e
      | Inr (_, result1) \<Rightarrow> Inr (json_modify_step (Key key) (\<lambda>_. v) result1))"

fun pointer_flatten :: "string \<Rightarrow> json \<Rightarrow> json \<Rightarrow> json outcome"
  and flatten_elements :: "string \<Rightarrow> nat \<Rightarrow> json list \<Rightarrow> json \<Rightarrow> json outcome"
  and flatten_members :: "string \<Rightarrow> (string \<times> json) list \<Rightarrow> json \<Rightarrow> json outcome"
  where
  "pointer_flatten reference_string j result =
     (case j of
        JArray xs \<Rightarrow> if xs = [] then assign_key reference_string JNull result
                      else flatten_elements reference_string 0 xs result
      | JObject kvs \<Rightarrow> if kvs = [] then assign_key reference_string JNull result
                        else flatten_members reference_string kvs result
      | _ \<Rightarrow> assign_key reference_string j result)"
| "flatten_elements reference_string i [] result = Inr result"
| "flatten_elements reference_string i (x # xs) result =
     (case pointer_flatten (reference_string @ ''/'' @ to_string i) x result of
        Inl e \<Rightarrow> Inl e
      | Inr result1 \<Rightarrow> flatten_elements reference_string (i + 1) xs result1)"
| "flatten_members reference_string [] result = Inr result"
| "flatten_members reference_string ((k, x) # kvs) result =
     (case pointer_flatten (reference_string @ ''/'' @ escape_token k) x result of
        Inl e \<Rightarrow> Inl e
      | Inr result1 \<Rightarrow> flatten_members reference_string kvs result1)"

definition json_flatten :: "json \<Rightarrow> json outcome" where
  "json_flatten j = pointer_flatten [] j (JObject [])"

definition is_primitive :: "json \<Rightarrow> bool" where
  "is_primitive j = (case j of JArray xs \<Rightarrow> False | JObject kvs \<Rightarrow> False | JDiscarded \<Rightarrow> False | _ \<Rightarrow> True)"

definition unflatten_entry :: "string \<times> json \<Rightarrow> json \<Rightarrow> json outcome" where
  "unflatten_entry element result =
     (if \<not> is_primitive (snd element) then Inl (type_error 315 ''values in object must be primitive'')
      else case pointer_split (fst element) of
             Inl e \<Rightarrow> Inl e
           | Inr ptr \<Rightarrow>
               (case get_and_create ptr result of
                  Inl e \<Rightarrow> Inl e
                | Inr (p, result1) \<Rightarrow> Inr (json_modify p (\<lambda>_. snd element) result1)))"

definition json_unflatten :: "json \<Rightarrow> json outcome" where
  "json_unflatten j =
     (case j of
        JObject kvs \<Rightarrow> run_actions (map unflatten_entry kvs) JNull
      | _ \<Rightarrow> Inl (type_error 314 ''only objects can be unflattened''))"

section \<open>The text of a pointer\<close>

declare replace_substring.simps [simp del] split_loop.simps [simp del]

definition escape_char :: "char \<Rightarrow> string" where
  "escape_char c = (if c = CHR ''~'' then ''~0'' else if c = CHR ''/'' then ''~1'' else [c])"

lemma replace_char: "replace_substring [c] t s = concat (map (\<lambda>d. if d = c then t else [d]) s)"
  by (induction s) (simp_all add: replace_substring.simps)

lemma escape_token_chars: "escape_token s = concat (map escape_char s)"
  by (induction s) (simp_all add: escape_token_def replace_char escape_char_def)

lemma replace_two:
  "replace_substring [a, b] t [] = []"
  "replace_substring [a, b] t [c] = [c]"
  "replace_substring [a, b] t (c # d # s) =
     (if c = a \<and> d = b then t @ replace_substring [a, b] t s else c # replace_substring [a, b] t (d # s))"
  by (subst replace_substring.simps; force simp: replace_substring.simps [of _ _ "[]"])+

lemma replace_two_skip:
  "c \<noteq> a \<Longrightarrow> replace_substring [a, b] t (c # s) = c # replace_substring [a, b] t s"
  by (cases s) (simp_all add: replace_two)

lemma unescape_escape: "unescape_token (escape_token s) = s"
proof -
  have pass1: "replace_substring ''~1'' ''/'' (concat (map escape_char s))
      = concat (map (\<lambda>c. if c = CHR ''~'' then ''~0'' else [c]) s)"
    by (induction s) (simp_all add: escape_char_def replace_two replace_two_skip)
  have pass2: "replace_substring ''~0'' ''~'' (concat (map (\<lambda>c. if c = CHR ''~'' then ''~0'' else [c]) s)) = s"
    by (induction s) (simp_all add: replace_two replace_two_skip)
  show ?thesis by (simp add: unescape_token_def escape_token_chars pass1 pass2)
qed

lemma escaped_properly: "properly_escaped (escape_token s)" "CHR ''/'' \<notin> set (escape_token s)"
  unfolding escape_token_chars by (induction s) (auto simp: escape_char_def)

lemma properly_escaped_escape:
  "properly_escaped t \<Longrightarrow> CHR ''/'' \<notin> set t \<Longrightarrow> \<exists>s. t = escape_token s"
  unfolding escape_token_chars
proof (induction t rule: induct_list012)
  case 1
  show ?case by (intro exI [of _ "[]"]) simp
next
  case (2 c)
  then show ?case by (intro exI [of _ "[c]"]) (simp add: escape_char_def)
next
  case (3 c d t)
  have tilde: "escape_char (CHR ''~'') = ''~0''" "escape_char (CHR ''/'') = ''~1''" by (simp_all add: escape_char_def)
  show ?case
  proof (cases "c = CHR ''~''")
    case True
    then have "d = CHR ''0'' \<or> d = CHR ''1''" "properly_escaped t" "CHR ''/'' \<notin> set t" using 3 by auto
    moreover from this obtain s where "t = concat (map escape_char s)" using 3 by blast
    ultimately have "c # d # t = concat (map escape_char ((if d = CHR ''0'' then CHR ''~'' else CHR ''/'') # s))"
      using True by (auto simp: tilde)
    then show ?thesis by blast
  next
    case False
    then have "properly_escaped (d # t)" "CHR ''/'' \<notin> set (d # t)" using 3 by auto
    then obtain s where s: "d # t = concat (map escape_char s)" using 3 by blast
    have "c \<noteq> CHR ''/''" using 3 by auto
    then have "escape_char c = [c]" using False by (simp add: escape_char_def)
    then have "c # d # t = concat (map escape_char (c # s))" using s by simp
    then show ?thesis by blast
  qed
qed

lemma pointer_to_string_simps [simp]:
  "pointer_to_string [] = []"
  "pointer_to_string (t # ts) = CHR ''/'' # escape_token t @ pointer_to_string ts"
  "pointer_to_string (ts @ us) = pointer_to_string ts @ pointer_to_string us"
proof -
  have "foldl (\<lambda>a b. a @ ''/'' @ escape_token b) a ts = a @ concat (map (\<lambda>b. ''/'' @ escape_token b) ts)" for a ts
    by (induction ts arbitrary: a) simp_all
  then have "pointer_to_string ts = concat (map (\<lambda>b. ''/'' @ escape_token b) ts)" for ts
    by (simp add: pointer_to_string_def)
  then show "pointer_to_string [] = []"
    "pointer_to_string (t # ts) = CHR ''/'' # escape_token t @ pointer_to_string ts"
    "pointer_to_string (ts @ us) = pointer_to_string ts @ pointer_to_string us"
    by simp_all
qed

lemma cut_at_slash:
  "CHR ''/'' \<notin> set t \<Longrightarrow> takeWhile (\<lambda>c. c \<noteq> CHR ''/'') t = t \<and> dropWhile (\<lambda>c. c \<noteq> CHR ''/'') t = []"
  by (induction t) auto

lemma split_loop_to_string: "split_loop (escape_token t @ pointer_to_string ts) = Inr (t # ts)"
proof (induction ts arbitrary: t)
  case Nil
  then show ?case using escaped_properly [of t]
    by (subst split_loop.simps) (simp add: cut_at_slash unescape_escape)
next
  case (Cons u us)
  have "takeWhile (\<lambda>c. c \<noteq> CHR ''/'') (escape_token t @ CHR ''/'' # r) = escape_token t"
    "dropWhile (\<lambda>c. c \<noteq> CHR ''/'') (escape_token t @ CHR ''/'' # r) = CHR ''/'' # r" for r
    using escaped_properly(2) [of t] by (auto simp: takeWhile_append dropWhile_append takeWhile_eq_all_conv)
  then show ?case using Cons escaped_properly(1) [of t]
    by (subst split_loop.simps) (simp add: unescape_escape)
qed

lemma split_to_string: "pointer_split (pointer_to_string ts) = Inr ts"
  by (cases ts) (simp_all add: pointer_split_def split_loop_to_string)

lemma split_loop_inverse: "split_loop s = Inr ts \<Longrightarrow> CHR ''/'' # s = pointer_to_string ts"
proof (induction s arbitrary: ts rule: split_loop.induct)
  case (1 s)
  define tok rest where "tok = takeWhile (\<lambda>c. c \<noteq> CHR ''/'') s" and "rest = dropWhile (\<lambda>c. c \<noteq> CHR ''/'') s"
  have s: "s = tok @ rest" by (simp add: tok_def rest_def)
  have slash: "rest = [] \<or> rest = CHR ''/'' # tl rest"
    using hd_dropWhile [of "\<lambda>c. c \<noteq> CHR ''/''" s] unfolding rest_def [symmetric] by (cases rest) auto
  have ok: "properly_escaped tok"
    using "1.prems" by (subst (asm) split_loop.simps) (auto simp: tok_def Let_def split: if_splits)
  have "CHR ''/'' \<notin> set tok" by (auto simp: tok_def dest: set_takeWhileD)
  then obtain t where t: "tok = escape_token t" using properly_escaped_escape ok by blast
  show ?case
  proof (cases "rest = []")
    case True
    then have "ts = [t]" using "1.prems" ok
      by (subst (asm) split_loop.simps) (simp add: tok_def [symmetric] rest_def [symmetric] t unescape_escape)
    then show ?thesis using s t True by simp
  next
    case False
    then obtain us where us: "split_loop (tl rest) = Inr us" "ts = t # us" using "1.prems" ok
      by (subst (asm) split_loop.simps)
        (auto simp: tok_def [symmetric] rest_def [symmetric] t unescape_escape Let_def split: sum.splits)
    then have "CHR ''/'' # tl rest = pointer_to_string us"
      using "1.IH" [OF tok_def rest_def] ok False by simp
    then show ?thesis using s t us slash False by simp
  qed
qed

lemma pointer_roundtrip_parts:
  "pointer_split (pointer_to_string ptr) = Inr ptr"
  "pointer_split s = Inr ptr \<longleftrightarrow> s = pointer_to_string ptr"
  "\<exists>m. pointer_split s \<in> {Inr ptr | ptr. True} \<union> {Inl (Json_parse_error 107 m), Inl (Json_parse_error 108 m)}"
proof -
  show there: "pointer_split (pointer_to_string ptr) = Inr ptr" for ptr by (rule split_to_string)
  have "pointer_split s = Inr ptr \<Longrightarrow> s = pointer_to_string ptr"
    using split_loop_inverse [of "tl s" ptr] by (cases s) (auto simp: pointer_split_def split: if_splits)
  then show "pointer_split s = Inr ptr \<longleftrightarrow> s = pointer_to_string ptr" using there by auto
  have loop: "\<exists>m. split_loop r \<in> {Inr ptr | ptr. True} \<union> {Inl (Json_parse_error 108 m)}" for r
  proof (induction r rule: split_loop.induct)
    case (1 r)
    then show ?case by (subst split_loop.simps) (auto simp: Let_def parse_error_at_def split: sum.split)
  qed
  show "\<exists>m. pointer_split s \<in> {Inr ptr | ptr. True} \<union> {Inl (Json_parse_error 107 m), Inl (Json_parse_error 108 m)}"
    using loop [of "tl s"] by (auto simp: pointer_split_def parse_error_at_def)
qed

text \<open>
  C18: The text of a JSON pointer parses back to its reference tokens, and a text that parses is the text
  of its tokens; every text either parses or fails with error 107 or 108.
\<close>

theorem pointer_roundtrip:
  "pointer_split (pointer_to_string ptr) = Inr ptr
    \<and> (pointer_split s = Inr ptr \<longleftrightarrow> s = pointer_to_string ptr)
    \<and> (\<exists>m. pointer_split s \<in> {Inr ptr | ptr. True} \<union> {Inl (Json_parse_error 107 m), Inl (Json_parse_error 108 m)})"
  by (intro conjI pointer_roundtrip_parts)

section \<open>Following a pointer\<close>

lemma below_Inr [simp]: "below s r = Inr p \<longleftrightarrow> (\<exists>q. r = Inr q \<and> p = s # q)"
  by (cases r) (auto simp: below_def)

lemma below_Inl [simp]: "below s r = Inl e \<longleftrightarrow> r = Inl e"
  by (cases r) (auto simp: below_def)

lemma json_at_key_Inr: "json_at_key k j = Inr v \<Longrightarrow> json_step (Key k) j = Some v"
  by (cases j) (auto simp: json_at_key_def split: option.splits)

lemma json_at_idx_Inr: "json_at_idx idx j = Inr v \<Longrightarrow> json_step (Index (unat idx)) j = Some v"
  by (cases j) (auto simp: json_at_idx_def split: if_splits)

text \<open>The reference is into the value.\<close>

lemma get_checked_at: "get_checked ptr j = Inr p \<Longrightarrow> \<exists>v. json_at p j = Some v"
proof (induction ptr j arbitrary: p rule: get_checked.induct)
  case (2 token tokens j)
  show ?case
  proof (cases "json_type j")
    case VT_object
    then obtain v q where "json_at_key token j = Inr v" "get_checked tokens v = Inr q" "p = Key token # q"
      using "2.prems" by (auto split: sum.splits)
    then show ?thesis using "2.IH"(1) [OF VT_object] json_at_key_Inr by fastforce
  next
    case VT_array
    then obtain idx v q where
      step: "array_index token = Inr idx" "json_at_idx idx j = Inr v" "get_checked tokens v = Inr q" "p = Index (unat idx) # q"
      using "2.prems" by (auto split: sum.splits if_splits)
    then have "token \<noteq> ''-''" using "2.prems" VT_array by auto
    then show ?thesis using "2.IH"(2) [OF VT_array _ step(1,2,3)] json_at_idx_Inr [OF step(2)] step(4) by auto
  qed (use "2.prems" in auto)
qed simp

lemma at_pointer_cases:
  "get_checked ptr j = Inl e \<Longrightarrow> at_pointer ptr j = Inl e"
  "get_checked ptr j = Inr p \<Longrightarrow> json_at p j = Some v \<Longrightarrow> at_pointer ptr j = Inr v"
  by (simp_all add: at_pointer_def deref_def)

lemma at_pointer_Inr: "at_pointer ptr j = Inr v \<longleftrightarrow> (\<exists>p. get_checked ptr j = Inr p \<and> json_at p j = Some v)"
  by (auto simp: at_pointer_def deref_def split: sum.splits option.splits)

lemma at_pointer_Inl: "at_pointer ptr j = Inl e \<longleftrightarrow> get_checked ptr j = Inl e"
  using get_checked_at [of ptr j] by (auto simp: at_pointer_def deref_def split: sum.splits option.splits)

lemma array_index_no_index: "no_index token \<Longrightarrow> \<exists>e. array_index token = Inl e"
proof -
  assume a: "no_index token"
  have "length (takeWhile is_digit token) \<noteq> length token" if "\<not> list_all is_digit token"
    using that by (metis list_all_iff set_takeWhileD takeWhile_eq_take take_all_iff order_refl)
  moreover have "array_index token = Inl (unresolved_token token)" if "token = [c]" "\<not> is_digit c" for c
    using that by (simp add: array_index_def)
  ultimately show ?thesis using a
    by (cases token rule: list.exhaust; cases "tl token")
      (auto simp: no_index_def array_index_def Let_def is_digit_def char_nat_def)
qed

text \<open>The two ways to look agree.\<close>

lemma contains_checked:
  "pointer_contains ptr j =
     (case get_checked ptr j of
        Inr p \<Rightarrow> Inr True
      | Inl e \<Rightarrow> if pointer_contains ptr j = Inl e then Inl e else Inr False)"
proof (induction ptr j rule: get_checked.induct)
  case (2 token tokens j)
  show ?case
  proof (cases "json_type j")
    case VT_object
    then obtain kvs where j: "j = JObject kvs" by (cases j) simp_all
    show ?thesis
    proof (cases "map_find token kvs")
      case (Some v)
      then show ?thesis using "2.IH"(1) [OF VT_object, of v] j
        by (cases "get_checked tokens v") (simp_all add: json_at_key_def json_index_const_def json_contains_def below_def)
    qed (simp add: j json_at_key_def json_contains_def)
  next
    case VT_array
    then obtain xs where j: "j = JArray xs" by (cases j) simp_all
    show ?thesis
    proof (cases "no_index token")
      case True
      then obtain e where "array_index token = Inl e" using array_index_no_index by blast
      then have "\<exists>e. get_checked (token # tokens) j = Inl e" using j by auto
      then show ?thesis using True j by auto
    next
      case False
      then have dash: "token \<noteq> ''-''" by (simp add: no_index_def)
      show ?thesis
      proof (cases "array_index token")
        case (Inl e)
        then show ?thesis using j dash False by simp
      next
        case (Inr idx)
        show ?thesis
        proof (cases "unat idx < length xs")
          case True
          then show ?thesis using "2.IH"(2) [OF VT_array dash Inr, of "xs ! unat idx"] j dash False Inr
            by (cases "get_checked tokens (xs ! unat idx)")
              (simp_all add: json_at_idx_def json_index_num_const_def below_def)
        qed (use j dash False Inr in \<open>simp add: json_at_idx_def\<close>)
      qed
    qed
  qed simp_all
qed simp

lemma contains_iff_at_parts:
  "pointer_contains ptr j = Inr True \<longleftrightarrow> (\<exists>v. at_pointer ptr j = Inr v)"
  "pointer_contains ptr j = Inl e \<longrightarrow> at_pointer ptr j = Inl e"
  "get_checked ptr j = Inr p \<longrightarrow> (\<exists>v. json_at p j = Some v \<and> at_pointer ptr j = Inr v)"
proof -
  show "get_checked ptr j = Inr p \<longrightarrow> (\<exists>v. json_at p j = Some v \<and> at_pointer ptr j = Inr v)"
    using get_checked_at [of ptr j p] at_pointer_cases(2) by blast
  show "pointer_contains ptr j = Inr True \<longleftrightarrow> (\<exists>v. at_pointer ptr j = Inr v)"
    using contains_checked [of ptr j] get_checked_at [of ptr j]
    by (cases "get_checked ptr j") (auto simp: at_pointer_Inr split: if_splits)
  show "pointer_contains ptr j = Inl e \<longrightarrow> at_pointer ptr j = Inl e"
    using contains_checked [of ptr j] by (cases "get_checked ptr j") (auto simp: at_pointer_Inl split: if_splits)
qed

text \<open>
  C19: For every pointer and value, \<open>contains\<close> answers yes exactly when \<open>at\<close> returns a value, and when it
  throws, \<open>at\<close> throws the same; the reference that \<open>at\<close> follows is a path of the value.
\<close>

theorem contains_iff_at:
  "(pointer_contains ptr j = Inr True \<longleftrightarrow> (\<exists>v. at_pointer ptr j = Inr v))
    \<and> (pointer_contains ptr j = Inl e \<longrightarrow> at_pointer ptr j = Inl e)
    \<and> (get_checked ptr j = Inr p \<longrightarrow> (\<exists>v. json_at p j = Some v \<and> at_pointer ptr j = Inr v))"
  by (intro conjI contains_iff_at_parts)

theorem contains_iff_at_witness:
  "pointer_contains [''a'', ''1''] (JObject [(''a'', JArray [JNull, JUnsigned 7])]) = Inr True
    \<and> at_pointer [[]] (JArray [JNull]) = Inl (unresolved_token [])
    \<and> (\<exists>v. json_at [Key ''a''] (JObject [(''a'', JNull)]) = Some v \<and> at_pointer [''a''] (JObject [(''a'', JNull)]) = Inr v)"
proof (intro conjI)
  have "get_checked [''a''] (JObject [(''a'', JNull)]) = Inr [Key ''a'']" by (simp add: json_at_key_def)
  then show "\<exists>v. json_at [Key ''a''] (JObject [(''a'', JNull)]) = Some v \<and> at_pointer [''a''] (JObject [(''a'', JNull)]) = Inr v"
    using contains_iff_at by blast
  show "pointer_contains [''a'', ''1''] (JObject [(''a'', JArray [JNull, JUnsigned 7])]) = Inr True"
    unfolding contains_iff_at [THEN conjunct1]
    by (simp add: at_pointer_Inr json_at_key_def json_at_idx_def array_index_def is_digit_def char_nat_def
        dec_value_def digit_val_def)
  have "pointer_contains [[]] (JArray [JNull]) = Inl (unresolved_token [])"
    by (simp add: no_index_def array_index_def)
  then show "at_pointer [[]] (JArray [JNull]) = Inl (unresolved_token [])"
    using contains_iff_at by blast
qed

text \<open>
  The empty token, which names a key in any object, is taken for an array index otherwise: on an
  array \<open>contains\<close> throws the error 404 that its comment does not list, and \<open>operator[]\<close>, which creates
  what is missing, makes an array of null and then throws the same, where any other key makes an object.
\<close>

theorem empty_token_throws:
  "pointer_contains ([] # ptr) (JArray xs) = Inl (unresolved_token [])"
  "get_unchecked ([] # ptr) JNull = Inl (unresolved_token [])"
  "get_unchecked [''a''] JNull = Inr ([Key ''a''], JObject [(''a'', JNull)])"
  by (simp_all add: no_index_def array_index_def json_index_mut_def is_digit_def char_nat_def create_below_def)

end
