(* ===== verification/Json_Compare.thy ===== *)
theory Json_Compare
  imports Json_Access
begin

text \<open>
  The comparison operators of \<^verbatim>\<open>class basic_json\<close> (\<^verbatim>\<open>include/nlohmann/json.hpp\<close>), as the C++20 build
  of the program has them: \<^verbatim>\<open>operator==\<close> and the three-way comparison. Numbers of different kinds are
  converted to a common type first: to a double when one of them is a double, and to \<^verbatim>\<open>int64_t\<close> when
  one is signed and the other unsigned.
\<close>

section \<open>Doubles\<close>

definition int_to_double :: "int \<Rightarrow> double" where
  "int_to_double i = round_double (i < 0) (nat (abs i)) 1"

definition signed_mantissa :: "bool \<Rightarrow> nat \<Rightarrow> int" where
  "signed_mantissa s m = (if s then - int m else int m)"

text \<open>The sign of the difference, unless one is not a number.\<close>

fun double_compare :: "double \<Rightarrow> double \<Rightarrow> int option" where
  "double_compare (Double_nan a f) d = None"
| "double_compare d (Double_nan b f) = None"
| "double_compare (Double_inf a) (Double_inf b) = Some (if a = b then 0 else if a then - 1 else 1)"
| "double_compare (Double_inf a) (Double_fin s m e) = Some (if a then - 1 else 1)"
| "double_compare (Double_fin s m e) (Double_inf b) = Some (if b then 1 else - 1)"
| "double_compare (Double_fin s m e) (Double_fin s' m' e') =
     Some (sgn (signed_mantissa s m * 2 ^ nat (e - e') - signed_mantissa s' m' * 2 ^ nat (e' - e)))"

section \<open>Equality\<close>

text \<open>Values that are no containers; values that do not compare are not equal.\<close>

definition scalar_eq :: "json \<Rightarrow> json \<Rightarrow> bool" where
  "scalar_eq l r =
     (case l of
        JNull \<Rightarrow> r = JNull
      | JString s \<Rightarrow> (case r of JString s' \<Rightarrow> s = s' | _ \<Rightarrow> False)
      | JBoolean b \<Rightarrow> (case r of JBoolean b' \<Rightarrow> b = b' | _ \<Rightarrow> False)
      | JInteger i \<Rightarrow>
          (case r of
             JInteger i' \<Rightarrow> i = i'
           | JFloat d \<Rightarrow> double_compare (int_to_double (sint i)) d = Some 0
           | JUnsigned u \<Rightarrow> i = u
           | _ \<Rightarrow> False)
      | JUnsigned u \<Rightarrow>
          (case r of
             JUnsigned u' \<Rightarrow> u = u'
           | JFloat d \<Rightarrow> double_compare (int_to_double (uint u)) d = Some 0
           | JInteger i \<Rightarrow> u = i
           | _ \<Rightarrow> False)
      | JFloat d \<Rightarrow>
          (case r of
             JFloat d' \<Rightarrow> double_compare d d' = Some 0
           | JInteger i \<Rightarrow> double_compare d (int_to_double (sint i)) = Some 0
           | JUnsigned u \<Rightarrow> double_compare d (int_to_double (uint u)) = Some 0
           | _ \<Rightarrow> False)
      | JBinary b t \<Rightarrow> (case r of JBinary b' t' \<Rightarrow> b = b' \<and> t = t' | _ \<Rightarrow> False)
      | _ \<Rightarrow> False)"

fun json_eq :: "json \<Rightarrow> json \<Rightarrow> bool"
  and eq_elements :: "json list \<Rightarrow> json list \<Rightarrow> bool"
  and eq_members :: "(string \<times> json) list \<Rightarrow> (string \<times> json) list \<Rightarrow> bool"
  where
  "json_eq l r =
     (case l of
        JArray xs \<Rightarrow> (case r of JArray ys \<Rightarrow> eq_elements xs ys | _ \<Rightarrow> False)
      | JObject kvs \<Rightarrow> (case r of JObject kvs' \<Rightarrow> eq_members kvs kvs' | _ \<Rightarrow> False)
      | _ \<Rightarrow> scalar_eq l r)"
| "eq_elements [] ys = (ys = [])"
| "eq_elements (x # xs) ys = (case ys of [] \<Rightarrow> False | y # ys' \<Rightarrow> json_eq x y \<and> eq_elements xs ys')"
| "eq_members [] ys = (ys = [])"
| "eq_members ((k, x) # xs) ys =
     (case ys of [] \<Rightarrow> False | (k', y) # ys' \<Rightarrow> k = k' \<and> json_eq x y \<and> eq_members xs ys')"

section \<open>Three-way comparison\<close>

datatype partial_ordering = PO_less | PO_equivalent | PO_greater | PO_unordered

definition order_int :: "int \<Rightarrow> int \<Rightarrow> partial_ordering" where
  "order_int a b = (if a < b then PO_less else if a = b then PO_equivalent else PO_greater)"

definition order_string :: "string \<Rightarrow> string \<Rightarrow> partial_ordering" where
  "order_string a b = (if a < b then PO_less else if a = b then PO_equivalent else PO_greater)"

definition order_double :: "double \<Rightarrow> double \<Rightarrow> partial_ordering" where
  "order_double a b = (case double_compare a b of None \<Rightarrow> PO_unordered | Some c \<Rightarrow> order_int c 0)"

definition order_bool :: "bool \<Rightarrow> bool \<Rightarrow> partial_ordering" where
  "order_bool a b = order_int (of_bool a) (of_bool b)"

text \<open>\<^verbatim>\<open>operator<=>\<close> on the types.\<close>

definition order_type :: "value_t \<Rightarrow> value_t \<Rightarrow> partial_ordering" where
  "order_type l r =
     (case (value_rank l, value_rank r) of
        (Some a, Some b) \<Rightarrow> order_int (int a) (int b)
      | _ \<Rightarrow> PO_unordered)"

text \<open>Values whose types do not compare are ordered by their types; discarded values are unordered.\<close>

definition order_types :: "json \<Rightarrow> json \<Rightarrow> partial_ordering" where
  "order_types l r =
     (if l = JDiscarded \<or> r = JDiscarded then PO_unordered else order_type (json_type l) (json_type r))"

definition scalar_compare :: "json \<Rightarrow> json \<Rightarrow> partial_ordering" where
  "scalar_compare l r =
     (case l of
        JNull \<Rightarrow> (case r of JNull \<Rightarrow> PO_equivalent | _ \<Rightarrow> order_types l r)
      | JString s \<Rightarrow> (case r of JString s' \<Rightarrow> order_string s s' | _ \<Rightarrow> order_types l r)
      | JBoolean b \<Rightarrow> (case r of JBoolean b' \<Rightarrow> order_bool b b' | _ \<Rightarrow> order_types l r)
      | JInteger i \<Rightarrow>
          (case r of
             JInteger i' \<Rightarrow> order_int (sint i) (sint i')
           | JFloat d \<Rightarrow> order_double (int_to_double (sint i)) d
           | JUnsigned u \<Rightarrow> order_int (sint i) (sint u)
           | _ \<Rightarrow> order_types l r)
      | JUnsigned u \<Rightarrow>
          (case r of
             JUnsigned u' \<Rightarrow> order_int (uint u) (uint u')
           | JFloat d \<Rightarrow> order_double (int_to_double (uint u)) d
           | JInteger i \<Rightarrow> order_int (sint u) (sint i)
           | _ \<Rightarrow> order_types l r)
      | JFloat d \<Rightarrow>
          (case r of
             JFloat d' \<Rightarrow> order_double d d'
           | JInteger i \<Rightarrow> order_double d (int_to_double (sint i))
           | JUnsigned u \<Rightarrow> order_double d (int_to_double (uint u))
           | _ \<Rightarrow> order_types l r)
      | JBinary b t \<Rightarrow> (case r of JBinary b' t' \<Rightarrow> order_string b b' | _ \<Rightarrow> order_types l r)
      | _ \<Rightarrow> order_types l r)"

fun json_compare :: "json \<Rightarrow> json \<Rightarrow> partial_ordering"
  and compare_elements :: "json list \<Rightarrow> json list \<Rightarrow> partial_ordering"
  and compare_members :: "(string \<times> json) list \<Rightarrow> (string \<times> json) list \<Rightarrow> partial_ordering"
  where
  "json_compare l r =
     (case l of
        JArray xs \<Rightarrow> (case r of JArray ys \<Rightarrow> compare_elements xs ys | _ \<Rightarrow> order_types l r)
      | JObject kvs \<Rightarrow> (case r of JObject kvs' \<Rightarrow> compare_members kvs kvs' | _ \<Rightarrow> order_types l r)
      | _ \<Rightarrow> scalar_compare l r)"
| "compare_elements [] ys = (if ys = [] then PO_equivalent else PO_less)"
| "compare_elements (x # xs) ys =
     (case ys of
        [] \<Rightarrow> PO_greater
      | y # ys' \<Rightarrow> (let c = json_compare x y in if c = PO_equivalent then compare_elements xs ys' else c))"
| "compare_members [] ys = (if ys = [] then PO_equivalent else PO_less)"
| "compare_members ((k, x) # xs) ys =
     (case ys of
        [] \<Rightarrow> PO_greater
      | (k', y) # ys' \<Rightarrow>
          (let c = (let c1 = order_string k k' in if c1 = PO_equivalent then json_compare x y else c1)
           in if c = PO_equivalent then compare_members xs ys' else c))"

text \<open>Discarded values, and numbers of which one is not a number, are unordered.\<close>

fun is_number :: "json \<Rightarrow> bool" where
  "is_number (JInteger i) = True"
| "is_number (JUnsigned u) = True"
| "is_number (JFloat d) = True"
| "is_number _ = False"

fun double_is_nan :: "double \<Rightarrow> bool" where
  "double_is_nan (Double_nan s f) = True"
| "double_is_nan _ = False"

definition is_nan :: "json \<Rightarrow> bool" where
  "is_nan j = (case j of JFloat d \<Rightarrow> double_is_nan d | _ \<Rightarrow> False)"

definition compares_unordered :: "json \<Rightarrow> json \<Rightarrow> bool" where
  "compares_unordered l r =
     (if is_nan l \<and> is_number r \<or> is_nan r \<and> is_number l then True else l = JDiscarded \<or> r = JDiscarded)"

definition json_neq :: "json \<Rightarrow> json \<Rightarrow> bool" where
  "json_neq l r = (if compares_unordered l r then False else \<not> json_eq l r)"

section \<open>Facts\<close>

lemma double_compare_refl [simp]: "double_compare d d = (if double_is_nan d then None else Some 0)"
  by (cases d) simp_all

lemma double_compare_swap: "double_compare b a = map_option uminus (double_compare a b)"
proof (cases "\<exists>s m e s' m' e'. a = Double_fin s m e \<and> b = Double_fin s' m' e'")
  case True
  then show ?thesis by (auto simp flip: sgn_minus)
next
  case False
  then show ?thesis by (cases a; cases b) simp_all
qed

lemma double_compare_zero: "double_compare b a = Some 0 \<longleftrightarrow> double_compare a b = Some 0"
  by (subst double_compare_swap) simp

text \<open>No value inside is discarded or not a number.\<close>

fun discard_free :: "json \<Rightarrow> bool" where
  "discard_free JDiscarded = False"
| "discard_free (JFloat d) = (\<not> double_is_nan d)"
| "discard_free (JArray xs) = list_all discard_free xs"
| "discard_free (JObject kvs) = list_all (\<lambda>kv. discard_free (snd kv)) kvs"
| "discard_free _ = True"

declare json_eq.simps [simp del] json_compare.simps [simp del]

lemma json_eq_simps [simp]:
  "json_eq (JArray xs) (JArray ys) = eq_elements xs ys"
  "json_eq (JObject kvs) (JObject kvs') = eq_members kvs kvs'"
  "json_eq JNull r = (r = JNull)"
  "json_eq JDiscarded r = False"
  by (simp_all add: json_eq.simps scalar_eq_def)

lemma eq_elements_all2: "eq_elements xs ys \<longleftrightarrow> list_all2 json_eq xs ys"
  by (induction xs arbitrary: ys) (auto split: list.split simp: list_all2_Cons1)

lemma eq_members_all2: "eq_members xs ys \<longleftrightarrow> list_all2 (\<lambda>a b. fst a = fst b \<and> json_eq (snd a) (snd b)) xs ys"
proof (induction xs arbitrary: ys)
  case (Cons kx xs)
  then show ?case by (cases kx; cases ys) (auto split: prod.split)
qed auto

lemma scalar_eq_sym_imp: "scalar_eq l r \<Longrightarrow> scalar_eq r l"
  by (cases l; cases r) (simp_all add: scalar_eq_def double_compare_zero [of "int_to_double _"],
    auto simp: double_compare_zero [THEN iffD1])

lemma scalar_eq_container [simp]: "\<not> scalar_eq l (JArray xs)" "\<not> scalar_eq l (JObject kvs)"
  by (cases l; simp add: scalar_eq_def)+

lemma json_eq_refl: "discard_free j \<Longrightarrow> json_eq j j"
proof (induction j)
  case (JObject kvs)
  have "json_eq (snd kv) (snd kv)" if "kv \<in> set kvs" for kv
    using JObject.IH [of kv "snd kv"] JObject.prems that by (cases kv) (auto simp: list_all_iff)
  then show ?case by (simp add: eq_members_all2 list_all2_conv_all_nth)
next
  case (JArray xs)
  then show ?case by (auto simp: eq_elements_all2 list_all_iff list_all2_conv_all_nth)
qed (simp_all add: json_eq.simps scalar_eq_def)

lemma json_eq_sym_imp: "json_eq a b \<Longrightarrow> json_eq b a"
proof (induction a arbitrary: b)
  case (JObject kvs)
  then obtain kvs' where b: "b = JObject kvs'" by (cases b) (auto simp: json_eq.simps)
  then have all2: "list_all2 (\<lambda>a b. fst a = fst b \<and> json_eq (snd a) (snd b)) kvs kvs'"
    using JObject.prems by (simp add: eq_members_all2)
  have "list_all2 (\<lambda>b a. fst b = fst a \<and> json_eq (snd b) (snd a)) kvs' kvs"
    unfolding list_all2_conv_all_nth
  proof (intro conjI allI impI)
    show len: "length kvs' = length kvs" using all2 by (simp add: list_all2_lengthD)
    fix i assume i: "i < length kvs'"
    then have nth: "fst (kvs ! i) = fst (kvs' ! i)" "json_eq (snd (kvs ! i)) (snd (kvs' ! i))"
      using all2 len by (auto simp: list_all2_conv_all_nth)
    then show "fst (kvs' ! i) = fst (kvs ! i)" by simp
    show "json_eq (snd (kvs' ! i)) (snd (kvs ! i))"
      using JObject.IH [of "kvs ! i" "snd (kvs ! i)"] nth(2) i len by (cases "kvs ! i") (auto simp: in_set_conv_nth)
  qed
  then show ?case using b by (simp add: eq_members_all2)
next
  case (JArray xs)
  then obtain ys where b: "b = JArray ys" by (cases b) (auto simp: json_eq.simps)
  then have "list_all2 json_eq xs ys" using JArray.prems by (simp add: eq_elements_all2)
  then have "list_all2 json_eq ys xs" using JArray.IH by (auto simp: list_all2_conv_all_nth)
  then show ?case using b by (simp add: eq_elements_all2)
qed (insert scalar_eq_sym_imp, auto simp: json_eq.simps split: json.splits)

lemma json_eq_sym: "json_eq a b = json_eq b a"
  using json_eq_sym_imp by blast

text \<open>Swapping the arguments of a comparison mirrors the result.\<close>

fun flip_order :: "partial_ordering \<Rightarrow> partial_ordering" where
  "flip_order PO_less = PO_greater"
| "flip_order PO_greater = PO_less"
| "flip_order c = c"

lemma flip_order_equivalent [simp]: "flip_order c = PO_equivalent \<longleftrightarrow> c = PO_equivalent"
  by (cases c) simp_all

lemma order_int_flip: "order_int b a = flip_order (order_int a b)"
  by (simp add: order_int_def)

lemma order_string_flip: "order_string b a = flip_order (order_string a b)"
  by (auto simp: order_string_def)

lemma order_bool_flip: "order_bool b a = flip_order (order_bool a b)"
  unfolding order_bool_def by (rule order_int_flip)

lemma order_double_flip: "order_double b a = flip_order (order_double a b)"
proof -
  have "double_compare b a = map_option uminus (double_compare a b)" by (rule double_compare_swap)
  then show ?thesis by (cases "double_compare a b") (simp_all add: order_double_def order_int_def)
qed

lemma order_types_flip: "order_types r l = flip_order (order_types l r)"
  by (cases "l = JDiscarded \<or> r = JDiscarded"; cases "value_rank (json_type l)"; cases "value_rank (json_type r)")
    (auto simp: order_types_def order_type_def order_int_flip [of "int (_ :: nat)" "int _"] order_int_def)

lemmas order_flips = order_int_flip order_string_flip order_bool_flip order_double_flip order_types_flip

definition is_container :: "json \<Rightarrow> bool" where
  "is_container j = (case j of JArray xs \<Rightarrow> True | JObject kvs \<Rightarrow> True | _ \<Rightarrow> False)"

lemma scalar_compare_flip:
  assumes "\<not> is_container l" "\<not> is_container r"
  shows "scalar_compare r l = flip_order (scalar_compare l r)"
  by (insert assms, cases l; cases r;
    simp only: scalar_compare_def is_container_def json.case simp_thms; (rule order_flips | simp))

lemma scalar_compare_mixed:
  "\<not> is_container l \<Longrightarrow> is_container r \<Longrightarrow> scalar_compare l r = order_types l r"
  by (cases l; cases r) (simp_all add: is_container_def scalar_compare_def)

lemma compare_cases:
  obtains (arrays) xs ys where "l = JArray xs" "r = JArray ys"
  | (objects) kvs kvs' where "l = JObject kvs" "r = JObject kvs'"
  | (scalars) "\<not> is_container l" "\<not> is_container r" "json_compare l r = scalar_compare l r" "json_compare r l = scalar_compare r l"
  | (mixed) "json_compare l r = order_types l r" "json_compare r l = order_types r l"
  using scalar_compare_mixed [of l r] scalar_compare_mixed [of r l]
  by (cases l; cases r; simp add: json_compare.simps is_container_def)

lemma json_compare_flip: "json_compare r l = flip_order (json_compare l r)"
proof -
  have "json_compare r l = flip_order (json_compare l r)"
    "compare_elements ys xs = flip_order (compare_elements xs ys)"
    "compare_members kvs' kvs = flip_order (compare_members kvs kvs')" for ys xs kvs' kvs
  proof (induction l r and xs ys and kvs kvs' rule: json_compare_compare_elements_compare_members.induct)
    case (1 l r)
    show ?case
    proof (cases l r rule: compare_cases)
      case (arrays xs ys)
      then show ?thesis using 1 by (simp add: json_compare.simps)
    next
      case (objects kvs kvs')
      then show ?thesis using 1 by (simp add: json_compare.simps)
    next
      case scalars
      then show ?thesis using scalar_compare_flip [of l r] by simp
    next
      case mixed
      then show ?thesis using order_types_flip [of r l] by simp
    qed
  next
    case (2 ys)
    then show ?case by (cases ys) simp_all
  next
    case (3 x xs ys)
    then show ?case by (cases ys) (simp_all add: Let_def)
  next
    case (4 ys)
    then show ?case by (cases ys) auto
  next
    case (5 k x xs ys)
    show ?case
    proof (cases ys)
      case (Cons y ys')
      obtain k' y' where y: "y = (k', y')" by (cases y)
      have "order_string k' k = flip_order (order_string k k')" by (rule order_string_flip)
      then show ?thesis using 5 Cons y by (simp add: Let_def)
    qed simp
  qed
  then show ?thesis by blast
qed

text \<open>Equality and the ordering agree on values without binaries.\<close>

fun binary_free :: "json \<Rightarrow> bool" where
  "binary_free (JBinary b t) = False"
| "binary_free (JArray xs) = list_all binary_free xs"
| "binary_free (JObject kvs) = list_all (\<lambda>kv. binary_free (snd kv)) kvs"
| "binary_free _ = True"

lemma order_equivalents [simp]:
  "order_int a b = PO_equivalent \<longleftrightarrow> a = b"
  "order_string s s' = PO_equivalent \<longleftrightarrow> s = s'"
  "order_bool x y = PO_equivalent \<longleftrightarrow> x = y"
  "order_double d d' = PO_equivalent \<longleftrightarrow> double_compare d d' = Some 0"
  by (auto simp: order_int_def order_string_def order_bool_def order_double_def split: if_splits option.splits)

lemma order_types_equivalent:
  "value_rank (json_type l) \<noteq> value_rank (json_type r) \<Longrightarrow> order_types l r \<noteq> PO_equivalent"
  by (auto simp: order_types_def order_type_def split: option.split)

lemma word_as_int: "sint (u :: 64 word) = sint v \<longleftrightarrow> u = v" "uint u = uint v \<longleftrightarrow> u = v"
  by (auto intro: signed_word_eqI unsigned_word_eqI)

lemma scalar_compare_equivalent:
  assumes "\<not> is_container l" "binary_free l"
  shows "scalar_compare l r = PO_equivalent \<longleftrightarrow> scalar_eq l r"
  using assms order_types_equivalent [of l r]
  by (cases l; cases r; simp add: scalar_compare_def scalar_eq_def is_container_def order_types_def word_as_int)

lemma compare_elements_equivalent:
  "(\<And>x y. x \<in> set xs \<Longrightarrow> json_compare x y = PO_equivalent \<longleftrightarrow> json_eq x y)
    \<Longrightarrow> compare_elements xs ys = PO_equivalent \<longleftrightarrow> eq_elements xs ys"
  by (induction xs arbitrary: ys) (auto simp: Let_def split: list.split)

lemma compare_members_equivalent:
  "(\<And>kv y. kv \<in> set kvs \<Longrightarrow> json_compare (snd kv) y = PO_equivalent \<longleftrightarrow> json_eq (snd kv) y)
    \<Longrightarrow> compare_members kvs kvs' = PO_equivalent \<longleftrightarrow> eq_members kvs kvs'"
proof (induction kvs arbitrary: kvs')
  case (Cons kv kvs)
  obtain k x where kv: "kv = (k, x)" by (cases kv)
  have head: "json_compare x y = PO_equivalent \<longleftrightarrow> json_eq x y" for y
    using Cons.prems [of kv y] by (simp add: kv)
  have rest: "compare_members kvs ys = PO_equivalent \<longleftrightarrow> eq_members kvs ys" for ys
    using Cons by simp
  show ?case by (cases kvs') (simp_all add: kv Let_def head rest split: prod.split)
qed simp

lemma json_compare_equivalent: "binary_free l \<Longrightarrow> json_compare l r = PO_equivalent \<longleftrightarrow> json_eq l r"
proof (induction l arbitrary: r)
  case (JObject kvs)
  have "compare_members kvs kvs' = PO_equivalent \<longleftrightarrow> eq_members kvs kvs'" for kvs'
    using JObject by (intro compare_members_equivalent) (auto simp: list_all_iff)
  then show ?case using order_types_equivalent [of "JObject kvs" r]
    by (cases r) (simp_all add: json_compare.simps json_eq.simps)
next
  case (JArray xs)
  have "compare_elements xs ys = PO_equivalent \<longleftrightarrow> eq_elements xs ys" for ys
    using JArray by (intro compare_elements_equivalent) (auto simp: list_all_iff)
  then show ?case using order_types_equivalent [of "JArray xs" r]
    by (cases r) (simp_all add: json_compare.simps json_eq.simps)
qed (insert scalar_compare_equivalent [of _ r], simp_all add: json_compare.simps json_eq.simps scalar_compare_equivalent is_container_def)

lemma json_order_parts:
  "json_compare b a = flip_order (json_compare a b)"
  "json_eq b a = json_eq a b"
  "discard_free a \<Longrightarrow> json_eq a a"
  "binary_free a \<Longrightarrow> json_eq a b \<longleftrightarrow> json_compare a b = PO_equivalent"
  using json_compare_flip json_eq_sym json_eq_refl json_compare_equivalent by blast+

text \<open>
  C20: The comparison operators fit together: swapping the arguments of the three-way comparison
  mirrors its result, equality is symmetric and, without discarded values and NaN, reflexive, and two values
  without binaries are equal exactly when the three-way comparison finds them equivalent.
\<close>

theorem json_order:
  "json_compare b a = flip_order (json_compare a b)
    \<and> json_eq b a = json_eq a b
    \<and> (discard_free a \<longrightarrow> json_eq a a)
    \<and> (binary_free a \<longrightarrow> (json_eq a b \<longleftrightarrow> json_compare a b = PO_equivalent))"
  using json_order_parts by blast

theorem json_order_witness:
  "json_eq (JArray [JUnsigned 1]) (JArray [JUnsigned 1])
    \<and> (json_eq (JArray [JUnsigned 1]) (JArray []) \<longleftrightarrow> json_compare (JArray [JUnsigned 1]) (JArray []) = PO_equivalent)"
  using json_order [of "JArray []" "JArray [JUnsigned 1]"] by simp

text \<open>
  C37: Where the operators differ from what the values say: equality is not transitive (two integers
  that differ beyond the precision of a double are both equal to the double between them), the largest
  unsigned number is equal to minus one, two binaries whose subtypes differ are not equal, though
  the three-way comparison finds them equivalent, and a NaN is neither equal to itself nor not equal to it.
\<close>

theorem comparison_pitfalls:
  "json_eq (JInteger 9007199254740993) (JFloat (Double_fin False 4503599627370496 1))
    \<and> json_eq (JFloat (Double_fin False 4503599627370496 1)) (JInteger 9007199254740992)
    \<and> \<not> json_eq (JInteger 9007199254740993) (JInteger 9007199254740992)
    \<and> json_eq (JUnsigned 18446744073709551615) (JInteger (- 1))
    \<and> \<not> json_eq (JBinary b (Some 1)) (JBinary b (Some 2))
    \<and> json_compare (JBinary b (Some 1)) (JBinary b (Some 2)) = PO_equivalent
    \<and> \<not> json_eq (JFloat (Double_nan s f)) (JFloat (Double_nan s f))
    \<and> \<not> json_neq (JFloat (Double_nan s f)) (JFloat (Double_nan s f))"
proof -
  have d: "int_to_double 9007199254740993 = Double_fin False 4503599627370496 1"
    "int_to_double 9007199254740992 = Double_fin False 4503599627370496 1"
    by (simp_all add: int_to_double_def round_double_def bit_len.simps div_half_even_def)
  have i: "sint (9007199254740993 :: 64 word) = 9007199254740993" "sint (9007199254740992 :: 64 word) = 9007199254740992"
    by simp_all
  have "json_eq (JInteger 9007199254740993) (JFloat (Double_fin False 4503599627370496 1))"
    by (simp add: json_eq.simps scalar_eq_def i d)
  moreover have "json_eq (JFloat (Double_fin False 4503599627370496 1)) (JInteger 9007199254740992)"
    by (simp add: json_eq.simps scalar_eq_def i d)
  moreover have "\<not> json_eq (JInteger 9007199254740993) (JInteger 9007199254740992)"
    by (simp add: json_eq.simps scalar_eq_def)
  moreover have "json_eq (JUnsigned 18446744073709551615) (JInteger (- 1))"
    by (simp add: json_eq.simps scalar_eq_def)
  moreover have "\<not> json_eq (JBinary b (Some 1)) (JBinary b (Some 2))"
    by (simp add: json_eq.simps scalar_eq_def)
  moreover have "json_compare (JBinary b (Some 1)) (JBinary b (Some 2)) = PO_equivalent"
    by (simp add: json_compare.simps scalar_compare_def)
  moreover have "\<not> json_eq (JFloat (Double_nan s f)) (JFloat (Double_nan s f))"
    by (simp add: json_eq.simps scalar_eq_def)
  moreover have "\<not> json_neq (JFloat (Double_nan s f)) (JFloat (Double_nan s f))"
    by (simp add: json_neq_def compares_unordered_def is_nan_def)
  ultimately show ?thesis by blast
qed

end
