(* ===== verification/Json_Patch.thy ===== *)
theory Json_Patch
  imports Json_Pointer Json_Compare Json_Serializer
begin

text \<open>
  JSON Patch (\<^verbatim>\<open>patch_inplace\<close>, \<^verbatim>\<open>patch\<close> and \<^verbatim>\<open>diff\<close> of \<^verbatim>\<open>class basic_json\<close>,
  \<^verbatim>\<open>include/nlohmann/json.hpp\<close>), and the theorem that a value patched with its difference to another
  value becomes equal to that. An operation that throws leaves its value behind as it was changed until
  then; the model returns the error only.
\<close>

section \<open>Operations\<close>

datatype patch_operation =
    Patch_add | Patch_remove | Patch_replace | Patch_move | Patch_copy | Patch_test | Patch_invalid

definition get_op :: "string \<Rightarrow> patch_operation" where
  "get_op op =
     (if op = ''add'' then Patch_add
      else if op = ''remove'' then Patch_remove
      else if op = ''replace'' then Patch_replace
      else if op = ''move'' then Patch_move
      else if op = ''copy'' then Patch_copy
      else if op = ''test'' then Patch_test
      else Patch_invalid)"

text \<open>The switch on the type of the parent in \<^verbatim>\<open>operation_add\<close>.\<close>

definition add_to_parent :: "string \<Rightarrow> json \<Rightarrow> json \<Rightarrow> json outcome" where
  "add_to_parent last_path val parent =
     (case json_type parent of
        VT_null \<Rightarrow> assign_key last_path val parent
      | VT_object \<Rightarrow> assign_key last_path val parent
      | VT_array \<Rightarrow>
          if last_path = ''-'' then json_push_back val parent
          else (case array_index last_path of
                  Inl e \<Rightarrow> Inl e
                | Inr idx \<Rightarrow> if json_size parent < unat idx then Inl (index_out_of_range idx)
                             else json_insert (unat idx) val parent)
      | _ \<Rightarrow> Inl (Assertion_failed ''false''))"

text \<open>What becomes of the value when the one at a reference is replaced.\<close>

definition store_at :: "path \<Rightarrow> json \<Rightarrow> json outcome \<Rightarrow> json outcome" where
  "store_at p result r = (case r of Inl e \<Rightarrow> Inl e | Inr v \<Rightarrow> Inr (json_modify p (\<lambda>_. v) result))"

definition operation_add :: "json_pointer \<Rightarrow> json \<Rightarrow> json \<Rightarrow> json outcome" where
  "operation_add ptr val result =
     (if ptr = [] then Inr val
      else case pointer_top ptr of
        Inl e \<Rightarrow> Inl e
      | Inr top_pointer \<Rightarrow>
          (case (if top_pointer \<noteq> ptr then get_checked top_pointer result else Inr []) of
             Inl e \<Rightarrow> Inl e
           | Inr _ \<Rightarrow>
               (case (pointer_back ptr, pointer_pop_back ptr) of
                  (Inr last_path, Inr ptr1) \<Rightarrow>
                    (case get_checked ptr1 result of
                       Inl e \<Rightarrow> Inl e
                     | Inr p \<Rightarrow>
                         (case deref p result of
                            Inl e \<Rightarrow> Inl e
                          | Inr parent \<Rightarrow> store_at p result (add_to_parent last_path val parent)))
                | (Inl e, _) \<Rightarrow> Inl e
                | (_, Inl e) \<Rightarrow> Inl e)))"

definition remove_from_parent :: "string \<Rightarrow> json \<Rightarrow> json outcome" where
  "remove_from_parent last_path parent =
     (case parent of
        JObject kvs \<Rightarrow>
          if map_find last_path kvs \<noteq> None then Inr (JObject (map_erase last_path kvs))
          else Inl (json_out_of_range 403 (''key '' @ quoted last_path @ '' not found''))
      | JArray xs \<Rightarrow>
          (case array_index last_path of Inl e \<Rightarrow> Inl e | Inr idx \<Rightarrow> json_erase_idx idx parent)
      | _ \<Rightarrow> Inr parent)"

definition operation_remove :: "json_pointer \<Rightarrow> json \<Rightarrow> json outcome" where
  "operation_remove ptr result =
     (case (pointer_back ptr, pointer_pop_back ptr) of
        (Inr last_path, Inr ptr1) \<Rightarrow>
          (case get_checked ptr1 result of
             Inl e \<Rightarrow> Inl e
           | Inr p \<Rightarrow>
               (case deref p result of
                  Inl e \<Rightarrow> Inl e
                | Inr parent \<Rightarrow> store_at p result (remove_from_parent last_path parent)))
      | (Inl e, _) \<Rightarrow> Inl e
      | (_, Inl e) \<Rightarrow> Inl e)"

section \<open>One element of a patch\<close>

definition operation_text :: "string \<Rightarrow> string" where
  "operation_text op = (if op = ''op'' then ''operation'' else ''operation '' @ quoted op)"

definition get_value :: "(string \<times> json) list \<Rightarrow> string \<Rightarrow> string \<Rightarrow> json outcome" where
  "get_value val op member =
     (case map_find member val of
        None \<Rightarrow> Inl (parse_error_at 105 0 (operation_text op @ '' must have member '' @ quoted member))
      | Some v \<Rightarrow> Inr v)"

text \<open>With \<^verbatim>\<open>string_type\<close>, and the conversion to a string.\<close>

definition get_string_value :: "(string \<times> json) list \<Rightarrow> string \<Rightarrow> string \<Rightarrow> string outcome" where
  "get_string_value val op member =
     (case get_value val op member of
        Inl e \<Rightarrow> Inl e
      | Inr v \<Rightarrow>
          (case v of
             JString s \<Rightarrow> Inr s
           | _ \<Rightarrow> Inl (parse_error_at 105 0 (operation_text op @ '' must have string member '' @ quoted member))))"

definition and_then :: "'a outcome \<Rightarrow> ('a \<Rightarrow> 'b outcome) \<Rightarrow> 'b outcome" where
  "and_then r f = (case r of Inl e \<Rightarrow> Inl e | Inr x \<Rightarrow> f x)"

lemma and_then_simps [simp]:
  "and_then (Inl e) f = Inl e"
  "and_then (Inr x) f = f x"
  by (simp_all add: and_then_def)

definition replace_at :: "json_pointer \<Rightarrow> json \<Rightarrow> json \<Rightarrow> json outcome" where
  "replace_at ptr val result = and_then (get_checked ptr result) (\<lambda>p. Inr (json_modify p (\<lambda>_. val) result))"

text \<open>The operands of \<^verbatim>\<open>==\<close> are taken from left to right.\<close>

definition operation_test :: "json_pointer \<Rightarrow> (string \<times> json) list \<Rightarrow> json \<Rightarrow> json outcome" where
  "operation_test ptr val result =
     and_then
       (case and_then (at_pointer ptr result)
               (\<lambda>v. and_then (get_value val ''test'' ''value'') (\<lambda>expected. Inr (json_eq v expected))) of
          Inl (Json_out_of_range i m) \<Rightarrow> Inr False
        | r \<Rightarrow> r)
       (\<lambda>success.
          if success then Inr result
          else and_then (json_dump (- 1) (CHR '' '') False Strict (JObject val))
                 (\<lambda>t. Inl (Json_other_error 501 (exn_name ''other_error'' 501 @ ''unsuccessful: '' @ t))))"

definition patch_element :: "json \<Rightarrow> json \<Rightarrow> json outcome" where
  "patch_element element result =
     (case element of
        JObject val \<Rightarrow>
          and_then (get_string_value val ''op'' ''op'') (\<lambda>op.
          and_then (get_string_value val op ''path'') (\<lambda>path.
          and_then (pointer_split path) (\<lambda>ptr.
            case get_op op of
              Patch_add \<Rightarrow>
                and_then (get_value val ''add'' ''value'') (\<lambda>v. operation_add ptr v result)
            | Patch_remove \<Rightarrow> operation_remove ptr result
            | Patch_replace \<Rightarrow>
                and_then (get_value val ''replace'' ''value'') (\<lambda>v. replace_at ptr v result)
            | Patch_move \<Rightarrow>
                and_then (get_string_value val ''move'' ''from'') (\<lambda>from_path.
                and_then (pointer_split from_path) (\<lambda>from_ptr.
                and_then (at_pointer from_ptr result) (\<lambda>v.
                and_then (operation_remove from_ptr result) (\<lambda>result1.
                  operation_add ptr v result1))))
            | Patch_copy \<Rightarrow>
                and_then (get_string_value val ''copy'' ''from'') (\<lambda>from_path.
                and_then (pointer_split from_path) (\<lambda>from_ptr.
                and_then (at_pointer from_ptr result) (\<lambda>v.
                  operation_add ptr v result)))
            | Patch_test \<Rightarrow> operation_test ptr val result
            | Patch_invalid \<Rightarrow>
                Inl (parse_error_at 105 0 (''operation value '' @ quoted op @ '' is invalid'')))))
      | _ \<Rightarrow> Inl (parse_error_at 104 0 ''JSON patch must be an array of objects''))"

section \<open>patch and diff\<close>

definition patch_inplace :: "json \<Rightarrow> json \<Rightarrow> json outcome" where
  "patch_inplace json_patch result =
     (case json_patch of
        JArray elements \<Rightarrow> run_actions (map patch_element elements) result
      | _ \<Rightarrow> Inl (parse_error_at 104 0 ''JSON patch must be an array of objects''))"

text \<open>The object that an initializer list of pairs becomes.\<close>

definition operation_object :: "(string \<times> json) list \<Rightarrow> json" where
  "operation_object entries = JObject (fold (\<lambda>kv kvs. map_emplace (fst kv) (snd kv) kvs) entries [])"

definition replace_operation :: "string \<Rightarrow> json \<Rightarrow> json" where
  "replace_operation path target =
     operation_object [(''op'', JString ''replace''), (''path'', JString path), (''value'', target)]"

definition remove_operation :: "string \<Rightarrow> json" where
  "remove_operation path = operation_object [(''op'', JString ''remove''), (''path'', JString path)]"

definition add_operation :: "string \<Rightarrow> json \<Rightarrow> json" where
  "add_operation path v =
     operation_object [(''op'', JString ''add''), (''path'', JString path), (''value'', v)]"

definition remove_rest :: "string \<Rightarrow> nat \<Rightarrow> nat \<Rightarrow> json list" where
  "remove_rest path i n = rev (map (\<lambda>k. remove_operation (path @ ''/'' @ to_string k)) [i..<n])"

definition add_members :: "(string \<times> json) list \<Rightarrow> (string \<times> json) list \<Rightarrow> string \<Rightarrow> json list" where
  "add_members source target path =
     map (\<lambda>kv. add_operation (path @ ''/'' @ escape_token (fst kv)) (snd kv))
       (filter (\<lambda>kv. map_find (fst kv) source = None) target)"

fun json_diff :: "json \<Rightarrow> json \<Rightarrow> string \<Rightarrow> json list"
  and diff_elements :: "json list \<Rightarrow> json list \<Rightarrow> string \<Rightarrow> nat \<Rightarrow> json list"
  and diff_members :: "(string \<times> json) list \<Rightarrow> (string \<times> json) list \<Rightarrow> string \<Rightarrow> json list"
  where
  "json_diff source target path =
     (if json_eq source target then []
      else if json_type source \<noteq> json_type target then [replace_operation path target]
      else case source of
        JArray xs \<Rightarrow>
          (case target of
             JArray ys \<Rightarrow>
               diff_elements xs ys path 0
               @ remove_rest path (length ys) (length xs)
               @ map (add_operation (path @ ''/-'')) (drop (length xs) ys)
           | _ \<Rightarrow> [])
      | JObject kvs \<Rightarrow>
          (case target of
             JObject kvs' \<Rightarrow> diff_members kvs kvs' path @ add_members kvs kvs' path
           | _ \<Rightarrow> [])
      | _ \<Rightarrow> [replace_operation path target])"
| "diff_elements [] ys path i = []"
| "diff_elements (x # xs) ys path i =
     (case ys of
        [] \<Rightarrow> []
      | y # ys' \<Rightarrow> json_diff x y (path @ ''/'' @ to_string i) @ diff_elements xs ys' path (i + 1))"
| "diff_members [] target path = []"
| "diff_members ((k, x) # kvs) target path =
     (let path_key = path @ ''/'' @ escape_token k
      in (case map_find k target of
            Some y \<Rightarrow> json_diff x y path_key
          | None \<Rightarrow> [remove_operation path_key])
         @ diff_members kvs target path)"

declare json_diff.simps [simp del]

section \<open>Indices in their decimal form\<close>

lemma list_all_is_digit_to_string: "list_all is_digit (to_string n)"
  by (simp add: list_all_iff to_string_digits)

lemma array_index_to_string: "n < 2 ^ 64 - 1 \<Longrightarrow> array_index (to_string n) = Inr (of_nat n)"
proof -
  assume n: "n < 2 ^ 64 - 1"
  have "hd (to_string n) \<noteq> CHR ''0''" if "1 < length (to_string n)"
    using that to_string_hd [of n] by (cases "n = 0") (simp_all add: to_string.simps [of 0])
  moreover have "is_digit (hd (to_string n))" using to_string_digits hd_in_set to_string_nonempty by blast
  ultimately show ?thesis using n by (auto simp: array_index_def dec_value_to_string)
qed

lemma unat_of_nat_index: "n < 2 ^ 64 - 1 \<Longrightarrow> unat (of_nat n :: size_t) = n"
  by (simp add: unat_of_nat)

lemma to_string_not_dash: "to_string n \<noteq> ''-''"
proof
  assume "to_string n = ''-''"
  then have "is_digit (CHR ''-'')" using to_string_digits [of "CHR ''-''" n] by simp
  then show False by (simp add: is_digit_def char_nat_def)
qed

section \<open>Work at a place\<close>

definition at_place :: "json_pointer \<Rightarrow> path \<Rightarrow> json \<Rightarrow> json \<Rightarrow> bool" where
  "at_place ptr p v j \<longleftrightarrow> get_checked ptr j = Inr p \<and> json_at p j = Some v"

abbreviation put_at :: "path \<Rightarrow> json \<Rightarrow> json \<Rightarrow> json" where
  "put_at p v j \<equiv> json_modify p (\<lambda>_. v) j"

lemma get_checked_step:
  "get_checked (token # tokens) j = Inr p \<longleftrightarrow>
     (\<exists>s v q. get_checked [token] j = Inr [s] \<and> json_step s j = Some v \<and> get_checked tokens v = Inr q \<and> p = s # q)"
proof (cases "json_type j")
  case VT_object
  then obtain kvs where "j = JObject kvs" by (cases j) simp_all
  then show ?thesis by (auto simp: json_at_key_def split: option.split)
next
  case VT_array
  then obtain xs where "j = JArray xs" by (cases j) simp_all
  then show ?thesis by (auto simp: json_at_idx_def split: sum.split)
qed auto

lemma get_checked_one: "get_checked [token] j = Inr p \<Longrightarrow> \<exists>s v. p = [s] \<and> json_step s j = Some v"
  using get_checked_step [of token "[]" j p] by auto

lemma get_checked_one_modify:
  "get_checked [token] j = Inr [s] \<Longrightarrow> get_checked [token] (json_modify_step s f j) = Inr [s]"
proof (cases "json_type j")
  case VT_object
  then obtain kvs where "j = JObject kvs" by (cases j) simp_all
  moreover assume "get_checked [token] j = Inr [s]"
  ultimately show ?thesis by (auto simp: json_at_key_def split: option.splits)
next
  case VT_array
  then obtain xs where "j = JArray xs" by (cases j) simp_all
  moreover assume "get_checked [token] j = Inr [s]"
  ultimately show ?thesis by (auto simp: json_at_idx_def split: sum.splits if_splits)
qed auto

lemma get_checked_append:
  "get_checked ptr j = Inr p \<Longrightarrow> json_at p j = Some v \<Longrightarrow> get_checked tokens v = Inr q \<Longrightarrow>
     get_checked (ptr @ tokens) j = Inr (p @ q)"
proof (induction ptr arbitrary: j p)
  case (Cons t ptr)
  obtain s w p' where s: "get_checked [t] j = Inr [s]" "json_step s j = Some w" "get_checked ptr w = Inr p'" "p = s # p'"
    using Cons.prems(1) unfolding get_checked_step [of t ptr] by blast
  then have "get_checked (ptr @ tokens) w = Inr (p' @ q)" using Cons.IH Cons.prems(2,3) by simp
  then have "get_checked (t # ptr @ tokens) j = Inr (s # p' @ q)"
    unfolding get_checked_step [of t "ptr @ tokens"] using s(1,2) by blast
  then show ?case using s(4) by simp
qed simp

lemma at_place_put: "at_place ptr p v j \<Longrightarrow> at_place ptr p w (put_at p w j)"
proof -
  have "get_checked ptr (json_modify p f j) = Inr p" if "get_checked ptr j = Inr p" for f
    using that
  proof (induction ptr arbitrary: j p)
    case (Cons t ptr)
    obtain s v p' where s: "get_checked [t] j = Inr [s]" "json_step s j = Some v" "get_checked ptr v = Inr p'" "p = s # p'"
      using Cons.prems unfolding get_checked_step [of t ptr] by blast
    then have "get_checked ptr (json_modify p' f v) = Inr p'" using Cons.IH by blast
    then show ?case unfolding get_checked_step [of t ptr]
      using get_checked_one_modify [OF s(1)] s(2,4) by auto
  qed simp
  then show "at_place ptr p v j \<Longrightarrow> at_place ptr p w (put_at p w j)"
    by (simp add: at_place_def)
qed

lemma map_adjust_same: "map_find k kvs = Some v \<Longrightarrow> map_adjust k (\<lambda>_. v) kvs = kvs"
  by (induction k kvs rule: map_find.induct) (auto split: if_splits)

lemma put_same: "json_at p j = Some v \<Longrightarrow> put_at p v j = j"
proof (induction p arbitrary: j)
  case (Cons s p)
  obtain w where w: "json_step s j = Some w" "json_at p w = Some v" using Cons.prems by (auto split: option.splits)
  have "json_modify_step s f j = j" if "f w = w" for f
  proof (cases "(s, j)" rule: json_step.cases)
    case (1 k kvs)
    have "map_adjust k f kvs = kvs" if "map_find k kvs = Some w" for kvs
      using that \<open>f w = w\<close> by (induction kvs) (auto split: if_splits)
    then show ?thesis using 1 w(1) by simp
  qed (use w(1) that in \<open>auto split: if_splits\<close>)
  then show ?case using Cons.IH [OF w(2)] by simp
qed simp

lemma json_modify_empty: "json_modify [] f = f"
  by (intro ext) simp

lemma put_put: "put_at p v (put_at p w j) = put_at p v j"
  by (simp add: comp_def)

abbreviation run_patch :: "json list \<Rightarrow> json \<Rightarrow> json outcome" where
  "run_patch ops \<equiv> run_actions (map patch_element ops)"

text \<open>The elements change the value at the place of a pointer, and nothing else.\<close>

definition works_at :: "json_pointer \<Rightarrow> json list \<Rightarrow> json \<Rightarrow> json \<Rightarrow> bool" where
  "works_at ptr ops v w \<longleftrightarrow> (\<forall>j p. at_place ptr p v j \<longrightarrow> run_patch ops j = Inr (put_at p w j))"

lemma works_at_Nil [intro]: "works_at ptr [] v v"
  by (simp add: works_at_def at_place_def put_same)

lemma works_at_append [intro]:
  "works_at ptr ops v w \<Longrightarrow> works_at ptr ops' w u \<Longrightarrow> works_at ptr (ops @ ops') v u"
  unfolding works_at_def
proof (intro allI impI)
  fix j p assume w: "\<forall>j p. at_place ptr p v j \<longrightarrow> run_patch ops j = Inr (put_at p w j)"
    and u: "\<forall>j p. at_place ptr p w j \<longrightarrow> run_patch ops' j = Inr (put_at p u j)" and j: "at_place ptr p v j"
  have "run_patch ops' (put_at p w j) = Inr (put_at p u (put_at p w j))" using u at_place_put [OF j] by blast
  then show "run_patch (ops @ ops') j = Inr (put_at p u j)"
    using w j unfolding put_put by (simp add: run_actions_append)
qed

lemma works_at_below:
  assumes "works_at (ptr @ [token]) ops v w" "get_checked [token] c = Inr [s]" "json_step s c = Some v"
  shows "works_at ptr ops c (json_modify_step s (\<lambda>_. w) c)"
  unfolding works_at_def
proof (intro allI impI)
  fix j p assume "at_place ptr p c j"
  then have place: "get_checked ptr j = Inr p" "json_at p j = Some c" by (simp_all add: at_place_def)
  then have "at_place (ptr @ [token]) (p @ [s]) v j"
    using get_checked_append [OF place assms(2)] assms(3) by (simp add: at_place_def json_at_append)
  then have "run_patch ops j = Inr (put_at (p @ [s]) w j)" using assms(1) by (simp add: works_at_def)
  moreover have "put_at (p @ [s]) w j = put_at p (json_modify_step s (\<lambda>_. w) c) j"
  proof -
    have "put_at (p @ [s]) w j = put_at (p @ [s]) w (put_at p c j)" by (simp add: put_same [OF place(2)])
    also have "\<dots> = put_at p (json_modify_step s (\<lambda>_. w) c) j"
      by (simp add: json_modify_append comp_def json_modify_empty)
    finally show ?thesis .
  qed
  ultimately show "run_patch ops j = Inr (put_at p (json_modify_step s (\<lambda>_. w) c) j)" by simp
qed

section \<open>The operations of a difference\<close>

lemma operation_objects:
  "replace_operation path v = JObject [(''op'', JString ''replace''), (''path'', JString path), (''value'', v)]"
  "remove_operation path = JObject [(''op'', JString ''remove''), (''path'', JString path)]"
  "add_operation path v = JObject [(''op'', JString ''add''), (''path'', JString path), (''value'', v)]"
  by (simp_all add: replace_operation_def remove_operation_def add_operation_def operation_object_def)

text \<open>These are the objects the initializer lists of the source build.\<close>

lemma operation_object_list:
  "json_of_list (map (\<lambda>kv. JArray [JString (fst kv), snd kv]) entries) True VT_array = Inr (operation_object entries)"
proof -
  have "fold (\<lambda>el kvs. map_emplace (fst (pair_entry el)) (snd (pair_entry el)) kvs)
      (map (\<lambda>kv. JArray [JString (fst kv), snd kv]) entries) kvs
    = fold (\<lambda>kv kvs. map_emplace (fst kv) (snd kv) kvs) entries kvs" for kvs
    by (induction entries arbitrary: kvs) (simp_all add: pair_entry_def)
  then show ?thesis by (simp add: json_of_list_def operation_object_def list_all_iff is_pair_def)
qed

lemma patch_elements:
  "patch_element (replace_operation (pointer_to_string ptr) v) j = replace_at ptr v j"
  "patch_element (remove_operation (pointer_to_string ptr)) j = operation_remove ptr j"
  "patch_element (add_operation (pointer_to_string ptr) v) j = operation_add ptr v j"
  by (simp_all add: operation_objects patch_element_def get_string_value_def get_value_def split_to_string get_op_def)

lemma works_replace: "works_at ptr [replace_operation (pointer_to_string ptr) w] v w"
  by (auto simp: works_at_def at_place_def patch_elements replace_at_def)

lemma works_remove:
  assumes "remove_from_parent token v = Inr w"
  shows "works_at ptr [remove_operation (pointer_to_string (ptr @ [token]))] v w"
  using assms by (auto simp: works_at_def at_place_def patch_elements operation_remove_def pointer_back_def
      pointer_pop_back_def deref_def store_at_def simp del: pointer_to_string_simps)

lemma get_checked_top: "get_checked ptr j = Inr p \<Longrightarrow> ptr \<noteq> [] \<Longrightarrow> \<exists>q. get_checked [hd ptr] j = Inr q"
  using get_checked_step [of "hd ptr" "tl ptr" j p] by (cases ptr) (auto simp del: get_checked.simps)

lemma works_add:
  assumes "add_to_parent token new v = Inr w"
  shows "works_at ptr [add_operation (pointer_to_string (ptr @ [token])) new] v w"
  unfolding works_at_def
proof (intro allI impI)
  fix j p assume "at_place ptr p v j"
  then have place: "get_checked ptr j = Inr p" "json_at p j = Some v" by (simp_all add: at_place_def)
  have "\<exists>q. (if [hd (ptr @ [token])] \<noteq> ptr @ [token] then get_checked [hd (ptr @ [token])] j else Inr []) = Inr q"
    using get_checked_top [OF place(1)] by (cases ptr) auto
  then obtain q where
    "(if [hd (ptr @ [token])] \<noteq> ptr @ [token] then get_checked [hd (ptr @ [token])] j else Inr []) = Inr q" ..
  then show "run_patch [add_operation (pointer_to_string (ptr @ [token])) new] j = Inr (put_at p w j)"
    using place assms
    by (simp add: patch_elements operation_add_def pointer_top_def pointer_back_def pointer_pop_back_def deref_def
        store_at_def del: pointer_to_string_simps)
qed

section \<open>Arrays\<close>

lemma escape_token_plain: "CHR ''~'' \<notin> set t \<Longrightarrow> CHR ''/'' \<notin> set t \<Longrightarrow> escape_token t = t"
  unfolding escape_token_chars by (induction t) (auto simp: escape_char_def)

lemma escape_token_to_string [simp]: "escape_token (to_string n) = to_string n"
  using to_string_digits [of _ n]
  by (intro escape_token_plain) (auto simp: is_digit_def char_nat_def dest!: to_string_digits)

lemma escape_token_dash [simp]: "escape_token ''-'' = ''-''"
  by (intro escape_token_plain) simp_all

lemma pointer_to_string_snoc: "pointer_to_string ptr @ ''/'' @ escape_token t = pointer_to_string (ptr @ [t])"
  by simp

lemmas pointer_paths =
  pointer_to_string_snoc [of _ "to_string _", unfolded escape_token_to_string]
  pointer_to_string_snoc [of _ "''-''", unfolded escape_token_dash]

lemma works_remove_rest:
  "length zs = n \<Longrightarrow> n < 2 ^ 64 \<Longrightarrow>
    works_at ptr (remove_rest (pointer_to_string ptr) m n) (JArray zs) (JArray (take m zs))"
proof (induction n arbitrary: zs)
  case (Suc n)
  show ?case
  proof (cases "m \<le> n")
    case True
    have idx: "array_index (to_string n) = Inr (of_nat n)" "unat (of_nat n :: size_t) = n"
      using Suc.prems(2) by (simp_all add: array_index_to_string unat_of_nat_index)
    have "remove_from_parent (to_string n) (JArray zs) = Inr (JArray (take n zs))"
      using Suc.prems(1) idx by (simp add: remove_from_parent_def json_erase_idx_def)
    then have "works_at ptr [remove_operation (pointer_to_string ptr @ ''/'' @ to_string n)] (JArray zs) (JArray (take n zs))"
      unfolding pointer_paths by (rule works_remove)
    moreover have "works_at ptr (remove_rest (pointer_to_string ptr) m n) (JArray (take n zs)) (JArray (take m (take n zs)))"
      using Suc.prems by (intro Suc.IH) simp_all
    ultimately have "works_at ptr ([remove_operation (pointer_to_string ptr @ ''/'' @ to_string n)]
        @ remove_rest (pointer_to_string ptr) m n) (JArray zs) (JArray (take m (take n zs)))"
      by (rule works_at_append)
    then show ?thesis using True by (simp add: remove_rest_def min_absorb1)
  next
    case False
    then show ?thesis using Suc.prems works_at_Nil by (simp add: remove_rest_def)
  qed
qed (simp add: remove_rest_def works_at_Nil)

lemma works_add_rest:
  "works_at ptr (map (add_operation (pointer_to_string ptr @ ''/-'')) vs) (JArray zs) (JArray (zs @ vs))"
proof (induction vs arbitrary: zs)
  case (Cons v vs)
  have path: "pointer_to_string ptr @ ''/-'' = pointer_to_string (ptr @ [''-''])"
    using pointer_paths(2) [of ptr] by simp
  have "add_to_parent ''-'' v (JArray zs) = Inr (JArray (zs @ [v]))"
    by (simp add: add_to_parent_def json_push_back_def)
  then have "works_at ptr [add_operation (pointer_to_string ptr @ ''/-'') v] (JArray zs) (JArray (zs @ [v]))"
    unfolding path by (rule works_add)
  from works_at_append [OF this Cons [of "zs @ [v]"]] show ?case by simp
qed (simp add: works_at_Nil)

definition diff_works :: "json \<Rightarrow> json \<Rightarrow> bool" where
  "diff_works x y \<longleftrightarrow>
     (\<forall>ptr. \<exists>r. works_at ptr (json_diff x y (pointer_to_string ptr)) x r \<and> json_eq r y)"

lemma works_diff_elements:
  "(\<And>x y. x \<in> set xs \<Longrightarrow> y \<in> set ys \<Longrightarrow> diff_works x y) \<Longrightarrow> i = length zs \<Longrightarrow> i + length xs < 2 ^ 64 \<Longrightarrow>
    \<exists>rs. works_at ptr (diff_elements xs ys (pointer_to_string ptr) i) (JArray (zs @ xs)) (JArray (zs @ rs))
      \<and> length rs = length xs \<and> list_all2 json_eq (take (length ys) rs) (take (length xs) ys)"
proof (induction xs arbitrary: ys i zs)
  case (Cons x xs)
  show ?case
  proof (cases ys)
    case Nil
    then show ?thesis by (auto intro!: exI [of _ "x # xs"])
  next
    case ys: (Cons y ys')
    obtain r where r: "works_at (ptr @ [to_string i]) (json_diff x y (pointer_to_string (ptr @ [to_string i]))) x r"
      "json_eq r y"
      using Cons.prems(1) [of x y] unfolding ys diff_works_def by (meson list.set_intros(1))
    have idx: "array_index (to_string i) = Inr (of_nat i)" "unat (of_nat i :: size_t) = i"
      using Cons.prems(3) by (simp_all add: array_index_to_string unat_of_nat_index)
    have "get_checked [to_string i] (JArray (zs @ x # xs)) = Inr [Index i]"
      using idx Cons.prems(2) to_string_not_dash by (simp add: json_at_idx_def)
    moreover have "json_step (Index i) (JArray (zs @ x # xs)) = Some x" using Cons.prems(2) by simp
    ultimately have "works_at ptr (json_diff x y (pointer_to_string ptr @ ''/'' @ to_string i)) (JArray (zs @ x # xs))
        (json_modify_step (Index i) (\<lambda>_. r) (JArray (zs @ x # xs)))"
      unfolding pointer_paths by (rule works_at_below [OF r(1)])
    then have "works_at ptr (json_diff x y (pointer_to_string ptr @ ''/'' @ to_string i)) (JArray (zs @ x # xs))
        (JArray ((zs @ [r]) @ xs))"
      using Cons.prems(2) by simp
    moreover obtain rs where rs:
      "works_at ptr (diff_elements xs ys' (pointer_to_string ptr) (i + 1)) (JArray ((zs @ [r]) @ xs)) (JArray ((zs @ [r]) @ rs))"
      "length rs = length xs" "list_all2 json_eq (take (length ys') rs) (take (length xs) ys')"
      using Cons.IH [of ys' "i + 1" "zs @ [r]"] Cons.prems by (auto simp: ys)
    ultimately have "works_at ptr (json_diff x y (pointer_to_string ptr @ ''/'' @ to_string i)
        @ diff_elements xs ys' (pointer_to_string ptr) (i + 1)) (JArray (zs @ x # xs)) (JArray ((zs @ [r]) @ rs))"
      by (intro works_at_append)
    then show ?thesis using rs r(2) by (intro exI [of _ "r # rs"]) (simp add: ys)
  qed
qed auto

lemma works_diff_array:
  assumes "\<And>x y. x \<in> set xs \<Longrightarrow> y \<in> set ys \<Longrightarrow> diff_works x y" "length xs < 2 ^ 64"
    and free: "list_all discard_free ys"
  shows "\<exists>r. works_at ptr
      (diff_elements xs ys (pointer_to_string ptr) 0 @ remove_rest (pointer_to_string ptr) (length ys) (length xs)
        @ map (add_operation (pointer_to_string ptr @ ''/-'')) (drop (length xs) ys)) (JArray xs) r
    \<and> json_eq r (JArray ys)"
proof -
  obtain rs where rs: "works_at ptr (diff_elements xs ys (pointer_to_string ptr) 0) (JArray xs) (JArray rs)"
    "length rs = length xs" "list_all2 json_eq (take (length ys) rs) (take (length xs) ys)"
    using works_diff_elements [OF assms(1), of xs ys 0 "[]" ptr] assms(2) by auto
  have "works_at ptr (remove_rest (pointer_to_string ptr) (length ys) (length xs)) (JArray rs) (JArray (take (length ys) rs))"
    using works_remove_rest rs(2) assms(2) by simp
  note work = works_at_append [OF rs(1) works_at_append [OF this works_add_rest [of ptr "drop (length xs) ys"]]]
  have ys_refl: "list_all2 json_eq (take (length ys) rs @ drop (length xs) ys) (take (length xs) ys @ drop (length xs) ys)"
    using rs(3) free by (intro list_all2_appendI)
      (auto simp: list_all2_same list_all_iff json_eq_refl dest: in_set_dropD)
  then show ?thesis using work by (auto simp: eq_elements_all2)
qed

section \<open>Objects\<close>

lemma sorted_keys_all2:
  "sorted_keys a \<Longrightarrow> sorted_keys b \<Longrightarrow> (\<And>k. rel_option R (map_find k a) (map_find k b)) \<Longrightarrow>
    list_all2 (\<lambda>x y. fst x = fst y \<and> R (snd x) (snd y)) a b"
proof (induction a arbitrary: b)
  case Nil
  show ?case using Nil.prems(3) [of "fst (hd b)"] by (cases b) auto
next
  case (Cons p a)
  obtain k v where p: "p = (k, v)" by (cases p)
  obtain k' v' b' where b: "b = (k', v') # b'"
    using Cons.prems(3) [of k] by (cases b) (auto simp: p)
  have below: "map_find x a = None" if "x \<le> k" for x
    using Cons.prems(1) that by (auto simp: p map_find_None)
  have below': "map_find x b' = None" if "x \<le> k'" for x
    using Cons.prems(2) that by (auto simp: b map_find_None)
  have keys: "k' = k" using Cons.prems(3) [of k] Cons.prems(3) [of k'] below [of k'] below' [of k]
    by (cases k k' rule: linorder_cases) (auto simp: p b less_imp_le split: if_splits)
  have "rel_option R (map_find x a) (map_find x b')" for x
    using Cons.prems(3) [of x] below [of x] below' [of x] by (cases "x = k") (simp_all add: p b keys)
  then have "list_all2 (\<lambda>x y. fst x = fst y \<and> R (snd x) (snd y)) a b'"
    using Cons.IH [of b'] Cons.prems(1,2) by (simp add: p b)
  then show ?case using Cons.prems(3) [of k] by (simp add: p b keys)
qed

lemma works_diff_member:
  assumes "sorted_keys m" "map_find k m = Some x"
    and "\<And>y. map_find k target = Some y \<Longrightarrow> diff_works x y"
  shows "\<exists>m1. works_at ptr
      (case map_find k target of
         Some y \<Rightarrow> json_diff x y (pointer_to_string (ptr @ [k]))
       | None \<Rightarrow> [remove_operation (pointer_to_string (ptr @ [k]))]) (JObject m) (JObject m1)
    \<and> sorted_keys m1 \<and> (\<forall>k'. k' \<noteq> k \<longrightarrow> map_find k' m1 = map_find k' m)
    \<and> rel_option json_eq (map_find k m1) (map_find k target)"
proof (cases "map_find k target")
  case None
  have "remove_from_parent k (JObject m) = Inr (JObject (map_erase k m))"
    using assms(2) by (simp add: remove_from_parent_def)
  then have "works_at ptr [remove_operation (pointer_to_string (ptr @ [k]))] (JObject m) (JObject (map_erase k m))"
    by (rule works_remove)
  then show ?thesis using None assms(1) sorted_erase [of m k]
    by (intro exI [of _ "map_erase k m"]) (simp del: pointer_to_string_simps)
next
  case (Some y)
  obtain r where r: "works_at (ptr @ [k]) (json_diff x y (pointer_to_string (ptr @ [k]))) x r" "json_eq r y"
    using assms(3) [OF Some] unfolding diff_works_def by meson
  have "works_at ptr (json_diff x y (pointer_to_string (ptr @ [k]))) (JObject m)
      (json_modify_step (Key k) (\<lambda>_. r) (JObject m))"
    using assms(2) by (intro works_at_below [OF r(1)]) (simp_all add: json_at_key_def)
  then show ?thesis using Some assms(1,2) r(2)
    by (intro exI [of _ "map_adjust k (\<lambda>_. r) m"]) (simp del: pointer_to_string_simps)
qed

lemma works_diff_members:
  "sorted_keys m \<Longrightarrow> distinct (map fst kvs) \<Longrightarrow> (\<And>k x. (k, x) \<in> set kvs \<Longrightarrow> map_find k m = Some x) \<Longrightarrow>
   (\<And>k x y. (k, x) \<in> set kvs \<Longrightarrow> map_find k target = Some y \<Longrightarrow> diff_works x y) \<Longrightarrow>
   \<exists>m1. works_at ptr (diff_members kvs target (pointer_to_string ptr)) (JObject m) (JObject m1)
    \<and> sorted_keys m1 \<and> (\<forall>k. k \<notin> set (map fst kvs) \<longrightarrow> map_find k m1 = map_find k m)
    \<and> (\<forall>k\<in>set (map fst kvs). rel_option json_eq (map_find k m1) (map_find k target))"
proof (induction kvs arbitrary: m)
  case (Cons p kvs)
  obtain k x where p: "p = (k, x)" by (cases p)
  obtain m1 where m1: "works_at ptr
      (case map_find k target of
         Some y \<Rightarrow> json_diff x y (pointer_to_string (ptr @ [k]))
       | None \<Rightarrow> [remove_operation (pointer_to_string (ptr @ [k]))]) (JObject m) (JObject m1)"
    "sorted_keys m1" "\<And>k'. k' \<noteq> k \<Longrightarrow> map_find k' m1 = map_find k' m"
    "rel_option json_eq (map_find k m1) (map_find k target)"
    using works_diff_member [of m k x target ptr] Cons.prems unfolding p by (metis list.set_intros(1))
  have keep: "map_find k' m1 = Some x'" if "(k', x') \<in> set kvs" for k' x'
    using Cons.prems(2,3) that m1(3) [of k'] by (force simp: p)
  have wd: "diff_works x' y" if "(k', x') \<in> set kvs" "map_find k' target = Some y" for k' x' y
    using Cons.prems(4) [of k' x' y] that by simp
  have "distinct (map fst kvs)" using Cons.prems(2) by simp
  then obtain m2 where m2: "works_at ptr (diff_members kvs target (pointer_to_string ptr)) (JObject m1) (JObject m2)"
    "sorted_keys m2" "\<forall>k. k \<notin> set (map fst kvs) \<longrightarrow> map_find k m2 = map_find k m1"
    "\<forall>k\<in>set (map fst kvs). rel_option json_eq (map_find k m2) (map_find k target)"
    using Cons.IH [of m1] m1(2) keep wd by blast
  have "works_at ptr (diff_members (p # kvs) target (pointer_to_string ptr)) (JObject m) (JObject m2)"
    using works_at_append [OF m1(1) m2(1)] by (cases "map_find k target") (simp_all add: p Let_def)
  moreover have "rel_option json_eq (map_find k m2) (map_find k target)"
    using m2(3,4) m1(4) by metis
  ultimately show ?case using m2 m1(3) by (intro exI [of _ m2]) (auto simp: p)
qed (auto intro: works_at_Nil)

lemma works_add_member:
  assumes "sorted_keys m"
  shows "works_at ptr [add_operation (pointer_to_string (ptr @ [k])) y] (JObject m) (JObject (map_put k y m))"
proof -
  have "map_adjust k (\<lambda>_. y) (map_emplace k w m) = map_adjust k (\<lambda>_. y) (map_emplace k y m)" for w
    by (induction m) auto
  then have "add_to_parent k y (JObject m) = Inr (JObject (map_put k y m))"
    by (simp add: add_to_parent_def assign_key_def json_index_mut_def map_put_def Let_def)
  then show ?thesis by (rule works_add)
qed

lemma works_add_members:
  "sorted_keys m \<Longrightarrow> distinct (map fst news) \<Longrightarrow>
   \<exists>m1. works_at ptr (map (\<lambda>kv. add_operation (pointer_to_string (ptr @ [fst kv])) (snd kv)) news) (JObject m) (JObject m1)
    \<and> sorted_keys m1 \<and> (\<forall>k. map_find k m1 = (case map_of news k of None \<Rightarrow> map_find k m | Some y \<Rightarrow> Some y))"
proof (induction news arbitrary: m)
  case (Cons p news)
  obtain k y where p: "p = (k, y)" by (cases p)
  obtain m1 where m1:
    "works_at ptr (map (\<lambda>kv. add_operation (pointer_to_string (ptr @ [fst kv])) (snd kv)) news) (JObject (map_put k y m)) (JObject m1)"
    "sorted_keys m1" "\<And>k'. map_find k' m1 = (case map_of news k' of None \<Rightarrow> map_find k' (map_put k y m) | Some y \<Rightarrow> Some y)"
    using Cons.IH [of "map_put k y m"] Cons.prems sorted_put [of m k y] by (auto simp: p simp del: pointer_to_string_simps)
  have "map_of news k = None" using Cons.prems(2) by (simp add: p map_of_eq_None_iff)
  then have "map_find k' m1 = (case map_of (p # news) k' of None \<Rightarrow> map_find k' m | Some y \<Rightarrow> Some y)" for k'
    using m1(3) [of k'] Cons.prems(1) by (simp add: p split: option.split)
  then show ?case using works_at_append [OF works_add_member [OF Cons.prems(1)] m1(1)] m1(2)
    by (intro exI [of _ m1]) (simp add: p del: pointer_to_string_simps)
qed (auto intro: works_at_Nil)

lemma map_of_filter_keys:
  "map_of (filter (\<lambda>kv. P (fst kv)) kvs) k = (if P k then map_of kvs k else None)"
  by (induction kvs) auto

lemma works_diff_object:
  assumes sorted: "sorted_keys kvs" "sorted_keys kvs'"
    and "\<And>k x y. (k, x) \<in> set kvs \<Longrightarrow> map_find k kvs' = Some y \<Longrightarrow> diff_works x y"
    and free: "\<And>k y. map_find k kvs' = Some y \<Longrightarrow> discard_free y"
  shows "\<exists>r. works_at ptr
      (diff_members kvs kvs' (pointer_to_string ptr) @ add_members kvs kvs' (pointer_to_string ptr)) (JObject kvs) r
    \<and> json_eq r (JObject kvs')"
proof -
  have find: "map_find k kvs = Some x" if "(k, x) \<in> set kvs" for k x
    using that sorted_keys_distinct [OF sorted(1)] by (simp add: map_find_map_of)
  obtain m1 where m1: "works_at ptr (diff_members kvs kvs' (pointer_to_string ptr)) (JObject kvs) (JObject m1)"
    "sorted_keys m1" "\<And>k. k \<notin> set (map fst kvs) \<Longrightarrow> map_find k m1 = map_find k kvs"
    "\<And>k. k \<in> set (map fst kvs) \<Longrightarrow> rel_option json_eq (map_find k m1) (map_find k kvs')"
    using works_diff_members [OF sorted(1) sorted_keys_distinct [OF sorted(1)], of kvs' ptr] find assms(3) by blast
  define news where "news = filter (\<lambda>kv. map_find (fst kv) kvs = None) kvs'"
  have "distinct (map fst news)" unfolding news_def using sorted_keys_distinct [OF sorted(2)] by (rule distinct_map_filter)
  then obtain m2 where m2:
    "works_at ptr (map (\<lambda>kv. add_operation (pointer_to_string (ptr @ [fst kv])) (snd kv)) news) (JObject m1) (JObject m2)"
    "sorted_keys m2" "\<And>k. map_find k m2 = (case map_of news k of None \<Rightarrow> map_find k m1 | Some y \<Rightarrow> Some y)"
    using works_add_members [OF m1(2), of news ptr] by blast
  have adds: "add_members kvs kvs' (pointer_to_string ptr)
      = map (\<lambda>kv. add_operation (pointer_to_string (ptr @ [fst kv])) (snd kv)) news"
    by (simp add: add_members_def news_def)
  have "rel_option json_eq (map_find k m2) (map_find k kvs')" for k
  proof (cases "map_find k kvs")
    case None
    then have "k \<notin> set (map fst kvs)" by (simp add: map_find_None)
    then have "map_find k m2 = map_find k kvs'" using None
      using m2(3) [of k] m1(3) [of k] map_of_filter_keys [of "\<lambda>k. map_find k kvs = None" kvs' k]
      by (simp add: news_def map_find_None [symmetric] map_find_map_of [of k kvs'] split: option.split)
    then show ?thesis using free [of k] json_eq_refl by (cases "map_find k kvs'") simp_all
  next
    case (Some x)
    then have "k \<in> set (map fst kvs)" by (metis map_find_None option.distinct(1))
    moreover have "map_of news k = None"
      using map_of_filter_keys [of "\<lambda>k. map_find k kvs = None" kvs' k] Some by (simp add: news_def)
    ultimately show ?thesis using m2(3) [of k] m1(4) [of k] by simp
  qed
  then have "list_all2 (\<lambda>x y. fst x = fst y \<and> json_eq (snd x) (snd y)) m2 kvs'"
    by (rule sorted_keys_all2 [OF m2(2) sorted(2)])
  then show ?thesis using works_at_append [OF m1(1) m2(1)] adds by (auto simp: eq_members_all2)
qed

section \<open>The whole difference\<close>

text \<open>Arrays no longer than their indices can say.\<close>

fun arrays_fit :: "json \<Rightarrow> bool" where
  "arrays_fit (JArray xs) \<longleftrightarrow> length xs < 2 ^ 64 \<and> list_all arrays_fit xs"
| "arrays_fit (JObject kvs) \<longleftrightarrow> list_all (\<lambda>kv. arrays_fit (snd kv)) kvs"
| "arrays_fit _ \<longleftrightarrow> True"

lemma works_diff_type:
  "\<not> json_eq x y \<Longrightarrow> json_type x \<noteq> json_type y \<or> \<not> is_container x \<Longrightarrow> discard_free y \<Longrightarrow> diff_works x y"
  unfolding diff_works_def
proof (intro allI exI conjI)
  fix ptr
  assume a: "\<not> json_eq x y" "json_type x \<noteq> json_type y \<or> \<not> is_container x" "discard_free y"
  then have "json_diff x y (pointer_to_string ptr) = [replace_operation (pointer_to_string ptr) y]"
    by (cases x) (auto simp: json_diff.simps is_container_def)
  then show "works_at ptr (json_diff x y (pointer_to_string ptr)) x y" using works_replace by simp
  show "json_eq y y" using a(3) by (rule json_eq_refl)
qed

lemma works_diff_equal: "json_eq x y \<Longrightarrow> diff_works x y"
  unfolding diff_works_def by (auto simp: json_diff.simps intro!: exI [of _ x] works_at_Nil)

lemma works_diff_scalar: "\<not> is_container x \<Longrightarrow> discard_free y \<Longrightarrow> diff_works x y"
  using works_diff_equal works_diff_type by blast

lemma json_diff_works:
  "json_wf x \<Longrightarrow> arrays_fit x \<Longrightarrow> json_wf y \<Longrightarrow> discard_free y \<Longrightarrow> diff_works x y"
proof (induction x arbitrary: y)
  case (JObject kvs)
  consider "json_eq (JObject kvs) y" | "\<not> json_eq (JObject kvs) y" "json_type y \<noteq> VT_object"
    | kvs' where "\<not> json_eq (JObject kvs) y" "y = JObject kvs'"
    by (cases y) auto
  then show ?case
  proof cases
    case 1
    then show ?thesis by (rule works_diff_equal)
  next
    case 2
    then show ?thesis using JObject.prems by (intro works_diff_type) auto
  next
    case 3
    have sub: "json_wf v" "discard_free v" if "map_find k kvs' = Some v" for k v
      using that JObject.prems(3,4) 3(2) by (auto simp: map_find_map_of list_all_iff dest!: map_of_SomeD)
    have "diff_works x v" if "(k, x) \<in> set kvs" "map_find k kvs' = Some v" for k x v
    proof -
      have "json_wf x" "arrays_fit x" using JObject.prems(1,2) that(1) by (auto simp: list_all_iff)
      then show ?thesis using JObject.IH [OF that(1), of x v] sub [OF that(2)] by simp
    qed
    then have "\<exists>r. works_at ptr
        (diff_members kvs kvs' (pointer_to_string ptr) @ add_members kvs kvs' (pointer_to_string ptr)) (JObject kvs) r
      \<and> json_eq r (JObject kvs')" for ptr
      using JObject.prems(1,3) 3(2) sub(2) by (intro works_diff_object) auto
    then show ?thesis using 3 by (simp add: diff_works_def json_diff.simps)
  qed
next
  case (JArray xs)
  consider "json_eq (JArray xs) y" | "\<not> json_eq (JArray xs) y" "json_type y \<noteq> VT_array"
    | ys where "\<not> json_eq (JArray xs) y" "y = JArray ys"
    by (cases y) auto
  then show ?case
  proof cases
    case 1
    then show ?thesis by (rule works_diff_equal)
  next
    case 2
    then show ?thesis using JArray.prems by (intro works_diff_type) auto
  next
    case 3
    have "\<exists>r. works_at ptr
      (diff_elements xs ys (pointer_to_string ptr) 0 @ remove_rest (pointer_to_string ptr) (length ys) (length xs)
        @ map (add_operation (pointer_to_string ptr @ ''/-'')) (drop (length xs) ys)) (JArray xs) r
    \<and> json_eq r (JArray ys)" for ptr
      using JArray 3(2) by (intro works_diff_array) (auto simp: list_all_iff)
    then show ?thesis using 3 by (simp add: diff_works_def json_diff.simps)
  qed
qed (simp_all add: works_diff_scalar is_container_def)

text \<open>
  C10: Patching a value with its difference to another value succeeds and gives a value that is equal to
  the other.
\<close>

theorem patch_diff:
  assumes "json_wf source" "json_wf target" and "arrays_fit source" and "discard_free target"
  shows "\<exists>result. patch_inplace (JArray (json_diff source target [])) source = Inr result \<and> json_eq result target"
proof -
  obtain r where "works_at [] (json_diff source target []) source r" "json_eq r target"
    using json_diff_works [of source target] assms unfolding diff_works_def by (metis pointer_to_string_simps(1))
  moreover have "at_place [] [] source source" by (simp add: at_place_def)
  ultimately show ?thesis by (auto simp: works_at_def patch_inplace_def)
qed

theorem patch_diff_witness:
  "\<exists>result. patch_inplace
      (JArray (json_diff (JObject [(''a'', JArray [JNull, JUnsigned 1]), (''b'', JNull)])
                         (JObject [(''a'', JArray [JUnsigned 2]), (''c'', JString ''x'')]) []))
      (JObject [(''a'', JArray [JNull, JUnsigned 1]), (''b'', JNull)]) = Inr result
    \<and> json_eq result (JObject [(''a'', JArray [JUnsigned 2]), (''c'', JString ''x'')])"
  by (rule patch_diff) simp_all

section \<open>Well-formedness and errors\<close>

lemma json_wf_assign_key: "json_wf v \<Longrightarrow> json_wf j \<Longrightarrow> assign_key k v j = Inr r \<Longrightarrow> json_wf r"
proof -
  assume v: "json_wf v" "json_wf j" "assign_key k v j = Inr r"
  then obtain w j1 where "json_index_mut k j = Inr (w, j1)" "r = json_modify_step (Key k) (\<lambda>_. v) j1"
    by (auto simp: assign_key_def split: sum.splits)
  then show "json_wf r" using v json_index_mut_wf json_wf_modify_step by metis
qed

lemma json_wf_add_to_parent:
  assumes "json_wf val" "json_wf parent" "add_to_parent last_path val parent = Inr r"
  shows "json_wf r"
proof (cases "json_type parent")
  case VT_array
  then have "json_push_back val parent = Inr r \<or> (\<exists>i. json_insert i val parent = Inr r)"
    using assms(3) by (auto simp: add_to_parent_def split: if_splits sum.splits)
  then show ?thesis using assms(1,2) json_wf_push_back json_wf_insert(2) by blast
next
  case VT_null
  then have "assign_key last_path val parent = Inr r" using assms(3) by (simp add: add_to_parent_def)
  then show ?thesis using assms(1,2) json_wf_assign_key by blast
next
  case VT_object
  then have "assign_key last_path val parent = Inr r" using assms(3) by (simp add: add_to_parent_def)
  then show ?thesis using assms(1,2) json_wf_assign_key by blast
qed (use assms(3) in \<open>simp_all add: add_to_parent_def\<close>)

lemma json_wf_remove_from_parent:
  assumes "json_wf parent" "remove_from_parent last_path parent = Inr r"
  shows "json_wf r"
proof (cases parent)
  case (JObject kvs)
  then show ?thesis using assms json_wf_erase [of kvs last_path]
    by (auto simp: remove_from_parent_def simp del: json_wf.simps(1) split: if_splits)
next
  case (JArray xs)
  then show ?thesis using assms json_wf_erase_idx by (auto simp: remove_from_parent_def simp del: json_wf.simps(2) split: sum.splits)
qed (use assms in \<open>auto simp: remove_from_parent_def\<close>)

lemma json_wf_store_at:
  "json_wf j \<Longrightarrow> store_at p j r = Inr j1 \<Longrightarrow> (\<And>v. r = Inr v \<Longrightarrow> json_wf v) \<Longrightarrow> json_wf j1"
  by (auto simp: store_at_def split: sum.splits intro: json_wf_modify)

lemma deref_Inr: "deref p j = Inr v \<longleftrightarrow> json_at p j = Some v"
  by (simp add: deref_def split: option.split)

lemma json_wf_operation_add:
  assumes "json_wf val" "json_wf j" "operation_add ptr val j = Inr r"
  shows "json_wf r"
proof (cases "ptr = []")
  case False
  then obtain p parent where "deref p j = Inr parent" "store_at p j (add_to_parent (last ptr) val parent) = Inr r"
    using assms(3)
    by (auto simp: operation_add_def pointer_top_def pointer_back_def pointer_pop_back_def split: sum.splits if_splits)
  then show ?thesis using assms(1,2) json_wf_store_at json_wf_add_to_parent json_wf_at unfolding deref_Inr by metis
qed (use assms in \<open>simp add: operation_add_def\<close>)

lemma json_wf_operation_remove:
  assumes "json_wf j" "operation_remove ptr j = Inr r"
  shows "json_wf r"
proof -
  obtain p parent where "deref p j = Inr parent" "store_at p j (remove_from_parent (last ptr) parent) = Inr r"
    using assms(2)
    by (auto simp: operation_remove_def pointer_back_def pointer_pop_back_def split: sum.splits if_splits)
  then show ?thesis using assms(1) json_wf_store_at json_wf_remove_from_parent json_wf_at unfolding deref_Inr by metis
qed

lemma and_then_Inr: "and_then r f = Inr y \<longleftrightarrow> (\<exists>x. r = Inr x \<and> f x = Inr y)"
  by (cases r) auto

lemma json_wf_get_value: "json_wf (JObject val) \<Longrightarrow> get_value val op member = Inr v \<Longrightarrow> json_wf v"
  using json_wf_find [of "JObject val" member v] by (auto simp: get_value_def json_find_def split: option.splits)

lemma json_wf_at_pointer: "json_wf j \<Longrightarrow> at_pointer ptr j = Inr v \<Longrightarrow> json_wf v"
  using json_wf_at by (auto simp: at_pointer_Inr)

lemma json_wf_patch_element:
  assumes "json_wf element" "json_wf j" "patch_element element j = Inr r"
  shows "json_wf r"
proof -
  obtain val where val: "element = JObject val" using assms(3) by (cases element) (simp_all add: patch_element_def)
  obtain op ptr where run:
    "(case get_op op of
        Patch_add \<Rightarrow> and_then (get_value val ''add'' ''value'') (\<lambda>v. operation_add ptr v j)
      | Patch_remove \<Rightarrow> operation_remove ptr j
      | Patch_replace \<Rightarrow> and_then (get_value val ''replace'' ''value'') (\<lambda>v. replace_at ptr v j)
      | Patch_move \<Rightarrow>
          and_then (get_string_value val ''move'' ''from'') (\<lambda>from_path.
          and_then (pointer_split from_path) (\<lambda>from_ptr.
          and_then (at_pointer from_ptr j) (\<lambda>v.
          and_then (operation_remove from_ptr j) (\<lambda>result1. operation_add ptr v result1))))
      | Patch_copy \<Rightarrow>
          and_then (get_string_value val ''copy'' ''from'') (\<lambda>from_path.
          and_then (pointer_split from_path) (\<lambda>from_ptr.
          and_then (at_pointer from_ptr j) (\<lambda>v. operation_add ptr v j)))
      | Patch_test \<Rightarrow> operation_test ptr val j
      | Patch_invalid \<Rightarrow> Inl (parse_error_at 105 0 (''operation value '' @ quoted op @ '' is invalid''))) = Inr r"
    using assms(3) unfolding val patch_element_def json.case and_then_Inr by blast
  have wfv: "get_value val op' member = Inr v \<Longrightarrow> json_wf v" for op' member v
    using json_wf_get_value assms(1) unfolding val by blast
  show ?thesis
  proof (cases "get_op op")
    case Patch_add
    then obtain v where "get_value val ''add'' ''value'' = Inr v" "operation_add ptr v j = Inr r"
      using run by (auto simp: and_then_Inr)
    then show ?thesis using assms(2) wfv json_wf_operation_add by blast
  next
    case Patch_remove
    then show ?thesis using run assms(2) json_wf_operation_remove by simp
  next
    case Patch_replace
    then obtain v p where "get_value val ''replace'' ''value'' = Inr v" "r = put_at p v j"
      using run by (auto simp: and_then_Inr replace_at_def)
    then show ?thesis using json_wf_modify [OF assms(2), of p "\<lambda>_. v"] wfv by simp
  next
    case Patch_move
    then obtain from_ptr v j1 where "at_pointer from_ptr j = Inr v" "operation_remove from_ptr j = Inr j1"
      "operation_add ptr v j1 = Inr r"
      using run by (auto simp: and_then_Inr)
    then show ?thesis using assms(2) json_wf_at_pointer json_wf_operation_remove json_wf_operation_add by blast
  next
    case Patch_copy
    then obtain from_ptr v where "at_pointer from_ptr j = Inr v" "operation_add ptr v j = Inr r"
      using run by (auto simp: and_then_Inr)
    then show ?thesis using assms(2) json_wf_at_pointer json_wf_operation_add by blast
  next
    case Patch_test
    then have "r = j" using run by (auto simp: operation_test_def and_then_Inr split: if_splits)
    then show ?thesis using assms(2) by simp
  qed (use run in \<open>simp\<close>)
qed

text \<open>A patch keeps a value well formed.\<close>

lemma json_wf_patch: "json_wf json_patch \<Longrightarrow> json_wf j \<Longrightarrow> patch_inplace json_patch j = Inr r \<Longrightarrow> json_wf r"
proof (cases json_patch)
  case (JArray elements)
  assume wf: "json_wf json_patch" "json_wf j" "patch_inplace json_patch j = Inr r"
  have "list_all json_wf es \<Longrightarrow> json_wf i \<Longrightarrow> run_patch es i = Inr r \<Longrightarrow> json_wf r" for es i
    by (induction es arbitrary: i) (auto dest: json_wf_patch_element split: sum.splits)
  then show ?thesis using wf JArray by (simp add: patch_inplace_def)
qed (simp_all add: patch_inplace_def)

lemma patch_elements_text:
  assumes "pointer_split path = Inr ptr"
  shows "patch_element (remove_operation path) j = operation_remove ptr j"
    and "patch_element (add_operation path v) j = operation_add ptr v j"
  using assms by (simp_all add: operation_objects patch_element_def get_string_value_def get_value_def get_op_def)

lemma remove_from_scalar: "\<not> is_container w \<Longrightarrow> remove_from_parent token w = Inr w"
  by (cases w) (simp_all add: remove_from_parent_def is_container_def)

lemma add_to_scalar:
  "\<not> is_container w \<Longrightarrow> w \<noteq> JNull \<Longrightarrow> add_to_parent token v w = Inl (Assertion_failed ''false'')"
  by (cases w) (simp_all add: add_to_parent_def is_container_def)

lemma operation_below:
  assumes "at_pointer ptr j = Inr w"
  shows "\<exists>p. at_place ptr p w j \<and> operation_remove (ptr @ [token]) j = store_at p j (remove_from_parent token w)
    \<and> operation_add (ptr @ [token]) v j = store_at p j (add_to_parent token v w)"
proof -
  obtain p where p: "get_checked ptr j = Inr p" "json_at p j = Some w" using assms at_pointer_Inr by blast
  have "\<exists>q. (if [hd (ptr @ [token])] \<noteq> ptr @ [token] then get_checked [hd (ptr @ [token])] j else Inr []) = Inr q"
    using get_checked_top [OF p(1)] by (cases ptr) auto
  then obtain q where
    "(if [hd (ptr @ [token])] \<noteq> ptr @ [token] then get_checked [hd (ptr @ [token])] j else Inr []) = Inr q" ..
  then show ?thesis using p
    by (auto simp: at_place_def operation_remove_def operation_add_def pointer_top_def pointer_back_def
        pointer_pop_back_def deref_def)
qed

lemma patch_below_scalar:
  assumes "run_patch pre j0 = Inr j" and "at_pointer ptr j = Inr w" and "\<not> is_container w"
    and "pointer_split path = Inr (ptr @ [token])"
  shows "w \<noteq> JNull \<Longrightarrow> run_patch (pre @ add_operation path v # ops) j0 = Inl (Assertion_failed ''false'')"
    and "run_patch (pre @ remove_operation path # ops) j0 = run_patch (pre @ ops) j0"
    and "w = JNull \<Longrightarrow> \<exists>r. run_patch (pre @ [add_operation path v]) j0 = Inr r
      \<and> at_pointer ptr r = Inr (JObject [(token, v)])"
proof -
  obtain p where p: "at_place ptr p w j"
    "operation_remove (ptr @ [token]) j = store_at p j (remove_from_parent token w)"
    "operation_add (ptr @ [token]) v j = store_at p j (add_to_parent token v w)"
    using operation_below [OF assms(2)] by blast
  have same: "put_at p w j = j" using put_same [of p j w] p(1) by (simp add: at_place_def)
  note e = patch_elements_text [OF assms(4)]
  show "run_patch (pre @ remove_operation path # ops) j0 = run_patch (pre @ ops) j0"
    by (simp add: run_actions_append assms(1) e p(2) remove_from_scalar [OF assms(3)] store_at_def same)
  show "run_patch (pre @ add_operation path v # ops) j0 = Inl (Assertion_failed ''false'')" if "w \<noteq> JNull"
    by (simp add: run_actions_append assms(1) e p(3) add_to_scalar [OF assms(3) that] store_at_def)
  show "\<exists>r. run_patch (pre @ [add_operation path v]) j0 = Inr r \<and> at_pointer ptr r = Inr (JObject [(token, v)])"
    if "w = JNull"
  proof -
    have "add_to_parent token v w = Inr (JObject [(token, v)])"
      by (simp add: that add_to_parent_def assign_key_def json_index_mut_def Let_def)
    then have "run_patch (pre @ [add_operation path v]) j0 = Inr (put_at p (JObject [(token, v)]) j)"
      by (simp add: run_actions_append assms(1) e p(3) store_at_def)
    then show ?thesis using at_place_put [OF p(1), of "JObject [(token, v)]"] by (auto simp: at_pointer_Inr at_place_def)
  qed
qed

text \<open>
  C40: What the operations of a patch do below a value that is no container, wherever it is in the document
  and whatever comes before and after in the patch: adding below a boolean, a number, a string or a
  binary fails an assertion instead of throwing, though the texts of the patch and the document alone
  lead there; removing below one is skipped silently, where the standard asks for an error; and adding
  below a null replaces the null by an object.
\<close>

theorem patch_surprises:
  assumes "patch_inplace (JArray pre) j0 = Inr j" and "at_pointer ptr j = Inr w" and "\<not> is_container w"
    and "pointer_split path = Inr (ptr @ [token])"
  shows "(w \<noteq> JNull \<longrightarrow>
        patch_inplace (JArray (pre @ add_operation path v # ops)) j0 = Inl (Assertion_failed ''false''))
    \<and> patch_inplace (JArray (pre @ remove_operation path # ops)) j0 = patch_inplace (JArray (pre @ ops)) j0
    \<and> (w = JNull \<longrightarrow> (\<exists>r. patch_inplace (JArray (pre @ [add_operation path v])) j0 = Inr r
          \<and> at_pointer ptr r = Inr (JObject [(token, v)])))"
proof -
  have "run_patch pre j0 = Inr j" using assms(1) by (simp add: patch_inplace_def)
  note p = patch_below_scalar [OF this assms(2-4)]
  show ?thesis unfolding patch_inplace_def json.case by (intro conjI impI p)
qed

lemma sample_removal:
  "patch_inplace (JArray [remove_operation ''/a/x''])
      (JObject [(''a'', JObject [(''x'', JNull)]), (''b'', JArray [JObject [(''c/d'', JUnsigned 7)]])])
    = Inr (JObject [(''a'', JObject []), (''b'', JArray [JObject [(''c/d'', JUnsigned 7)]])])"
  by code_simp

theorem patch_surprises_witness:
  "patch_inplace (JArray [remove_operation ''/a/x'', add_operation ''/b/0/c~1d/e'' JNull])
      (JObject [(''a'', JObject [(''x'', JNull)]), (''b'', JArray [JObject [(''c/d'', JUnsigned 7)]])])
    = Inl (Assertion_failed ''false'')"
proof -
  let ?j = "JObject [(''a'', JObject []), (''b'', JArray [JObject [(''c/d'', JUnsigned 7)]])]"
  have 2: "at_pointer [''b'', ''0'', ''c/d''] ?j = Inr (JUnsigned 7)"
  proof -
    have "to_string 0 = ''0''" by code_simp
    then have "array_index ''0'' = Inr 0" using array_index_to_string [of 0] by simp
    then show ?thesis by (simp add: at_pointer_def deref_def below_def json_at_key_def json_at_idx_def)
  qed
  have 3: "pointer_split ''/b/0/c~1d/e'' = Inr ([''b'', ''0'', ''c/d''] @ [''e''])" by code_simp
  have "\<not> is_container (JUnsigned 7)" by (simp add: is_container_def)
  from patch_surprises [OF sample_removal 2 this 3, of JNull "[]", THEN conjunct1] show ?thesis
    by (simp only: append_Cons append_Nil json.distinct not_False_eq_True simp_thms)
qed

end
