(* ===== verification/Binary_Format.thy ===== *)
theory Binary_Format
  imports Json_Pointer Json_Parser Json_Compare
begin

text \<open>
  What the binary formats of \<^verbatim>\<open>include/nlohmann/json.hpp\<close> share: numbers and doubles as bytes, and
  the parts of \<^verbatim>\<open>class binary_reader\<close> that read bytes, numbers, strings and containers over the SAX
  handler of the text parser.
\<close>

section \<open>Formats\<close>

datatype input_format =
  Format_json | Format_cbor | Format_msgpack | Format_ubjson | Format_bson | Format_bjdata

text \<open>The name in a message; the text format has none, its reader is another class.\<close>

fun format_name :: "input_format \<Rightarrow> string" where
  "format_name Format_cbor = ''CBOR''"
| "format_name Format_msgpack = ''MessagePack''"
| "format_name Format_ubjson = ''UBJSON''"
| "format_name Format_bson = ''BSON''"
| "format_name Format_bjdata = ''BJData''"
| "format_name Format_json = []"

section \<open>Numbers as bytes\<close>

text \<open>The low \<open>k\<close> bytes of a number, and the number some bytes make, both big endian.\<close>

fun write_number :: "nat \<Rightarrow> nat \<Rightarrow> string" where
  "write_number 0 n = []"
| "write_number (Suc k) n = write_number k (n div 256) @ [char_of (n mod 256)]"

definition bytes_value :: "string \<Rightarrow> nat" where
  "bytes_value bs = foldl (\<lambda>a c. 256 * a + char_nat c) 0 bs"

text \<open>The bytes of a signed number are those of its two's complement.\<close>

definition write_signed :: "nat \<Rightarrow> int \<Rightarrow> string" where
  "write_signed k i = write_number k (nat (i mod 256 ^ k))"

definition to_signed :: "nat \<Rightarrow> nat \<Rightarrow> int" where
  "to_signed k n = (if 2 * n < 256 ^ k then int n else int n - 256 ^ k)"

section \<open>The bits of doubles and floats\<close>

definition sign_bit :: "bool \<Rightarrow> nat" where
  "sign_bit s = (if s then 1 else 0)"

fun double_bits :: "double \<Rightarrow> nat" where
  "double_bits (Double_inf s) = sign_bit s * 2 ^ 63 + 2047 * 2 ^ 52"
| "double_bits (Double_nan s f) = sign_bit s * 2 ^ 63 + 2047 * 2 ^ 52 + f"
| "double_bits (Double_fin s m e) =
     sign_bit s * 2 ^ 63 + (if m < 2 ^ 52 then m else nat (e + 1075) * 2 ^ 52 + (m - 2 ^ 52))"

definition double_of_bits :: "nat \<Rightarrow> double" where
  "double_of_bits n =
     (let s = odd (n div 2 ^ 63);
          field = n div 2 ^ 52 mod 2048;
          frac = n mod 2 ^ 52
      in if field = 2047 then (if frac = 0 then Double_inf s else Double_nan s frac)
         else if field = 0 then (if frac = 0 then Double_fin s 0 0 else Double_fin s frac (- 1074))
         else Double_fin s (2 ^ 52 + frac) (int field - 1075))"

text \<open>
  A float is kept as a double with its value. The conversion rounds a finite double to a mantissa of
  24 bits, or of fewer at the smallest exponent, ties to even; it is used within the range only.
\<close>

definition double_to_float :: "double \<Rightarrow> double" where
  "double_to_float d =
     (case d of
        Double_fin s m e \<Rightarrow>
          (let k = nat (max 29 (- 149 - e)) in Double_fin s (div_half_even m (2 ^ k)) (e + int k))
      | _ \<Rightarrow> d)"

definition float_max :: double where
  "float_max = Double_fin False ((2 ^ 24 - 1) * 2 ^ 29) 75"

definition float_lowest :: double where
  "float_lowest = Double_fin True ((2 ^ 24 - 1) * 2 ^ 29) 75"

fun float_bits :: "double \<Rightarrow> nat" where
  "float_bits (Double_inf s) = sign_bit s * 2 ^ 31 + 255 * 2 ^ 23"
| "float_bits (Double_nan s f) = sign_bit s * 2 ^ 31 + 255 * 2 ^ 23 + (f div 2 ^ 29 OR 2 ^ 22)"
| "float_bits (Double_fin s m e) =
     sign_bit s * 2 ^ 31 + (if m < 2 ^ 23 then m else nat (e + 150) * 2 ^ 23 + (m - 2 ^ 23))"

text \<open>The double \<open>m \<cdot> 2\<^sup>e\<close>, for a mantissa of at most 53 bits that is exact.\<close>

definition norm_double :: "bool \<Rightarrow> nat \<Rightarrow> int \<Rightarrow> double" where
  "norm_double s m e =
     (if m = 0 then Double_fin s 0 0
      else (let k = 53 - bit_len m in Double_fin s (m * 2 ^ k) (e - int k)))"

text \<open>The double a float converts to; the conversion makes a NaN quiet.\<close>

definition float_of_bits :: "nat \<Rightarrow> double" where
  "float_of_bits n =
     (let s = odd (n div 2 ^ 31);
          field = n div 2 ^ 23 mod 256;
          frac = n mod 2 ^ 23
      in if field = 255
         then (if frac = 0 then Double_inf s else Double_nan s (frac * 2 ^ 29 OR 2 ^ 51))
         else if field = 0 then norm_double s frac (- 149)
         else Double_fin s ((2 ^ 23 + frac) * 2 ^ 29) (int field - 179))"

section \<open>Writing a double\<close>

definition double_le :: "double \<Rightarrow> double \<Rightarrow> bool" where
  "double_le a b = (case double_compare a b of None \<Rightarrow> False | Some c \<Rightarrow> c \<le> 0)"

text \<open>The first bytes of a float and of a double.\<close>

definition float_prefix :: "input_format \<Rightarrow> char" where
  "float_prefix fmt = (if fmt = Format_cbor then CHR 0xFA else CHR 0xCA)"

definition double_prefix :: "input_format \<Rightarrow> char" where
  "double_prefix fmt = (if fmt = Format_cbor then CHR 0xFB else CHR 0xCB)"

definition write_compact_float :: "input_format \<Rightarrow> double \<Rightarrow> string" where
  "write_compact_float fmt d =
     (if double_le float_lowest d \<and> double_le d float_max \<and> double_compare (double_to_float d) d = Some 0
      then float_prefix fmt # write_number 4 (float_bits (double_to_float d))
      else double_prefix fmt # write_number 8 (double_bits d))"

section \<open>The input of the reader\<close>

text \<open>\<open>rd_dom\<close> is the SAX handler the reader calls.\<close>

record binary_reader =
  rd_input :: string
  rd_current :: "char option"
  rd_chars :: nat
  rd_dom :: dom

definition rd_get :: "binary_reader \<Rightarrow> binary_reader" where
  "rd_get r =
     (let (c, rest) = get_character (rd_input r)
      in r\<lparr>rd_input := rest, rd_current := c, rd_chars := rd_chars r + 1\<rparr>)"

text \<open>
  The turns a loop gets that reads up to some byte: each one but the last consumes a byte.
\<close>

definition turns :: "binary_reader \<Rightarrow> nat" where
  "turns r = Suc (length (rd_input r))"

definition binary_message :: "input_format \<Rightarrow> string \<Rightarrow> string \<Rightarrow> string" where
  "binary_message fmt detail ctx = ''syntax error while parsing '' @ format_name fmt @ '' '' @ ctx @ '': '' @ detail"

text \<open>The last byte as two hexadecimal digits; eof is -1.\<close>

definition rd_token_string :: "binary_reader \<Rightarrow> string" where
  "rd_token_string r =
     (let n = (case rd_current r of None \<Rightarrow> 255 | Some c \<Rightarrow> char_nat c)
      in [hex_char (n div 16), hex_char (n mod 16)])"

text \<open>\<^verbatim>\<open>sax->parse_error\<close> throws, since exceptions are allowed.\<close>

definition rd_error :: "input_format \<Rightarrow> nat \<Rightarrow> string \<Rightarrow> string \<Rightarrow> binary_reader \<Rightarrow> cpp_error" where
  "rd_error fmt i detail ctx r = parse_error_at i (rd_chars r) (binary_message fmt detail ctx)"

definition rd_eof_error :: "input_format \<Rightarrow> string \<Rightarrow> binary_reader \<Rightarrow> cpp_error" where
  "rd_eof_error fmt ctx r = rd_error fmt 110 ''unexpected end of input'' ctx r"

text \<open>\<open>n\<close> times \<^verbatim>\<open>get\<close> and \<^verbatim>\<open>unexpect_eof\<close>, with the bytes read.\<close>

fun rd_bytes :: "input_format \<Rightarrow> string \<Rightarrow> nat \<Rightarrow> binary_reader \<Rightarrow> (string \<times> binary_reader) outcome" where
  "rd_bytes fmt ctx 0 r = Inr ([], r)"
| "rd_bytes fmt ctx (Suc n) r =
     (let r1 = rd_get r
      in case rd_current r1 of
           None \<Rightarrow> Inl (rd_eof_error fmt ctx r1)
         | Some c \<Rightarrow> (case rd_bytes fmt ctx n r1 of Inl e \<Rightarrow> Inl e | Inr (cs, r2) \<Rightarrow> Inr (c # cs, r2)))"

definition rd_number :: "input_format \<Rightarrow> nat \<Rightarrow> binary_reader \<Rightarrow> (nat \<times> binary_reader) outcome" where
  "rd_number fmt k r =
     (case rd_bytes fmt ''number'' k r of Inl e \<Rightarrow> Inl e | Inr (bs, r1) \<Rightarrow> Inr (bytes_value bs, r1))"

text \<open>The result starts empty in every call of \<^verbatim>\<open>get_string\<close> and \<^verbatim>\<open>get_binary\<close>.\<close>

definition rd_string :: "input_format \<Rightarrow> nat \<Rightarrow> binary_reader \<Rightarrow> (string \<times> binary_reader) outcome" where
  "rd_string fmt len r = rd_bytes fmt ''string'' len r"

definition rd_binary :: "input_format \<Rightarrow> nat \<Rightarrow> binary_reader \<Rightarrow> (string \<times> binary_reader) outcome" where
  "rd_binary fmt len r = rd_bytes fmt ''binary'' len r"

text \<open>A length of \<open>k\<close> bytes, and that many bytes.\<close>

definition rd_sized_string :: "input_format \<Rightarrow> nat \<Rightarrow> binary_reader \<Rightarrow> (string \<times> binary_reader) outcome" where
  "rd_sized_string fmt k r =
     (case rd_number fmt k r of Inl e \<Rightarrow> Inl e | Inr (len, r1) \<Rightarrow> rd_string fmt len r1)"

definition rd_sized_binary :: "input_format \<Rightarrow> nat \<Rightarrow> binary_reader \<Rightarrow> (string \<times> binary_reader) outcome" where
  "rd_sized_binary fmt k r =
     (case rd_number fmt k r of Inl e \<Rightarrow> Inl e | Inr (len, r1) \<Rightarrow> rd_binary fmt len r1)"

section \<open>Containers\<close>

definition on_handler :: "binary_reader \<Rightarrow> dom outcome \<Rightarrow> binary_reader outcome" where
  "on_handler r h = (case h of Inl e \<Rightarrow> Inl e | Inr d \<Rightarrow> Inr (r\<lparr>rd_dom := d\<rparr>))"

text \<open>
  The handler checks the length of a container against what the container type can hold, unless it is
  the value that stands for an unknown length. An entry of an object is a tree node of 80 bytes.
\<close>

definition unknown_size :: nat where
  "unknown_size = 2 ^ 64 - 1"

definition object_max_size :: nat where
  "object_max_size = (2 ^ 63 - 1) div 80"

definition excessive_size :: "string \<Rightarrow> nat \<Rightarrow> cpp_error" where
  "excessive_size what len = json_out_of_range 408 (''excessive '' @ what @ '' size: '' @ to_string len)"

definition rd_start_array :: "nat \<Rightarrow> binary_reader \<Rightarrow> binary_reader outcome" where
  "rd_start_array len r =
     (case dom_start_array (rd_dom r) of
        Inl e \<Rightarrow> Inl e
      | Inr d \<Rightarrow>
          if len \<noteq> unknown_size \<and> array_max_size < len then Inl (excessive_size ''array'' len)
          else Inr (r\<lparr>rd_dom := d\<rparr>))"

definition rd_start_object :: "nat \<Rightarrow> binary_reader \<Rightarrow> binary_reader outcome" where
  "rd_start_object len r =
     (case dom_start_object (rd_dom r) of
        Inl e \<Rightarrow> Inl e
      | Inr d \<Rightarrow>
          if len \<noteq> unknown_size \<and> object_max_size < len then Inl (excessive_size ''object'' len)
          else Inr (r\<lparr>rd_dom := d\<rparr>))"

text \<open>The loops over a known number of elements or members: \<open>f\<close> reads a value, \<open>get_key\<close> a key.\<close>

fun rd_elements :: "(binary_reader \<Rightarrow> binary_reader outcome) \<Rightarrow> nat \<Rightarrow> binary_reader \<Rightarrow> binary_reader outcome" where
  "rd_elements f 0 r = Inr r"
| "rd_elements f (Suc n) r = (case f r of Inl e \<Rightarrow> Inl e | Inr r1 \<Rightarrow> rd_elements f n r1)"

text \<open>The key, of which the first byte was read, and the value.\<close>

definition rd_member ::
  "(binary_reader \<Rightarrow> (string \<times> binary_reader) outcome) \<Rightarrow> (binary_reader \<Rightarrow> binary_reader outcome)
     \<Rightarrow> binary_reader \<Rightarrow> binary_reader outcome" where
  "rd_member get_key f r =
     (case get_key r of
        Inl e \<Rightarrow> Inl e
      | Inr (key, r1) \<Rightarrow>
          (case on_handler r1 (dom_key key (rd_dom r1)) of Inl e \<Rightarrow> Inl e | Inr r2 \<Rightarrow> f r2))"

fun rd_members ::
  "(binary_reader \<Rightarrow> (string \<times> binary_reader) outcome) \<Rightarrow> (binary_reader \<Rightarrow> binary_reader outcome)
     \<Rightarrow> nat \<Rightarrow> binary_reader \<Rightarrow> binary_reader outcome" where
  "rd_members get_key f 0 r = Inr r"
| "rd_members get_key f (Suc n) r =
     (case rd_member get_key f (rd_get r) of Inl e \<Rightarrow> Inl e | Inr r1 \<Rightarrow> rd_members get_key f n r1)"

text \<open>A container whose elements or members a loop reads.\<close>

definition rd_array :: "nat \<Rightarrow> (binary_reader \<Rightarrow> binary_reader outcome) \<Rightarrow> binary_reader \<Rightarrow> binary_reader outcome" where
  "rd_array len loop r =
     (case rd_start_array len r of
        Inl e \<Rightarrow> Inl e
      | Inr r1 \<Rightarrow> (case loop r1 of Inl e \<Rightarrow> Inl e | Inr r2 \<Rightarrow> on_handler r2 (dom_end_array (rd_dom r2))))"

definition rd_object :: "nat \<Rightarrow> (binary_reader \<Rightarrow> binary_reader outcome) \<Rightarrow> binary_reader \<Rightarrow> binary_reader outcome" where
  "rd_object len loop r =
     (case rd_start_object len r of
        Inl e \<Rightarrow> Inl e
      | Inr r1 \<Rightarrow> (case loop r1 of Inl e \<Rightarrow> Inl e | Inr r2 \<Rightarrow> on_handler r2 (dom_end_object (rd_dom r2))))"

section \<open>Values\<close>

definition rd_sax :: "json \<Rightarrow> binary_reader \<Rightarrow> binary_reader outcome" where
  "rd_sax v r = on_handler r (dom_value v (rd_dom r))"

text \<open>A number of \<open>k\<close> bytes, passed to the handler as the value \<open>g\<close> makes of it.\<close>

definition rd_number_value ::
  "input_format \<Rightarrow> nat \<Rightarrow> (nat \<Rightarrow> json) \<Rightarrow> binary_reader \<Rightarrow> binary_reader outcome" where
  "rd_number_value fmt k g r =
     (case rd_number fmt k r of Inl e \<Rightarrow> Inl e | Inr (n, r1) \<Rightarrow> rd_sax (g n) r1)"

text \<open>A length of \<open>k\<close> bytes, and the container with that many elements.\<close>

definition rd_sized ::
  "input_format \<Rightarrow> nat \<Rightarrow> (nat \<Rightarrow> binary_reader \<Rightarrow> binary_reader outcome) \<Rightarrow> binary_reader \<Rightarrow> binary_reader outcome" where
  "rd_sized fmt k body r =
     (case rd_number fmt k r of Inl e \<Rightarrow> Inl e | Inr (len, r1) \<Rightarrow> body len r1)"

text \<open>The end of \<^verbatim>\<open>sax_parse\<close>: in the strict mode nothing may follow the value.\<close>

definition rd_finish :: "input_format \<Rightarrow> bool \<Rightarrow> binary_reader \<Rightarrow> binary_reader outcome" where
  "rd_finish fmt strict r =
     (if strict
      then (let r1 = rd_get r
            in if rd_current r1 \<noteq> None
               then Inl (rd_error fmt 110 (''expected end of input; last byte: 0x'' @ rd_token_string r1) ''value'' r1)
               else Inr r1)
      else Inr r)"

definition new_reader :: "string \<Rightarrow> binary_reader" where
  "new_reader input = \<lparr>rd_input = input, rd_current = None, rd_chars = 0, rd_dom = new_dom JNull\<rparr>"

text \<open>\<open>f\<close> reads the value of the format. Exceptions are allowed, so there is a value or an exception.\<close>

definition binary_sax_parse ::
  "input_format \<Rightarrow> (binary_reader \<Rightarrow> binary_reader outcome) \<Rightarrow> bool \<Rightarrow> string \<Rightarrow> json outcome" where
  "binary_sax_parse fmt f strict input =
     (case f (new_reader input) of
        Inl e \<Rightarrow> Inl e
      | Inr r \<Rightarrow>
          (case rd_finish fmt strict r of Inl e \<Rightarrow> Inl e | Inr r1 \<Rightarrow> Inr (dom_root (rd_dom r1))))"

end
