(* ===== verification/Msgpack.thy ===== *)
theory Msgpack
  imports Binary_Format
begin

text \<open>
  The MessagePack format of \<^verbatim>\<open>include/nlohmann/json.hpp\<close>: \<^verbatim>\<open>binary_writer::write_msgpack\<close> and the
  part of \<^verbatim>\<open>class binary_reader\<close> that reads the format. The reader calls itself for the elements of a
  container, so it takes the depth of the call stack: a value that nests deeper overflows the stack.
\<close>

section \<open>Writing\<close>

definition msgpack_unsigned :: "nat \<Rightarrow> string" where
  "msgpack_unsigned n =
     (if n < 128 then write_number 1 n
      else if n \<le> 0xFF then CHR 0xCC # write_number 1 n
      else if n \<le> 0xFFFF then CHR 0xCD # write_number 2 n
      else if n \<le> 0xFFFFFFFF then CHR 0xCE # write_number 4 n
      else CHR 0xCF # write_number 8 n)"

definition msgpack_integer :: "int \<Rightarrow> string" where
  "msgpack_integer i =
     (if 0 \<le> i then msgpack_unsigned (nat i)
      else if - 32 \<le> i then write_signed 1 i
      else if - 0x80 \<le> i then CHR 0xD0 # write_signed 1 i
      else if - 0x8000 \<le> i then CHR 0xD1 # write_signed 2 i
      else if - 0x80000000 \<le> i then CHR 0xD2 # write_signed 4 i
      else CHR 0xD3 # write_signed 8 i)"

text \<open>A length beyond the largest has no header at all.\<close>

definition msgpack_string_header :: "nat \<Rightarrow> string" where
  "msgpack_string_header n =
     (if n \<le> 31 then write_number 1 (0xA0 OR n)
      else if n \<le> 0xFF then CHR 0xD9 # write_number 1 n
      else if n \<le> 0xFFFF then CHR 0xDA # write_number 2 n
      else if n \<le> 0xFFFFFFFF then CHR 0xDB # write_number 4 n
      else [])"

definition msgpack_array_header :: "nat \<Rightarrow> string" where
  "msgpack_array_header n =
     (if n \<le> 15 then write_number 1 (0x90 OR n)
      else if n \<le> 0xFFFF then CHR 0xDC # write_number 2 n
      else if n \<le> 0xFFFFFFFF then CHR 0xDD # write_number 4 n
      else [])"

definition msgpack_object_header :: "nat \<Rightarrow> string" where
  "msgpack_object_header n =
     (if n \<le> 15 then write_number 1 (0x80 OR (n AND 0xF))
      else if n \<le> 0xFFFF then CHR 0xDE # write_number 2 n
      else if n \<le> 0xFFFFFFFF then CHR 0xDF # write_number 4 n
      else [])"

definition msgpack_binary_header :: "bool \<Rightarrow> nat \<Rightarrow> string" where
  "msgpack_binary_header use_ext n =
     (if n \<le> 0xFF then
        (if use_ext then
           (if n = 1 then [CHR 0xD4]
            else if n = 2 then [CHR 0xD5]
            else if n = 4 then [CHR 0xD6]
            else if n = 8 then [CHR 0xD7]
            else if n = 16 then [CHR 0xD8]
            else CHR 0xC7 # write_number 1 n)
         else CHR 0xC4 # write_number 1 n)
      else if n \<le> 0xFFFF then (if use_ext then CHR 0xC8 else CHR 0xC5) # write_number 2 n
      else if n \<le> 0xFFFFFFFF then (if use_ext then CHR 0xC9 else CHR 0xC6) # write_number 4 n
      else [])"

definition msgpack_string :: "string \<Rightarrow> string" where
  "msgpack_string s = msgpack_string_header (length s) @ s"

definition msgpack_binary :: "string \<Rightarrow> nat option \<Rightarrow> string" where
  "msgpack_binary bytes subtype =
     msgpack_binary_header (subtype \<noteq> None) (length bytes)
       @ (case subtype of None \<Rightarrow> [] | Some t \<Rightarrow> write_number 1 t) @ bytes"

fun write_msgpack :: "json \<Rightarrow> string" where
  "write_msgpack JNull = [CHR 0xC0]"
| "write_msgpack (JBoolean b) = [if b then CHR 0xC3 else CHR 0xC2]"
| "write_msgpack (JInteger i) = msgpack_integer (sint i)"
| "write_msgpack (JUnsigned u) = msgpack_unsigned (unat u)"
| "write_msgpack (JFloat d) = write_compact_float Format_msgpack d"
| "write_msgpack (JString s) = msgpack_string s"
| "write_msgpack (JArray xs) = msgpack_array_header (length xs) @ concat (map write_msgpack xs)"
| "write_msgpack (JBinary bytes subtype) = msgpack_binary bytes subtype"
| "write_msgpack (JObject kvs) =
     msgpack_object_header (length kvs)
       @ concat (map (\<lambda>kv. msgpack_string (fst kv) @ write_msgpack (snd kv)) kvs)"
| "write_msgpack JDiscarded = []"

definition to_msgpack :: "json \<Rightarrow> string" where
  "to_msgpack j = write_msgpack j"

section \<open>Strings and binaries\<close>

definition get_msgpack_string :: "binary_reader \<Rightarrow> (string \<times> binary_reader) outcome" where
  "get_msgpack_string r =
     (case rd_current r of
        None \<Rightarrow> Inl (rd_eof_error Format_msgpack ''string'' r)
      | Some c \<Rightarrow>
          (let b = char_nat c
           in if 0xA0 \<le> b \<and> b \<le> 0xBF then rd_string Format_msgpack (b AND 0x1F) r
              else if b = 0xD9 then rd_sized_string Format_msgpack 1 r
              else if b = 0xDA then rd_sized_string Format_msgpack 2 r
              else if b = 0xDB then rd_sized_string Format_msgpack 4 r
              else Inl (rd_error Format_msgpack 113
                     (''expected length specification (0xA0-0xBF, 0xD9-0xDB); last byte: 0x'' @ rd_token_string r)
                     ''string'' r)))"

definition rd_bin :: "nat \<Rightarrow> binary_reader \<Rightarrow> (json \<times> binary_reader) outcome" where
  "rd_bin k r =
     (case rd_sized_binary Format_msgpack k r of Inl e \<Rightarrow> Inl e | Inr (bs, r1) \<Rightarrow> Inr (JBinary bs None, r1))"

text \<open>An extension of known length: its type, a signed byte kept as an unsigned one, and its bytes.\<close>

definition rd_ext :: "nat \<Rightarrow> binary_reader \<Rightarrow> (json \<times> binary_reader) outcome" where
  "rd_ext len r =
     (case rd_number Format_msgpack 1 r of
        Inl e \<Rightarrow> Inl e
      | Inr (subtype, r1) \<Rightarrow>
          (case rd_binary Format_msgpack len r1 of Inl e \<Rightarrow> Inl e | Inr (bs, r2) \<Rightarrow> Inr (JBinary bs (Some subtype), r2)))"

definition rd_sized_ext :: "nat \<Rightarrow> binary_reader \<Rightarrow> (json \<times> binary_reader) outcome" where
  "rd_sized_ext k r =
     (case rd_number Format_msgpack k r of Inl e \<Rightarrow> Inl e | Inr (len, r1) \<Rightarrow> rd_ext len r1)"

text \<open>\<open>b\<close> is the last byte read. The \<^verbatim>\<open>default\<close> of the switch is never reached.\<close>

definition get_msgpack_binary :: "nat \<Rightarrow> binary_reader \<Rightarrow> (json \<times> binary_reader) outcome" where
  "get_msgpack_binary b r =
     (if b = 0xC4 then rd_bin 1 r
      else if b = 0xC5 then rd_bin 2 r
      else if b = 0xC6 then rd_bin 4 r
      else if b = 0xC7 then rd_sized_ext 1 r
      else if b = 0xC8 then rd_sized_ext 2 r
      else if b = 0xC9 then rd_sized_ext 4 r
      else if b = 0xD4 then rd_ext 1 r
      else if b = 0xD5 then rd_ext 2 r
      else if b = 0xD6 then rd_ext 4 r
      else if b = 0xD7 then rd_ext 8 r
      else if b = 0xD8 then rd_ext 16 r
      else Inl (Assertion_failed ''unreachable''))"

section \<open>Values\<close>

text \<open>\<open>f\<close> reads the values inside a container. A declared length is below \<open>2\<^sup>3\<^sup>2\<close>.\<close>

definition get_msgpack_array ::
  "(binary_reader \<Rightarrow> binary_reader outcome) \<Rightarrow> nat \<Rightarrow> binary_reader \<Rightarrow> binary_reader outcome" where
  "get_msgpack_array f len r = rd_array len (rd_elements f len) r"

definition get_msgpack_object ::
  "(binary_reader \<Rightarrow> binary_reader outcome) \<Rightarrow> nat \<Rightarrow> binary_reader \<Rightarrow> binary_reader outcome" where
  "get_msgpack_object f len r = rd_object len (rd_members get_msgpack_string f len) r"

definition signed_value :: "nat \<Rightarrow> nat \<Rightarrow> json" where
  "signed_value k n = JInteger (word_of_int (to_signed k n))"

definition msgpack_string_value :: "binary_reader \<Rightarrow> binary_reader outcome" where
  "msgpack_string_value r =
     (case get_msgpack_string r of Inl e \<Rightarrow> Inl e | Inr (s, r1) \<Rightarrow> rd_sax (JString s) r1)"

definition msgpack_binary_value :: "nat \<Rightarrow> binary_reader \<Rightarrow> binary_reader outcome" where
  "msgpack_binary_value b r =
     (case get_msgpack_binary b r of Inl e \<Rightarrow> Inl e | Inr (v, r1) \<Rightarrow> rd_sax v r1)"

text \<open>The switch on the byte just read; \<open>f\<close> reads the values inside a container.\<close>

definition msgpack_switch :: "(binary_reader \<Rightarrow> binary_reader outcome) \<Rightarrow> nat \<Rightarrow> binary_reader \<Rightarrow> binary_reader outcome" where
  "msgpack_switch f b r =
     (if b \<le> 0x7F then rd_sax (JUnsigned (of_nat b)) r
      else if b \<le> 0x8F then get_msgpack_object f (b AND 0x0F) r
      else if b \<le> 0x9F then get_msgpack_array f (b AND 0x0F) r
      else if b \<le> 0xBF \<or> b = 0xD9 \<or> b = 0xDA \<or> b = 0xDB then msgpack_string_value r
      else if b = 0xC0 then rd_sax JNull r
      else if b = 0xC2 then rd_sax (JBoolean False) r
      else if b = 0xC3 then rd_sax (JBoolean True) r
      else if 0xC4 \<le> b \<and> b \<le> 0xC9 \<or> 0xD4 \<le> b \<and> b \<le> 0xD8 then msgpack_binary_value b r
      else if b = 0xCA then rd_number_value Format_msgpack 4 (\<lambda>n. JFloat (float_of_bits n)) r
      else if b = 0xCB then rd_number_value Format_msgpack 8 (\<lambda>n. JFloat (double_of_bits n)) r
      else if b = 0xCC then rd_number_value Format_msgpack 1 (\<lambda>n. JUnsigned (of_nat n)) r
      else if b = 0xCD then rd_number_value Format_msgpack 2 (\<lambda>n. JUnsigned (of_nat n)) r
      else if b = 0xCE then rd_number_value Format_msgpack 4 (\<lambda>n. JUnsigned (of_nat n)) r
      else if b = 0xCF then rd_number_value Format_msgpack 8 (\<lambda>n. JUnsigned (of_nat n)) r
      else if b = 0xD0 then rd_number_value Format_msgpack 1 (signed_value 1) r
      else if b = 0xD1 then rd_number_value Format_msgpack 2 (signed_value 2) r
      else if b = 0xD2 then rd_number_value Format_msgpack 4 (signed_value 4) r
      else if b = 0xD3 then rd_number_value Format_msgpack 8 (signed_value 8) r
      else if b = 0xDC then rd_sized Format_msgpack 2 (get_msgpack_array f) r
      else if b = 0xDD then rd_sized Format_msgpack 4 (get_msgpack_array f) r
      else if b = 0xDE then rd_sized Format_msgpack 2 (get_msgpack_object f) r
      else if b = 0xDF then rd_sized Format_msgpack 4 (get_msgpack_object f) r
      else if 0xE0 \<le> b then rd_sax (signed_value 1 b) r
      else Inl (rd_error Format_msgpack 112 (''invalid byte: 0x'' @ rd_token_string r) ''value'' r))"

fun parse_msgpack_internal :: "nat \<Rightarrow> binary_reader \<Rightarrow> binary_reader outcome" where
  "parse_msgpack_internal 0 r = Inl (Undefined_behaviour ''stack overflow'')"
| "parse_msgpack_internal (Suc depth) r =
     (let r1 = rd_get r
      in case rd_current r1 of
           None \<Rightarrow> Inl (rd_eof_error Format_msgpack ''value'' r1)
         | Some c \<Rightarrow> msgpack_switch (parse_msgpack_internal depth) (char_nat c) r1)"

text \<open>With a call stack of the given depth.\<close>

definition from_msgpack :: "nat \<Rightarrow> bool \<Rightarrow> string \<Rightarrow> json outcome" where
  "from_msgpack depth strict input =
     binary_sax_parse Format_msgpack (parse_msgpack_internal depth) strict input"

end
