(* ===== verification/Binary_Facts.thy ===== *)
theory Binary_Facts
  imports Binary_Format Json_Roundtrip
begin

text \<open>
  The lemmas the binary formats of \<^verbatim>\<open>include/nlohmann/json.hpp\<close> share. Numbers and doubles come back
  from their bytes. The locale \<open>binary_codec\<close> is the contract of a format for its round trip: what is
  asked of scalars, keys and headers gives the round trip of every value. The locale \<open>error_class\<close> holds
  what the loops and containers do on any input.
\<close>

section \<open>Bytes and bits\<close>

lemma char_nat_of_byte [simp]: "char_nat (char_of n) = n mod 256"
  by (simp add: char_nat_def)

lemma length_write_number [simp]: "length (write_number k n) = k"
  by (induction k arbitrary: n) simp_all

lemma bytes_value_snoc [simp]: "bytes_value (bs @ [c]) = 256 * bytes_value bs + char_nat c"
  by (simp add: bytes_value_def)

lemma bytes_value_write: "bytes_value (write_number k n) = n mod 256 ^ k"
proof (induction k arbitrary: n)
  case 0
  show ?case by (simp add: bytes_value_def)
next
  case (Suc k)
  have "n mod (256 * 256 ^ k) = 256 * (n div 256 mod 256 ^ k) + n mod 256"
    by (simp only: mod_mult2_eq)
  then show ?case using Suc by simp
qed

lemma to_signed_write:
  assumes "i < 0" and "- (256 ^ k) \<le> 2 * i"
  shows "to_signed k (nat (i mod 256 ^ k)) = i" "nat (i mod 256 ^ k) < 256 ^ k"
proof -
  have "(i + 256 ^ k) mod 256 ^ k = i + 256 ^ k" using assms by (intro mod_pos_pos_trivial) auto
  then have "i mod 256 ^ k = i + 256 ^ k" by simp
  moreover have "int (nat (i + 256 ^ k)) = i + 256 ^ k" using assms by simp
  moreover have "int (2 * nat (i + 256 ^ k)) < int (256 ^ k) \<longleftrightarrow> False"
    "int (nat (i + 256 ^ k)) < int (256 ^ k)" using assms by simp_all
  ultimately show "to_signed k (nat (i mod 256 ^ k)) = i" "nat (i mod 256 ^ k) < 256 ^ k"
    unfolding of_nat_less_iff by (simp_all add: to_signed_def)
qed

lemma sign_bit_small: "sign_bit s < 2" "odd (sign_bit s) = s"
  by (simp_all add: sign_bit_def)

lemma bits_fields:
  assumes "field < 2 ^ b" and "fr < 2 ^ a"
  shows "(sign_bit s * 2 ^ (a + b) + field * 2 ^ a + fr) div 2 ^ a mod 2 ^ b = field"
    and "(sign_bit s * 2 ^ (a + b) + field * 2 ^ a + fr) mod 2 ^ a = fr"
    and "odd ((sign_bit s * 2 ^ (a + b) + field * 2 ^ a + fr) div 2 ^ (a + b)) = s"
    and "sign_bit s * 2 ^ (a + b) + field * 2 ^ a + fr < 2 ^ (a + b + 1)"
proof -
  let ?n = "sign_bit s * 2 ^ (a + b) + field * 2 ^ a + fr"
  have n: "?n = (sign_bit s * 2 ^ b + field) * 2 ^ a + fr" by (simp add: power_add algebra_simps)
  then have low: "?n div 2 ^ a = sign_bit s * 2 ^ b + field" using assms(2) by simp
  then show "?n div 2 ^ a mod 2 ^ b = field" using assms(1) by simp
  show "?n mod 2 ^ a = fr" using n assms(2) by simp
  have "?n div 2 ^ (a + b) = sign_bit s"
    using low assms(1) by (simp add: power_add div_mult2_eq)
  then show "odd (?n div 2 ^ (a + b)) = s" by (simp add: sign_bit_small)
  have "field * 2 ^ a + fr < (field + 1) * 2 ^ a" using assms(2) by simp
  also have "\<dots> \<le> 2 ^ b * 2 ^ a" using assms(1) by (intro mult_right_mono) auto
  finally have "field * 2 ^ a + fr < 2 ^ (a + b)" by (simp add: power_add mult.commute)
  then show "?n < 2 ^ (a + b + 1)" by (cases s) (simp_all add: sign_bit_def)
qed

lemmas double_fields_of = bits_fields [of _ 11 _ 52, simplified]
lemmas float_fields_of = bits_fields [of _ 8 _ 23, simplified]

lemma double_bits_fields:
  assumes "double_wf d"
  obtains s field fr where "double_bits d = sign_bit s * 2 ^ 63 + field * 2 ^ 52 + fr" "field < 2048" "fr < 2 ^ 52"
    "(if field = 2047 then (if fr = 0 then Double_inf s else Double_nan s fr)
         else if field = 0 then (if fr = 0 then Double_fin s 0 0 else Double_fin s fr (- 1074))
         else Double_fin s (2 ^ 52 + fr) (int field - 1075)) = d"
proof (cases d)
  case (Double_inf s)
  then show ?thesis using that [of s 2047 0] by simp
next
  case (Double_nan s f)
  then show ?thesis using that [of s 2047 f] assms by simp
next
  case (Double_fin s m e)
  show ?thesis
  proof (cases "m < 2 ^ 52")
    case True
    then show ?thesis using that [of s 0 m] assms Double_fin by auto
  next
    case False
    then show ?thesis using that [of s "nat (e + 1075)" "m - 2 ^ 52"] assms Double_fin by auto
  qed
qed

lemma double_of_bits_bits: "double_wf d \<Longrightarrow> double_of_bits (double_bits d) = d"
  by (erule double_bits_fields) (simp add: double_of_bits_def Let_def double_fields_of)

lemma double_bits_less: "double_wf d \<Longrightarrow> double_bits d < 2 ^ 64"
  by (erule double_bits_fields) (use double_fields_of(4) in simp)

lemma double_le_float_max:
  assumes "double_wf (Double_fin s m e)" "m \<noteq> 0"
    and "double_le float_lowest (Double_fin s m e)" "double_le (Double_fin s m e) float_max"
  shows "e \<le> 75"
proof (rule ccontr)
  assume e: "\<not> e \<le> 75"
  then have m: "2 ^ 52 \<le> m" using assms(1,2) by auto
  have "(2::int) ^ 1 \<le> 2 ^ nat (e - 75)" using e by (intro power_increasing) auto
  then have "2 * 2 ^ 52 \<le> int m * 2 ^ nat (e - 75)"
    using m by (subst mult.commute) (intro mult_mono, auto)
  then have big: "(2 ^ 24 - 1) * 2 ^ 29 < int m * 2 ^ nat (e - 75)" by simp
  show False
  proof (cases s)
    case True
    then show ?thesis using assms(3) e big
      by (simp add: double_le_def float_lowest_def signed_mantissa_def sgn_if split: if_splits)
  next
    case False
    then show ?thesis using assms(4) e big
      by (simp add: double_le_def float_max_def signed_mantissa_def sgn_if split: if_splits)
  qed
qed

lemma bit_len_eq: "2 ^ a \<le> n \<Longrightarrow> n < 2 ^ Suc a \<Longrightarrow> bit_len n = Suc a"
proof (induction a arbitrary: n)
  case 0
  then have "n = 1" by simp
  then show ?case by (simp add: bit_len.simps)
next
  case (Suc a)
  have "2 ^ a \<le> n div 2" using Suc.prems(1) by simp
  moreover have "n div 2 < 2 ^ Suc a" using Suc.prems(2) by simp
  moreover have "n \<noteq> 0" using Suc.prems(1) by (metis le_zero_eq power_not_zero zero_neq_numeral)
  ultimately show ?case using Suc.IH by (simp add: bit_len.simps [of n])
qed

text \<open>A double that a float equals is the float's mantissa, shifted.\<close>

lemma float_exact:
  assumes "double_compare (double_to_float (Double_fin s m e)) (Double_fin s m e) = Some 0"
    and "k = nat (max 29 (- 149 - e))"
  obtains m' where "double_to_float (Double_fin s m e) = Double_fin s m' (e + int k)" "m = m' * 2 ^ k"
proof -
  define m' where "m' = div_half_even m (2 ^ k)"
  have d: "double_to_float (Double_fin s m e) = Double_fin s m' (e + int k)"
    by (simp add: double_to_float_def assms(2) m'_def Let_def)
  have "signed_mantissa s m' * 2 ^ k = signed_mantissa s m"
    using assms(1) by (simp add: d sgn_if split: if_splits)
  then have "int m' * 2 ^ k = int m" by (simp add: signed_mantissa_def split: if_splits)
  then have "int (m' * 2 ^ k) = int m" by simp
  then have "m' * 2 ^ k = m" by (simp only: of_nat_eq_iff)
  then show ?thesis using that d by blast
qed

lemma float_bits_fields:
  assumes wf: "double_wf (Double_fin s m e)"
    and range: "double_le float_lowest (Double_fin s m e)" "double_le (Double_fin s m e) float_max"
    and exact: "double_compare (double_to_float (Double_fin s m e)) (Double_fin s m e) = Some 0"
  obtains field fr where "float_bits (double_to_float (Double_fin s m e)) = sign_bit s * 2 ^ 31 + field * 2 ^ 23 + fr"
    "field < 255" "fr < 2 ^ 23"
    "(if field = 0
      then norm_double s fr (- 149)
      else Double_fin s ((2 ^ 23 + fr) * 2 ^ 29) (int field - 179)) = Double_fin s m e"
proof -
  define k where "k = nat (max 29 (- 149 - e))"
  obtain m' where f: "double_to_float (Double_fin s m e) = Double_fin s m' (e + int k)" and m: "m = m' * 2 ^ k"
    using float_exact [OF exact k_def] by blast
  have m53: "m' * 2 ^ k < 2 ^ 53" using wf m by simp
  consider "m = 0" | "m \<noteq> 0" "- 178 \<le> e" | "m \<noteq> 0" "e < - 178" by linarith
  then show ?thesis
  proof cases
    case 1
    then show ?thesis using that [of 0 0] f m wf by (simp add: norm_double_def)
  next
    case 2
    have k: "k = 29" using 2 by (simp add: k_def)
    have m': "2 ^ 23 \<le> m'" "m' < 2 ^ 24" using wf 2 m k by auto
    have e: "e \<le> 75" using double_le_float_max wf 2(1) range by blast
    show ?thesis using that [of "nat (e + 179)" "m' - 2 ^ 23"] f m m' e 2 k by simp
  next
    case 3
    have k: "30 \<le> k" "- 149 - int k = e" using 3 by (auto simp: k_def)
    have "m' * 2 ^ 30 \<le> m' * 2 ^ k" using k by (intro mult_left_mono power_increasing) auto
    then have "m' * 2 ^ 30 < 2 ^ 53" using m53 by (rule le_less_trans)
    then have m': "m' < 2 ^ 23" "m' \<noteq> 0" using 3 m by auto
    have "k \<le> 52"
    proof (rule ccontr)
      assume "\<not> k \<le> 52"
      then have "(2::nat) ^ 53 \<le> 2 ^ k" by (intro power_increasing) auto
      then show False using m53 m' by (cases m') auto
    qed
    then have nor: "2 ^ 52 \<le> m" using wf 3 k by auto
    have "2 ^ (52 - k) * 2 ^ k \<le> m' * 2 ^ k" "m' * 2 ^ k < 2 ^ Suc (52 - k) * 2 ^ k"
      using nor m53 m \<open>k \<le> 52\<close> by (simp_all add: power_add [symmetric] del: power_Suc)
    then have "2 ^ (52 - k) \<le> m'" "m' < 2 ^ Suc (52 - k)" by (simp_all del: power_Suc)
    then have "bit_len m' = Suc (52 - k)" by (rule bit_len_eq)
    then show ?thesis using that [of 0 m'] f m m' k \<open>k \<le> 52\<close> by (simp add: norm_double_def Let_def)
  qed
qed

lemma float_of_bits_bits:
  assumes "double_wf d" and range: "double_le float_lowest d" "double_le d float_max"
    and "double_compare (double_to_float d) d = Some 0"
  shows "float_of_bits (float_bits (double_to_float d)) = d" "float_bits (double_to_float d) < 2 ^ 32"
proof -
  obtain s m e where d: "d = Double_fin s m e"
    using range by (cases d) (auto simp: double_le_def float_lowest_def float_max_def split: if_splits)
  obtain s field fr where b: "float_bits (double_to_float d) = sign_bit s * 2 ^ 31 + field * 2 ^ 23 + fr"
    and f: "field < 255" "fr < 2 ^ 23"
    and r: "(if field = 0
      then norm_double s fr (- 149)
      else Double_fin s ((2 ^ 23 + fr) * 2 ^ 29) (int field - 179)) = d"
    using float_bits_fields [of s m e] assms unfolding d by metis
  have "field < 256" "fr < 8388608" using f by simp_all
  note fields = float_fields_of [OF this, of s]
  show "float_of_bits (float_bits (double_to_float d)) = d"
    using r f by (simp add: b float_of_bits_def Let_def fields)
  show "float_bits (double_to_float d) < 2 ^ 32" using fields(4) by (simp add: b)
qed

lemma float_prefixes [simp]:
  "float_prefix Format_msgpack = CHR 0xCA" "double_prefix Format_msgpack = CHR 0xCB"
  "float_prefix Format_cbor = CHR 0xFA" "double_prefix Format_cbor = CHR 0xFB"
  by (simp_all add: float_prefix_def double_prefix_def)

lemma compact_float_cases:
  assumes "double_wf x"
  obtains n where "write_compact_float fmt x = float_prefix fmt # write_number 4 n" "n < 256 ^ 4" "float_of_bits n = x"
  | n where "write_compact_float fmt x = double_prefix fmt # write_number 8 n" "n < 256 ^ 8" "double_of_bits n = x"
proof (cases "double_le float_lowest x \<and> double_le x float_max \<and> double_compare (double_to_float x) x = Some 0")
  case True
  then have "write_compact_float fmt x = float_prefix fmt # write_number 4 (float_bits (double_to_float x))"
    unfolding write_compact_float_def by (rule if_P)
  then show ?thesis using that(1) float_of_bits_bits [of x] True assms by simp
next
  case False
  then have "write_compact_float fmt x = double_prefix fmt # write_number 8 (double_bits x)"
    unfolding write_compact_float_def by (rule if_not_P)
  then show ?thesis using that(2) double_of_bits_bits [of x] double_bits_less [of x] assms by simp
qed

section \<open>Reading bytes\<close>

text \<open>The reader is in front of some input, with the handler in some state.\<close>

definition rd_at :: "binary_reader \<Rightarrow> string \<Rightarrow> dom \<Rightarrow> bool" where
  "rd_at r s d \<longleftrightarrow> rd_input r = s \<and> rd_dom r = d"

lemma rd_at_get:
  "rd_at r (c # s) d \<Longrightarrow> rd_at (rd_get r) s d \<and> rd_current (rd_get r) = Some c"
  by (simp add: rd_at_def rd_get_def get_character_def)

lemma rd_bytes_at:
  "rd_at r (bs @ s) d \<Longrightarrow> \<exists>r'. rd_bytes fmt ctx (length bs) r = Inr (bs, r') \<and> rd_at r' s d"
proof (induction bs arbitrary: r)
  case (Cons c bs)
  then have g: "rd_at (rd_get r) (bs @ s) d" "rd_current (rd_get r) = Some c"
    using rd_at_get [of r c "bs @ s" d] by simp_all
  then obtain r' where "rd_bytes fmt ctx (length bs) (rd_get r) = Inr (bs, r')" "rd_at r' s d"
    using Cons.IH by blast
  then show ?case using g by simp
qed simp

lemma rd_number_at:
  assumes "rd_at r (write_number k n @ s) d" and "n < 256 ^ k"
  obtains r' where "rd_number fmt k r = Inr (n, r')" "rd_at r' s d"
proof -
  obtain r' where "rd_bytes fmt ''number'' k r = Inr (write_number k n, r')" "rd_at r' s d"
    using rd_bytes_at [OF assms(1), of fmt "''number''"] by auto
  then show ?thesis using that assms(2) by (simp add: rd_number_def bytes_value_write)
qed

lemma rd_string_at:
  assumes "rd_at r (bs @ s) d"
  obtains r' where "rd_string fmt (length bs) r = Inr (bs, r')" "rd_at r' s d"
  using rd_bytes_at [OF assms] unfolding rd_string_def by blast

lemma rd_binary_at:
  assumes "rd_at r (bs @ s) d"
  obtains r' where "rd_binary fmt (length bs) r = Inr (bs, r')" "rd_at r' s d"
  using rd_bytes_at [OF assms] unfolding rd_binary_def by blast

lemma rd_sized_string_at:
  assumes "rd_at r (write_number k (length t) @ t @ s) d" and "length t < 256 ^ k"
  shows "\<exists>r'. rd_sized_string fmt k r = Inr (t, r') \<and> rd_at r' s d"
proof -
  obtain r1 where 1: "rd_number fmt k r = Inr (length t, r1)" "rd_at r1 (t @ s) d"
    using rd_number_at [OF assms] by blast
  obtain r' where "rd_string fmt (length t) r1 = Inr (t, r')" "rd_at r' s d" using rd_string_at [OF 1(2)] by blast
  then show ?thesis using 1 by (simp add: rd_sized_string_def)
qed

lemma rd_sized_binary_at:
  assumes "rd_at r (write_number k (length t) @ t @ s) d" and "length t < 256 ^ k"
  shows "\<exists>r'. rd_sized_binary fmt k r = Inr (t, r') \<and> rd_at r' s d"
proof -
  obtain r1 where 1: "rd_number fmt k r = Inr (length t, r1)" "rd_at r1 (t @ s) d"
    using rd_number_at [OF assms] by blast
  obtain r' where "rd_binary fmt (length t) r1 = Inr (t, r')" "rd_at r' s d" using rd_binary_at [OF 1(2)] by blast
  then show ?thesis using 1 by (simp add: rd_sized_binary_def)
qed

lemma rd_sized_at:
  assumes "rd_at r (write_number k n @ s) d" and "n < 256 ^ k"
  shows "\<exists>r1. rd_sized fmt k body r = body n r1 \<and> rd_at r1 s d"
proof -
  obtain r1 where "rd_number fmt k r = Inr (n, r1)" "rd_at r1 s d" using rd_number_at [OF assms] by blast
  then show ?thesis by (intro exI [of _ r1]) (simp add: rd_sized_def)
qed

lemma rd_number_value_at:
  assumes "rd_at r (write_number k n @ s) d" and "n < 256 ^ k"
  shows "\<exists>r1. rd_number_value fmt k g r = rd_sax (g n) r1 \<and> rd_at r1 s d"
proof -
  obtain r1 where "rd_number fmt k r = Inr (n, r1)" "rd_at r1 s d" using rd_number_at [OF assms] by blast
  then show ?thesis by (intro exI [of _ r1]) (simp add: rd_number_value_def)
qed

lemma write_number_1 [simp]: "write_number 1 n = [char_of n]"
  by (simp add: One_nat_def char_of_mod_256)

section \<open>Values that come back\<close>

text \<open>
  What the formats can carry: lengths below \<open>2\<^sup>3\<^sup>2\<close>, no discarded value. An object is a map, so its
  keys are sorted; a subtype is an unsigned number of 64 bits.
\<close>

fun binary_ok :: "json \<Rightarrow> bool" where
  "binary_ok (JString s) = (length s < 2 ^ 32)"
| "binary_ok (JFloat d) = double_wf d"
| "binary_ok (JBinary bytes subtype) = (length bytes < 2 ^ 32 \<and> pred_option (\<lambda>t. t < 2 ^ 64) subtype)"
| "binary_ok JDiscarded = False"
| "binary_ok (JArray xs) = (length xs < 2 ^ 32 \<and> list_all binary_ok xs)"
| "binary_ok (JObject kvs) =
     (length kvs < 2 ^ 32 \<and> sorted_wrt (<) (map fst kvs)
      \<and> list_all (\<lambda>kv. length (fst kv) < 2 ^ 32 \<and> binary_ok (snd kv)) kvs)"
| "binary_ok _ = True"

lemma rd_sax_at:
  assumes "rd_at r s d" and "slot d q F"
  shows "\<exists>r' d'. rd_sax v r = Inr r' \<and> rd_at r' s d' \<and> dom_root d' = F v \<and> dom_stack d' = dom_stack d"
proof -
  have "rd_dom r = d" "rd_input r = s" using assms(1) by (simp_all add: rd_at_def)
  then have "rd_sax v r = Inr (r\<lparr>rd_dom := d\<lparr>dom_root := F v\<rparr>\<rparr>)"
    using slotD(1) [OF assms(2)] by (simp add: rd_sax_def on_handler_def dom_value_def)
  moreover have "rd_at (r\<lparr>rd_dom := d\<lparr>dom_root := F v\<rparr>\<rparr>) s (d\<lparr>dom_root := F v\<rparr>)"
    using \<open>rd_input r = s\<close> by (simp add: rd_at_def)
  ultimately show ?thesis
    by (intro exI [of _ "r\<lparr>rd_dom := d\<lparr>dom_root := F v\<rparr>\<rparr>"] exI [of _ "d\<lparr>dom_root := F v\<rparr>"]) simp
qed

lemma modify_at_slot:
  assumes "\<And>v w. json_modify q (\<lambda>_. w) (F v) = F w"
  shows "json_modify q g (F v) = F (g v)"
proof -
  have "json_modify q g (F v) = json_modify q g (json_modify q (\<lambda>_. v) (F v))" by (simp only: assms)
  also have "\<dots> = json_modify q (\<lambda>_. g v) (F v)" by (simp only: json_modify_modify comp_def)
  finally show ?thesis by (simp only: assms)
qed

text \<open>The slot of the next element of an array, and of an entry of an object.\<close>

lemma slot_element:
  assumes "\<And>v. json_at q (F v) = Some v" "\<And>v w. json_modify q (\<lambda>_. w) (F v) = F w"
    and "dom_stack d = q # st" "dom_root d = F (JArray ys)"
  shows "slot d (q @ [Index (length ys)]) (\<lambda>v. F (JArray (ys @ [v])))"
  using slot_array [of d q st ys] assms by simp

lemma slot_entry:
  assumes F: "\<And>v. json_at q (F v) = Some v" "\<And>v w. json_modify q (\<lambda>_. w) (F v) = F w"
    and "dom_stack d = q # st" "dom_root d = F (JObject zs)" "dom_element d = Some (q @ [Key k])"
    and "map_find k zs = Some v0"
  shows "slot d (q @ [Key k]) (\<lambda>w. F (JObject (map_adjust k (\<lambda>_. w) zs)))"
proof -
  have "slot d (q @ [Key k]) (\<lambda>w. json_modify (q @ [Key k]) (\<lambda>_. w) (dom_root d))"
    using assms by (intro slot_object [of _ q st zs k v0]) simp_all
  then show ?thesis
    using modify_at_slot [of q F, OF F(2)] assms(4) by (simp add: json_modify_append json_modify_Nil)
qed

lemma rd_start_array_at:
  assumes "rd_at r s d" and "slot d q F" and "len = unknown_size \<or> len \<le> array_max_size"
  shows "\<exists>r'. rd_start_array len r = Inr r' \<and> rd_at r' s (d\<lparr>dom_root := F (JArray []), dom_stack := q # dom_stack d\<rparr>)"
  using assms slotD(1) [OF assms(2)]
  by (auto simp: rd_start_array_def dom_start_array_def rd_at_def)

lemma rd_start_object_at:
  assumes "rd_at r s d" and "slot d q F" and "len = unknown_size \<or> len \<le> object_max_size"
  shows "\<exists>r'. rd_start_object len r = Inr r' \<and> rd_at r' s (d\<lparr>dom_root := F (JObject []), dom_stack := q # dom_stack d\<rparr>)"
  using assms slotD(1) [OF assms(2)]
  by (auto simp: rd_start_object_def dom_start_object_def rd_at_def)

text \<open>
  A container that is read: a loop from its empty state to the state with its elements, which leaves the
  input after them; and the step of the handler to a new key, above all that are there.
\<close>

lemma rd_array_at:
  assumes at: "rd_at r body d" and slot: "slot d q F" and len: "len = unknown_size \<or> len \<le> array_max_size"
    and loop: "\<And>r2. rd_at r2 body (d\<lparr>dom_root := F (JArray []), dom_stack := q # dom_stack d\<rparr>) \<Longrightarrow>
      \<exists>r3 d3. loop r2 = Inr r3 \<and> rd_at r3 s d3 \<and> dom_root d3 = F (JArray xs) \<and> dom_stack d3 = q # dom_stack d"
  shows "\<exists>r' d'. rd_array len loop r = Inr r' \<and> rd_at r' s d' \<and> dom_root d' = F (JArray xs) \<and> dom_stack d' = dom_stack d"
proof -
  obtain r2 where 2: "rd_start_array len r = Inr r2"
    "rd_at r2 body (d\<lparr>dom_root := F (JArray []), dom_stack := q # dom_stack d\<rparr>)"
    using rd_start_array_at [OF at slot len] by blast
  obtain r3 d3 where 3: "loop r2 = Inr r3" "rd_at r3 s d3" "dom_root d3 = F (JArray xs)" "dom_stack d3 = q # dom_stack d"
    using loop [OF 2(2)] by blast
  let ?d4 = "d3\<lparr>dom_stack := dom_stack d\<rparr>"
  have "on_handler r3 (dom_end_array (rd_dom r3)) = Inr (r3\<lparr>rd_dom := ?d4\<rparr>)" "rd_at (r3\<lparr>rd_dom := ?d4\<rparr>) s ?d4"
    using 3(2-4) slotD(2) [OF slot] by (simp_all add: on_handler_def rd_at_def dom_end_array_def)
  then show ?thesis using 2(1) 3(1,3)
    by (intro exI [of _ "r3\<lparr>rd_dom := ?d4\<rparr>"] exI [of _ ?d4]) (simp add: rd_array_def)
qed

lemma rd_object_at:
  assumes at: "rd_at r body d" and slot: "slot d q F" and len: "len = unknown_size \<or> len \<le> object_max_size"
    and loop: "\<And>r2. rd_at r2 body (d\<lparr>dom_root := F (JObject []), dom_stack := q # dom_stack d\<rparr>) \<Longrightarrow>
      \<exists>r3 d3. loop r2 = Inr r3 \<and> rd_at r3 s d3 \<and> dom_root d3 = F (JObject kvs) \<and> dom_stack d3 = q # dom_stack d"
  shows "\<exists>r' d'. rd_object len loop r = Inr r' \<and> rd_at r' s d' \<and> dom_root d' = F (JObject kvs) \<and> dom_stack d' = dom_stack d"
proof -
  obtain r2 where 2: "rd_start_object len r = Inr r2"
    "rd_at r2 body (d\<lparr>dom_root := F (JObject []), dom_stack := q # dom_stack d\<rparr>)"
    using rd_start_object_at [OF at slot len] by blast
  obtain r3 d3 where 3: "loop r2 = Inr r3" "rd_at r3 s d3" "dom_root d3 = F (JObject kvs)" "dom_stack d3 = q # dom_stack d"
    using loop [OF 2(2)] by blast
  let ?d4 = "d3\<lparr>dom_stack := dom_stack d\<rparr>"
  have "on_handler r3 (dom_end_object (rd_dom r3)) = Inr (r3\<lparr>rd_dom := ?d4\<rparr>)" "rd_at (r3\<lparr>rd_dom := ?d4\<rparr>) s ?d4"
    using 3(2-4) slotD(2) [OF slot] by (simp_all add: on_handler_def rd_at_def dom_end_object_def)
  then show ?thesis using 2(1) 3(1,3)
    by (intro exI [of _ "r3\<lparr>rd_dom := ?d4\<rparr>"] exI [of _ ?d4]) (simp add: rd_object_def)
qed

lemma new_key_at:
  assumes F: "\<And>v. json_at q (F v) = Some v" "\<And>v w. json_modify q (\<lambda>_. w) (F v) = F w"
    and at: "rd_at r s d" and d: "dom_stack d = q # st" "dom_root d = F (JObject ys)"
    and k: "\<forall>k' \<in> set (map fst ys). k' < k"
  obtains r1 d1 where "on_handler r (dom_key k (rd_dom r)) = Inr r1" "rd_at r1 s d1" "rd_chars r1 = rd_chars r"
    "slot d1 (q @ [Key k]) (\<lambda>w. F (JObject (ys @ [(k, w)])))" "dom_stack d1 = q # st"
proof -
  define d1 where "d1 = d\<lparr>dom_root := F (JObject (ys @ [(k, JNull)])), dom_element := Some (q @ [Key k])\<rparr>"
  have "dom_key k d = Inr d1"
    using d F map_emplace_last [OF k] by (simp add: dom_key_def d1_def)
  then have 1: "on_handler r (dom_key k (rd_dom r)) = Inr (r\<lparr>rd_dom := d1\<rparr>)" "rd_at (r\<lparr>rd_dom := d1\<rparr>) s d1"
    using at by (simp_all add: on_handler_def rd_at_def)
  have notin: "k \<notin> set (map fst ys)" using k by auto
  then have "map_find k (ys @ [(k, JNull)]) = Some JNull" by (induction ys) auto
  then have "slot d1 (q @ [Key k]) (\<lambda>w. F (JObject (map_adjust k (\<lambda>_. w) (ys @ [(k, JNull)]))))"
    using d by (intro slot_entry [OF F]) (simp_all add: d1_def)
  then have "slot d1 (q @ [Key k]) (\<lambda>w. F (JObject (ys @ [(k, w)])))"
    using map_adjust_last [OF notin] by simp
  then show ?thesis using that [OF 1] d by (simp add: d1_def)
qed

lemma json_depth_element:
  "x \<in> set xs \<Longrightarrow> json_depth (JArray xs) < Suc n \<Longrightarrow> json_depth x < n"
  "kv \<in> set kvs \<Longrightarrow> json_depth (JObject kvs) < Suc n \<Longrightarrow> json_depth (snd kv) < n"
proof -
  assume "x \<in> set xs" "json_depth (JArray xs) < Suc n"
  then show "json_depth x < n"
    using fold_max_le [of "map json_depth xs" 0 "fold max (map json_depth xs) 0"] by (force split: if_splits)
next
  assume "kv \<in> set kvs" "json_depth (JObject kvs) < Suc n"
  then show "json_depth (snd kv) < n"
    using fold_max_le [of "map (\<lambda>kv. json_depth (snd kv)) kvs" 0 "fold max (map (\<lambda>kv. json_depth (snd kv)) kvs) 0"]
    by (force split: if_splits)
qed

section \<open>The contract of a format\<close>

text \<open>
  \<open>enc\<close> writes a value, \<open>img\<close> is the value that comes back, \<open>parse\<close> reads with a stack of some depth.
\<close>

locale binary_codec =
  fixes enc :: "json \<Rightarrow> string" and img :: "json \<Rightarrow> json" and enc_key :: "string \<Rightarrow> string"
    and array_header object_header :: "nat \<Rightarrow> string"
    and parse :: "nat \<Rightarrow> binary_reader \<Rightarrow> binary_reader outcome"
    and get_key :: "nat \<Rightarrow> binary_reader \<Rightarrow> (string \<times> binary_reader) outcome"
  assumes enc_array: "enc (JArray xs) = array_header (length xs) @ concat (map enc xs)"
    and enc_object: "enc (JObject kvs) =
      object_header (length kvs) @ concat (map (\<lambda>kv. enc_key (fst kv) @ enc (snd kv)) kvs)"
    and img_array: "img (JArray xs) = JArray (map img xs)"
    and img_object: "img (JObject kvs) = JObject (map (\<lambda>kv. (fst kv, img (snd kv))) kvs)"
    and parse_scalar: "binary_ok j \<Longrightarrow> \<not> is_container j \<Longrightarrow> rd_at r (enc j @ s) d \<Longrightarrow>
      \<exists>r'. parse (Suc depth) r = rd_sax (img j) r' \<and> rd_at r' s d"
    and parse_array: "n < 2 ^ 32 \<Longrightarrow> rd_at r (array_header n @ s) d \<Longrightarrow>
      \<exists>r'. parse (Suc depth) r = rd_array n (rd_elements (parse depth) n) r' \<and> rd_at r' s d"
    and parse_object: "n < 2 ^ 32 \<Longrightarrow> rd_at r (object_header n @ s) d \<Longrightarrow>
      \<exists>r'. parse (Suc depth) r = rd_object n (rd_members (get_key depth) (parse depth) n) r' \<and> rd_at r' s d"
    and get_key: "length k < 2 ^ 32 \<Longrightarrow> rd_at r (enc_key k @ s) d \<Longrightarrow>
      \<exists>r'. get_key depth (rd_get r) = Inr (k, r') \<and> rd_at r' s d"
begin

definition reads :: "nat \<Rightarrow> json \<Rightarrow> bool" where
  "reads depth j \<longleftrightarrow>
     (\<forall>r s d q F. rd_at r (enc j @ s) d \<longrightarrow> slot d q F \<longrightarrow>
        (\<exists>r' d'. parse depth r = Inr r' \<and> rd_at r' s d' \<and> dom_root d' = F (img j) \<and> dom_stack d' = dom_stack d))"

lemma reads_scalar: "binary_ok j \<Longrightarrow> \<not> is_container j \<Longrightarrow> reads (Suc depth) j"
  unfolding reads_def using parse_scalar rd_sax_at by metis

text \<open>\<open>q\<close> is the place of the container, \<open>F\<close> the document around it.\<close>

lemma elements_read:
  assumes F: "\<And>v. json_at q (F v) = Some v" "\<And>v w. json_modify q (\<lambda>_. w) (F v) = F w"
    and "list_all (reads depth) xs"
    and "rd_at r (concat (map enc xs) @ s) d" and "dom_stack d = q # st" "dom_root d = F (JArray ys)"
  shows "\<exists>r' d'. rd_elements (parse depth) (length xs) r = Inr r' \<and> rd_at r' s d'
    \<and> dom_root d' = F (JArray (ys @ map img xs)) \<and> dom_stack d' = q # st"
  using assms(3-)
proof (induction xs arbitrary: r d ys)
  case Nil
  then show ?case by auto
next
  case (Cons x xs)
  have at: "rd_at r (enc x @ concat (map enc xs) @ s) d" using Cons.prems(2) by simp
  have "reads depth x" using Cons.prems(1) by simp
  then obtain r1 d1 where 1: "parse depth r = Inr r1" "rd_at r1 (concat (map enc xs) @ s) d1"
    "dom_root d1 = F (JArray (ys @ [img x]))" "dom_stack d1 = q # st"
    using at slot_element [OF F Cons.prems(3,4)] Cons.prems(3) unfolding reads_def by metis
  then obtain r' d' where "rd_elements (parse depth) (length xs) r1 = Inr r'" "rd_at r' s d'"
    "dom_root d' = F (JArray ((ys @ [img x]) @ map img xs))" "dom_stack d' = q # st"
    using Cons.IH [OF _ 1(2,4,3)] Cons.prems(1) by auto
  then show ?case using 1(1) by auto
qed

definition member_text :: "string \<times> json \<Rightarrow> string" where
  "member_text kv = enc_key (fst kv) @ enc (snd kv)"

lemma member_text_fun: "member_text = (\<lambda>kv. enc_key (fst kv) @ enc (snd kv))"
  by (rule ext) (rule member_text_def)

lemma members_read:
  assumes F: "\<And>v. json_at q (F v) = Some v" "\<And>v w. json_modify q (\<lambda>_. w) (F v) = F w"
    and "list_all (\<lambda>kv. length (fst kv) < 2 ^ 32 \<and> reads depth (snd kv)) kvs"
    and "sorted_wrt (<) (map fst ys @ map fst kvs)"
    and "rd_at r (concat (map member_text kvs) @ s) d" and "dom_stack d = q # st" "dom_root d = F (JObject ys)"
  shows "\<exists>r' d'. rd_members (get_key depth) (parse depth) (length kvs) r = Inr r' \<and> rd_at r' s d'
    \<and> dom_root d' = F (JObject (ys @ map (\<lambda>kv. (fst kv, img (snd kv))) kvs)) \<and> dom_stack d' = q # st"
  using assms(3-)
proof (induction kvs arbitrary: r d ys)
  case Nil
  then show ?case by auto
next
  case (Cons kv kvs)
  obtain k v where kv: "kv = (k, v)" by (cases kv)
  let ?rest = "concat (map member_text kvs) @ s"
  have "rd_at r (enc_key k @ enc v @ ?rest) d" "length k < 2 ^ 32"
    using Cons.prems(1,3) member_text_def [of "(k, v)"] by (simp_all add: kv)
  then obtain r1 where 1: "get_key depth (rd_get r) = Inr (k, r1)" "rd_at r1 (enc v @ ?rest) d"
    using get_key by blast
  have "\<forall>k' \<in> set (map fst ys). k' < k" using Cons.prems(2) by (auto simp: kv sorted_wrt_append)
  then obtain r2 d1 where 2: "on_handler r1 (dom_key k (rd_dom r1)) = Inr r2" "rd_at r2 (enc v @ ?rest) d1"
    "slot d1 (q @ [Key k]) (\<lambda>w. F (JObject (ys @ [(k, w)])))" "dom_stack d1 = q # st"
    using new_key_at [OF F 1(2) Cons.prems(4,5)] by blast
  have "reads depth v" using Cons.prems(1) by (simp add: kv)
  then obtain r3 d2 where 3: "parse depth r2 = Inr r3" "rd_at r3 ?rest d2"
    "dom_root d2 = F (JObject (ys @ [(k, img v)]))" "dom_stack d2 = q # st"
    using 2(2-4) unfolding reads_def by fastforce
  have sub: "list_all (\<lambda>kv. length (fst kv) < 2 ^ 32 \<and> reads depth (snd kv)) kvs"
    "sorted_wrt (<) (map fst (ys @ [(k, img v)]) @ map fst kvs)"
    using Cons.prems(1,2) by (simp_all add: kv)
  show ?case using Cons.IH [OF sub 3(2,4,3)] 1(1) 2(1) 3(1) by (auto simp: kv rd_member_def)
qed

lemma reads_array:
  assumes "length xs < 2 ^ 32" and "list_all (reads depth) xs"
  shows "reads (Suc depth) (JArray xs)"
  unfolding reads_def
proof (intro allI impI)
  fix r s d q F
  assume at: "rd_at r (enc (JArray xs) @ s) d" and slot: "slot d q F"
  let ?body = "concat (map enc xs) @ s"
  let ?d = "d\<lparr>dom_root := F (JArray []), dom_stack := q # dom_stack d\<rparr>"
  obtain r1 where 1: "parse (Suc depth) r = rd_array (length xs) (rd_elements (parse depth) (length xs)) r1"
    "rd_at r1 ?body d" using parse_array [OF assms(1), of r ?body d depth] at by (auto simp: enc_array)
  have "length xs \<le> array_max_size" using assms(1) by (simp add: array_max_size_def)
  then have "\<exists>r' d'. rd_array (length xs) (rd_elements (parse depth) (length xs)) r1 = Inr r' \<and> rd_at r' s d'
      \<and> dom_root d' = F (JArray (map img xs)) \<and> dom_stack d' = dom_stack d"
    using elements_read [OF slotD(2,3) [OF slot] assms(2), of _ s ?d "dom_stack d" "[]"]
    by (intro rd_array_at [OF 1(2) slot]) simp_all
  then show "\<exists>r' d'. parse (Suc depth) r = Inr r' \<and> rd_at r' s d'
      \<and> dom_root d' = F (img (JArray xs)) \<and> dom_stack d' = dom_stack d"
    by (simp only: 1(1) img_array)
qed

lemma reads_object:
  assumes "length kvs < 2 ^ 32" and "list_all (\<lambda>kv. length (fst kv) < 2 ^ 32 \<and> reads depth (snd kv)) kvs"
    and "sorted_wrt (<) (map fst kvs)"
  shows "reads (Suc depth) (JObject kvs)"
  unfolding reads_def
proof (intro allI impI)
  fix r s d q F
  assume at: "rd_at r (enc (JObject kvs) @ s) d" and slot: "slot d q F"
  let ?body = "concat (map member_text kvs) @ s"
  let ?d = "d\<lparr>dom_root := F (JObject []), dom_stack := q # dom_stack d\<rparr>"
  have "rd_at r (object_header (length kvs) @ ?body) d" using at by (simp add: enc_object member_text_fun)
  then obtain r1 where 1: "parse (Suc depth) r = rd_object (length kvs) (rd_members (get_key depth) (parse depth) (length kvs)) r1"
    "rd_at r1 ?body d" using parse_object [OF assms(1)] by blast
  have "length kvs \<le> object_max_size" using assms(1) by (simp add: object_max_size_def)
  then have "\<exists>r' d'. rd_object (length kvs) (rd_members (get_key depth) (parse depth) (length kvs)) r1 = Inr r' \<and> rd_at r' s d'
      \<and> dom_root d' = F (JObject (map (\<lambda>kv. (fst kv, img (snd kv))) kvs)) \<and> dom_stack d' = dom_stack d"
    using members_read [OF slotD(2,3) [OF slot] assms(2), of "[]" _ s ?d "dom_stack d"] assms(3)
    by (intro rd_object_at [OF 1(2) slot]) simp_all
  then show "\<exists>r' d'. parse (Suc depth) r = Inr r' \<and> rd_at r' s d'
      \<and> dom_root d' = F (img (JObject kvs)) \<and> dom_stack d' = dom_stack d"
    by (simp only: 1(1) img_object)
qed

lemma reads_any: "binary_ok j \<Longrightarrow> json_depth j < depth \<Longrightarrow> reads depth j"
proof (induction j arbitrary: depth)
  case (JObject kvs)
  then obtain n where n: "depth = Suc n" by (cases depth) auto
  have "reads n (snd kv)" if "kv \<in> set kvs" for kv
  proof -
    have "snd kv \<in> Basic_BNFs.snds kv" by (cases kv) simp
    moreover have "binary_ok (snd kv)" using JObject.prems(1) that by (simp add: list_all_iff)
    ultimately show ?thesis using JObject.IH [OF that] json_depth_element(2) [OF that] JObject.prems(2) n by blast
  qed
  then show ?case using JObject.prems(1) unfolding n by (intro reads_object) (simp_all add: list_all_iff)
next
  case (JArray xs)
  then obtain n where n: "depth = Suc n" by (cases depth) auto
  have "reads n x" if "x \<in> set xs" for x
  proof -
    have "binary_ok x" using JArray.prems(1) that by (simp add: list_all_iff)
    then show ?thesis using JArray.IH [OF that] json_depth_element(1) [OF that] JArray.prems(2) n by blast
  qed
  then show ?case using JArray.prems(1) unfolding n by (intro reads_array) (simp_all add: list_all_iff)
qed (metis gr0_implies_Suc gr_implies_not0 is_container.simps neq0_conv reads_scalar)+

lemma roundtrip:
  assumes "binary_ok j" and "json_depth j < depth"
  shows "binary_sax_parse fmt (parse depth) strict (enc j) = Inr (img j)"
proof -
  have "rd_at (new_reader (enc j)) (enc j @ []) (new_dom JNull)"
    by (simp add: rd_at_def new_reader_def)
  moreover have "slot (new_dom JNull) [] (\<lambda>v. v)" by (rule slot_top) (simp add: new_dom_def)
  ultimately obtain r' d' where "parse depth (new_reader (enc j)) = Inr r'" "rd_at r' [] d'" "dom_root d' = img j"
    using reads_any [OF assms] unfolding reads_def by blast
  then show ?thesis
    by (simp add: binary_sax_parse_def rd_finish_def rd_at_def rd_get_def get_character_def Let_def)
qed

end

section \<open>Any input\<close>

text \<open>
  What a call does on any input: it fails with an error of its format, or it leaves the reader with no
  more input than before.
\<close>

definition reader_error :: "cpp_error \<Rightarrow> bool" where
  "reader_error e \<longleftrightarrow> (\<exists>i m. e = Json_parse_error i m \<and> i \<in> {110, 112, 113})"

definition rd_left :: "binary_reader \<Rightarrow> nat" where
  "rd_left r = length (rd_input r)"

definition keeps :: "binary_reader \<Rightarrow> ('a \<times> binary_reader) outcome \<Rightarrow> bool" where
  "keeps r res \<longleftrightarrow>
     (case res of
        Inl e \<Rightarrow> reader_error e
      | Inr (x, r') \<Rightarrow> rd_dom r' = rd_dom r \<and> rd_left r' \<le> rd_left r)"

lemma reader_errorI: "i \<in> {110, 112, 113} \<Longrightarrow> reader_error (rd_error fmt i m ctx r)" "reader_error (rd_eof_error fmt ctx r)"
  by (auto simp: reader_error_def rd_error_def rd_eof_error_def parse_error_at_def)

lemma keeps_Inl: "keeps r (Inl e) \<longleftrightarrow> reader_error e"
  by (simp add: keeps_def)

lemma keeps_Inr [simp]: "keeps r (Inr (x, r))"
  by (simp add: keeps_def)

lemma rd_get_left:
  "rd_dom (rd_get r) = rd_dom r" "rd_left (rd_get r) \<le> rd_left r"
  "rd_current (rd_get r) = Some c \<Longrightarrow> rd_left (rd_get r) < rd_left r"
  by (auto simp: rd_get_def get_character_def rd_left_def split: list.splits)

lemma keeps_bind:
  assumes "keeps r a" and "\<And>x r1. a = Inr (x, r1) \<Longrightarrow> rd_dom r1 = rd_dom r \<Longrightarrow> rd_left r1 \<le> rd_left r \<Longrightarrow> keeps r1 (g x r1)"
  shows "keeps r (case a of Inl e \<Rightarrow> Inl e | Inr (x, r1) \<Rightarrow> g x r1)"
proof (cases a)
  case (Inr p)
  obtain x r1 where p: "p = (x, r1)" by (cases p)
  then have r1: "rd_dom r1 = rd_dom r" "rd_left r1 \<le> rd_left r" using assms(1) Inr by (simp_all add: keeps_def)
  then have "keeps r1 (g x r1)" using assms(2) Inr p by blast
  then show ?thesis using r1 Inr p by (auto simp: keeps_def split: sum.splits)
qed (use assms(1) in \<open>simp add: keeps_def\<close>)

lemma keeps_trans: "keeps r1 a \<Longrightarrow> rd_dom r1 = rd_dom r \<Longrightarrow> rd_left r1 \<le> rd_left r \<Longrightarrow> keeps r a"
  by (auto simp: keeps_def split: sum.splits)

lemma keeps_get: "keeps (rd_get r) a \<Longrightarrow> keeps r a"
  by (erule keeps_trans) (rule rd_get_left)+

lemma keeps_bytes: "keeps r (rd_bytes fmt ctx n r)"
proof (induction n arbitrary: r)
  case (Suc n)
  show ?case
  proof (cases "rd_current (rd_get r)")
    case None
    then show ?thesis by (simp add: keeps_def reader_errorI Let_def)
  next
    case (Some c)
    have "keeps (rd_get r) (rd_bytes fmt ctx (Suc n) r)"
      using keeps_bind [OF Suc.IH [of "rd_get r"], of "\<lambda>cs r2. Inr (c # cs, r2)"] Some by simp
    then show ?thesis by (rule keeps_get)
  qed
qed simp

lemma keeps_number: "keeps r (rd_number fmt k r)"
  unfolding rd_number_def by (intro keeps_bind keeps_bytes keeps_Inr)

lemma keeps_string: "keeps r (rd_string fmt n r)" "keeps r (rd_binary fmt n r)"
  unfolding rd_string_def rd_binary_def by (rule keeps_bytes)+

lemma keeps_sized: "keeps r (rd_sized_string fmt k r)" "keeps r (rd_sized_binary fmt k r)"
  unfolding rd_sized_string_def rd_sized_binary_def by (intro keeps_bind keeps_number keeps_string)+

text \<open>A number of \<open>k\<close> bytes is below \<open>256\<^sup>k\<close>.\<close>

lemma rd_bytes_length: "rd_bytes fmt ctx n r = Inr (bs, r') \<Longrightarrow> length bs = n"
  by (induction n arbitrary: r bs) (auto simp: Let_def split: option.splits sum.splits)

lemma bytes_value_less: "bytes_value bs < 256 ^ length bs"
proof (induction bs rule: rev_induct)
  case Nil
  show ?case by (simp add: bytes_value_def)
next
  case (snoc c bs)
  have "char_nat c < 256" using char_nat_of_byte [of "char_nat c"] char_of_char_nat [of c]
    by (metis mod_less_divisor zero_less_numeral)
  moreover have "256 * Suc (bytes_value bs) \<le> 256 * 256 ^ length bs"
    using snoc by (intro mult_le_mono2) simp
  moreover have "a < 256 \<Longrightarrow> 256 * Suc b \<le> 256 * m \<Longrightarrow> 256 * b + a < 256 * m" for a b m :: nat by simp
  ultimately have "256 * bytes_value bs + char_nat c < 256 * 256 ^ length bs" by blast
  then show ?case by simp
qed

lemma rd_number_less: "rd_number fmt k r = Inr (n, r') \<Longrightarrow> n < 256 ^ k"
  using bytes_value_less by (fastforce simp: rd_number_def split: sum.splits dest!: rd_bytes_length)

section \<open>What the handler gets\<close>

text \<open>The states of the handler after a value, inside an array and inside an object.\<close>

definition value_inv :: "(json \<Rightarrow> json) \<Rightarrow> path list \<Rightarrow> dom \<Rightarrow> bool" where
  "value_inv F st d \<longleftrightarrow> (\<exists>v. json_wf v \<and> dom_root d = F v) \<and> dom_stack d = st"

definition array_inv :: "(json \<Rightarrow> json) \<Rightarrow> path list \<Rightarrow> dom \<Rightarrow> bool" where
  "array_inv F st d \<longleftrightarrow> (\<exists>ys. json_wf (JArray ys) \<and> dom_root d = F (JArray ys)) \<and> dom_stack d = st"

definition object_inv :: "(json \<Rightarrow> json) \<Rightarrow> path list \<Rightarrow> dom \<Rightarrow> bool" where
  "object_inv F st d \<longleftrightarrow> (\<exists>ys. json_wf (JObject ys) \<and> dom_root d = F (JObject ys)) \<and> dom_stack d = st"

definition slot_laws :: "path \<Rightarrow> (json \<Rightarrow> json) \<Rightarrow> bool" where
  "slot_laws q F \<longleftrightarrow> (\<forall>v w. json_at q (F v) = Some v \<and> json_modify q (\<lambda>_. w) (F v) = F w)"

lemma slot_lawsD:
  "slot_laws q F \<Longrightarrow> json_at q (F v) = Some v" "slot_laws q F \<Longrightarrow> json_modify q (\<lambda>_. w) (F v) = F w"
  by (simp_all add: slot_laws_def)

lemma slot_laws: "slot d q F \<Longrightarrow> slot_laws q F"
  by (simp add: slot_def slot_laws_def)

text \<open>A function that reads a key, whose first byte is read before it is called.\<close>

definition key_below :: "nat \<Rightarrow> (binary_reader \<Rightarrow> (string \<times> binary_reader) outcome) \<Rightarrow> bool" where
  "key_below n get_key \<longleftrightarrow>
     (\<forall>r. rd_left r < n \<longrightarrow> keeps r (get_key (rd_get r))
        \<and> (\<forall>x r1. get_key (rd_get r) = Inr (x, r1) \<longrightarrow> rd_left r1 < rd_left r))"

locale error_class =
  fixes E :: "cpp_error \<Rightarrow> bool"
  assumes is_error: "reader_error e \<Longrightarrow> E e"
begin

definition ends :: "(dom \<Rightarrow> bool) \<Rightarrow> nat \<Rightarrow> binary_reader outcome \<Rightarrow> bool" where
  "ends P n res \<longleftrightarrow> (case res of Inl e \<Rightarrow> E e | Inr r' \<Rightarrow> P (rd_dom r') \<and> rd_left r' < n)"

lemma ends_Inl [simp]: "ends P n (Inl e) \<longleftrightarrow> E e"
  by (simp add: ends_def)

lemma ends_Inr [simp]: "ends P n (Inr r) \<longleftrightarrow> P (rd_dom r) \<and> rd_left r < n"
  by (simp add: ends_def)

lemma ends_mono: "ends P m res \<Longrightarrow> m \<le> n \<Longrightarrow> ends P n res"
  by (auto simp: ends_def split: sum.splits)

lemma ends_bind:
  assumes "keeps r a"
    and "\<And>x r1. a = Inr (x, r1) \<Longrightarrow> rd_dom r1 = rd_dom r \<Longrightarrow> rd_left r1 \<le> rd_left r \<Longrightarrow> ends P (Suc (rd_left r1)) (g x r1)"
  shows "ends P (Suc (rd_left r)) (case a of Inl e \<Rightarrow> Inl e | Inr (x, r1) \<Rightarrow> g x r1)"
proof (cases a)
  case (Inr p)
  obtain x r1 where p: "p = (x, r1)" by (cases p)
  then have r1: "rd_dom r1 = rd_dom r" "rd_left r1 \<le> rd_left r" using assms(1) Inr by (simp_all add: keeps_def)
  then have "ends P (Suc (rd_left r1)) (g x r1)" using assms(2) Inr p by blast
  then show ?thesis using ends_mono r1(2) Inr p by auto
qed (use assms(1) is_error in \<open>simp add: keeps_def\<close>)

lemma sax_ends:
  assumes "slot (rd_dom r) q F" and "json_wf v"
  shows "ends (value_inv F (dom_stack (rd_dom r))) (Suc (rd_left r)) (rd_sax v r)"
  using slotD(1) [OF assms(1)] assms(2)
  by (auto simp: rd_sax_def on_handler_def dom_value_def rd_left_def value_inv_def)

lemma number_ends:
  assumes "slot (rd_dom r) q F" and "\<And>n. json_wf (g n)"
  shows "ends (value_inv F (dom_stack (rd_dom r))) (Suc (rd_left r)) (rd_number_value fmt k g r)"
  unfolding rd_number_value_def
proof (rule ends_bind [OF keeps_number])
  fix n and r1 :: binary_reader
  assume "rd_dom r1 = rd_dom r"
  then show "ends (value_inv F (dom_stack (rd_dom r))) (Suc (rd_left r1)) (rd_sax (g n) r1)"
    using sax_ends [of r1 q F "g n"] assms by simp
qed

text \<open>A function that reads a value, wherever the handler puts it, from less than \<open>n\<close> bytes; it consumes one.\<close>

definition reads_below :: "nat \<Rightarrow> (binary_reader \<Rightarrow> binary_reader outcome) \<Rightarrow> bool" where
  "reads_below n f \<longleftrightarrow>
     (\<forall>r q F. slot (rd_dom r) q F \<longrightarrow> rd_left r < n \<longrightarrow>
        ends (value_inv F (dom_stack (rd_dom r))) (rd_left r) (f r))"

definition steps_below :: "nat \<Rightarrow> (dom \<Rightarrow> bool) \<Rightarrow> (binary_reader \<Rightarrow> binary_reader outcome) \<Rightarrow> bool" where
  "steps_below n P f \<longleftrightarrow> (\<forall>r. P (rd_dom r) \<longrightarrow> rd_left r < n \<longrightarrow> ends P (rd_left r) (f r))"

lemma element_step:
  assumes f: "reads_below n f" and laws: "slot_laws q F"
  shows "steps_below n (array_inv F (q # st)) f"
  unfolding steps_below_def
proof (intro allI impI)
  fix r
  assume inv: "array_inv F (q # st) (rd_dom r)" and n: "rd_left r < n"
  obtain ys where ys: "json_wf (JArray ys)" "dom_root (rd_dom r) = F (JArray ys)" "dom_stack (rd_dom r) = q # st"
    using inv by (auto simp: array_inv_def simp del: json_wf.simps)
  have "slot (rd_dom r) (q @ [Index (length ys)]) (\<lambda>v. F (JArray (ys @ [v])))"
    using slot_element [OF slot_lawsD [OF laws] ys(3,2)] .
  then have "ends (value_inv (\<lambda>v. F (JArray (ys @ [v]))) (q # st)) (rd_left r) (f r)"
    using f n ys(3) unfolding reads_below_def by metis
  moreover have "json_wf (JArray (ys @ [v]))" if "json_wf v" for v using ys(1) that by simp
  ultimately show "ends (array_inv F (q # st)) (rd_left r) (f r)"
    unfolding ends_def value_inv_def array_inv_def by (cases "f r") (auto simp del: json_wf.simps)
qed

lemma emplaced_entry:
  assumes "json_wf (JObject ys)"
  obtains v0 where "map_find k (map_emplace k JNull ys) = Some v0" "json_wf (JObject (map_emplace k JNull ys))"
proof -
  have "sorted_wrt (<) (map fst ys)" using assms by simp
  then show ?thesis
    using that json_index_mut_wf [OF assms, of k] map_find_emplace [of ys k k JNull]
    by (cases "map_find k ys") (auto simp: json_index_mut_def Let_def)
qed

text \<open>One that may consume nothing is enough after something that consumes a byte, like a key.\<close>

definition reads_upto :: "nat \<Rightarrow> (binary_reader \<Rightarrow> binary_reader outcome) \<Rightarrow> bool" where
  "reads_upto n f \<longleftrightarrow>
     (\<forall>r q F. slot (rd_dom r) q F \<longrightarrow> rd_left r < n \<longrightarrow>
        ends (value_inv F (dom_stack (rd_dom r))) (Suc (rd_left r)) (f r))"

lemma reads_below_upto: "reads_below n f \<Longrightarrow> reads_upto n f"
  unfolding reads_below_def reads_upto_def by (meson ends_mono le_SucI order_refl)

lemma reads_after_key:
  assumes f: "reads_upto n f" and key: "key_below n get_key"
  shows "reads_below n (\<lambda>r. case get_key (rd_get r) of Inl e \<Rightarrow> Inl e | Inr (key, r1) \<Rightarrow> f r1)"
  unfolding reads_below_def
proof (intro allI impI)
  fix r q F
  assume slot: "slot (rd_dom r) q F" and n: "rd_left r < n"
  have keeps: "keeps r (get_key (rd_get r))" and less: "\<And>x r1. get_key (rd_get r) = Inr (x, r1) \<Longrightarrow> rd_left r1 < rd_left r"
    using key n unfolding key_below_def by blast+
  show "ends (value_inv F (dom_stack (rd_dom r))) (rd_left r)
      (case get_key (rd_get r) of Inl e \<Rightarrow> Inl e | Inr (key, r1) \<Rightarrow> f r1)"
  proof (cases "get_key (rd_get r)")
    case (Inl e)
    then show ?thesis using keeps is_error by (simp add: keeps_def)
  next
    case (Inr p)
    obtain k r1 where p: "p = (k, r1)" by (cases p)
    have r1: "rd_dom r1 = rd_dom r" "rd_left r1 < rd_left r"
      using keeps less Inr p by (simp_all add: keeps_def)
    have "slot (rd_dom r1) q F" "rd_left r1 < n" using slot r1 n by simp_all
    then have "ends (value_inv F (dom_stack (rd_dom r1))) (Suc (rd_left r1)) (f r1)"
      using f unfolding reads_upto_def by blast
    then show ?thesis using Inr p r1 ends_mono [of _ "Suc (rd_left r1)" _ "rd_left r"] by simp
  qed
qed

lemma member_step:
  assumes f: "reads_upto n f" and laws: "slot_laws q F"
    and key: "key_below n get_key"
  shows "steps_below n (object_inv F (q # st)) (\<lambda>r. rd_member get_key f (rd_get r))"
  unfolding steps_below_def
proof (intro allI impI)
  fix r
  assume inv: "object_inv F (q # st) (rd_dom r)" and n: "rd_left r < n"
  have keeps: "keeps r (get_key (rd_get r))" and less: "\<And>x r1. get_key (rd_get r) = Inr (x, r1) \<Longrightarrow> rd_left r1 < rd_left r"
    using key n unfolding key_below_def by blast+
  show "ends (object_inv F (q # st)) (rd_left r) (rd_member get_key f (rd_get r))"
  proof (cases "get_key (rd_get r)")
    case (Inl e)
    then show ?thesis using keeps is_error by (simp add: rd_member_def keeps_def)
  next
    case (Inr p)
    obtain k r1 where p: "p = (k, r1)" by (cases p)
    have r1: "rd_dom r1 = rd_dom r" "rd_left r1 < rd_left r"
      using keeps less Inr p by (simp_all add: keeps_def)
    obtain ys where ys: "json_wf (JObject ys)" "dom_root (rd_dom r) = F (JObject ys)" "dom_stack (rd_dom r) = q # st"
      using inv by (auto simp: object_inv_def simp del: json_wf.simps)
    define zs where "zs = map_emplace k JNull ys"
    define d1 where "d1 = (rd_dom r)\<lparr>dom_root := F (JObject zs), dom_element := Some (q @ [Key k])\<rparr>"
    have "dom_key k (rd_dom r1) = Inr d1"
      using ys(2,3) r1(1) slot_lawsD [OF laws] by (simp add: dom_key_def d1_def zs_def)
    then have h: "rd_member get_key f (rd_get r) = f (r1\<lparr>rd_dom := d1\<rparr>)"
      using Inr p by (simp add: rd_member_def on_handler_def)
    obtain v0 where v0: "map_find k zs = Some v0" "json_wf (JObject zs)"
      using emplaced_entry [OF ys(1)] unfolding zs_def by metis
    have "slot d1 (q @ [Key k]) (\<lambda>w. F (JObject (map_adjust k (\<lambda>_. w) zs)))"
      using ys(3) v0(1) by (intro slot_entry [OF slot_lawsD [OF laws]]) (simp_all add: d1_def)
    moreover have same: "rd_left (r1\<lparr>rd_dom := d1\<rparr>) = rd_left r1" by (simp add: rd_left_def)
    moreover have d1: "rd_dom (r1\<lparr>rd_dom := d1\<rparr>) = d1" "dom_stack d1 = q # st"
      using ys(3) by (simp_all add: d1_def)
    moreover have "rd_left r1 < n" using r1(2) n by simp
    ultimately have "ends (value_inv (\<lambda>w. F (JObject (map_adjust k (\<lambda>_. w) zs))) (q # st))
        (Suc (rd_left r1)) (f (r1\<lparr>rd_dom := d1\<rparr>))"
      using f [unfolded reads_upto_def, rule_format, of "r1\<lparr>rd_dom := d1\<rparr>"] by (simp only: d1 same)
    then have s: "ends (value_inv (\<lambda>w. F (JObject (map_adjust k (\<lambda>_. w) zs))) (q # st)) (rd_left r)
        (f (r1\<lparr>rd_dom := d1\<rparr>))"
      using Suc_leI [OF r1(2)] by (rule ends_mono)
    have "json_wf (JObject (map_adjust k (\<lambda>_. v) zs))" if "json_wf v" for v
      using json_wf_modify_step [OF v0(2), of "Key k" "\<lambda>_. v"] that by simp
    then show ?thesis using s unfolding h ends_def value_inv_def object_inv_def
      by (cases "f (r1\<lparr>rd_dom := d1\<rparr>)") (auto simp del: json_wf.simps)
  qed
qed

lemma elements_end:
  assumes "steps_below n P f" and "P (rd_dom r)" and "rd_left r < n"
  shows "ends P (Suc (rd_left r)) (rd_elements f len r)"
  using assms(2,3)
proof (induction len arbitrary: r)
  case (Suc len)
  have s: "ends P (rd_left r) (f r)" using assms(1) Suc.prems unfolding steps_below_def by blast
  show ?case
  proof (cases "f r")
    case (Inr r1)
    then have r1: "P (rd_dom r1)" "rd_left r1 \<le> rd_left r" using s by auto
    then have "ends P (Suc (rd_left r1)) (rd_elements f len r1)" using Suc.prems(2) by (intro Suc.IH) simp_all
    then show ?thesis using Inr r1(2) ends_mono [of P "Suc (rd_left r1)" _ "Suc (rd_left r)"] by simp
  qed (use s in simp)
qed simp

lemma members_as_elements: "rd_members get_key f n r = rd_elements (\<lambda>r. rd_member get_key f (rd_get r)) n r"
  by (induction n arbitrary: r) (simp_all split: sum.splits)

text \<open>Containers: a length that is too large, or a loop that keeps the handler inside the container.\<close>

lemma array_ends:
  assumes slot: "slot (rd_dom r) q F"
    and size: "len \<noteq> unknown_size \<Longrightarrow> array_max_size < len \<Longrightarrow> E (excessive_size ''array'' len)"
    and loop: "\<And>r1. array_inv F (q # dom_stack (rd_dom r)) (rd_dom r1) \<Longrightarrow> rd_left r1 = rd_left r \<Longrightarrow>
      ends (array_inv F (q # dom_stack (rd_dom r))) (Suc (rd_left r1)) (loop r1)"
  shows "ends (value_inv F (dom_stack (rd_dom r))) (Suc (rd_left r)) (rd_array len loop r)"
proof (cases "len \<noteq> unknown_size \<and> array_max_size < len")
  case True
  then show ?thesis using size slotD(1) [OF slot] by (simp add: rd_array_def rd_start_array_def dom_start_array_def)
next
  case False
  let ?st = "dom_stack (rd_dom r)"
  let ?r = "r\<lparr>rd_dom := (rd_dom r)\<lparr>dom_root := F (JArray []), dom_stack := q # ?st\<rparr>\<rparr>"
  have h: "rd_start_array len r = Inr ?r"
    using False slotD(1) [OF slot] by (auto simp: rd_start_array_def dom_start_array_def)
  have "array_inv F (q # ?st) (rd_dom ?r)" by (auto simp: array_inv_def intro!: exI [of _ "[]"])
  then have e: "ends (array_inv F (q # ?st)) (Suc (rd_left r)) (loop ?r)" using loop [of ?r] by (simp add: rd_left_def)
  show ?thesis
  proof (cases "loop ?r")
    case (Inr r2)
    then obtain ys where 2: "json_wf (JArray ys)" "dom_root (rd_dom r2) = F (JArray ys)" "dom_stack (rd_dom r2) = q # ?st"
      "rd_left r2 \<le> rd_left r" using e by (auto simp: array_inv_def simp del: json_wf.simps)
    then have "on_handler r2 (dom_end_array (rd_dom r2)) = Inr (r2\<lparr>rd_dom := (rd_dom r2)\<lparr>dom_stack := ?st\<rparr>\<rparr>)"
      using slotD(2) [OF slot] by (simp add: on_handler_def dom_end_array_def)
    then show ?thesis using 2 h Inr by (auto simp: rd_array_def value_inv_def rd_left_def simp del: json_wf.simps)
  qed (use e h in \<open>simp add: rd_array_def\<close>)
qed

lemma object_ends:
  assumes slot: "slot (rd_dom r) q F"
    and size: "len \<noteq> unknown_size \<Longrightarrow> object_max_size < len \<Longrightarrow> E (excessive_size ''object'' len)"
    and loop: "\<And>r1. object_inv F (q # dom_stack (rd_dom r)) (rd_dom r1) \<Longrightarrow> rd_left r1 = rd_left r \<Longrightarrow>
      ends (object_inv F (q # dom_stack (rd_dom r))) (Suc (rd_left r1)) (loop r1)"
  shows "ends (value_inv F (dom_stack (rd_dom r))) (Suc (rd_left r)) (rd_object len loop r)"
proof (cases "len \<noteq> unknown_size \<and> object_max_size < len")
  case True
  then show ?thesis using size slotD(1) [OF slot] by (simp add: rd_object_def rd_start_object_def dom_start_object_def)
next
  case False
  let ?st = "dom_stack (rd_dom r)"
  let ?r = "r\<lparr>rd_dom := (rd_dom r)\<lparr>dom_root := F (JObject []), dom_stack := q # ?st\<rparr>\<rparr>"
  have h: "rd_start_object len r = Inr ?r"
    using False slotD(1) [OF slot] by (auto simp: rd_start_object_def dom_start_object_def)
  have "object_inv F (q # ?st) (rd_dom ?r)" by (auto simp: object_inv_def intro!: exI [of _ "[]"])
  then have e: "ends (object_inv F (q # ?st)) (Suc (rd_left r)) (loop ?r)" using loop [of ?r] by (simp add: rd_left_def)
  show ?thesis
  proof (cases "loop ?r")
    case (Inr r2)
    then obtain ys where 2: "json_wf (JObject ys)" "dom_root (rd_dom r2) = F (JObject ys)" "dom_stack (rd_dom r2) = q # ?st"
      "rd_left r2 \<le> rd_left r" using e by (auto simp: object_inv_def simp del: json_wf.simps)
    then have "on_handler r2 (dom_end_object (rd_dom r2)) = Inr (r2\<lparr>rd_dom := (rd_dom r2)\<lparr>dom_stack := ?st\<rparr>\<rparr>)"
      using slotD(2) [OF slot] by (simp add: on_handler_def dom_end_object_def)
    then show ?thesis using 2 h Inr by (auto simp: rd_object_def value_inv_def rd_left_def simp del: json_wf.simps)
  qed (use e h in \<open>simp add: rd_object_def\<close>)
qed

lemma parse_ends:
  assumes "reads_below n f" and "length input < n"
  shows "case binary_sax_parse fmt f strict input of Inl e \<Rightarrow> E e | Inr j \<Rightarrow> json_wf j"
proof -
  have slot: "slot (rd_dom (new_reader input)) [] (\<lambda>v. v)"
    by (rule slot_top) (simp add: new_reader_def new_dom_def)
  moreover have "rd_left (new_reader input) < n" using assms(2) by (simp add: rd_left_def new_reader_def)
  ultimately have e: "ends (value_inv (\<lambda>v. v) (dom_stack (rd_dom (new_reader input)))) (rd_left (new_reader input))
      (f (new_reader input))"
    using assms(1) unfolding reads_below_def by blast
  show ?thesis
  proof (cases "f (new_reader input)")
    case (Inr r)
    then have wf: "json_wf (dom_root (rd_dom r))" using e by (auto simp: value_inv_def)
    have "E (rd_error fmt 110 m ctx r1)" for m ctx r1 by (intro is_error reader_errorI(1)) simp
    then show ?thesis using Inr wf rd_get_left(1) by (simp add: binary_sax_parse_def rd_finish_def Let_def)
  qed (use e in \<open>simp add: binary_sax_parse_def\<close>)
qed

end

end
