(* ===== verification/Msgpack_Roundtrip.thy ===== *)
theory Msgpack_Roundtrip
  imports Msgpack Binary_Facts
begin

text \<open>
  The MessagePack reader of \<^verbatim>\<open>include/nlohmann/json.hpp\<close> on what the writer wrote, and on any input:
  a value comes back, and the depth of the recursion is bounded by the length of the input.
\<close>

section \<open>First bytes\<close>

lemma nibbles:
  fixes n :: nat
  assumes "n \<le> 15"
  shows "144 OR n = 144 + n" "128 OR (n AND 15) = 128 + n" "(144 + n) AND 15 = n" "(128 + n) AND 15 = n"
proof -
  have m: "x AND 15 = x mod 16" for x :: nat
    using take_bit_eq_mask [of 4 x] by (simp add: take_bit_eq_mod mask_numeral)
  have "n = 0 \<or> n = 1 \<or> n \<in> set [2..<16]" using assms by (simp only: set_upt atLeastLessThan_iff) arith
  then have "144 OR n = 144 + n" "128 OR n = 128 + n" by auto
  moreover have k: "(16 * k + n) mod 16 = n" for k using assms by simp
  have "(144 + n) mod 16 = n" "(128 + n) mod 16 = n" "n mod 16 = n" using k [of 9] k [of 8] k [of 0] by simp_all
  ultimately show "144 OR n = 144 + n" "128 OR (n AND 15) = 128 + n" "(144 + n) AND 15 = n" "(128 + n) AND 15 = n"
    by (simp_all only: m)
qed

lemma five_bits:
  fixes n :: nat
  assumes "n \<le> 31"
  shows "160 OR n = 160 + n" "(160 + n) AND 31 = n"
proof -
  have "n = 0 \<or> n = 1 \<or> n \<in> set [2..<32]" using assms by (simp only: set_upt atLeastLessThan_iff) arith
  then show "160 OR n = 160 + n" "(160 + n) AND 31 = n" by auto
qed

declare parse_msgpack_internal.simps [simp del]

text \<open>A value starts with a byte, which the switch is on.\<close>

lemma parse_switch:
  assumes "rd_at r (c # s) d"
  obtains r1 where "parse_msgpack_internal (Suc depth) r = msgpack_switch (parse_msgpack_internal depth) (char_nat c) r1"
    "rd_at r1 s d" "rd_current r1 = Some c"
  using rd_at_get [OF assms] that [of "rd_get r"] by (simp add: parse_msgpack_internal.simps Let_def)

lemma byte_values:
    "char_nat CHR 0xC0 = 192"
    "char_nat CHR 0xC2 = 194"
    "char_nat CHR 0xC3 = 195"
    "char_nat CHR 0xC4 = 196"
    "char_nat CHR 0xC5 = 197"
    "char_nat CHR 0xC6 = 198"
    "char_nat CHR 0xC7 = 199"
    "char_nat CHR 0xC8 = 200"
    "char_nat CHR 0xC9 = 201"
    "char_nat CHR 0xCA = 202"
    "char_nat CHR 0xCB = 203"
    "char_nat CHR 0xCC = 204"
    "char_nat CHR 0xCD = 205"
    "char_nat CHR 0xCE = 206"
    "char_nat CHR 0xCF = 207"
    "char_nat CHR 0xD0 = 208"
    "char_nat CHR 0xD1 = 209"
    "char_nat CHR 0xD2 = 210"
    "char_nat CHR 0xD3 = 211"
    "char_nat CHR 0xD4 = 212"
    "char_nat CHR 0xD5 = 213"
    "char_nat CHR 0xD6 = 214"
    "char_nat CHR 0xD7 = 215"
    "char_nat CHR 0xD8 = 216"
    "char_nat CHR 0xD9 = 217"
    "char_nat CHR 0xDA = 218"
    "char_nat CHR 0xDB = 219"
    "char_nat CHR 0xDC = 220"
    "char_nat CHR 0xDD = 221"
    "char_nat CHR 0xDE = 222"
    "char_nat CHR 0xDF = 223"
  by (simp_all add: char_nat_def)

lemma msgpack_switches:
    "msgpack_switch f 192 r = rd_sax JNull r"
    "msgpack_switch f 194 r = rd_sax (JBoolean False) r"
    "msgpack_switch f 195 r = rd_sax (JBoolean True) r"
    "msgpack_switch f 196 r = msgpack_binary_value 196 r"
    "msgpack_switch f 197 r = msgpack_binary_value 197 r"
    "msgpack_switch f 198 r = msgpack_binary_value 198 r"
    "msgpack_switch f 199 r = msgpack_binary_value 199 r"
    "msgpack_switch f 200 r = msgpack_binary_value 200 r"
    "msgpack_switch f 201 r = msgpack_binary_value 201 r"
    "msgpack_switch f 212 r = msgpack_binary_value 212 r"
    "msgpack_switch f 213 r = msgpack_binary_value 213 r"
    "msgpack_switch f 214 r = msgpack_binary_value 214 r"
    "msgpack_switch f 215 r = msgpack_binary_value 215 r"
    "msgpack_switch f 216 r = msgpack_binary_value 216 r"
    "msgpack_switch f 202 r = rd_number_value Format_msgpack 4 (\<lambda>n. JFloat (float_of_bits n)) r"
    "msgpack_switch f 203 r = rd_number_value Format_msgpack 8 (\<lambda>n. JFloat (double_of_bits n)) r"
    "msgpack_switch f 204 r = rd_number_value Format_msgpack 1 (\<lambda>n. JUnsigned (of_nat n)) r"
    "msgpack_switch f 205 r = rd_number_value Format_msgpack 2 (\<lambda>n. JUnsigned (of_nat n)) r"
    "msgpack_switch f 206 r = rd_number_value Format_msgpack 4 (\<lambda>n. JUnsigned (of_nat n)) r"
    "msgpack_switch f 207 r = rd_number_value Format_msgpack 8 (\<lambda>n. JUnsigned (of_nat n)) r"
    "msgpack_switch f 208 r = rd_number_value Format_msgpack 1 (signed_value 1) r"
    "msgpack_switch f 209 r = rd_number_value Format_msgpack 2 (signed_value 2) r"
    "msgpack_switch f 210 r = rd_number_value Format_msgpack 4 (signed_value 4) r"
    "msgpack_switch f 211 r = rd_number_value Format_msgpack 8 (signed_value 8) r"
    "msgpack_switch f 217 r = msgpack_string_value r"
    "msgpack_switch f 218 r = msgpack_string_value r"
    "msgpack_switch f 219 r = msgpack_string_value r"
    "msgpack_switch f 220 r = rd_sized Format_msgpack 2 (get_msgpack_array f) r"
    "msgpack_switch f 221 r = rd_sized Format_msgpack 4 (get_msgpack_array f) r"
    "msgpack_switch f 222 r = rd_sized Format_msgpack 2 (get_msgpack_object f) r"
    "msgpack_switch f 223 r = rd_sized Format_msgpack 4 (get_msgpack_object f) r"
  by (simp_all add: msgpack_switch_def)

lemma parse_byte:
  assumes "rd_at r (c # s) d" and "\<And>f r1. msgpack_switch f (char_nat c) r1 = rd_sax v r1"
  shows "\<exists>r'. parse_msgpack_internal (Suc depth) r = rd_sax v r' \<and> rd_at r' s d"
  by (rule parse_switch [OF assms(1), of depth]) (use assms(2) in auto)

lemma parse_number:
  assumes "rd_at r (c # write_number k n @ s) d" and "n < 256 ^ k"
    and "\<And>f r1. msgpack_switch f (char_nat c) r1 = rd_number_value Format_msgpack k g r1"
  shows "\<exists>r'. parse_msgpack_internal (Suc depth) r = rd_sax (g n) r' \<and> rd_at r' s d"
proof -
  obtain r1 where p: "parse_msgpack_internal (Suc depth) r = msgpack_switch (parse_msgpack_internal depth) (char_nat c) r1"
    and at: "rd_at r1 (write_number k n @ s) d" using parse_switch [OF assms(1), of depth] by blast
  obtain r' where "rd_number Format_msgpack k r1 = Inr (n, r')" "rd_at r' s d" using rd_number_at [OF at assms(2)] by blast
  then show ?thesis using p assms(3) [of "parse_msgpack_internal depth" r1] by (simp add: rd_number_value_def) blast
qed

lemma parse_unsigned:
  assumes "rd_at r (msgpack_unsigned n @ s) d" and "n < 2 ^ 64"
  shows "\<exists>r'. parse_msgpack_internal (Suc depth) r = rd_sax (JUnsigned (of_nat n)) r' \<and> rd_at r' s d"
proof -
  note number = parse_number [where g = "\<lambda>n. JUnsigned (of_nat n)"]
  consider "n < 128" | "128 \<le> n" "n \<le> 0xFF" | "0xFF < n" "n \<le> 0xFFFF"
    | "0xFFFF < n" "n \<le> 0xFFFFFFFF" | "0xFFFFFFFF < n" by linarith
  then show ?thesis
  proof cases
    case 1
    have "msgpack_unsigned n = [char_of n]" using 1 by (simp only: msgpack_unsigned_def if_True write_number_1)
    moreover have n: "char_nat (char_of n) = n" using 1 by simp
    moreover have "msgpack_switch f n r1 = rd_sax (JUnsigned (of_nat n)) r1" for f r1
      using 1 by (simp only: msgpack_switch_def) simp
    ultimately show ?thesis
      using parse_byte [of r "char_of n" s d "JUnsigned (of_nat n)"] assms(1) by (simp only: append.simps n)
  next
    case 2
    then show ?thesis using assms
      by (intro number [of r "CHR 0xCC" 1]) (simp_all add: msgpack_unsigned_def msgpack_switches byte_values)
  next
    case 3
    then show ?thesis using assms
      by (intro number [of r "CHR 0xCD" 2]) (simp_all add: msgpack_unsigned_def msgpack_switches byte_values)
  next
    case 4
    then show ?thesis using assms
      by (intro number [of r "CHR 0xCE" 4]) (simp_all add: msgpack_unsigned_def msgpack_switches byte_values)
  next
    case 5
    then show ?thesis using assms
      by (intro number [of r "CHR 0xCF" 8]) (simp_all add: msgpack_unsigned_def msgpack_switches byte_values)
  qed
qed

lemma parse_integer:
  fixes i :: int64_t
  assumes "rd_at r (msgpack_integer (sint i) @ s) d"
  shows "\<exists>r'. parse_msgpack_internal (Suc depth) r = rd_sax (if 0 \<le> sint i then JUnsigned i else JInteger i) r' \<and> rd_at r' s d"
proof -
  let ?v = "JInteger i"
  have range: "- (2 ^ 63) \<le> sint i" "sint i < 2 ^ 63" using sint_ge [of i] sint_less [of i] by simp_all
  have again: "signed_value k (nat (sint i mod 256 ^ k)) = ?v" "nat (sint i mod 256 ^ k) < 256 ^ k"
    if "sint i < 0" "- (256 ^ k) \<le> 2 * sint i" for k
    using to_signed_write [OF that] by (simp_all add: signed_value_def)
  have number: "\<exists>r'. parse_msgpack_internal (Suc depth) r = rd_sax ?v r' \<and> rd_at r' s d"
    if "sint i < 0" "- (256 ^ k) \<le> 2 * sint i" "msgpack_integer (sint i) = c # write_signed k (sint i)"
      "\<And>f r1. msgpack_switch f (char_nat c) r1 = rd_number_value Format_msgpack k (signed_value k) r1" for k c
    using parse_number [of r c k "nat (sint i mod 256 ^ k)" s d "signed_value k" depth] assms that again
    by (simp add: write_signed_def)
  consider "0 \<le> sint i" | "sint i < 0" "- 32 \<le> sint i" | "sint i < - 32" "- 0x80 \<le> sint i"
    | "sint i < - 0x80" "- 0x8000 \<le> sint i" | "sint i < - 0x8000" "- 0x80000000 \<le> sint i"
    | "sint i < - 0x80000000" by linarith
  then show ?thesis
  proof cases
    case 1
    then have "nat (sint i) < 2 ^ 64" using range by simp
    moreover have "(of_nat (nat (sint i)) :: int64_t) = of_int (int (nat (sint i)))" by (rule of_int_of_nat_eq [symmetric])
    then have "(of_nat (nat (sint i)) :: int64_t) = i" using 1 by simp
    ultimately show ?thesis using 1 assms parse_unsigned [of r "nat (sint i)" s d depth]
      by (simp add: msgpack_integer_def)
  next
    case 2
    have "(sint i + 256) mod 256 = sint i + 256" using 2 by (intro mod_pos_pos_trivial) auto
    then have "sint i mod 256 = sint i + 256" by simp
    then have n: "nat (sint i mod 256) = nat (sint i + 256)" "224 \<le> nat (sint i + 256)" "nat (sint i + 256) < 256"
      using 2 by auto
    have "msgpack_integer (sint i) = [char_of (nat (sint i + 256))]"
      using 2 n(1) by (simp add: msgpack_integer_def write_signed_def del: One_nat_def)
    moreover have c: "char_nat (char_of (nat (sint i + 256))) = nat (sint i + 256)" using n by simp
    moreover have "signed_value 1 (nat (sint i + 256)) = ?v" using again(1) [of 1] 2 n by simp
    then have "msgpack_switch f (nat (sint i + 256)) r1 = rd_sax ?v r1" for f r1
      using n by (simp only: msgpack_switch_def) simp
    ultimately show ?thesis
      using parse_byte [of r "char_of (nat (sint i + 256))" s d ?v] assms 2 by (simp only: append.simps c) simp
  next
    case 3
    then show ?thesis using number [of 1 "CHR 0xD0"]
      by (simp add: msgpack_integer_def msgpack_switches byte_values)
  next
    case 4
    then show ?thesis using number [of 2 "CHR 0xD1"]
      by (simp add: msgpack_integer_def msgpack_switches byte_values)
  next
    case 5
    then show ?thesis using number [of 4 "CHR 0xD2"]
      by (simp add: msgpack_integer_def msgpack_switches byte_values)
  next
    case 6
    then show ?thesis using number [of 8 "CHR 0xD3"] range
      by (simp add: msgpack_integer_def msgpack_switches byte_values)
  qed
qed

lemma parse_float:
  assumes "rd_at r (write_compact_float Format_msgpack x @ s) d" and "double_wf x"
  shows "\<exists>r'. parse_msgpack_internal (Suc depth) r = rd_sax (JFloat x) r' \<and> rd_at r' s d"
proof (cases rule: compact_float_cases [OF assms(2), where fmt = Format_msgpack])
  case (1 n)
  then show ?thesis using assms(1) parse_number [of r "CHR 0xCA" 4 n s d "\<lambda>n. JFloat (float_of_bits n)" depth]
    by (simp add: msgpack_switches byte_values)
next
  case (2 n)
  then show ?thesis using assms(1) parse_number [of r "CHR 0xCB" 8 n s d "\<lambda>n. JFloat (double_of_bits n)" depth]
    by (simp add: msgpack_switches byte_values)
qed

section \<open>Strings and binaries\<close>

text \<open>The header of a string: its first byte, and what follows.\<close>

lemma get_string_at:
  assumes "rd_at r (msgpack_string t @ s) d" and "length t < 2 ^ 32"
  shows "\<exists>r'. get_msgpack_string (rd_get r) = Inr (t, r') \<and> rd_at r' s d"
    and "\<exists>c u. msgpack_string t = c # u \<and> (\<forall>f r1. msgpack_switch f (char_nat c) r1 = msgpack_string_value r1)"
proof -
  have sized: "\<exists>r'. get_msgpack_string (rd_get r) = Inr (t, r') \<and> rd_at r' s d"
    if "msgpack_string t = c # write_number k (length t) @ t" "length t < 256 ^ k"
      "\<And>r1. rd_current r1 = Some c \<Longrightarrow> get_msgpack_string r1 = rd_sized_string Format_msgpack k r1" for c k
  proof -
    have "rd_at r (c # (write_number k (length t) @ t @ s)) d" using assms(1) that(1) by simp
    then have g: "rd_at (rd_get r) (write_number k (length t) @ t @ s) d" "rd_current (rd_get r) = Some c"
      using rd_at_get by blast+
    show ?thesis using rd_sized_string_at [OF g(1) that(2), of Format_msgpack] that(3) [OF g(2)] by simp
  qed
  consider "length t \<le> 31" | "31 < length t" "length t \<le> 0xFF" | "0xFF < length t" "length t \<le> 0xFFFF"
    | "0xFFFF < length t" "length t \<le> 0xFFFFFFFF" using assms(2) by fastforce
  then have "(\<exists>r'. get_msgpack_string (rd_get r) = Inr (t, r') \<and> rd_at r' s d)
    \<and> (\<exists>c u. msgpack_string t = c # u \<and> (\<forall>f r1. msgpack_switch f (char_nat c) r1 = msgpack_string_value r1))"
  proof cases
    case 1
    let ?c = "char_of (160 + length t) :: char"
    have t: "msgpack_string t = ?c # t"
      using 1 five_bits [of "length t"] by (simp add: msgpack_string_def msgpack_string_header_def del: One_nat_def)
    have c: "char_nat ?c = 160 + length t" using 1 by simp
    have "rd_at r (?c # t @ s) d" using assms(1) t by simp
    then have g: "rd_at (rd_get r) (t @ s) d" "rd_current (rd_get r) = Some ?c" using rd_at_get by blast+
    have "get_msgpack_string (rd_get r) = rd_string Format_msgpack (length t) (rd_get r)"
      using 1 five_bits [of "length t"] by (simp add: get_msgpack_string_def g c Let_def del: char_nat_of_byte)
    moreover have "msgpack_switch f (160 + length t) r1 = msgpack_string_value r1" for f r1
      using 1 by (simp add: msgpack_switch_def)
    ultimately show ?thesis using rd_string_at [OF g(1), of Format_msgpack] t c by metis
  next
    case 2
    then have "msgpack_string t = CHR 0xD9 # write_number 1 (length t) @ t"
      by (simp add: msgpack_string_def msgpack_string_header_def)
    then show ?thesis using sized [of "CHR 0xD9" 1] 2
      by (simp add: get_msgpack_string_def msgpack_switches byte_values Let_def)
  next
    case 3
    then have "msgpack_string t = CHR 0xDA # write_number 2 (length t) @ t"
      by (simp add: msgpack_string_def msgpack_string_header_def)
    then show ?thesis using sized [of "CHR 0xDA" 2] 3
      by (simp add: get_msgpack_string_def msgpack_switches byte_values Let_def)
  next
    case 4
    then have "msgpack_string t = CHR 0xDB # write_number 4 (length t) @ t"
      by (simp add: msgpack_string_def msgpack_string_header_def)
    then show ?thesis using sized [of "CHR 0xDB" 4] 4
      by (simp add: get_msgpack_string_def msgpack_switches byte_values Let_def)
  qed
  then show "\<exists>r'. get_msgpack_string (rd_get r) = Inr (t, r') \<and> rd_at r' s d"
    and "\<exists>c u. msgpack_string t = c # u \<and> (\<forall>f r1. msgpack_switch f (char_nat c) r1 = msgpack_string_value r1)"
    by blast+
qed

lemma rd_ext_at:
  assumes "rd_at r (write_number 1 t @ bs @ s) d"
  shows "\<exists>r'. rd_ext (length bs) r = Inr (JBinary bs (Some (t mod 256)), r') \<and> rd_at r' s d"
proof -
  have "rd_at r (write_number 1 (t mod 256) @ bs @ s) d" using assms by simp
  then obtain r1 where 1: "rd_number Format_msgpack 1 r = Inr (t mod 256, r1)" "rd_at r1 (bs @ s) d"
    using rd_number_at [of r 1 "t mod 256" "bs @ s" d] by auto
  obtain r' where "rd_binary Format_msgpack (length bs) r1 = Inr (bs, r')" "rd_at r' s d" using rd_binary_at [OF 1(2)] by blast
  then show ?thesis using 1 by (simp add: rd_ext_def)
qed

lemma rd_sized_ext_at:
  assumes "rd_at r (write_number k (length bs) @ write_number 1 t @ bs @ s) d" and "length bs < 256 ^ k"
  shows "\<exists>r'. rd_sized_ext k r = Inr (JBinary bs (Some (t mod 256)), r') \<and> rd_at r' s d"
proof -
  obtain r1 where 1: "rd_number Format_msgpack k r = Inr (length bs, r1)" "rd_at r1 (write_number 1 t @ bs @ s) d"
    using rd_number_at [OF assms] by blast
  then show ?thesis using rd_ext_at [OF 1(2)] by (simp add: rd_sized_ext_def)
qed

lemma rd_bin_at:
  assumes "rd_at r (write_number k (length bs) @ bs @ s) d" and "length bs < 256 ^ k"
  shows "\<exists>r'. rd_bin k r = Inr (JBinary bs None, r') \<and> rd_at r' s d"
  using rd_sized_binary_at [OF assms, of Format_msgpack] by (auto simp: rd_bin_def)

lemma parse_binary_byte:
  assumes "rd_at r (c # u) d" and "\<And>f r1. msgpack_switch f (char_nat c) r1 = msgpack_binary_value (char_nat c) r1"
    and "\<And>r1. rd_at r1 u d \<Longrightarrow> \<exists>r'. get_msgpack_binary (char_nat c) r1 = Inr (v, r') \<and> rd_at r' s d"
  shows "\<exists>r'. parse_msgpack_internal (Suc depth) r = rd_sax v r' \<and> rd_at r' s d"
proof -
  obtain r1 where 1: "parse_msgpack_internal (Suc depth) r = msgpack_binary_value (char_nat c) r1" "rd_at r1 u d"
    using parse_switch [OF assms(1), of depth] assms(2) by metis
  then show ?thesis using assms(3) [OF 1(2)] by (auto simp: msgpack_binary_value_def)
qed

lemma parse_ext:
  assumes "rd_at r (msgpack_binary bs (Some t) @ s) d" and "length bs < 2 ^ 32"
  shows "\<exists>r'. parse_msgpack_internal (Suc depth) r = rd_sax (JBinary bs (Some (t mod 256))) r' \<and> rd_at r' s d"
proof -
  let ?v = "JBinary bs (Some (t mod 256))"
  have fixed: "\<exists>r'. parse_msgpack_internal (Suc depth) r = rd_sax ?v r' \<and> rd_at r' s d"
    if "msgpack_binary_header True (length bs) = [c]"
      "\<And>f r1. msgpack_switch f (char_nat c) r1 = msgpack_binary_value (char_nat c) r1"
      "\<And>r1. get_msgpack_binary (char_nat c) r1 = rd_ext (length bs) r1" for c
    using parse_binary_byte [of r c "write_number 1 t @ bs @ s" d ?v s depth] assms(1) that rd_ext_at
    by (simp add: msgpack_binary_def del: write_number_1)
  have sized: "\<exists>r'. parse_msgpack_internal (Suc depth) r = rd_sax ?v r' \<and> rd_at r' s d"
    if "msgpack_binary_header True (length bs) = c # write_number k (length bs)" "length bs < 256 ^ k"
      "\<And>f r1. msgpack_switch f (char_nat c) r1 = msgpack_binary_value (char_nat c) r1"
      "\<And>r1. get_msgpack_binary (char_nat c) r1 = rd_sized_ext k r1" for c k
    using parse_binary_byte [of r c "write_number k (length bs) @ write_number 1 t @ bs @ s" d ?v s depth]
      assms(1) that rd_sized_ext_at
    by (simp add: msgpack_binary_def del: write_number_1)
  consider "length bs = 1" | "length bs = 2" | "length bs = 4" | "length bs = 8" | "length bs = 16"
    | "length bs \<notin> {1, 2, 4, 8, 16}" "length bs \<le> 0xFF" | "0xFF < length bs" "length bs \<le> 0xFFFF"
    | "0xFFFF < length bs" "length bs \<le> 0xFFFFFFFF" using assms(2) by fastforce
  then show ?thesis
  proof cases
    case 1
    then show ?thesis using fixed [of "CHR 0xD4"]
      by (simp add: msgpack_binary_header_def get_msgpack_binary_def msgpack_switches byte_values)
  next
    case 2
    then show ?thesis using fixed [of "CHR 0xD5"]
      by (simp add: msgpack_binary_header_def get_msgpack_binary_def msgpack_switches byte_values)
  next
    case 3
    then show ?thesis using fixed [of "CHR 0xD6"]
      by (simp add: msgpack_binary_header_def get_msgpack_binary_def msgpack_switches byte_values)
  next
    case 4
    then show ?thesis using fixed [of "CHR 0xD7"]
      by (simp add: msgpack_binary_header_def get_msgpack_binary_def msgpack_switches byte_values)
  next
    case 5
    then show ?thesis using fixed [of "CHR 0xD8"]
      by (simp add: msgpack_binary_header_def get_msgpack_binary_def msgpack_switches byte_values)
  next
    case 6
    then show ?thesis using sized [of "CHR 0xC7" 1]
      by (simp add: msgpack_binary_header_def get_msgpack_binary_def msgpack_switches byte_values)
  next
    case 7
    then show ?thesis using sized [of "CHR 0xC8" 2]
      by (simp add: msgpack_binary_header_def get_msgpack_binary_def msgpack_switches byte_values)
  next
    case 8
    then show ?thesis using sized [of "CHR 0xC9" 4]
      by (simp add: msgpack_binary_header_def get_msgpack_binary_def msgpack_switches byte_values)
  qed
qed

lemma parse_plain_binary:
  assumes "rd_at r (msgpack_binary bs None @ s) d" and "length bs < 2 ^ 32"
  shows "\<exists>r'. parse_msgpack_internal (Suc depth) r = rd_sax (JBinary bs None) r' \<and> rd_at r' s d"
proof -
  have sized: "\<exists>r'. parse_msgpack_internal (Suc depth) r = rd_sax (JBinary bs None) r' \<and> rd_at r' s d"
    if "msgpack_binary_header False (length bs) = c # write_number k (length bs)" "length bs < 256 ^ k"
      "\<And>f r1. msgpack_switch f (char_nat c) r1 = msgpack_binary_value (char_nat c) r1"
      "\<And>r1. get_msgpack_binary (char_nat c) r1 = rd_bin k r1" for c k
    using parse_binary_byte [of r c "write_number k (length bs) @ bs @ s" d "JBinary bs None" s depth]
      assms(1) that rd_bin_at
    by (simp add: msgpack_binary_def del: write_number_1)
  consider "length bs \<le> 0xFF" | "0xFF < length bs" "length bs \<le> 0xFFFF"
    | "0xFFFF < length bs" "length bs \<le> 0xFFFFFFFF" using assms(2) by fastforce
  then show ?thesis
  proof cases
    case 1
    then show ?thesis using sized [of "CHR 0xC4" 1]
      by (simp add: msgpack_binary_header_def get_msgpack_binary_def msgpack_switches byte_values)
  next
    case 2
    then show ?thesis using sized [of "CHR 0xC5" 2]
      by (simp add: msgpack_binary_header_def get_msgpack_binary_def msgpack_switches byte_values)
  next
    case 3
    then show ?thesis using sized [of "CHR 0xC6" 4]
      by (simp add: msgpack_binary_header_def get_msgpack_binary_def msgpack_switches byte_values)
  qed
qed

section \<open>Container headers\<close>

lemma parse_sized:
  assumes "rd_at r (c # write_number k n @ s) d" and "n < 256 ^ k"
    and "\<And>f r1. msgpack_switch f (char_nat c) r1 = rd_sized Format_msgpack k (g f) r1"
  shows "\<exists>r1. parse_msgpack_internal (Suc depth) r = g (parse_msgpack_internal depth) n r1 \<and> rd_at r1 s d"
proof -
  obtain r1 where 1: "parse_msgpack_internal (Suc depth) r = rd_sized Format_msgpack k (g (parse_msgpack_internal depth)) r1"
    "rd_at r1 (write_number k n @ s) d" using parse_switch [OF assms(1), of depth] assms(3) by metis
  obtain r2 where "rd_number Format_msgpack k r1 = Inr (n, r2)" "rd_at r2 s d" using rd_number_at [OF 1(2) assms(2)] by blast
  then show ?thesis using 1 by (auto simp: rd_sized_def)
qed

lemma parse_fixed:
  assumes "rd_at r (char_of b # s) d" and "b < 256"
    and "\<And>f r1. msgpack_switch f b r1 = g f n r1"
  shows "\<exists>r1. parse_msgpack_internal (Suc depth) r = g (parse_msgpack_internal depth) n r1 \<and> rd_at r1 s d"
proof -
  have "char_nat (char_of b) = b" using assms(2) by simp
  then show ?thesis using parse_switch [OF assms(1), of depth] assms(3) by metis
qed

lemma parse_array_header:
  assumes "rd_at r (msgpack_array_header n @ s) d" and "n < 2 ^ 32"
  shows "\<exists>r1. parse_msgpack_internal (Suc depth) r = get_msgpack_array (parse_msgpack_internal depth) n r1 \<and> rd_at r1 s d"
proof -
  consider "n \<le> 15" | "15 < n" "n \<le> 0xFFFF" | "0xFFFF < n" "n \<le> 0xFFFFFFFF" using assms(2) by fastforce
  then show ?thesis
  proof cases
    case 1
    then have "rd_at r (char_of (144 + n) # s) d"
      using assms(1) nibbles [OF 1] by (simp add: msgpack_array_header_def del: One_nat_def)
    then show ?thesis using 1 nibbles [OF 1]
      by (intro parse_fixed [of r "144 + n"]) (simp_all add: msgpack_switch_def)
  next
    case 2
    then show ?thesis using assms(1)
      by (intro parse_sized [of r "CHR 0xDC" 2]) (simp_all add: msgpack_array_header_def msgpack_switches byte_values)
  next
    case 3
    then show ?thesis using assms(1)
      by (intro parse_sized [of r "CHR 0xDD" 4]) (simp_all add: msgpack_array_header_def msgpack_switches byte_values)
  qed
qed

lemma parse_object_header:
  assumes "rd_at r (msgpack_object_header n @ s) d" and "n < 2 ^ 32"
  shows "\<exists>r1. parse_msgpack_internal (Suc depth) r = get_msgpack_object (parse_msgpack_internal depth) n r1 \<and> rd_at r1 s d"
proof -
  consider "n \<le> 15" | "15 < n" "n \<le> 0xFFFF" | "0xFFFF < n" "n \<le> 0xFFFFFFFF" using assms(2) by fastforce
  then show ?thesis
  proof cases
    case 1
    then have "rd_at r (char_of (128 + n) # s) d"
      using assms(1) nibbles [OF 1] by (simp add: msgpack_object_header_def del: One_nat_def)
    then show ?thesis using 1 nibbles [OF 1]
      by (intro parse_fixed [of r "128 + n"]) (simp_all add: msgpack_switch_def)
  next
    case 2
    then show ?thesis using assms(1)
      by (intro parse_sized [of r "CHR 0xDE" 2]) (simp_all add: msgpack_object_header_def msgpack_switches byte_values)
  next
    case 3
    then show ?thesis using assms(1)
      by (intro parse_sized [of r "CHR 0xDF" 4]) (simp_all add: msgpack_object_header_def msgpack_switches byte_values)
  qed
qed

section \<open>The round trip\<close>

text \<open>The value that comes back: a non-negative integer is unsigned, a subtype a byte.\<close>

fun msgpack_image :: "json \<Rightarrow> json" where
  "msgpack_image (JInteger i) = (if 0 \<le> sint i then JUnsigned i else JInteger i)"
| "msgpack_image (JBinary bytes subtype) = JBinary bytes (map_option (\<lambda>t. t mod 256) subtype)"
| "msgpack_image (JArray xs) = JArray (map msgpack_image xs)"
| "msgpack_image (JObject kvs) = JObject (map (\<lambda>kv. (fst kv, msgpack_image (snd kv))) kvs)"
| "msgpack_image j = j"

lemma msgpack_scalar:
  assumes "binary_ok j" and "\<not> is_container j" and at: "rd_at r (write_msgpack j @ s) d"
  shows "\<exists>r'. parse_msgpack_internal (Suc depth) r = rd_sax (msgpack_image j) r' \<and> rd_at r' s d"
proof (cases j)
  case JNull
  then show ?thesis using at parse_byte [of r "CHR 0xC0" s d JNull depth] by (simp add: msgpack_switches byte_values)
next
  case (JBoolean b)
  then show ?thesis using at parse_byte [of r "if b then CHR 0xC3 else CHR 0xC2" s d j depth]
    by (cases b) (simp_all add: msgpack_switches byte_values)
next
  case (JInteger i)
  then show ?thesis using at parse_integer [of r i s d depth] by simp
next
  case (JUnsigned u)
  then show ?thesis using at parse_unsigned [of r "unat u" s d depth] unsigned_less [of u, where ?'a = nat] by simp
next
  case (JFloat x)
  then show ?thesis using at assms(1) parse_float [of r x s d depth] by simp
next
  case (JString t)
  then have t: "rd_at r (msgpack_string t @ s) d" "length t < 2 ^ 32" using at assms(1) by simp_all
  obtain c u where c: "msgpack_string t = c # u" "\<And>f r1. msgpack_switch f (char_nat c) r1 = msgpack_string_value r1"
    using get_string_at(2) [OF t] by blast
  have g: "rd_current (rd_get r) = Some c" using rd_at_get [of r c "u @ s" d] t(1) c(1) by simp
  then have "parse_msgpack_internal (Suc depth) r = msgpack_string_value (rd_get r)"
    by (simp add: parse_msgpack_internal.simps Let_def c(2))
  then show ?thesis using get_string_at(1) [OF t] JString by (auto simp: msgpack_string_value_def)
next
  case (JBinary bs t)
  then show ?thesis using at assms(1) parse_ext [of r bs _ s d depth] parse_plain_binary [of r bs s d depth]
    by (cases t) simp_all
qed (use assms in auto)

interpretation mp: binary_codec write_msgpack msgpack_image msgpack_string msgpack_array_header msgpack_object_header
  parse_msgpack_internal "\<lambda>depth. get_msgpack_string"
proof unfold_locales
  fix j r s d depth
  assume "binary_ok j" "\<not> is_container j" "rd_at r (write_msgpack j @ s) d"
  then show "\<exists>r'. parse_msgpack_internal (Suc depth) r = rd_sax (msgpack_image j) r' \<and> rd_at r' s d"
    by (rule msgpack_scalar)
next
  fix n r s d depth
  assume "n < 2 ^ 32" "rd_at r (msgpack_array_header n @ s) d"
  then show "\<exists>r'. parse_msgpack_internal (Suc depth) r
      = rd_array n (rd_elements (parse_msgpack_internal depth) n) r' \<and> rd_at r' s d"
    using parse_array_header [of r n s d depth] by (simp add: get_msgpack_array_def)
next
  fix n r s d depth
  assume "n < 2 ^ 32" "rd_at r (msgpack_object_header n @ s) d"
  then show "\<exists>r'. parse_msgpack_internal (Suc depth) r
      = rd_object n (rd_members get_msgpack_string (parse_msgpack_internal depth) n) r' \<and> rd_at r' s d"
    using parse_object_header [of r n s d depth] by (simp add: get_msgpack_object_def)
qed (use get_string_at(1) in simp_all)

text \<open>
  C12: Reading what \<^verbatim>\<open>to_msgpack\<close> wrote gives the value back, with enough stack for its depth: the reader
  consumes all of the text, in the strict mode and in the other; a non-negative integer comes back as
  an unsigned one, and the subtype of a binary as a byte.
\<close>

theorem msgpack_roundtrip:
  assumes "binary_ok j" and "json_depth j < depth"
  shows "from_msgpack depth strict (to_msgpack j) = Inr (msgpack_image j)"
  using mp.roundtrip [OF assms] by (simp add: from_msgpack_def to_msgpack_def)

theorem msgpack_roundtrip_witness:
  "from_msgpack 2 True (to_msgpack (JObject [(''a'', JArray []), (''b'', JInteger 5), (''c'', JBinary ''x'' (Some 300))]))
     = Inr (JObject [(''a'', JArray []), (''b'', JUnsigned 5), (''c'', JBinary ''x'' (Some 44))])"
  using msgpack_roundtrip [of "JObject [(''a'', JArray []), (''b'', JInteger 5), (''c'', JBinary ''x'' (Some 300))]" 2 True]
  by simp

section \<open>Any input\<close>

interpretation mpe: error_class reader_error
  by unfold_locales

lemma keeps_strings: "keeps r (get_msgpack_string r)"
  using keeps_sized keeps_string
  by (auto simp: get_msgpack_string_def Let_def keeps_Inl reader_errorI split: option.splits)

lemma msgpack_key: "key_below n get_msgpack_string"
  unfolding key_below_def
proof (intro allI impI conjI)
  fix r x r1
  show "keeps r (get_msgpack_string (rd_get r))" using keeps_strings by (rule keeps_get)
  assume g: "get_msgpack_string (rd_get r) = Inr (x, r1)"
  then obtain c where "rd_current (rd_get r) = Some c"
    by (cases "rd_current (rd_get r)") (auto simp: get_msgpack_string_def)
  then have "rd_left (rd_get r) < rd_left r" by (rule rd_get_left)
  then show "rd_left r1 < rd_left r" using keeps_strings [of "rd_get r"] g by (simp add: keeps_def)
qed

lemma keeps_ext: "keeps r (rd_ext n r)" "keeps r (rd_sized_ext k r)" "keeps r (rd_bin k r)"
proof -
  show e: "keeps r (rd_ext n r)" for n r
    unfolding rd_ext_def by (intro keeps_bind keeps_number keeps_string keeps_Inr)
  show "keeps r (rd_sized_ext k r)" unfolding rd_sized_ext_def by (intro keeps_bind keeps_number e)
  show "keeps r (rd_bin k r)" unfolding rd_bin_def by (intro keeps_bind keeps_sized keeps_Inr)
qed

lemma keeps_binary:
  assumes "0xC4 \<le> b \<and> b \<le> 0xC9 \<or> 0xD4 \<le> b \<and> b \<le> 0xD8"
  shows "keeps r (get_msgpack_binary b r)"
proof -
  have "b \<in> {0xC4, 0xC5, 0xC6, 0xC7, 0xC8, 0xC9, 0xD4, 0xD5, 0xD6, 0xD7, 0xD8}" using assms by auto
  then show ?thesis using keeps_ext by (auto simp: get_msgpack_binary_def)
qed

lemma msgpack_binary_wf: "get_msgpack_binary b r = Inr (v, r') \<Longrightarrow> json_wf v"
  by (auto simp: get_msgpack_binary_def rd_bin_def rd_sized_ext_def rd_ext_def split: if_splits sum.splits)

lemma msgpack_array_ends:
  assumes "mpe.reads_below n f" and "slot (rd_dom r) q F" and "rd_left r < n" and "len < 2 ^ 32"
  shows "mpe.ends (value_inv F (dom_stack (rd_dom r))) (Suc (rd_left r)) (get_msgpack_array f len r)"
  unfolding get_msgpack_array_def
proof (rule mpe.array_ends [OF assms(2)])
  fix r1
  assume "array_inv F (q # dom_stack (rd_dom r)) (rd_dom r1)" "rd_left r1 = rd_left r"
  then show "mpe.ends (array_inv F (q # dom_stack (rd_dom r))) (Suc (rd_left r1)) (rd_elements f len r1)"
    using assms(3) by (intro mpe.elements_end [OF mpe.element_step [OF assms(1) slot_laws [OF assms(2)]]]) simp_all
qed (use assms(4) in \<open>simp add: array_max_size_def\<close>)

lemma msgpack_object_ends:
  assumes "mpe.reads_below n f" and "slot (rd_dom r) q F" and "rd_left r < n" and "len < 2 ^ 32"
  shows "mpe.ends (value_inv F (dom_stack (rd_dom r))) (Suc (rd_left r)) (get_msgpack_object f len r)"
  unfolding get_msgpack_object_def
proof (rule mpe.object_ends [OF assms(2)])
  fix r1
  assume "object_inv F (q # dom_stack (rd_dom r)) (rd_dom r1)" "rd_left r1 = rd_left r"
  then show "mpe.ends (object_inv F (q # dom_stack (rd_dom r))) (Suc (rd_left r1)) (rd_members get_msgpack_string f len r1)"
    using assms(3) unfolding mpe.members_as_elements
    by (intro mpe.elements_end [OF mpe.member_step [OF mpe.reads_below_upto [OF assms(1)] slot_laws [OF assms(2)] msgpack_key]]) simp_all
qed (use assms(4) in \<open>simp add: object_max_size_def\<close>)

lemma msgpack_switch_ends:
  assumes f: "mpe.reads_below n f" and slot: "slot (rd_dom r) q F" and n: "rd_left r < n"
  shows "mpe.ends (value_inv F (dom_stack (rd_dom r))) (Suc (rd_left r)) (msgpack_switch f b r)"
proof -
  let ?S = "mpe.ends (value_inv F (dom_stack (rd_dom r))) (Suc (rd_left r))"
  have small: "b AND 15 < 2 ^ 32" proof -
    have "b AND 15 = b mod 16" using take_bit_eq_mask [of 4 b] by (simp add: take_bit_eq_mod mask_numeral)
    then show ?thesis using mod_less_divisor [of 16 b] by simp
  qed
  have arr: "?S (rd_sized Format_msgpack k (get_msgpack_array f) r)" if "k \<le> 4" for k
    unfolding rd_sized_def
  proof (rule mpe.ends_bind [OF keeps_number])
    fix len r1
    assume "rd_number Format_msgpack k r = Inr (len, r1)" "rd_dom r1 = rd_dom r" "rd_left r1 \<le> rd_left r"
    moreover from this have "len < 256 ^ k" by (intro rd_number_less)
    then have "len < 2 ^ 32" using that power_increasing [of k 4 "256 :: nat"] by simp
    ultimately show "mpe.ends (value_inv F (dom_stack (rd_dom r))) (Suc (rd_left r1)) (get_msgpack_array f len r1)"
      using msgpack_array_ends [OF f, of r1 q F len] slot n by simp
  qed
  have obj: "?S (rd_sized Format_msgpack k (get_msgpack_object f) r)" if "k \<le> 4" for k
    unfolding rd_sized_def
  proof (rule mpe.ends_bind [OF keeps_number])
    fix len r1
    assume "rd_number Format_msgpack k r = Inr (len, r1)" "rd_dom r1 = rd_dom r" "rd_left r1 \<le> rd_left r"
    moreover from this have "len < 256 ^ k" by (intro rd_number_less)
    then have "len < 2 ^ 32" using that power_increasing [of k 4 "256 :: nat"] by simp
    ultimately show "mpe.ends (value_inv F (dom_stack (rd_dom r))) (Suc (rd_left r1)) (get_msgpack_object f len r1)"
      using msgpack_object_ends [OF f, of r1 q F len] slot n by simp
  qed
  have str: "?S (msgpack_string_value r)"
    unfolding msgpack_string_value_def
  proof (rule mpe.ends_bind [OF keeps_strings])
    fix t and r1 :: binary_reader
    assume "rd_dom r1 = rd_dom r"
    then show "mpe.ends (value_inv F (dom_stack (rd_dom r))) (Suc (rd_left r1)) (rd_sax (JString t) r1)"
      using mpe.sax_ends [of r1 q F "JString t"] slot by simp
  qed
  have bin: "?S (msgpack_binary_value b r)" if "0xC4 \<le> b \<and> b \<le> 0xC9 \<or> 0xD4 \<le> b \<and> b \<le> 0xD8"
    unfolding msgpack_binary_value_def
  proof (rule mpe.ends_bind [OF keeps_binary [OF that]])
    fix v r1
    assume "get_msgpack_binary b r = Inr (v, r1)" "rd_dom r1 = rd_dom r"
    then show "mpe.ends (value_inv F (dom_stack (rd_dom r))) (Suc (rd_left r1)) (rd_sax v r1)"
      using mpe.sax_ends [of r1 q F v] slot msgpack_binary_wf by simp
  qed
  have err: "?S (Inl (rd_error Format_msgpack 112 m ctx r))" for m ctx by (simp add: reader_errorI)
  have branch: "?S (if c then x else y)" if "c \<Longrightarrow> ?S x" "?S y" for c x y using that by simp
  show ?thesis
    unfolding msgpack_switch_def
    by (intro branch mpe.sax_ends [OF slot] mpe.number_ends [OF slot] arr obj str bin err
        msgpack_array_ends [OF f slot n small] msgpack_object_ends [OF f slot n small])
      (simp_all add: signed_value_def)
qed

lemma msgpack_parse_below: "mpe.reads_below n (parse_msgpack_internal n)"
proof (induction n)
  case 0
  then show ?case by (simp add: mpe.reads_below_def)
next
  case (Suc n)
  show ?case
    unfolding mpe.reads_below_def
  proof (intro allI impI)
    fix r q F
    assume slot: "slot (rd_dom r) q F" and n: "rd_left r < Suc n"
    show "mpe.ends (value_inv F (dom_stack (rd_dom r))) (rd_left r) (parse_msgpack_internal (Suc n) r)"
    proof (cases "rd_current (rd_get r)")
      case None
      then show ?thesis by (simp add: parse_msgpack_internal.simps Let_def reader_errorI)
    next
      case (Some c)
      then have less: "rd_left (rd_get r) < rd_left r" by (rule rd_get_left)
      have "mpe.ends (value_inv F (dom_stack (rd_dom r))) (Suc (rd_left (rd_get r)))
          (msgpack_switch (parse_msgpack_internal n) (char_nat c) (rd_get r))"
        using msgpack_switch_ends [OF Suc.IH, of "rd_get r" q F "char_nat c"] slot n less by (simp add: rd_get_left(1))
      then show ?thesis using Some less mpe.ends_mono [of _ "Suc (rd_left (rd_get r))" _ "rd_left r"]
        by (simp add: parse_msgpack_internal.simps Let_def)
    qed
  qed
qed

text \<open>One byte per level of nesting is enough to exhaust the stack.\<close>

lemma nested_overflow:
  assumes "rd_at r (replicate n (CHR 0x91) @ s) d" and "slot d q F"
  shows "parse_msgpack_internal n r = Inl (Undefined_behaviour ''stack overflow'')"
  using assms
proof (induction n arbitrary: r d q F)
  case 0
  show ?case by (simp add: parse_msgpack_internal.simps)
next
  case (Suc n)
  let ?d = "d\<lparr>dom_root := F (JArray []), dom_stack := q # dom_stack d\<rparr>"
  have "char_nat CHR 0x91 = 145" by (simp add: char_nat_def)
  then have "char_of (145 :: nat) = CHR 0x91" using char_of_char_nat [of "CHR 0x91"] by simp
  then have "msgpack_array_header 1 = [CHR 0x91]"
    using nibbles [of 1] by (simp add: msgpack_array_header_def del: One_nat_def)
  then obtain r1 where 1: "parse_msgpack_internal (Suc n) r = rd_array 1 (rd_elements (parse_msgpack_internal n) 1) r1"
    "rd_at r1 (replicate n (CHR 0x91) @ s) d"
    using mp.parse_array [of 1 r "replicate n (CHR 0x91) @ s" d n] Suc.prems(1) by auto
  obtain r2 where 2: "rd_start_array 1 r1 = Inr r2" "rd_at r2 (replicate n (CHR 0x91) @ s) ?d"
    using rd_start_array_at [OF 1(2) Suc.prems(2), of 1] by (auto simp: array_max_size_def)
  have "slot ?d (q @ [Index 0]) (\<lambda>v. F (JArray [v]))"
    using slot_element [OF slotD(2,3) [OF Suc.prems(2)], of ?d "dom_stack d" "[]"] by simp
  then have "parse_msgpack_internal n r2 = Inl (Undefined_behaviour ''stack overflow'')"
    using Suc.IH 2(2) by blast
  then show ?case using 1(1) 2(1) by (simp add: rd_array_def)
qed

text \<open>
  C9: The reader recurses at most once per byte of the input: with more stack than that it returns, for
  every input, a well formed value or a parse error with one of its three numbers, and no assertion
  of the handler fails; and no smaller stack is enough for every input, since a run of arrays of one
  element takes a level of the stack per byte.
\<close>

theorem msgpack_stack:
  "(length input < depth \<longrightarrow>
      (case from_msgpack depth strict input of Inl e \<Rightarrow> reader_error e | Inr j \<Rightarrow> json_wf j))
    \<and> from_msgpack n strict (replicate n (CHR 0x91) @ s) = Inl (Undefined_behaviour ''stack overflow'')"
proof
  show "length input < depth \<longrightarrow>
      (case from_msgpack depth strict input of Inl e \<Rightarrow> reader_error e | Inr j \<Rightarrow> json_wf j)"
    unfolding from_msgpack_def using mpe.parse_ends [OF msgpack_parse_below] by blast
  have slot: "slot (new_dom JNull) [] (\<lambda>v. v)" by (rule slot_top) (simp add: new_dom_def)
  have "rd_at (new_reader (replicate n (CHR 0x91) @ s)) (replicate n (CHR 0x91) @ s) (new_dom JNull)"
    by (simp add: rd_at_def new_reader_def)
  then have "parse_msgpack_internal n (new_reader (replicate n (CHR 0x91) @ s)) = Inl (Undefined_behaviour ''stack overflow'')"
    using slot by (rule nested_overflow)
  then show "from_msgpack n strict (replicate n (CHR 0x91) @ s) = Inl (Undefined_behaviour ''stack overflow'')"
    by (simp add: from_msgpack_def binary_sax_parse_def)
qed

theorem msgpack_stack_witness:
  "(case from_msgpack 3 True [CHR 0x91, CHR 0xC0] of Inl e \<Rightarrow> reader_error e | Inr j \<Rightarrow> json_wf j)
    \<and> from_msgpack 2 True (replicate 2 (CHR 0x91) @ []) = Inl (Undefined_behaviour ''stack overflow'')"
  using msgpack_stack [of "[CHR 0x91, CHR 0xC0]" 3 True 2 "[]"] by simp

end
