(* ===== verification/Cbor.thy ===== *)
theory Cbor
  imports Binary_Format
begin

text \<open>
  The CBOR format of \<^verbatim>\<open>include/nlohmann/json.hpp\<close>: \<^verbatim>\<open>binary_writer::write_cbor\<close> and the part of
  \<^verbatim>\<open>class binary_reader\<close> that reads the format. As in \<open>Msgpack\<close> the reader takes the depth of
  the call stack, counted in levels of nesting. A loop that ends at the byte \<^verbatim>\<open>0xFF\<close> is given as many
  turns as there are bytes left, and one more: a turn that does not fail consumes a byte.
\<close>

section \<open>Writing\<close>

text \<open>
  The first bytes of an item: the type in the high bits, and a number of up to 23 in the low ones, or
  the number of bytes that hold it.
\<close>

definition cbor_header :: "nat \<Rightarrow> nat \<Rightarrow> string" where
  "cbor_header base n =
     (if n \<le> 0x17 then write_number 1 (base + n)
      else if n \<le> 0xFF then char_of (base + 0x18) # write_number 1 n
      else if n \<le> 0xFFFF then char_of (base + 0x19) # write_number 2 n
      else if n \<le> 0xFFFFFFFF then char_of (base + 0x1A) # write_number 4 n
      else char_of (base + 0x1B) # write_number 8 n)"

definition cbor_integer :: "int \<Rightarrow> string" where
  "cbor_integer i = (if 0 \<le> i then cbor_header 0 (nat i) else cbor_header 0x20 (nat (- 1 - i)))"

definition cbor_float :: "double \<Rightarrow> string" where
  "cbor_float d =
     (case d of
        Double_nan s f \<Rightarrow> [CHR 0xF9, CHR 0x7E, CHR 0x00]
      | Double_inf s \<Rightarrow> [CHR 0xF9, if s then CHR 0xFC else CHR 0x7C, CHR 0x00]
      | Double_fin s m e \<Rightarrow> write_compact_float Format_cbor d)"

definition cbor_string :: "string \<Rightarrow> string" where
  "cbor_string s = cbor_header 0x60 (length s) @ s"

definition cbor_tag :: "nat \<Rightarrow> string" where
  "cbor_tag t =
     (if t \<le> 0xFF then CHR 0xD8 # write_number 1 t
      else if t \<le> 0xFFFF then CHR 0xD9 # write_number 2 t
      else if t \<le> 0xFFFFFFFF then CHR 0xDA # write_number 4 t
      else CHR 0xDB # write_number 8 t)"

definition cbor_binary :: "string \<Rightarrow> nat option \<Rightarrow> string" where
  "cbor_binary bytes subtype =
     (case subtype of None \<Rightarrow> [] | Some t \<Rightarrow> cbor_tag t) @ cbor_header 0x40 (length bytes) @ bytes"

fun write_cbor :: "json \<Rightarrow> string" where
  "write_cbor JNull = [CHR 0xF6]"
| "write_cbor (JBoolean b) = [if b then CHR 0xF5 else CHR 0xF4]"
| "write_cbor (JInteger i) = cbor_integer (sint i)"
| "write_cbor (JUnsigned u) = cbor_header 0 (unat u)"
| "write_cbor (JFloat d) = cbor_float d"
| "write_cbor (JString s) = cbor_string s"
| "write_cbor (JArray xs) = cbor_header 0x80 (length xs) @ concat (map write_cbor xs)"
| "write_cbor (JBinary bytes subtype) = cbor_binary bytes subtype"
| "write_cbor (JObject kvs) =
     cbor_header 0xA0 (length kvs) @ concat (map (\<lambda>kv. cbor_string (fst kv) @ write_cbor (snd kv)) kvs)"
| "write_cbor JDiscarded = []"

definition to_cbor :: "json \<Rightarrow> string" where
  "to_cbor j = write_cbor j"

section \<open>Strings and binaries\<close>

definition at_break :: "binary_reader \<Rightarrow> bool" where
  "at_break r \<longleftrightarrow> rd_current r = Some CHR 0xFF"

text \<open>The chunks of a string of indefinite length; \<open>g\<close> reads one, whose first byte was read.\<close>

fun rd_chunks ::
  "(binary_reader \<Rightarrow> (string \<times> binary_reader) outcome) \<Rightarrow> nat \<Rightarrow> binary_reader \<Rightarrow> (string \<times> binary_reader) outcome" where
  "rd_chunks g 0 r = Inl (Undefined_behaviour ''out of turns'')"
| "rd_chunks g (Suc n) r =
     (let r1 = rd_get r
      in if at_break r1 then Inr ([], r1)
         else case g r1 of
                Inl e \<Rightarrow> Inl e
              | Inr (chunk, r2) \<Rightarrow>
                  (case rd_chunks g n r2 of Inl e \<Rightarrow> Inl e | Inr (cs, r3) \<Rightarrow> Inr (chunk @ cs, r3)))"

fun get_cbor_string :: "nat \<Rightarrow> binary_reader \<Rightarrow> (string \<times> binary_reader) outcome" where
  "get_cbor_string 0 r = Inl (Undefined_behaviour ''stack overflow'')"
| "get_cbor_string (Suc depth) r =
     (case rd_current r of
        None \<Rightarrow> Inl (rd_eof_error Format_cbor ''string'' r)
      | Some c \<Rightarrow>
          (let b = char_nat c
           in if 0x60 \<le> b \<and> b \<le> 0x77 then rd_string Format_cbor (b AND 0x1F) r
              else if b = 0x78 then rd_sized_string Format_cbor 1 r
              else if b = 0x79 then rd_sized_string Format_cbor 2 r
              else if b = 0x7A then rd_sized_string Format_cbor 4 r
              else if b = 0x7B then rd_sized_string Format_cbor 8 r
              else if b = 0x7F then rd_chunks (get_cbor_string depth) (turns r) r
              else Inl (rd_error Format_cbor 113
                     (''expected length specification (0x60-0x7B) or indefinite string type (0x7F); last byte: 0x''
                        @ rd_token_string r) ''string'' r)))"

fun get_cbor_binary :: "nat \<Rightarrow> binary_reader \<Rightarrow> (string \<times> binary_reader) outcome" where
  "get_cbor_binary 0 r = Inl (Undefined_behaviour ''stack overflow'')"
| "get_cbor_binary (Suc depth) r =
     (case rd_current r of
        None \<Rightarrow> Inl (rd_eof_error Format_cbor ''binary'' r)
      | Some c \<Rightarrow>
          (let b = char_nat c
           in if 0x40 \<le> b \<and> b \<le> 0x57 then rd_binary Format_cbor (b AND 0x1F) r
              else if b = 0x58 then rd_sized_binary Format_cbor 1 r
              else if b = 0x59 then rd_sized_binary Format_cbor 2 r
              else if b = 0x5A then rd_sized_binary Format_cbor 4 r
              else if b = 0x5B then rd_sized_binary Format_cbor 8 r
              else if b = 0x5F then rd_chunks (get_cbor_binary depth) (turns r) r
              else Inl (rd_error Format_cbor 113
                     (''expected length specification (0x40-0x5B) or indefinite binary array type (0x5F); last byte: 0x''
                        @ rd_token_string r) ''binary'' r)))"

section \<open>Containers\<close>

text \<open>
  The loops of containers of indefinite length. \<open>f get_char\<close> reads a value, whose first byte was
  read if \<open>get_char\<close> is false.
\<close>

fun rd_elements_until ::
  "(binary_reader \<Rightarrow> binary_reader outcome) \<Rightarrow> nat \<Rightarrow> binary_reader \<Rightarrow> binary_reader outcome" where
  "rd_elements_until g 0 r = Inl (Undefined_behaviour ''out of turns'')"
| "rd_elements_until g (Suc n) r =
     (let r1 = rd_get r
      in if at_break r1 then Inr r1
         else case g r1 of Inl e \<Rightarrow> Inl e | Inr r2 \<Rightarrow> rd_elements_until g n r2)"

definition get_cbor_array ::
  "(bool \<Rightarrow> binary_reader \<Rightarrow> binary_reader outcome) \<Rightarrow> nat \<Rightarrow> binary_reader \<Rightarrow> binary_reader outcome" where
  "get_cbor_array f len r =
     rd_array len
       (if len \<noteq> unknown_size then rd_elements (f True) len
        else (\<lambda>r1. rd_elements_until (f False) (turns r1) r1)) r"

definition get_cbor_object ::
  "nat \<Rightarrow> (bool \<Rightarrow> binary_reader \<Rightarrow> binary_reader outcome) \<Rightarrow> nat \<Rightarrow> binary_reader \<Rightarrow> binary_reader outcome" where
  "get_cbor_object depth f len r =
     rd_object len
       (if len \<noteq> unknown_size then rd_members (get_cbor_string depth) (f True) len
        else (\<lambda>r1. rd_elements_until (rd_member (get_cbor_string depth) (f True)) (turns r1) r1)) r"

section \<open>Numbers of half precision\<close>

fun double_neg :: "double \<Rightarrow> double" where
  "double_neg (Double_inf s) = Double_inf (\<not> s)"
| "double_neg (Double_nan s f) = Double_nan (\<not> s) f"
| "double_neg (Double_fin s m e) = Double_fin (\<not> s) m e"

definition quiet_NaN :: double where
  "quiet_NaN = Double_nan False (2 ^ 51)"

definition half_to_double :: "nat \<Rightarrow> double" where
  "half_to_double half =
     (let ex = drop_bit 10 half AND 0x1F;
          mant = half AND 0x3FF;
          val = (if ex = 0 then norm_double False mant (- 24)
                 else if ex = 31 then (if mant = 0 then Double_inf False else quiet_NaN)
                 else norm_double False (mant + 1024) (int ex - 25))
      in if half AND 0x8000 \<noteq> 0 then double_neg val else val)"

section \<open>Tags\<close>

datatype cbor_tag_handler_t = Tag_error | Tag_ignore | Tag_store

text \<open>The number of bytes of the tag after the last byte read, none for a tag in the byte itself.\<close>

definition tag_bytes :: "nat \<Rightarrow> nat option" where
  "tag_bytes b =
     (if b = 0xD8 then Some 1 else if b = 0xD9 then Some 2 else if b = 0xDA then Some 4
      else if b = 0xDB then Some 8 else None)"

definition cbor_tagged ::
  "(binary_reader \<Rightarrow> binary_reader outcome) \<Rightarrow> nat \<Rightarrow> cbor_tag_handler_t \<Rightarrow> nat
     \<Rightarrow> binary_reader \<Rightarrow> binary_reader outcome" where
  "cbor_tagged f depth tags b r =
     (case tags of
        Tag_error \<Rightarrow> Inl (rd_error Format_cbor 112 (''invalid byte: 0x'' @ rd_token_string r) ''value'' r)
      | Tag_ignore \<Rightarrow>
          (case tag_bytes b of
             None \<Rightarrow> f r
           | Some k \<Rightarrow> (case rd_number Format_cbor k r of Inl e \<Rightarrow> Inl e | Inr (n, r1) \<Rightarrow> f r1))
      | Tag_store \<Rightarrow>
          (case tag_bytes b of
             None \<Rightarrow> f r
           | Some k \<Rightarrow>
               (case rd_number Format_cbor k r of
                  Inl e \<Rightarrow> Inl e
                | Inr (subtype, r1) \<Rightarrow>
                    (case get_cbor_binary depth (rd_get r1) of
                       Inl e \<Rightarrow> Inl e
                     | Inr (bs, r2) \<Rightarrow> rd_sax (JBinary bs (Some subtype)) r2))))"

section \<open>Values\<close>

definition cbor_string_value :: "nat \<Rightarrow> binary_reader \<Rightarrow> binary_reader outcome" where
  "cbor_string_value depth r =
     (case get_cbor_string depth r of Inl e \<Rightarrow> Inl e | Inr (s, r1) \<Rightarrow> rd_sax (JString s) r1)"

definition cbor_binary_value :: "nat \<Rightarrow> binary_reader \<Rightarrow> binary_reader outcome" where
  "cbor_binary_value depth r =
     (case get_cbor_binary depth r of Inl e \<Rightarrow> Inl e | Inr (bs, r1) \<Rightarrow> rd_sax (JBinary bs None) r1)"

text \<open>\<open>- 1 - n\<close> in the signed type.\<close>

definition negative_value :: "nat \<Rightarrow> json" where
  "negative_value n = JInteger (- 1 - of_nat n)"

definition cbor_switch ::
  "(bool \<Rightarrow> binary_reader \<Rightarrow> binary_reader outcome) \<Rightarrow> nat \<Rightarrow> cbor_tag_handler_t \<Rightarrow> nat
     \<Rightarrow> binary_reader \<Rightarrow> binary_reader outcome" where
  "cbor_switch f depth tags b r =
     (if b \<le> 0x17 then rd_sax (JUnsigned (of_nat b)) r
      else if b = 0x18 then rd_number_value Format_cbor 1 (\<lambda>n. JUnsigned (of_nat n)) r
      else if b = 0x19 then rd_number_value Format_cbor 2 (\<lambda>n. JUnsigned (of_nat n)) r
      else if b = 0x1A then rd_number_value Format_cbor 4 (\<lambda>n. JUnsigned (of_nat n)) r
      else if b = 0x1B then rd_number_value Format_cbor 8 (\<lambda>n. JUnsigned (of_nat n)) r
      else if 0x20 \<le> b \<and> b \<le> 0x37 then rd_sax (JInteger (of_int (0x20 - 1 - int b))) r
      else if b = 0x38 then rd_number_value Format_cbor 1 negative_value r
      else if b = 0x39 then rd_number_value Format_cbor 2 negative_value r
      else if b = 0x3A then rd_number_value Format_cbor 4 negative_value r
      else if b = 0x3B then rd_number_value Format_cbor 8 negative_value r
      else if 0x40 \<le> b \<and> b \<le> 0x5B \<or> b = 0x5F then cbor_binary_value depth r
      else if 0x60 \<le> b \<and> b \<le> 0x7B \<or> b = 0x7F then cbor_string_value depth r
      else if 0x80 \<le> b \<and> b \<le> 0x97 then get_cbor_array f (b AND 0x1F) r
      else if b = 0x98 then rd_sized Format_cbor 1 (get_cbor_array f) r
      else if b = 0x99 then rd_sized Format_cbor 2 (get_cbor_array f) r
      else if b = 0x9A then rd_sized Format_cbor 4 (get_cbor_array f) r
      else if b = 0x9B then rd_sized Format_cbor 8 (get_cbor_array f) r
      else if b = 0x9F then get_cbor_array f unknown_size r
      else if 0xA0 \<le> b \<and> b \<le> 0xB7 then get_cbor_object depth f (b AND 0x1F) r
      else if b = 0xB8 then rd_sized Format_cbor 1 (get_cbor_object depth f) r
      else if b = 0xB9 then rd_sized Format_cbor 2 (get_cbor_object depth f) r
      else if b = 0xBA then rd_sized Format_cbor 4 (get_cbor_object depth f) r
      else if b = 0xBB then rd_sized Format_cbor 8 (get_cbor_object depth f) r
      else if b = 0xBF then get_cbor_object depth f unknown_size r
      else if 0xC6 \<le> b \<and> b \<le> 0xD4 \<or> 0xD8 \<le> b \<and> b \<le> 0xDB then cbor_tagged (f True) depth tags b r
      else if b = 0xF4 then rd_sax (JBoolean False) r
      else if b = 0xF5 then rd_sax (JBoolean True) r
      else if b = 0xF6 then rd_sax JNull r
      else if b = 0xF9 then rd_number_value Format_cbor 2 (\<lambda>half. JFloat (half_to_double half)) r
      else if b = 0xFA then rd_number_value Format_cbor 4 (\<lambda>n. JFloat (float_of_bits n)) r
      else if b = 0xFB then rd_number_value Format_cbor 8 (\<lambda>n. JFloat (double_of_bits n)) r
      else Inl (rd_error Format_cbor 112 (''invalid byte: 0x'' @ rd_token_string r) ''value'' r))"

fun parse_cbor_internal :: "nat \<Rightarrow> cbor_tag_handler_t \<Rightarrow> bool \<Rightarrow> binary_reader \<Rightarrow> binary_reader outcome" where
  "parse_cbor_internal 0 tags get_char r = Inl (Undefined_behaviour ''stack overflow'')"
| "parse_cbor_internal (Suc depth) tags get_char r =
     (let r1 = (if get_char then rd_get r else r)
      in case rd_current r1 of
           None \<Rightarrow> Inl (rd_eof_error Format_cbor ''value'' r1)
         | Some c \<Rightarrow> cbor_switch (parse_cbor_internal depth tags) (Suc depth) tags (char_nat c) r1)"

text \<open>With a call stack of the given depth.\<close>

definition from_cbor :: "nat \<Rightarrow> bool \<Rightarrow> cbor_tag_handler_t \<Rightarrow> string \<Rightarrow> json outcome" where
  "from_cbor depth strict tags input =
     binary_sax_parse Format_cbor (parse_cbor_internal depth tags True) strict input"

end
