(* ===== verification/Cbor_Roundtrip.thy ===== *)
theory Cbor_Roundtrip
  imports Cbor Binary_Facts
begin

text \<open>
  The CBOR reader of \<^verbatim>\<open>include/nlohmann/json.hpp\<close> on what the writer wrote, and on any input.
\<close>

section \<open>First bytes\<close>

lemma and_31: "x AND 31 = x mod 32" for x :: nat
  using take_bit_eq_mask [of 5 x] by (simp add: take_bit_eq_mod mask_numeral)

lemma char_code: "char_nat c = n \<Longrightarrow> c = char_of n"
  using char_of_char_nat [of c] by simp

lemma char_codes:
  "CHR 0xF9 = char_of (249 :: nat)" "CHR 0xFA = char_of (250 :: nat)" "CHR 0xFB = char_of (251 :: nat)"
  "CHR 0xF4 = char_of (244 :: nat)" "CHR 0xF5 = char_of (245 :: nat)" "CHR 0xF6 = char_of (246 :: nat)"
  "CHR 0xD8 = char_of (216 :: nat)" "CHR 0xD9 = char_of (217 :: nat)" "CHR 0xDA = char_of (218 :: nat)"
  "CHR 0xDB = char_of (219 :: nat)" "CHR 0x7E = char_of (126 :: nat)" "CHR 0x7C = char_of (124 :: nat)"
  "CHR 0xFC = char_of (252 :: nat)" "CHR 0x00 = char_of (0 :: nat)" "CHR 0xFF = char_of (255 :: nat)"
  by (rule char_code, simp add: char_nat_def)+

declare parse_cbor_internal.simps [simp del] get_cbor_string.simps [simp del] get_cbor_binary.simps [simp del]

lemma write_number_2: "write_number 2 n = [char_of (n div 256), char_of n]"
  by (simp add: numeral_2_eq_2 char_of_mod_256)

text \<open>The two forms of a header: a number up to 23 in the byte, or in \<open>2\<^sup>i\<close> bytes after it.\<close>

lemma cbor_header_cases:
  assumes "n < 2 ^ 64"
  obtains (small) "n \<le> 23" "cbor_header base n = [char_of (base + n)]"
  | (sized) i where "i < 4" "cbor_header base n = char_of (base + 24 + i) # write_number (2 ^ i) n" "n < 256 ^ 2 ^ i"
proof -
  consider "n \<le> 0x17" | "0x17 < n" "n \<le> 0xFF" | "0xFF < n" "n \<le> 0xFFFF"
    | "0xFFFF < n" "n \<le> 0xFFFFFFFF" | "0xFFFFFFFF < n" by linarith
  then show ?thesis
  proof cases
    case 1
    then show ?thesis using small by (simp add: cbor_header_def)
  next
    case 2
    then show ?thesis using sized [of 0] by (simp add: cbor_header_def ac_simps)
  next
    case 3
    then show ?thesis using sized [of 1] by (simp add: cbor_header_def write_number_2 ac_simps)
  next
    case 4
    then show ?thesis using sized [of 2] by (simp add: cbor_header_def ac_simps)
  next
    case 5
    then show ?thesis using sized [of 3] assms by (simp add: cbor_header_def ac_simps)
  qed
qed

lemma below_4: "i < 4 \<longleftrightarrow> i = 0 \<or> i = 1 \<or> i = 2 \<or> i = (3 :: nat)"
  by auto

lemma cbor_switch_codes:
    "cbor_switch f dp tags 24 r = rd_number_value Format_cbor 1 (\<lambda>n. JUnsigned (of_nat n)) r"
    "cbor_switch f dp tags 56 r = rd_number_value Format_cbor 1 negative_value r"
    "cbor_switch f dp tags 88 r = cbor_binary_value dp r"
    "cbor_switch f dp tags 120 r = cbor_string_value dp r"
    "cbor_switch f dp tags 152 r = rd_sized Format_cbor 1 (get_cbor_array f) r"
    "cbor_switch f dp tags 184 r = rd_sized Format_cbor 1 (get_cbor_object dp f) r"
    "cbor_switch f dp tags 216 r = cbor_tagged (f True) dp tags 216 r"
    "cbor_switch f dp tags 25 r = rd_number_value Format_cbor 2 (\<lambda>n. JUnsigned (of_nat n)) r"
    "cbor_switch f dp tags 57 r = rd_number_value Format_cbor 2 negative_value r"
    "cbor_switch f dp tags 89 r = cbor_binary_value dp r"
    "cbor_switch f dp tags 121 r = cbor_string_value dp r"
    "cbor_switch f dp tags 153 r = rd_sized Format_cbor 2 (get_cbor_array f) r"
    "cbor_switch f dp tags 185 r = rd_sized Format_cbor 2 (get_cbor_object dp f) r"
    "cbor_switch f dp tags 217 r = cbor_tagged (f True) dp tags 217 r"
    "cbor_switch f dp tags 26 r = rd_number_value Format_cbor 4 (\<lambda>n. JUnsigned (of_nat n)) r"
    "cbor_switch f dp tags 58 r = rd_number_value Format_cbor 4 negative_value r"
    "cbor_switch f dp tags 90 r = cbor_binary_value dp r"
    "cbor_switch f dp tags 122 r = cbor_string_value dp r"
    "cbor_switch f dp tags 154 r = rd_sized Format_cbor 4 (get_cbor_array f) r"
    "cbor_switch f dp tags 186 r = rd_sized Format_cbor 4 (get_cbor_object dp f) r"
    "cbor_switch f dp tags 218 r = cbor_tagged (f True) dp tags 218 r"
    "cbor_switch f dp tags 27 r = rd_number_value Format_cbor 8 (\<lambda>n. JUnsigned (of_nat n)) r"
    "cbor_switch f dp tags 59 r = rd_number_value Format_cbor 8 negative_value r"
    "cbor_switch f dp tags 91 r = cbor_binary_value dp r"
    "cbor_switch f dp tags 123 r = cbor_string_value dp r"
    "cbor_switch f dp tags 155 r = rd_sized Format_cbor 8 (get_cbor_array f) r"
    "cbor_switch f dp tags 187 r = rd_sized Format_cbor 8 (get_cbor_object dp f) r"
    "cbor_switch f dp tags 219 r = cbor_tagged (f True) dp tags 219 r"
    "cbor_switch f dp tags 244 r = rd_sax (JBoolean False) r"
    "cbor_switch f dp tags 245 r = rd_sax (JBoolean True) r"
    "cbor_switch f dp tags 246 r = rd_sax JNull r"
    "cbor_switch f dp tags 249 r = rd_number_value Format_cbor 2 (\<lambda>half. JFloat (half_to_double half)) r"
    "cbor_switch f dp tags 250 r = rd_number_value Format_cbor 4 (\<lambda>n. JFloat (float_of_bits n)) r"
    "cbor_switch f dp tags 251 r = rd_number_value Format_cbor 8 (\<lambda>n. JFloat (double_of_bits n)) r"
  by (simp_all add: cbor_switch_def)

text \<open>What the switch does on the byte before a number of \<open>2\<^sup>i\<close> bytes.\<close>

lemma cbor_switch_sized:
  assumes "i < 4"
  shows "cbor_switch f dp tags (0 + 24 + i) r = rd_number_value Format_cbor (2 ^ i) (\<lambda>n. JUnsigned (of_nat n)) r"
    and "cbor_switch f dp tags (32 + 24 + i) r = rd_number_value Format_cbor (2 ^ i) negative_value r"
    and "cbor_switch f dp tags (64 + 24 + i) r = cbor_binary_value dp r"
    and "cbor_switch f dp tags (96 + 24 + i) r = cbor_string_value dp r"
    and "cbor_switch f dp tags (128 + 24 + i) r = rd_sized Format_cbor (2 ^ i) (get_cbor_array f) r"
    and "cbor_switch f dp tags (160 + 24 + i) r = rd_sized Format_cbor (2 ^ i) (get_cbor_object dp f) r"
    and "cbor_switch f dp tags (216 + i) r = cbor_tagged (f True) dp tags (216 + i) r"
  using assms unfolding below_4 by (elim disjE; simp add: cbor_switch_codes)+

lemma cbor_switch_small:
  assumes "n \<le> 23"
  shows "cbor_switch f dp tags (0 + n) r = rd_sax (JUnsigned (of_nat n)) r"
    and "cbor_switch f dp tags (32 + n) r = rd_sax (JInteger (of_int (- 1 - int n))) r"
    and "cbor_switch f dp tags (64 + n) r = cbor_binary_value dp r"
    and "cbor_switch f dp tags (96 + n) r = cbor_string_value dp r"
    and "cbor_switch f dp tags (128 + n) r = get_cbor_array f n r"
    and "cbor_switch f dp tags (160 + n) r = get_cbor_object dp f n r"
proof -
  have m: "(32 * k + n) mod 32 = n" for k using assms by simp
  have "(128 + n) AND 31 = n" "(160 + n) AND 31 = n" using m [of 4] m [of 5] by (simp_all add: and_31)
  then show "cbor_switch f dp tags (0 + n) r = rd_sax (JUnsigned (of_nat n)) r"
    "cbor_switch f dp tags (32 + n) r = rd_sax (JInteger (of_int (- 1 - int n))) r"
    "cbor_switch f dp tags (64 + n) r = cbor_binary_value dp r"
    "cbor_switch f dp tags (96 + n) r = cbor_string_value dp r"
    "cbor_switch f dp tags (128 + n) r = get_cbor_array f n r"
    "cbor_switch f dp tags (160 + n) r = get_cbor_object dp f n r"
    using assms by (simp_all add: cbor_switch_def)
qed

lemma parse_cbor_at:
  assumes "rd_at r (char_of b # s) d" and "b < 256"
  shows "\<exists>r1. parse_cbor_internal (Suc depth) tags True r
      = cbor_switch (parse_cbor_internal depth tags) (Suc depth) tags b r1 \<and> rd_at r1 s d"
  using rd_at_get [OF assms(1)] assms(2)
  by (intro exI [of _ "rd_get r"]) (simp add: parse_cbor_internal.simps Let_def)

section \<open>Scalars\<close>

lemma parse_cbor_sax:
  assumes "rd_at r (char_of b # s) d" and "b < 256" and "\<And>f dp r1. cbor_switch f dp tags b r1 = rd_sax v r1"
  shows "\<exists>r'. parse_cbor_internal (Suc depth) tags True r = rd_sax v r' \<and> rd_at r' s d"
  using parse_cbor_at [OF assms(1,2), of depth tags] assms(3) by auto

lemma parse_cbor_number:
  assumes "rd_at r (char_of b # write_number k n @ s) d" and "b < 256" and "n < 256 ^ k"
    and "\<And>f dp r1. cbor_switch f dp tags b r1 = rd_number_value Format_cbor k g r1"
  shows "\<exists>r'. parse_cbor_internal (Suc depth) tags True r = rd_sax (g n) r' \<and> rd_at r' s d"
proof -
  obtain r1 where 1: "parse_cbor_internal (Suc depth) tags True r = rd_number_value Format_cbor k g r1"
    "rd_at r1 (write_number k n @ s) d" using parse_cbor_at [OF assms(1,2), of depth tags] assms(4) by auto
  then show ?thesis using rd_number_value_at [OF 1(2) assms(3), of Format_cbor g] by auto
qed

lemma parse_cbor_unsigned:
  assumes "rd_at r (cbor_header 0 n @ s) d" and "n < 2 ^ 64"
  shows "\<exists>r'. parse_cbor_internal (Suc depth) tags True r = rd_sax (JUnsigned (of_nat n)) r' \<and> rd_at r' s d"
  using assms(2)
proof (cases rule: cbor_header_cases [where base = 0])
  case small
  then have "rd_at r (char_of (0 + n) # s) d" "0 + n < 256" using assms(1) by simp_all
  then show ?thesis using cbor_switch_small(1) [OF small(1)] by (rule parse_cbor_sax)
next
  case (sized i)
  have "rd_at r (char_of (0 + 24 + i) # write_number (2 ^ i) n @ s) d" "0 + 24 + i < 256"
    using assms(1) sized(1,2) by simp_all
  then show ?thesis using sized(3) cbor_switch_sized(1) [OF sized(1)] by (rule parse_cbor_number)
qed

lemma parse_cbor_integer:
  fixes i :: int64_t
  assumes "rd_at r (cbor_integer (sint i) @ s) d"
  shows "\<exists>r'. parse_cbor_internal (Suc depth) tags True r
      = rd_sax (if 0 \<le> sint i then JUnsigned i else JInteger i) r' \<and> rd_at r' s d"
proof -
  have range: "- (2 ^ 63) \<le> sint i" "sint i < 2 ^ 63" using sint_ge [of i] sint_less [of i] by simp_all
  show ?thesis
  proof (cases "0 \<le> sint i")
    case True
    have "(of_nat (nat (sint i)) :: int64_t) = of_int (int (nat (sint i)))" by (rule of_int_of_nat_eq [symmetric])
    then have "(of_nat (nat (sint i)) :: int64_t) = i" using True by simp
    then show ?thesis using parse_cbor_unsigned [of r "nat (sint i)" s d depth tags] True range assms
      by (simp add: cbor_integer_def)
  next
    case False
    define n where "n = nat (- 1 - sint i)"
    have n: "n < 2 ^ 64" "int n = - 1 - sint i" using False range by (simp_all add: n_def)
    then have i: "of_int (- 1 - int n) = i" by simp
    have "negative_value n = JInteger (of_int (- 1 - int n))" by (simp add: negative_value_def)
    then have neg: "negative_value n = JInteger i" using i by simp
    have at: "rd_at r (cbor_header 32 n @ s) d" using assms False by (simp add: cbor_integer_def n_def)
    show ?thesis using n(1)
    proof (cases rule: cbor_header_cases [where base = 32])
      case small
      have at': "rd_at r (char_of (32 + n) # s) d" using at small(2) by simp
      have "cbor_switch f dp tags (32 + n) r1 = rd_sax (JInteger i) r1" for f dp r1
        using cbor_switch_small(2) [OF small(1)] i by simp
      then show ?thesis using parse_cbor_sax [OF at'] small(1) False by simp
    next
      case (sized j)
      have at': "rd_at r (char_of (32 + 24 + j) # write_number (2 ^ j) n @ s) d" using at sized(2) by simp
      show ?thesis
        using parse_cbor_number [OF at' _ sized(3) cbor_switch_sized(2) [OF sized(1)]] sized(1) neg False by simp
    qed
  qed
qed

lemma half_values:
  "half_to_double 32256 = quiet_NaN" "half_to_double 31744 = Double_inf False" "half_to_double 64512 = Double_inf True"
  by (simp_all add: half_to_double_def quiet_NaN_def Let_def)

text \<open>A NaN loses its sign and payload.\<close>

definition cbor_double :: "double \<Rightarrow> double" where
  "cbor_double d = (if double_is_nan d then quiet_NaN else d)"

lemma cbor_float_bytes:
  assumes "double_wf x"
  obtains b k n g where "cbor_float x = char_of (b :: nat) # write_number k n" "b < 256" "n < 256 ^ k"
    "\<And>f dp tags r1. cbor_switch f dp tags b r1 = rd_number_value Format_cbor k g r1" "g n = JFloat (cbor_double x)"
proof (cases x)
  case (Double_inf s)
  then have "cbor_float x = char_of (249 :: nat) # write_number 2 (if s then 64512 else 31744)"
    by (simp add: cbor_float_def write_number_2 char_codes char_of_mod_256)
  then show ?thesis using that [of 249 2 "if s then 64512 else 31744" "\<lambda>h. JFloat (half_to_double h)"] Double_inf half_values
    by (simp add: cbor_switch_codes cbor_double_def)
next
  case (Double_nan s f)
  then have "cbor_float x = char_of (249 :: nat) # write_number 2 32256"
    by (simp add: cbor_float_def write_number_2 char_codes char_of_mod_256)
  then show ?thesis using that [of 249 2 32256 "\<lambda>h. JFloat (half_to_double h)"] Double_nan half_values
    by (simp add: cbor_switch_codes cbor_double_def)
next
  case (Double_fin s m e)
  then have x: "cbor_float x = write_compact_float Format_cbor x" "cbor_double x = x"
    by (simp_all add: cbor_float_def cbor_double_def)
  show ?thesis using assms
  proof (cases rule: compact_float_cases [where fmt = Format_cbor])
    case (1 n)
    then show ?thesis using that [of 250 4 n "\<lambda>n. JFloat (float_of_bits n)"] x
      by (simp add: cbor_switch_codes char_codes)
  next
    case (2 n)
    then show ?thesis using that [of 251 8 n "\<lambda>n. JFloat (double_of_bits n)"] x
      by (simp add: cbor_switch_codes char_codes)
  qed
qed

lemma parse_cbor_float:
  assumes "rd_at r (cbor_float x @ s) d" and "double_wf x"
  shows "\<exists>r'. parse_cbor_internal (Suc depth) tags True r = rd_sax (JFloat (cbor_double x)) r' \<and> rd_at r' s d"
proof -
  obtain b k n g where b: "cbor_float x = char_of (b :: nat) # write_number k n" "b < 256" "n < 256 ^ k"
    and sw: "\<And>f dp tags r1. cbor_switch f dp tags b r1 = rd_number_value Format_cbor k g r1"
    and g: "g n = JFloat (cbor_double x)" using cbor_float_bytes [OF assms(2)] by metis
  have "rd_at r (char_of b # write_number k n @ s) d" using assms(1) b(1) by simp
  from parse_cbor_number [OF this b(2,3) sw, of depth tags] show ?thesis by (simp add: g)
qed

section \<open>Strings and binaries\<close>

lemma get_cbor_string_codes:
  assumes "rd_current r = Some (char_of (b :: nat))" and "b < 256"
  shows "96 \<le> b \<Longrightarrow> b \<le> 119 \<Longrightarrow> get_cbor_string (Suc depth) r = rd_string Format_cbor (b mod 32) r"
    and "b = 96 + 24 + i \<Longrightarrow> i < 4 \<Longrightarrow> get_cbor_string (Suc depth) r = rd_sized_string Format_cbor (2 ^ i) r"
  using assms unfolding below_4 by (auto simp: get_cbor_string.simps and_31)

lemma get_cbor_binary_codes:
  assumes "rd_current r = Some (char_of (b :: nat))" and "b < 256"
  shows "64 \<le> b \<Longrightarrow> b \<le> 87 \<Longrightarrow> get_cbor_binary (Suc depth) r = rd_binary Format_cbor (b mod 32) r"
    and "b = 64 + 24 + i \<Longrightarrow> i < 4 \<Longrightarrow> get_cbor_binary (Suc depth) r = rd_sized_binary Format_cbor (2 ^ i) r"
  using assms unfolding below_4 by (auto simp: get_cbor_binary.simps and_31)

lemma get_cbor_string_at:
  assumes "rd_at r (cbor_string t @ s) d" and "length t < 2 ^ 64"
  shows "\<exists>r'. get_cbor_string (Suc depth) (rd_get r) = Inr (t, r') \<and> rd_at r' s d"
  using assms(2)
proof (cases rule: cbor_header_cases [where base = 96])
  case small
  then have "rd_at r (char_of (96 + length t) # t @ s) d" using assms(1) by (simp add: cbor_string_def)
  then have g: "rd_at (rd_get r) (t @ s) d" "rd_current (rd_get r) = Some (char_of (96 + length t))"
    using rd_at_get by blast+
  have "(32 * k + length t) mod 32 = length t" for k using small(1) by simp
  from this [of 3] have "get_cbor_string (Suc depth) (rd_get r) = rd_string Format_cbor (length t) (rd_get r)"
    using get_cbor_string_codes(1) [OF g(2), of depth] small(1) by simp
  then show ?thesis using rd_string_at [OF g(1), of Format_cbor] by metis
next
  case (sized i)
  then have "rd_at r (char_of (96 + 24 + i) # write_number (2 ^ i) (length t) @ t @ s) d"
    using assms(1) by (simp add: cbor_string_def)
  then have g: "rd_at (rd_get r) (write_number (2 ^ i) (length t) @ t @ s) d"
    "rd_current (rd_get r) = Some (char_of (96 + 24 + i))" using rd_at_get by blast+
  have "96 + 24 + i < 256" using sized(1) by simp
  then have "get_cbor_string (Suc depth) (rd_get r) = rd_sized_string Format_cbor (2 ^ i) (rd_get r)"
    using get_cbor_string_codes(2) [OF g(2) _ refl sized(1)] by blast
  then show ?thesis using rd_sized_string_at [OF g(1) sized(3), of Format_cbor] by simp
qed

lemma get_cbor_binary_at:
  assumes "rd_at r (cbor_header 64 (length t) @ t @ s) d" and "length t < 2 ^ 64"
  shows "\<exists>r'. get_cbor_binary (Suc depth) (rd_get r) = Inr (t, r') \<and> rd_at r' s d"
  using assms(2)
proof (cases rule: cbor_header_cases [where base = 64])
  case small
  then have "rd_at r (char_of (64 + length t) # t @ s) d" using assms(1) by simp
  then have g: "rd_at (rd_get r) (t @ s) d" "rd_current (rd_get r) = Some (char_of (64 + length t))"
    using rd_at_get by blast+
  have "(32 * k + length t) mod 32 = length t" for k using small(1) by simp
  from this [of 2] have "get_cbor_binary (Suc depth) (rd_get r) = rd_binary Format_cbor (length t) (rd_get r)"
    using get_cbor_binary_codes(1) [OF g(2), of depth] small(1) by simp
  then show ?thesis using rd_binary_at [OF g(1), of Format_cbor] by metis
next
  case (sized i)
  then have "rd_at r (char_of (64 + 24 + i) # write_number (2 ^ i) (length t) @ t @ s) d"
    using assms(1) by simp
  then have g: "rd_at (rd_get r) (write_number (2 ^ i) (length t) @ t @ s) d"
    "rd_current (rd_get r) = Some (char_of (64 + 24 + i))" using rd_at_get by blast+
  have "64 + 24 + i < 256" using sized(1) by simp
  then have "get_cbor_binary (Suc depth) (rd_get r) = rd_sized_binary Format_cbor (2 ^ i) (rd_get r)"
    using get_cbor_binary_codes(2) [OF g(2) _ refl sized(1)] by blast
  then show ?thesis using rd_sized_binary_at [OF g(1) sized(3), of Format_cbor] by simp
qed

text \<open>The first byte of an item, for the switch.\<close>

lemma cbor_header_first:
  assumes "n < 2 ^ 64" and "base \<in> {64, 96}"
  obtains b u where "cbor_header base n = char_of b # u" "b < 256"
    "\<And>f dp tags r. cbor_switch f dp tags b r = (if base = 64 then cbor_binary_value dp r else cbor_string_value dp r)"
  using assms(1)
proof (cases rule: cbor_header_cases [where base = base])
  case small
  then show ?thesis using that [of "base + n" "[]"] assms(2) cbor_switch_small(3,4) [OF small(1)] by auto
next
  case (sized i)
  then show ?thesis using that [of "base + 24 + i"] assms(2) cbor_switch_sized(3,4) [OF sized(1)] by auto
qed

lemma parse_cbor_string:
  assumes "rd_at r (cbor_string t @ s) d" and "length t < 2 ^ 64"
  shows "\<exists>r'. parse_cbor_internal (Suc depth) tags True r = rd_sax (JString t) r' \<and> rd_at r' s d"
proof -
  obtain b u where b: "cbor_header 96 (length t) = char_of b # u" "b < 256"
    and sw: "\<And>f dp tags r. cbor_switch f dp tags b r = cbor_string_value dp r"
    using cbor_header_first [OF assms(2), of 96] by auto
  have "rd_current (rd_get r) = Some (char_of b)" using rd_at_get [of r "char_of b" "u @ t @ s" d] assms(1) b(1)
    by (simp add: cbor_string_def)
  then have "parse_cbor_internal (Suc depth) tags True r = cbor_string_value (Suc depth) (rd_get r)"
    using b(2) by (simp add: parse_cbor_internal.simps Let_def sw)
  moreover obtain r' where "get_cbor_string (Suc depth) (rd_get r) = Inr (t, r')" "rd_at r' s d"
    using get_cbor_string_at [OF assms] by blast
  ultimately show ?thesis by (auto simp: cbor_string_value_def)
qed

lemma parse_cbor_binary:
  assumes "rd_at r (cbor_binary t None @ s) d" and "length t < 2 ^ 64"
  shows "\<exists>r'. parse_cbor_internal (Suc depth) tags True r = rd_sax (JBinary t None) r' \<and> rd_at r' s d"
proof -
  obtain b u where b: "cbor_header 64 (length t) = char_of b # u" "b < 256"
    and sw: "\<And>f dp tags r. cbor_switch f dp tags b r = cbor_binary_value dp r"
    using cbor_header_first [OF assms(2), of 64] by auto
  have at: "rd_at r (cbor_header 64 (length t) @ t @ s) d" using assms(1) by (simp add: cbor_binary_def)
  have "rd_current (rd_get r) = Some (char_of b)" using rd_at_get [of r "char_of b" "u @ t @ s" d] at b(1) by simp
  then have "parse_cbor_internal (Suc depth) tags True r = cbor_binary_value (Suc depth) (rd_get r)"
    using b(2) by (simp add: parse_cbor_internal.simps Let_def sw)
  moreover obtain r' where "get_cbor_binary (Suc depth) (rd_get r) = Inr (t, r')" "rd_at r' s d"
    using get_cbor_binary_at [OF at assms(2)] by blast
  ultimately show ?thesis by (auto simp: cbor_binary_value_def)
qed

lemma cbor_tag_cases:
  assumes "t < 2 ^ 64"
  obtains i where "i < 4" "cbor_tag t = char_of (216 + i) # write_number (2 ^ i) t" "t < 256 ^ 2 ^ i"
    "tag_bytes (216 + i) = Some (2 ^ i)"
proof -
  consider "t \<le> 0xFF" | "0xFF < t" "t \<le> 0xFFFF" | "0xFFFF < t" "t \<le> 0xFFFFFFFF" | "0xFFFFFFFF < t" by linarith
  then show ?thesis
  proof cases
    case 1
    then show ?thesis using that [of 0] by (simp add: cbor_tag_def tag_bytes_def char_codes)
  next
    case 2
    then show ?thesis using that [of 1] by (simp add: cbor_tag_def tag_bytes_def char_codes write_number_2)
  next
    case 3
    then show ?thesis using that [of 2] by (simp add: cbor_tag_def tag_bytes_def char_codes)
  next
    case 4
    then show ?thesis using that [of 3] assms by (simp add: cbor_tag_def tag_bytes_def char_codes)
  qed
qed

lemma parse_cbor_tagged:
  assumes "rd_at r (cbor_binary bs (Some t) @ s) d" and "length bs < 2 ^ 64" and "t < 2 ^ 64"
  shows "\<exists>r'. parse_cbor_internal (Suc depth) Tag_store True r = rd_sax (JBinary bs (Some t)) r' \<and> rd_at r' s d"
proof -
  obtain i where i: "i < 4" "cbor_tag t = char_of (216 + i) # write_number (2 ^ i) t" "t < 256 ^ 2 ^ i"
    "tag_bytes (216 + i) = Some (2 ^ i)" using cbor_tag_cases [OF assms(3)] .
  let ?s = "cbor_header 64 (length bs) @ bs @ s"
  have "rd_at r (char_of (216 + i) # write_number (2 ^ i) t @ ?s) d" "216 + i < 256"
    using assms(1) i(1,2) by (simp_all add: cbor_binary_def)
  from parse_cbor_at [OF this, of depth Tag_store]
  obtain r1 where 1: "parse_cbor_internal (Suc depth) Tag_store True r
      = cbor_tagged (parse_cbor_internal depth Tag_store True) (Suc depth) Tag_store (216 + i) r1"
    "rd_at r1 (write_number (2 ^ i) t @ ?s) d" using cbor_switch_sized(7) [OF i(1)] by metis
  obtain r2 where 2: "rd_number Format_cbor (2 ^ i) r1 = Inr (t, r2)" "rd_at r2 ?s d"
    using rd_number_at [OF 1(2) i(3)] by blast
  obtain r' where "get_cbor_binary (Suc depth) (rd_get r2) = Inr (bs, r')" "rd_at r' s d"
    using get_cbor_binary_at [OF 2(2) assms(2)] by blast
  then show ?thesis using 1(1) 2(1) i(4) by (auto simp: cbor_tagged_def)
qed

section \<open>Containers\<close>

lemma parse_cbor_array:
  assumes "n < 2 ^ 32" and "rd_at r (cbor_header 128 n @ s) d"
  shows "\<exists>r'. parse_cbor_internal (Suc depth) tags True r
      = rd_array n (rd_elements (parse_cbor_internal depth tags True) n) r' \<and> rd_at r' s d"
proof -
  have "n < 2 ^ 64" and arr: "get_cbor_array f n r1 = rd_array n (rd_elements (f True) n) r1" for f r1
    using assms(1) by (simp_all add: get_cbor_array_def unknown_size_def)
  then show ?thesis
  proof (cases rule: cbor_header_cases [where base = 128])
    case small
    then have "rd_at r (char_of (128 + n) # s) d" "128 + n < 256" using assms(2) by simp_all
    from parse_cbor_at [OF this, of depth tags] show ?thesis using cbor_switch_small(5) [OF small(1)] arr by metis
  next
    case (sized i)
    then have "rd_at r (char_of (128 + 24 + i) # write_number (2 ^ i) n @ s) d" "128 + 24 + i < 256"
      using assms(2) by simp_all
    from parse_cbor_at [OF this, of depth tags]
    obtain r1 where 1: "parse_cbor_internal (Suc depth) tags True r
        = rd_sized Format_cbor (2 ^ i) (get_cbor_array (parse_cbor_internal depth tags)) r1"
      "rd_at r1 (write_number (2 ^ i) n @ s) d" using cbor_switch_sized(5) [OF sized(1)] by metis
    then show ?thesis
      using rd_sized_at [OF 1(2) sized(3), of Format_cbor "get_cbor_array (parse_cbor_internal depth tags)"] arr by metis
  qed
qed

lemma parse_cbor_object:
  assumes "n < 2 ^ 32" and "rd_at r (cbor_header 160 n @ s) d"
  shows "\<exists>r'. parse_cbor_internal (Suc depth) tags True r
      = rd_object n (rd_members (get_cbor_string (Suc depth)) (parse_cbor_internal depth tags True) n) r' \<and> rd_at r' s d"
proof -
  have "n < 2 ^ 64" and obj: "get_cbor_object dp f n r1 = rd_object n (rd_members (get_cbor_string dp) (f True) n) r1" for dp f r1
    using assms(1) by (simp_all add: get_cbor_object_def unknown_size_def)
  then show ?thesis
  proof (cases rule: cbor_header_cases [where base = 160])
    case small
    then have "rd_at r (char_of (160 + n) # s) d" "160 + n < 256" using assms(2) by simp_all
    from parse_cbor_at [OF this, of depth tags] show ?thesis using cbor_switch_small(6) [OF small(1)] obj by metis
  next
    case (sized i)
    then have "rd_at r (char_of (160 + 24 + i) # write_number (2 ^ i) n @ s) d" "160 + 24 + i < 256"
      using assms(2) by simp_all
    from parse_cbor_at [OF this, of depth tags]
    obtain r1 where 1: "parse_cbor_internal (Suc depth) tags True r
        = rd_sized Format_cbor (2 ^ i) (get_cbor_object (Suc depth) (parse_cbor_internal depth tags)) r1"
      "rd_at r1 (write_number (2 ^ i) n @ s) d" using cbor_switch_sized(6) [OF sized(1)] by metis
    then show ?thesis
      using rd_sized_at [OF 1(2) sized(3), of Format_cbor "get_cbor_object (Suc depth) (parse_cbor_internal depth tags)"]
        obj by metis
  qed
qed

section \<open>The round trip\<close>

text \<open>The value that comes back: a non-negative integer is unsigned, a NaN the one NaN of the format.\<close>

fun cbor_image :: "json \<Rightarrow> json" where
  "cbor_image (JInteger i) = (if 0 \<le> sint i then JUnsigned i else JInteger i)"
| "cbor_image (JFloat d) = JFloat (cbor_double d)"
| "cbor_image (JArray xs) = JArray (map cbor_image xs)"
| "cbor_image (JObject kvs) = JObject (map (\<lambda>kv. (fst kv, cbor_image (snd kv))) kvs)"
| "cbor_image j = j"

lemma cbor_scalar:
  assumes "binary_ok j" and "\<not> is_container j" and at: "rd_at r (write_cbor j @ s) d"
  shows "\<exists>r'. parse_cbor_internal (Suc depth) Tag_store True r = rd_sax (cbor_image j) r' \<and> rd_at r' s d"
proof (cases j)
  case JNull
  then show ?thesis using at parse_cbor_sax [of r 246 s d Tag_store JNull depth] by (simp add: cbor_switch_codes char_codes)
next
  case (JBoolean b)
  then show ?thesis using at parse_cbor_sax [of r "if b then 245 else 244" s d Tag_store j depth]
    by (cases b) (simp_all add: cbor_switch_codes char_codes)
next
  case (JInteger i)
  then show ?thesis using at parse_cbor_integer [of r i s d depth Tag_store] by simp
next
  case (JUnsigned u)
  then show ?thesis using at parse_cbor_unsigned [of r "unat u" s d depth Tag_store] unsigned_less [of u, where ?'a = nat]
    by simp
next
  case (JFloat x)
  then show ?thesis using at assms(1) parse_cbor_float [of r x s d depth Tag_store] by simp
next
  case (JString t)
  then show ?thesis using at assms(1) parse_cbor_string [of r t s d depth Tag_store] by simp
next
  case (JBinary bs t)
  then show ?thesis
    using at assms(1) parse_cbor_binary [of r bs s d depth Tag_store] parse_cbor_tagged [of r bs _ s d depth]
    by (cases t) simp_all
qed (use assms in auto)

interpretation cb: binary_codec write_cbor cbor_image cbor_string "cbor_header 128" "cbor_header 160"
  "\<lambda>depth. parse_cbor_internal depth Tag_store True" "\<lambda>depth. get_cbor_string (Suc depth)"
proof unfold_locales
  fix j r s d depth
  assume "binary_ok j" "\<not> is_container j" "rd_at r (write_cbor j @ s) d"
  then show "\<exists>r'. parse_cbor_internal (Suc depth) Tag_store True r = rd_sax (cbor_image j) r' \<and> rd_at r' s d"
    by (rule cbor_scalar)
next
  fix k r s d depth
  assume "length k < 2 ^ 32" "rd_at r (cbor_string k @ s) d"
  then show "\<exists>r'. get_cbor_string (Suc depth) (rd_get r) = Inr (k, r') \<and> rd_at r' s d"
    by (intro get_cbor_string_at) simp_all
qed (simp_all only: write_cbor.simps cbor_image.simps parse_cbor_array parse_cbor_object)

text \<open>
  C13: Reading what \<^verbatim>\<open>to_cbor\<close> wrote gives the value back when tags are stored, with enough stack for its
  depth: the reader consumes all of the text; a non-negative integer comes back as an unsigned one,
  and every NaN as the same NaN.
\<close>

theorem cbor_roundtrip:
  assumes "binary_ok j" and "json_depth j < depth"
  shows "from_cbor depth strict Tag_store (to_cbor j) = Inr (cbor_image j)"
  using cb.roundtrip [OF assms] by (simp add: from_cbor_def to_cbor_def)

theorem cbor_roundtrip_witness:
  "from_cbor 2 True Tag_store (to_cbor (JObject [(''a'', JArray []), (''b'', JInteger 5), (''c'', JBinary ''x'' (Some 300))]))
     = Inr (JObject [(''a'', JArray []), (''b'', JUnsigned 5), (''c'', JBinary ''x'' (Some 300))])"
  using cbor_roundtrip [of "JObject [(''a'', JArray []), (''b'', JInteger 5), (''c'', JBinary ''x'' (Some 300))]" 2 True]
  by simp

section \<open>Any input\<close>

definition cbor_error :: "cpp_error \<Rightarrow> bool" where
  "cbor_error e \<longleftrightarrow> reader_error e \<or> (\<exists>m. e = Json_out_of_range 408 m)"

interpretation cbe: error_class cbor_error
  by unfold_locales (simp add: cbor_error_def)

lemma excessive_error: "cbor_error (excessive_size what len)"
  by (simp add: cbor_error_def excessive_size_def json_out_of_range_def)

lemma keeps_error: "keeps r (Inl (rd_eof_error fmt ctx r1))" "i \<in> {110, 112, 113} \<Longrightarrow> keeps r (Inl (rd_error fmt i m ctx r1))"
  by (auto simp: keeps_Inl reader_errorI)

text \<open>
  The chunks of a string: a turn fails at the end of the input, and consumes a byte otherwise, so the
  turns are enough.
\<close>

lemma keeps_chunks:
  assumes g: "\<And>r. Suc (rd_left r) < n \<Longrightarrow> keeps r (g r)"
    and eof: "\<And>r. rd_current r = None \<Longrightarrow> \<exists>e. g r = Inl e \<and> reader_error e"
    and "rd_left r < m" and "rd_left r < n"
  shows "keeps r (rd_chunks g m r)"
  using assms(3,4)
proof (induction m arbitrary: r)
  case (Suc m)
  let ?r1 = "rd_get r"
  consider (stop) "at_break ?r1" | (end_of_input) "\<not> at_break ?r1" "rd_current ?r1 = None"
    | (chunk) c where "\<not> at_break ?r1" "rd_current ?r1 = Some c" by (cases "rd_current ?r1") auto
  then show ?case
  proof cases
    case stop
    then show ?thesis using rd_get_left(1,2) [of r] by (simp add: keeps_def Let_def)
  next
    case end_of_input
    then show ?thesis using eof [of ?r1] by (auto simp: keeps_def Let_def)
  next
    case chunk
    then have less: "rd_left ?r1 < rd_left r" by (intro rd_get_left)
    then have k: "keeps ?r1 (g ?r1)" using g Suc.prems(2) by simp
    have "keeps ?r1 (case g ?r1 of Inl e \<Rightarrow> Inl e
        | Inr (chunk, r2) \<Rightarrow> (case rd_chunks g m r2 of Inl e \<Rightarrow> Inl e | Inr (cs, r3) \<Rightarrow> Inr (chunk @ cs, r3)))"
    proof (rule keeps_bind [OF k])
      fix chunk and r2 :: binary_reader
      assume "rd_left r2 \<le> rd_left ?r1"
      then have "keeps r2 (rd_chunks g m r2)" using less Suc.prems by (intro Suc.IH) simp_all
      then show "keeps r2 (case rd_chunks g m r2 of Inl e \<Rightarrow> Inl e | Inr (cs, r3) \<Rightarrow> Inr (chunk @ cs, r3))"
        by (rule keeps_bind) simp
    qed
    then show ?thesis using chunk(1) keeps_get by (simp add: Let_def)
  qed
qed simp

lemma get_cbor_eof:
  assumes "rd_current r = None" and "0 < depth"
  shows "\<exists>e. get_cbor_string depth r = Inl e \<and> reader_error e" "\<exists>e. get_cbor_binary depth r = Inl e \<and> reader_error e"
  using assms by (cases depth; simp add: get_cbor_string.simps get_cbor_binary.simps reader_errorI)+

lemma keeps_cbor_string: "Suc (rd_left r) < depth \<Longrightarrow> keeps r (get_cbor_string depth r)"
proof (induction depth arbitrary: r)
  case (Suc depth)
  have "keeps r (rd_chunks (get_cbor_string depth) (turns r) r)"
    using Suc get_cbor_eof(1) by (intro keeps_chunks [where n = depth]) (auto simp: turns_def rd_left_def)
  then show ?case
    using keeps_string keeps_sized
    by (auto simp: get_cbor_string.simps Let_def keeps_error split: option.splits)
qed simp

lemma keeps_cbor_binary: "Suc (rd_left r) < depth \<Longrightarrow> keeps r (get_cbor_binary depth r)"
proof (induction depth arbitrary: r)
  case (Suc depth)
  have "keeps r (rd_chunks (get_cbor_binary depth) (turns r) r)"
    using Suc get_cbor_eof(2) by (intro keeps_chunks [where n = depth]) (auto simp: turns_def rd_left_def)
  then show ?case
    using keeps_string keeps_sized
    by (auto simp: get_cbor_binary.simps Let_def keeps_error split: option.splits)
qed simp

text \<open>After the first byte was read, which is not there at the end of the input.\<close>

lemma keeps_after_get:
  assumes "rd_left r < depth"
  shows "keeps r (get_cbor_string depth (rd_get r))" "keeps r (get_cbor_binary depth (rd_get r))"
    "get_cbor_string depth (rd_get r) = Inr (x, r1) \<Longrightarrow> rd_left r1 < rd_left r"
proof -
  have "keeps (rd_get r) (get_cbor_string depth (rd_get r)) \<and> keeps (rd_get r) (get_cbor_binary depth (rd_get r))
    \<and> (get_cbor_string depth (rd_get r) = Inr (x, r1) \<longrightarrow> rd_left r1 < rd_left r)"
  proof (cases "rd_current (rd_get r)")
    case None
    then show ?thesis using get_cbor_eof [OF None, of depth] assms by (auto simp: keeps_Inl)
  next
    case (Some c)
    then have "rd_left (rd_get r) < rd_left r" by (rule rd_get_left)
    then have "Suc (rd_left (rd_get r)) < depth" using assms by simp
    then show ?thesis using keeps_cbor_string keeps_cbor_binary \<open>rd_left (rd_get r) < rd_left r\<close>
      by (force simp: keeps_def)
  qed
  then show "keeps r (get_cbor_string depth (rd_get r))" "keeps r (get_cbor_binary depth (rd_get r))"
    "get_cbor_string depth (rd_get r) = Inr (x, r1) \<Longrightarrow> rd_left r1 < rd_left r"
    using keeps_get by blast+
qed

lemma cbor_key:
  assumes "n \<le> depth"
  shows "key_below n (get_cbor_string depth)"
proof -
  have "keeps r (get_cbor_string depth (rd_get r))
      \<and> (\<forall>x r1. get_cbor_string depth (rd_get r) = Inr (x, r1) \<longrightarrow> rd_left r1 < rd_left r)" if "rd_left r < n" for r
  proof -
    have "rd_left r < depth" using that assms by (rule less_le_trans)
    from keeps_after_get(1,3) [OF this] show ?thesis by blast
  qed
  then show ?thesis unfolding key_below_def by blast
qed

lemma until_end:
  assumes "cbe.steps_below n P (\<lambda>r. g (rd_get r))" and "P (rd_dom r)" and "rd_left r < n" and "rd_left r < m"
  shows "cbe.ends P (Suc (rd_left r)) (rd_elements_until g m r)"
  using assms(2-)
proof (induction m arbitrary: r)
  case (Suc m)
  show ?case
  proof (cases "at_break (rd_get r)")
    case True
    then show ?thesis using rd_get_left(1,2) [of r] Suc.prems(1) by (simp add: Let_def)
  next
    case False
    have s: "cbe.ends P (rd_left r) (g (rd_get r))"
      using assms(1) Suc.prems(1,2) unfolding cbe.steps_below_def by blast
    show ?thesis
    proof (cases "g (rd_get r)")
      case (Inl e)
      then show ?thesis using s False by (simp add: Let_def)
    next
      case (Inr r1)
      then have r1: "P (rd_dom r1)" "rd_left r1 < rd_left r" using s by simp_all
      then have "cbe.ends P (Suc (rd_left r1)) (rd_elements_until g m r1)"
        using Suc.prems(2,3) by (intro Suc.IH) simp_all
      then show ?thesis using Inr False r1(2) cbe.ends_mono [of P "Suc (rd_left r1)" _ "Suc (rd_left r)"]
        by (simp add: Let_def)
    qed
  qed
qed simp

text \<open>Reading the first byte in the loop or in the value is the same.\<close>

lemma parse_cbor_get: "parse_cbor_internal depth tags False (rd_get r) = parse_cbor_internal depth tags True r"
  by (cases depth) (simp_all add: parse_cbor_internal.simps)

text \<open>What the cases of the switch need: \<open>f\<close> reads from less than \<open>n\<close> bytes, reading its first byte or not.\<close>

definition reads_either :: "nat \<Rightarrow> (bool \<Rightarrow> binary_reader \<Rightarrow> binary_reader outcome) \<Rightarrow> bool" where
  "reads_either n f \<longleftrightarrow> cbe.reads_below n (f True) \<and> (\<forall>r. f False (rd_get r) = f True r)"

lemma reads_eitherD:
  assumes "reads_either n f"
  shows "cbe.reads_below n (f True)" "f False (rd_get r) = f True r" "(\<lambda>r. f False (rd_get r)) = f True"
  using assms by (auto simp: reads_either_def)

lemma cbor_array_ends:
  assumes f: "reads_either n f" and slot: "slot (rd_dom r) q F" and n: "rd_left r < n"
  shows "cbe.ends (value_inv F (dom_stack (rd_dom r))) (Suc (rd_left r)) (get_cbor_array f len r)"
  unfolding get_cbor_array_def
proof (rule cbe.array_ends [OF slot excessive_error])
  fix r1
  assume inv: "array_inv F (q # dom_stack (rd_dom r)) (rd_dom r1)" and left: "rd_left r1 = rd_left r"
  have n1: "rd_left r1 < n" using left n by simp
  have step: "cbe.steps_below n (array_inv F (q # dom_stack (rd_dom r))) (f True)"
    by (rule cbe.element_step [OF reads_eitherD(1) [OF f] slot_laws [OF slot]])
  then have "cbe.steps_below n (array_inv F (q # dom_stack (rd_dom r))) (\<lambda>r. f False (rd_get r))"
    by (simp only: reads_eitherD(3) [OF f])
  then have "cbe.ends (array_inv F (q # dom_stack (rd_dom r))) (Suc (rd_left r1)) (rd_elements_until (f False) (turns r1) r1)"
    using inv n1 by (intro until_end) (simp_all add: turns_def rd_left_def)
  then show "cbe.ends (array_inv F (q # dom_stack (rd_dom r))) (Suc (rd_left r1))
      ((if len \<noteq> unknown_size then rd_elements (f True) len else (\<lambda>r1. rd_elements_until (f False) (turns r1) r1)) r1)"
    using cbe.elements_end [OF step inv n1, of len] by simp
qed

lemma cbor_object_ends:
  assumes f: "reads_either n f" and slot: "slot (rd_dom r) q F" and n: "rd_left r < n" and depth: "n \<le> depth"
  shows "cbe.ends (value_inv F (dom_stack (rd_dom r))) (Suc (rd_left r)) (get_cbor_object depth f len r)"
  unfolding get_cbor_object_def
proof (rule cbe.object_ends [OF slot excessive_error])
  fix r1
  assume inv: "object_inv F (q # dom_stack (rd_dom r)) (rd_dom r1)" and left: "rd_left r1 = rd_left r"
  have n1: "rd_left r1 < n" using left n by simp
  have step: "cbe.steps_below n (object_inv F (q # dom_stack (rd_dom r)))
      (\<lambda>r. rd_member (get_cbor_string depth) (f True) (rd_get r))"
    by (rule cbe.member_step [OF cbe.reads_below_upto [OF reads_eitherD(1) [OF f]] slot_laws [OF slot] cbor_key [OF depth]])
  have "cbe.ends (object_inv F (q # dom_stack (rd_dom r))) (Suc (rd_left r1))
      (rd_elements_until (rd_member (get_cbor_string depth) (f True)) (turns r1) r1)"
    using step inv n1 by (intro until_end) (simp_all add: turns_def rd_left_def)
  then show "cbe.ends (object_inv F (q # dom_stack (rd_dom r))) (Suc (rd_left r1))
      ((if len \<noteq> unknown_size then rd_members (get_cbor_string depth) (f True) len
        else (\<lambda>r1. rd_elements_until (rd_member (get_cbor_string depth) (f True)) (turns r1) r1)) r1)"
    using cbe.elements_end [OF step inv n1, of len] unfolding cbe.members_as_elements by simp
qed

lemma cbor_binary_sax_ends:
  assumes "keeps r (get_cbor_binary depth r1)" and "slot (rd_dom r) q F"
  shows "cbe.ends (value_inv F (dom_stack (rd_dom r))) (Suc (rd_left r))
    (case get_cbor_binary depth r1 of Inl e \<Rightarrow> Inl e | Inr (bs, r2) \<Rightarrow> rd_sax (JBinary bs subtype) r2)"
proof (rule cbe.ends_bind [OF assms(1)])
  fix bs and r2 :: binary_reader
  assume "rd_dom r2 = rd_dom r"
  then show "cbe.ends (value_inv F (dom_stack (rd_dom r))) (Suc (rd_left r2)) (rd_sax (JBinary bs subtype) r2)"
    using cbe.sax_ends [of r2 q F "JBinary bs subtype"] assms(2) by simp
qed

lemma cbor_tagged_ends:
  assumes f: "cbe.reads_below n f" and slot: "slot (rd_dom r) q F" and n: "rd_left r < n" and depth: "n \<le> depth"
  shows "cbe.ends (value_inv F (dom_stack (rd_dom r))) (Suc (rd_left r)) (cbor_tagged f depth tags b r)"
proof -
  let ?S = "\<lambda>r. cbe.ends (value_inv F (dom_stack (rd_dom r))) (Suc (rd_left r))"
  have again: "?S r1 (f r1)" if "rd_dom r1 = rd_dom r" "rd_left r1 \<le> rd_left r" for r1
    using f that slot n cbe.ends_mono [of _ "rd_left r1" "f r1" "Suc (rd_left r1)"] unfolding cbe.reads_below_def
    by (metis le_SucI le_less_trans order_refl)
  have store: "?S r1 (case get_cbor_binary depth (rd_get r1) of Inl e \<Rightarrow> Inl e | Inr (bs, r2) \<Rightarrow> rd_sax (JBinary bs (Some t)) r2)"
    if "rd_dom r1 = rd_dom r" "rd_left r1 \<le> rd_left r" for r1 t
  proof -
    have "rd_left r1 < depth" using that(2) n depth by simp
    then show ?thesis using that slot by (intro cbor_binary_sax_ends keeps_after_get(2)) simp_all
  qed
  have num: "?S r (case rd_number Format_cbor k r of Inl e \<Rightarrow> Inl e | Inr (t, r1) \<Rightarrow> g t r1)"
    if "\<And>t r1. rd_dom r1 = rd_dom r \<Longrightarrow> rd_left r1 \<le> rd_left r \<Longrightarrow> ?S r1 (g t r1)" for k g
  proof (rule cbe.ends_bind [OF keeps_number])
    fix t r1
    assume "rd_dom r1 = rd_dom r" "rd_left r1 \<le> rd_left r"
    then show "cbe.ends (value_inv F (dom_stack (rd_dom r))) (Suc (rd_left r1)) (g t r1)" using that [of r1 t] by simp
  qed
  show ?thesis
  proof (cases tags)
    case Tag_error
    then show ?thesis by (simp add: cbor_tagged_def cbor_error_def reader_errorI)
  next
    case Tag_ignore
    then show ?thesis using again [of r] num [of "\<lambda>_. f"] again by (simp add: cbor_tagged_def split: option.split)
  next
    case Tag_store
    then show ?thesis using again [of r] num [OF store] by (simp add: cbor_tagged_def split: option.split)
  qed
qed

lemma cbor_switch_ends:
  assumes f: "reads_either n f" and slot: "slot (rd_dom r) q F" and n: "rd_left r < n" and depth: "n < depth"
  shows "cbe.ends (value_inv F (dom_stack (rd_dom r))) (Suc (rd_left r)) (cbor_switch f depth tags b r)"
proof -
  let ?S = "cbe.ends (value_inv F (dom_stack (rd_dom r))) (Suc (rd_left r))"
  have le: "n \<le> depth" and left: "Suc (rd_left r) < depth" using n depth by simp_all
  have sized: "?S (rd_sized Format_cbor k g r)"
    if "\<And>len r1. rd_dom r1 = rd_dom r \<Longrightarrow> rd_left r1 < n \<Longrightarrow>
      cbe.ends (value_inv F (dom_stack (rd_dom r))) (Suc (rd_left r1)) (g len r1)" for k g
    unfolding rd_sized_def
  proof (rule cbe.ends_bind [OF keeps_number])
    fix len r1
    assume "rd_dom r1 = rd_dom r" "rd_left r1 \<le> rd_left r"
    then show "cbe.ends (value_inv F (dom_stack (rd_dom r))) (Suc (rd_left r1)) (g len r1)" using that n by simp
  qed
  have arr: "?S (rd_sized Format_cbor k (get_cbor_array f) r)" for k
    by (rule sized) (metis cbor_array_ends f slot)
  have obj: "?S (rd_sized Format_cbor k (get_cbor_object depth f) r)" for k
    by (rule sized) (metis cbor_object_ends f slot le)
  have str: "?S (cbor_string_value depth r)"
    unfolding cbor_string_value_def
  proof (rule cbe.ends_bind [OF keeps_cbor_string [OF left]])
    fix t and r1 :: binary_reader
    assume "rd_dom r1 = rd_dom r"
    then show "cbe.ends (value_inv F (dom_stack (rd_dom r))) (Suc (rd_left r1)) (rd_sax (JString t) r1)"
      using cbe.sax_ends [of r1 q F "JString t"] slot by simp
  qed
  have bin: "?S (cbor_binary_value depth r)"
    unfolding cbor_binary_value_def by (rule cbor_binary_sax_ends [OF keeps_cbor_binary [OF left] slot])
  have err: "?S (Inl (rd_error Format_cbor 112 m ctx r))" for m ctx by (simp add: cbor_error_def reader_errorI)
  have branch: "?S (if c then x else y)" if "c \<Longrightarrow> ?S x" "?S y" for c x y using that by simp
  show ?thesis
    unfolding cbor_switch_def
    by (intro branch cbe.sax_ends [OF slot] cbe.number_ends [OF slot] arr obj str bin err
        cbor_array_ends [OF f slot n] cbor_object_ends [OF f slot n le]
        cbor_tagged_ends [OF reads_eitherD(1) [OF f] slot n le])
      (simp_all add: negative_value_def)
qed

lemma cbor_parse_below: "reads_either n (parse_cbor_internal n tags)"
proof (induction n)
  case 0
  then show ?case by (simp add: reads_either_def cbe.reads_below_def parse_cbor_get)
next
  case (Suc n)
  have "cbe.reads_below (Suc n) (parse_cbor_internal (Suc n) tags True)"
    unfolding cbe.reads_below_def
  proof (intro allI impI)
    fix r q F
    assume slot: "slot (rd_dom r) q F" and n: "rd_left r < Suc n"
    show "cbe.ends (value_inv F (dom_stack (rd_dom r))) (rd_left r) (parse_cbor_internal (Suc n) tags True r)"
    proof (cases "rd_current (rd_get r)")
      case None
      then show ?thesis by (simp add: parse_cbor_internal.simps Let_def cbor_error_def reader_errorI)
    next
      case (Some c)
      then have less: "rd_left (rd_get r) < rd_left r" by (rule rd_get_left)
      have "cbe.ends (value_inv F (dom_stack (rd_dom r))) (Suc (rd_left (rd_get r)))
          (cbor_switch (parse_cbor_internal n tags) (Suc n) tags (char_nat c) (rd_get r))"
        using cbor_switch_ends [OF Suc.IH, of "rd_get r" q F "Suc n" tags "char_nat c"] slot n less
        by (simp add: rd_get_left(1))
      then show ?thesis using Some less cbe.ends_mono [of _ "Suc (rd_left (rd_get r))" _ "rd_left r"]
        by (simp add: parse_cbor_internal.simps Let_def)
    qed
  qed
  then show ?case by (simp add: reads_either_def parse_cbor_get)
qed

text \<open>
  C8: The CBOR reader returns on every input, for every handling of tags and however the lengths in the
  input are declared: with more levels of stack than the input has bytes the result is a well formed value,
  a parse error with one of the three numbers of the reader, or the error 408 of the handler for a container
  that declares more elements than fit in memory. No assertion of the handler fails, and the turns given
  to the loops over containers and strings of indefinite length are enough.
\<close>

theorem cbor_any_input:
  assumes "length input < depth"
  shows "case from_cbor depth strict tags input of
      Inl e \<Rightarrow> reader_error e \<or> (\<exists>m. e = Json_out_of_range 408 m)
    | Inr j \<Rightarrow> json_wf j"
  using cbe.parse_ends [OF reads_eitherD(1) [OF cbor_parse_below] assms]
  unfolding from_cbor_def cbor_error_def .

theorem cbor_any_input_witness:
  "case from_cbor 3 True Tag_store [CHR 0x9F, CHR 0xF6] of
      Inl e \<Rightarrow> reader_error e \<or> (\<exists>m. e = Json_out_of_range 408 m)
    | Inr j \<Rightarrow> json_wf j"
  by (rule cbor_any_input) simp

section \<open>Pitfalls\<close>

lemma top_level_slot: "slot (new_dom JNull) [] (\<lambda>v. v)"
  by (rule slot_top) (simp add: new_dom_def)

lemma sint_negative:
  assumes "2 ^ 63 \<le> n" and "n < 2 ^ 64"
  shows "sint (- 1 - of_nat n :: 64 word) = 2 ^ 64 - 1 - int n"
proof -
  have "of_int (2 ^ 64 - 1 - int n) = (of_int (2 ^ 64) - 1 - of_nat n :: 64 word)"
    by (simp only: of_int_diff of_int_1 of_int_of_nat_eq)
  moreover have "of_int (2 ^ 64) = (0 :: 64 word)" by simp
  ultimately have "sint (- 1 - of_nat n :: 64 word) = sint (of_int (2 ^ 64 - 1 - int n) :: 64 word)"
    by (simp only: diff_0)
  also have "\<dots> = 2 ^ 64 - 1 - int n"
    unfolding signed_of_int using assms by (simp add: signed_take_bit_int_eq_self)
  finally show ?thesis .
qed

lemma cbor_tag_rejected:
  fixes b :: nat
  assumes "b \<in> {0xC0..0xC5} \<union> {0xD5..0xD7}" and "rd_at r (char_of b # s) d"
  shows "\<exists>m. parse_cbor_internal (Suc depth) tags True r = Inl (Json_parse_error 112 m)"
proof -
  have "b = 192 \<or> b = 193 \<or> b = 194 \<or> b = 195 \<or> b = 196 \<or> b = 197 \<or> b = 213 \<or> b = 214 \<or> b = 215"
    using assms(1) unfolding Un_iff atLeastAtMost_iff by presburger
  then have sw: "cbor_switch f dp tags b r1 = Inl (rd_error Format_cbor 112 (''invalid byte: 0x'' @ rd_token_string r1) ''value'' r1)"
    for f dp r1 by (elim disjE) (simp_all add: cbor_switch_def)
  have "b < 256" using assms(1) by auto
  then obtain r1 where "parse_cbor_internal (Suc depth) tags True r = cbor_switch (parse_cbor_internal depth tags) (Suc depth) tags b r1"
    using parse_cbor_at [OF assms(2), of depth tags] by blast
  then show ?thesis by (simp add: sw rd_error_def parse_error_at_def)
qed

lemma cbor_large_negative:
  assumes "slot d q F" and "2 ^ 63 \<le> n" and "n < 2 ^ 64" and "rd_at r (CHR 0x3B # write_number 8 n @ s) d"
  shows "\<exists>r' d' w. parse_cbor_internal (Suc depth) tags True r = Inr r' \<and> rd_at r' s d'
    \<and> dom_root d' = F (JInteger w) \<and> sint w = 2 ^ 64 - 1 - int n \<and> dom_stack d' = dom_stack d"
proof -
  have "CHR 0x3B = char_of (59 :: nat)" by (rule char_code) (simp add: char_nat_def)
  then have at: "rd_at r (char_of (59 :: nat) # write_number 8 n @ s) d" using assms(4) by (simp only:)
  have "n < 256 ^ 8" using assms(3) by simp
  then obtain r1 where 1: "parse_cbor_internal (Suc depth) tags True r = rd_sax (negative_value n) r1" "rd_at r1 s d"
    using parse_cbor_number [OF at _ _ cbor_switch_codes(23), of depth tags] by auto
  then show ?thesis
    using rd_sax_at [OF 1(2) assms(1), of "negative_value n"] sint_negative [OF assms(2,3)]
    unfolding negative_value_def by metis
qed

text \<open>A break is no value, so no value that is written starts with one, and none is empty.\<close>

lemma parse_cbor_break:
  "at_break (rd_get r) \<Longrightarrow> \<exists>e. parse_cbor_internal depth tags True r = Inl e"
  by (cases depth) (simp_all add: parse_cbor_internal.simps at_break_def cbor_switch_def char_nat_def Let_def)

lemma write_cbor_not_empty:
  assumes "binary_ok x"
  shows "write_cbor x \<noteq> []"
proof
  assume empty: "write_cbor x = []"
  have "rd_at (new_reader []) (write_cbor x @ []) (new_dom JNull)" by (simp add: rd_at_def new_reader_def empty)
  then obtain r' where "parse_cbor_internal (Suc (json_depth x)) Tag_store True (new_reader []) = Inr r'"
    using cb.reads_any [OF assms, of "Suc (json_depth x)"] top_level_slot unfolding cb.reads_def by blast
  then show False
    by (simp add: parse_cbor_internal.simps rd_get_def get_character_def new_reader_def Let_def)
qed

lemma written_values:
  assumes "\<forall>x \<in> set xs. binary_ok x"
  shows "length xs \<le> length (concat (map write_cbor xs))"
  using assms
proof (induction xs)
  case (Cons x xs)
  then obtain c cs where "write_cbor x = c # cs" using write_cbor_not_empty [of x] by (cases "write_cbor x") auto
  then show ?case using Cons by simp
qed simp

text \<open>The elements of an array of indefinite length, up to the break.\<close>

lemma elements_until_read:
  assumes F: "\<And>v. json_at q (F v) = Some v" "\<And>v w. json_modify q (\<lambda>_. w) (F v) = F w"
    and "\<forall>x \<in> set xs. binary_ok x \<and> json_depth x < depth" and "length xs < m"
    and "rd_at r (concat (map write_cbor xs) @ CHR 0xFF # s) d" and "dom_stack d = q # st" "dom_root d = F (JArray ys)"
  shows "\<exists>r' d'. rd_elements_until (parse_cbor_internal depth Tag_store False) m r = Inr r' \<and> rd_at r' s d'
    \<and> dom_root d' = F (JArray (ys @ map cbor_image xs)) \<and> dom_stack d' = q # st"
  using assms(3-)
proof (induction xs arbitrary: r d ys m)
  case Nil
  obtain k where m: "m = Suc k" using Nil.prems(2) by (cases m) auto
  have "rd_at (rd_get r) s d" "at_break (rd_get r)"
    using rd_at_get [of r "CHR 0xFF" s d] Nil.prems(3) by (simp_all add: at_break_def)
  then show ?case using Nil.prems(4,5) by (auto simp: m Let_def)
next
  case (Cons x xs)
  obtain k where m: "m = Suc k" "length xs < k" using Cons.prems(2) by (cases m) auto
  have at: "rd_at r (write_cbor x @ concat (map write_cbor xs) @ CHR 0xFF # s) d" using Cons.prems(3) by simp
  have "cb.reads depth x" using Cons.prems(1) cb.reads_any by simp
  then obtain r1 d1 where 1: "parse_cbor_internal depth Tag_store True r = Inr r1"
    "rd_at r1 (concat (map write_cbor xs) @ CHR 0xFF # s) d1"
    "dom_root d1 = F (JArray (ys @ [cbor_image x]))" "dom_stack d1 = q # st"
    using at slot_element [OF F Cons.prems(4,5)] Cons.prems(4) unfolding cb.reads_def by metis
  have "\<not> at_break (rd_get r)" using parse_cbor_break [of r depth Tag_store] 1(1) by auto
  moreover obtain r' d' where "rd_elements_until (parse_cbor_internal depth Tag_store False) k r1 = Inr r'" "rd_at r' s d'"
    "dom_root d' = F (JArray ((ys @ [cbor_image x]) @ map cbor_image xs))" "dom_stack d' = q # st"
    using Cons.IH [OF _ m(2) 1(2,4,3)] Cons.prems(1) by auto
  ultimately show ?case using 1(1) by (auto simp: m(1) Let_def parse_cbor_get)
qed

lemma write_number_max: "write_number k (256 ^ k - 1) = replicate k (CHR 0xFF)"
proof (induction k)
  case (Suc k)
  have "Suc (256 ^ Suc k - 1) = (256 :: nat) ^ Suc k" by simp
  then have n: "256 ^ Suc k - 1 = 256 * (256 ^ k - 1) + (255 :: nat)" by (simp add: algebra_simps)
  have "char_of ((256 ^ Suc k - 1) mod 256 :: nat) = CHR 0xFF" unfolding n by (simp add: char_of_def bit_0)
  then have "char_of (256 ^ Suc k - 1 :: nat) = CHR 0xFF" by (simp only: char_of_mod_256)
  moreover have "(256 ^ Suc k - 1) div 256 = (256 ^ k - 1 :: nat)" unfolding n by simp
  ultimately show ?case using Suc by (simp add: replicate_append_same del: power_Suc)
qed simp

lemma cbor_unknown_size:
  assumes slot: "slot d q F" and xs: "\<forall>x \<in> set xs. binary_ok x \<and> json_depth x < depth"
    and at: "rd_at r (CHR 0x9B # replicate 8 (CHR 0xFF) @ concat (map write_cbor xs) @ CHR 0xFF # s) d"
  shows "\<exists>r' d'. parse_cbor_internal (Suc depth) Tag_store True r = Inr r' \<and> rd_at r' s d'
    \<and> dom_root d' = F (JArray (map cbor_image xs)) \<and> dom_stack d' = dom_stack d"
proof -
  let ?body = "concat (map write_cbor xs) @ CHR 0xFF # s"
  let ?f = "parse_cbor_internal depth Tag_store"
  let ?d = "d\<lparr>dom_root := F (JArray []), dom_stack := q # dom_stack d\<rparr>"
  have num: "write_number 8 unknown_size = replicate 8 (CHR 0xFF)" "unknown_size < 256 ^ 8"
    using write_number_max [of 8] by (simp_all add: unknown_size_def)
  have "CHR 0x9B = char_of (155 :: nat)" by (rule char_code) (simp add: char_nat_def)
  then have "rd_at r (char_of (155 :: nat) # write_number 8 unknown_size @ ?body) d" using at num(1) by (simp only:)
  from parse_cbor_at [OF this, of depth Tag_store]
  obtain r1 where 1: "parse_cbor_internal (Suc depth) Tag_store True r = rd_sized Format_cbor 8 (get_cbor_array ?f) r1"
    "rd_at r1 (write_number 8 unknown_size @ ?body) d" by (auto simp: cbor_switch_codes)
  obtain r2 where 2: "rd_sized Format_cbor 8 (get_cbor_array ?f) r1 = get_cbor_array ?f unknown_size r2" "rd_at r2 ?body d"
    using rd_sized_at [OF 1(2) num(2), of Format_cbor "get_cbor_array ?f"] by blast
  have "\<exists>r' d'. rd_array unknown_size (\<lambda>r3. rd_elements_until (?f False) (turns r3) r3) r2 = Inr r' \<and> rd_at r' s d'
      \<and> dom_root d' = F (JArray (map cbor_image xs)) \<and> dom_stack d' = dom_stack d"
  proof (rule rd_array_at [OF 2(2) slot])
    fix r3
    assume 3: "rd_at r3 ?body ?d"
    have "length xs < turns r3" using written_values [of xs] xs 3 by (simp add: rd_at_def turns_def)
    then show "\<exists>r4 d4. rd_elements_until (?f False) (turns r3) r3 = Inr r4 \<and> rd_at r4 s d4
        \<and> dom_root d4 = F (JArray (map cbor_image xs)) \<and> dom_stack d4 = q # dom_stack d"
      using elements_until_read [OF slotD(2,3) [OF slot] xs _ 3, of "turns r3" "dom_stack d" "[]"] by simp
  qed simp
  then show ?thesis by (simp add: 1(1) 2(1) get_cbor_array_def)
qed

text \<open>
  C38: What the CBOR reader takes for something else, at any place of a document (the place \<open>q\<close> where the
  next value goes, in the document \<open>F\<close> around it) and whatever follows: the bytes that stand for a negative
  integer below \<open>- 2\<^sup>6\<^sup>3\<close> give a positive one, without an error; the tags 0 to 5 and 21 to 23 are an invalid
  byte, even where tags are to be ignored or stored; an array that declares \<open>2\<^sup>6\<^sup>4 - 1\<close> elements is
  read like one of indefinite length: it holds the values before the next break, however many they are.
\<close>

theorem cbor_pitfalls:
  assumes "slot d q F" and "2 ^ 63 \<le> n" and "n < 2 ^ 64" and "b \<in> {0xC0..0xC5} \<union> {0xD5..0xD7}"
    and "\<forall>x \<in> set xs. binary_ok x \<and> json_depth x < depth"
  shows "(\<forall>r. rd_at r (CHR 0x3B # write_number 8 n @ s) d \<longrightarrow>
      (\<exists>r' d' w. parse_cbor_internal (Suc depth) tags True r = Inr r' \<and> rd_at r' s d'
        \<and> dom_root d' = F (JInteger w) \<and> sint w = 2 ^ 64 - 1 - int n \<and> dom_stack d' = dom_stack d))
    \<and> (\<forall>r. rd_at r (char_of (b :: nat) # s) d \<longrightarrow>
      (\<exists>m. parse_cbor_internal (Suc depth) tags True r = Inl (Json_parse_error 112 m)))
    \<and> (\<forall>r. rd_at r (CHR 0x9B # replicate 8 (CHR 0xFF) @ concat (map write_cbor xs) @ CHR 0xFF # s) d \<longrightarrow>
      (\<exists>r' d'. parse_cbor_internal (Suc depth) Tag_store True r = Inr r' \<and> rd_at r' s d'
        \<and> dom_root d' = F (JArray (map cbor_image xs)) \<and> dom_stack d' = dom_stack d))"
  using cbor_large_negative [OF assms(1-3)] cbor_tag_rejected [OF assms(4)] cbor_unknown_size [OF assms(1,5)]
  by blast

text \<open>Three documents: a large negative number, a date, and an array of three elements.\<close>

theorem cbor_pitfalls_witness:
  "(\<exists>r' d' w. parse_cbor_internal 2 Tag_ignore True (new_reader (CHR 0x3B # write_number 8 (2 ^ 63) @ ''x'')) = Inr r'
      \<and> rd_at r' ''x'' d' \<and> dom_root d' = JInteger w \<and> sint w = 2 ^ 64 - 1 - int (2 ^ 63) \<and> dom_stack d' = [])
    \<and> (\<exists>m. parse_cbor_internal 2 Tag_ignore True (new_reader (char_of (0xC1 :: nat) # ''x'')) = Inl (Json_parse_error 112 m))
    \<and> (\<exists>r' d'. parse_cbor_internal 2 Tag_store True
          (new_reader (CHR 0x9B # replicate 8 (CHR 0xFF)
             @ concat (map write_cbor [JUnsigned 1, JString ''a'', JNull]) @ CHR 0xFF # ''x'')) = Inr r'
        \<and> rd_at r' ''x'' d' \<and> dom_root d' = JArray [JUnsigned 1, JString ''a'', JNull] \<and> dom_stack d' = [])"
proof -
  have "rd_at (new_reader t) t (new_dom JNull)" for t by (simp add: rd_at_def new_reader_def)
  moreover have "dom_stack (new_dom JNull) = []" "Suc 1 = 2" by (simp_all add: new_dom_def)
  moreover have "(2 :: nat) ^ 63 < 2 ^ 64" "193 \<in> {0xC0..0xC5} \<union> {0xD5..0xD7 :: nat}"
    "\<forall>x \<in> set [JUnsigned 1, JString ''a'', JNull]. binary_ok x \<and> json_depth x < 1" by simp_all
  moreover have "map cbor_image [JUnsigned 1, JString ''a'', JNull] = [JUnsigned 1, JString ''a'', JNull]" by simp
  ultimately show ?thesis
    using cbor_pitfalls [OF top_level_slot order_refl, of 193 "[JUnsigned 1, JString ''a'', JNull]" 1 "''x''" Tag_ignore]
    by metis
qed

end
