(* ===== verification/Bson.thy ===== *)
theory Bson
  imports Binary_Format
begin

text \<open>
  BSON: \<^verbatim>\<open>write_bson\<close> of \<^verbatim>\<open>class binary_writer\<close> with the functions that compute sizes, and
  \<^verbatim>\<open>parse_bson_internal\<close> of \<^verbatim>\<open>class binary_reader\<close> in \<^verbatim>\<open>include/nlohmann/json.hpp\<close>. Numbers are little
  endian. As in the other formats a reader gets the depth of the call stack.
\<close>

section \<open>Sizes\<close>

definition write_number_le :: "nat \<Rightarrow> nat \<Rightarrow> string" where
  "write_number_le k n = rev (write_number k n)"

definition calc_bson_entry_header_size :: "string \<Rightarrow> nat outcome" where
  "calc_bson_entry_header_size name =
     (if CHR 0x00 \<in> set name
      then Inl (json_out_of_range 409 (''BSON key cannot contain code point U+0000 (at byte ''
             @ to_string (length (takeWhile (\<lambda>c. c \<noteq> CHR 0x00) name)) @ '')''))
      else Inr (1 + length name + 1))"

definition calc_bson_string_size :: "string \<Rightarrow> nat" where
  "calc_bson_string_size s = 4 + length s + 1"

definition calc_bson_integer_size :: "int \<Rightarrow> nat" where
  "calc_bson_integer_size i = (if - (2 ^ 31) \<le> i \<and> i \<le> 2 ^ 31 - 1 then 4 else 8)"

definition calc_bson_unsigned_size :: "nat \<Rightarrow> nat" where
  "calc_bson_unsigned_size n = (if n \<le> 2 ^ 31 - 1 then 4 else 8)"

definition calc_bson_binary_size :: "string \<Rightarrow> nat" where
  "calc_bson_binary_size bytes = 4 + length bytes + 1"

text \<open>The first error of a list of results, or all of them.\<close>

fun all_outcomes :: "'a outcome list \<Rightarrow> 'a list outcome" where
  "all_outcomes [] = Inr []"
| "all_outcomes (x # xs) =
     (case x of
        Inl e \<Rightarrow> Inl e
      | Inr y \<Rightarrow> (case all_outcomes xs of Inl e \<Rightarrow> Inl e | Inr ys \<Rightarrow> Inr (y # ys)))"

text \<open>The size of a document with entries of these sizes, and of an entry with a value of this size.\<close>

definition bson_document_size :: "nat outcome list \<Rightarrow> nat outcome" where
  "bson_document_size sizes = (case all_outcomes sizes of Inl e \<Rightarrow> Inl e | Inr ns \<Rightarrow> Inr (4 + sum_list ns + 1))"

definition bson_entry_size :: "string \<Rightarrow> nat outcome \<Rightarrow> nat outcome" where
  "bson_entry_size name value_size =
     (case calc_bson_entry_header_size name of
        Inl e \<Rightarrow> Inl e
      | Inr h \<Rightarrow> (case value_size of Inl e \<Rightarrow> Inl e | Inr n \<Rightarrow> Inr (h + n)))"

text \<open>The elements of an array with their indices as names.\<close>

definition numbered :: "json list \<Rightarrow> (string \<times> json) list" where
  "numbered xs = zip (map to_string [0..<length xs]) xs"

lemma numbered_set: "kv \<in> set (numbered xs) \<Longrightarrow> snd kv \<in> set xs"
  unfolding numbered_def by (metis prod.collapse set_zip_rightD)

lemma numbered_size [termination_simp]: "kv \<in> set (numbered xs) \<Longrightarrow> size (snd kv) < Suc (size_list size xs)"
  using numbered_set [of kv xs] size_list_estimation' [of "snd kv" xs "size (snd kv)" size] by simp

fun calc_bson_element_size :: "string \<Rightarrow> json \<Rightarrow> nat outcome" where
  "calc_bson_element_size name (JObject kvs) =
     bson_entry_size name (bson_document_size (map (\<lambda>kv. calc_bson_element_size (fst kv) (snd kv)) kvs))"
| "calc_bson_element_size name (JArray xs) =
     bson_entry_size name (bson_document_size (map (\<lambda>kv. calc_bson_element_size (fst kv) (snd kv)) (numbered xs)))"
| "calc_bson_element_size name (JBinary bytes subtype) = bson_entry_size name (Inr (calc_bson_binary_size bytes))"
| "calc_bson_element_size name (JBoolean b) = bson_entry_size name (Inr 1)"
| "calc_bson_element_size name (JFloat d) = bson_entry_size name (Inr 8)"
| "calc_bson_element_size name (JInteger i) = bson_entry_size name (Inr (calc_bson_integer_size (sint i)))"
| "calc_bson_element_size name (JUnsigned u) = bson_entry_size name (Inr (calc_bson_unsigned_size (unat u)))"
| "calc_bson_element_size name (JString s) = bson_entry_size name (Inr (calc_bson_string_size s))"
| "calc_bson_element_size name JNull = bson_entry_size name (Inr 0)"
| "calc_bson_element_size name JDiscarded = bson_entry_size name (Inl (Assertion_failed ''false''))"

definition calc_bson_object_size :: "(string \<times> json) list \<Rightarrow> nat outcome" where
  "calc_bson_object_size kvs = bson_document_size (map (\<lambda>kv. calc_bson_element_size (fst kv) (snd kv)) kvs)"

definition calc_bson_array_size :: "json list \<Rightarrow> nat outcome" where
  "calc_bson_array_size xs = calc_bson_object_size (numbered xs)"

section \<open>Writing\<close>

definition write_bson_entry_header :: "string \<Rightarrow> nat \<Rightarrow> string" where
  "write_bson_entry_header name element_type = char_of element_type # name @ [CHR 0x00]"

definition write_bson_boolean :: "string \<Rightarrow> bool \<Rightarrow> string" where
  "write_bson_boolean name b = write_bson_entry_header name 0x08 @ [if b then CHR 0x01 else CHR 0x00]"

definition write_bson_double :: "string \<Rightarrow> double \<Rightarrow> string" where
  "write_bson_double name d = write_bson_entry_header name 0x01 @ write_number_le 8 (double_bits d)"

definition write_bson_string :: "string \<Rightarrow> string \<Rightarrow> string" where
  "write_bson_string name s =
     write_bson_entry_header name 0x02 @ write_number_le 4 (length s + 1) @ s @ [CHR 0x00]"

definition write_bson_null :: "string \<Rightarrow> string" where
  "write_bson_null name = write_bson_entry_header name 0x0A"

definition write_bson_integer :: "string \<Rightarrow> int \<Rightarrow> string" where
  "write_bson_integer name i =
     (if - (2 ^ 31) \<le> i \<and> i \<le> 2 ^ 31 - 1
      then write_bson_entry_header name 0x10 @ rev (write_signed 4 i)
      else write_bson_entry_header name 0x12 @ rev (write_signed 8 i))"

definition write_bson_unsigned :: "string \<Rightarrow> nat \<Rightarrow> string outcome" where
  "write_bson_unsigned name n =
     (if n \<le> 2 ^ 31 - 1 then Inr (write_bson_entry_header name 0x10 @ write_number_le 4 n)
      else if n \<le> 2 ^ 63 - 1 then Inr (write_bson_entry_header name 0x12 @ write_number_le 8 n)
      else Inl (json_out_of_range 407 (''integer number '' @ to_string n
                  @ '' cannot be represented by BSON as it does not fit int64'')))"

definition write_bson_binary :: "string \<Rightarrow> string \<Rightarrow> nat option \<Rightarrow> string" where
  "write_bson_binary name bytes subtype =
     write_bson_entry_header name 0x05 @ write_number_le 4 (length bytes)
       @ write_number 1 (case subtype of None \<Rightarrow> 0 | Some t \<Rightarrow> t) @ bytes"

text \<open>The size, the entries and the terminator of a document; an error of the size comes first.\<close>

definition write_bson_document :: "nat outcome \<Rightarrow> string outcome list \<Rightarrow> string outcome" where
  "write_bson_document document_size entries =
     (case document_size of
        Inl e \<Rightarrow> Inl e
      | Inr n \<Rightarrow>
          (case all_outcomes entries of
             Inl e \<Rightarrow> Inl e
           | Inr ts \<Rightarrow> Inr (write_number_le 4 n @ concat ts @ [CHR 0x00])))"

definition write_bson_nested :: "string \<Rightarrow> nat \<Rightarrow> string outcome \<Rightarrow> string outcome" where
  "write_bson_nested name element_type document =
     (case document of Inl e \<Rightarrow> Inl e | Inr t \<Rightarrow> Inr (write_bson_entry_header name element_type @ t))"

fun write_bson_element :: "string \<Rightarrow> json \<Rightarrow> string outcome" where
  "write_bson_element name (JObject kvs) =
     write_bson_nested name 0x03
       (write_bson_document (calc_bson_object_size kvs) (map (\<lambda>kv. write_bson_element (fst kv) (snd kv)) kvs))"
| "write_bson_element name (JArray xs) =
     write_bson_nested name 0x04
       (write_bson_document (calc_bson_array_size xs)
          (map (\<lambda>kv. write_bson_element (fst kv) (snd kv)) (numbered xs)))"
| "write_bson_element name (JBinary bytes subtype) = Inr (write_bson_binary name bytes subtype)"
| "write_bson_element name (JBoolean b) = Inr (write_bson_boolean name b)"
| "write_bson_element name (JFloat d) = Inr (write_bson_double name d)"
| "write_bson_element name (JInteger i) = Inr (write_bson_integer name (sint i))"
| "write_bson_element name (JUnsigned u) = write_bson_unsigned name (unat u)"
| "write_bson_element name (JString s) = Inr (write_bson_string name s)"
| "write_bson_element name JNull = Inr (write_bson_null name)"
| "write_bson_element name JDiscarded = Inl (Assertion_failed ''false'')"

definition write_bson_object :: "(string \<times> json) list \<Rightarrow> string outcome" where
  "write_bson_object kvs =
     write_bson_document (calc_bson_object_size kvs) (map (\<lambda>kv. write_bson_element (fst kv) (snd kv)) kvs)"

text \<open>The overload that returns the bytes.\<close>

definition to_bson :: "json \<Rightarrow> string outcome" where
  "to_bson j =
     (case j of
        JObject kvs \<Rightarrow> write_bson_object kvs
      | _ \<Rightarrow> Inl (type_error 317 (''to serialize to BSON, top-level type must be object, but is ''
                 @ type_name (json_type j))))"

section \<open>Reading\<close>

definition rd_number_le :: "nat \<Rightarrow> binary_reader \<Rightarrow> (nat \<times> binary_reader) outcome" where
  "rd_number_le k r =
     (case rd_bytes Format_bson ''number'' k r of Inl e \<Rightarrow> Inl e | Inr (bs, r1) \<Rightarrow> Inr (bytes_value (rev bs), r1))"

fun bson_cstr_loop :: "nat \<Rightarrow> binary_reader \<Rightarrow> (string \<times> binary_reader) outcome" where
  "bson_cstr_loop 0 r = Inl (Undefined_behaviour ''out of turns'')"
| "bson_cstr_loop (Suc n) r =
     (let r1 = rd_get r
      in case rd_current r1 of
           None \<Rightarrow> Inl (rd_eof_error Format_bson ''cstring'' r1)
         | Some c \<Rightarrow>
             if c = CHR 0x00 then Inr ([], r1)
             else (case bson_cstr_loop n r1 of Inl e \<Rightarrow> Inl e | Inr (cs, r2) \<Rightarrow> Inr (c # cs, r2)))"

definition get_bson_cstr :: "binary_reader \<Rightarrow> (string \<times> binary_reader) outcome" where
  "get_bson_cstr r = bson_cstr_loop (turns r) r"

definition int_to_string :: "int \<Rightarrow> string" where
  "int_to_string i = (if i < 0 then CHR ''-'' # to_string (nat (- i)) else to_string (nat i))"

text \<open>The terminator of a string is read but not looked at; where it is missing no error is reported.\<close>

definition get_bson_string :: "int \<Rightarrow> binary_reader \<Rightarrow> (string \<times> binary_reader) outcome" where
  "get_bson_string len r =
     (if len < 1
      then Inl (rd_error Format_bson 112 (''string length must be at least 1, is '' @ int_to_string len) ''string'' r)
      else case rd_string Format_bson (nat (len - 1)) r of
             Inl e \<Rightarrow> Inl e
           | Inr (s, r1) \<Rightarrow>
               (let r2 = rd_get r1 in if rd_current r2 = None then Inl Returned_false else Inr (s, r2)))"

definition get_bson_binary :: "int \<Rightarrow> binary_reader \<Rightarrow> (json \<times> binary_reader) outcome" where
  "get_bson_binary len r =
     (if len < 0
      then Inl (rd_error Format_bson 112 (''byte array length cannot be negative, is '' @ int_to_string len) ''binary'' r)
      else case rd_number Format_bson 1 r of
             Inl e \<Rightarrow> Inl e
           | Inr (subtype, r1) \<Rightarrow>
               (case rd_binary Format_bson (nat len) r1 of
                  Inl e \<Rightarrow> Inl e
                | Inr (bytes, r2) \<Rightarrow> Inr (JBinary bytes (Some subtype), r2)))"

text \<open>A value made from a number of \<open>k\<close> bytes, and one that a function reads after a length.\<close>

definition bson_number_value :: "nat \<Rightarrow> (nat \<Rightarrow> json) \<Rightarrow> binary_reader \<Rightarrow> binary_reader outcome" where
  "bson_number_value k g r =
     (case rd_number_le k r of Inl e \<Rightarrow> Inl e | Inr (n, r1) \<Rightarrow> rd_sax (g n) r1)"

definition bson_string_value :: "binary_reader \<Rightarrow> binary_reader outcome" where
  "bson_string_value r =
     (case rd_number_le 4 r of
        Inl e \<Rightarrow> Inl e
      | Inr (len, r1) \<Rightarrow>
          (case get_bson_string (to_signed 4 len) r1 of Inl e \<Rightarrow> Inl e | Inr (s, r2) \<Rightarrow> rd_sax (JString s) r2))"

definition bson_binary_value :: "binary_reader \<Rightarrow> binary_reader outcome" where
  "bson_binary_value r =
     (case rd_number_le 4 r of
        Inl e \<Rightarrow> Inl e
      | Inr (len, r1) \<Rightarrow>
          (case get_bson_binary (to_signed 4 len) r1 of Inl e \<Rightarrow> Inl e | Inr (v, r2) \<Rightarrow> rd_sax v r2))"

text \<open>\<open>f is_array\<close> reads a document.\<close>

definition parse_bson_element_internal ::
  "(bool \<Rightarrow> binary_reader \<Rightarrow> binary_reader outcome) \<Rightarrow> nat \<Rightarrow> nat \<Rightarrow> binary_reader \<Rightarrow> binary_reader outcome" where
  "parse_bson_element_internal f element_type position r =
     (if element_type = 0x01 then bson_number_value 8 (\<lambda>n. JFloat (double_of_bits n)) r
      else if element_type = 0x02 then bson_string_value r
      else if element_type = 0x03 then f False r
      else if element_type = 0x04 then f True r
      else if element_type = 0x05 then bson_binary_value r
      else if element_type = 0x08 then
        (let r1 = rd_get r in rd_sax (JBoolean (rd_current r1 \<noteq> Some CHR 0x00)) r1)
      else if element_type = 0x0A then rd_sax JNull r
      else if element_type = 0x10 then bson_number_value 4 (\<lambda>n. JInteger (of_int (to_signed 4 n))) r
      else if element_type = 0x12 then bson_number_value 8 (\<lambda>n. JInteger (of_int (to_signed 8 n))) r
      else Inl (parse_error_at 114 position
                  (''Unsupported BSON record type 0x'' @ [hex_char (element_type div 16), hex_char (element_type mod 16)])))"

text \<open>The key of an array element is read and dropped.\<close>

definition bson_element ::
  "(bool \<Rightarrow> binary_reader \<Rightarrow> binary_reader outcome) \<Rightarrow> bool \<Rightarrow> nat \<Rightarrow> binary_reader \<Rightarrow> binary_reader outcome" where
  "bson_element f is_array element_type r =
     (case get_bson_cstr r of
        Inl e \<Rightarrow> Inl e
      | Inr (key, r1) \<Rightarrow>
          (case (if is_array then Inr r1 else on_handler r1 (dom_key key (rd_dom r1))) of
             Inl e \<Rightarrow> Inl e
           | Inr r2 \<Rightarrow> parse_bson_element_internal f element_type (rd_chars r) r2))"

fun bson_element_loop ::
  "(bool \<Rightarrow> binary_reader \<Rightarrow> binary_reader outcome) \<Rightarrow> bool \<Rightarrow> nat \<Rightarrow> binary_reader \<Rightarrow> binary_reader outcome" where
  "bson_element_loop f is_array 0 r = Inl (Undefined_behaviour ''out of turns'')"
| "bson_element_loop f is_array (Suc n) r =
     (let r1 = rd_get r
      in case rd_current r1 of
           None \<Rightarrow> Inl (rd_eof_error Format_bson ''element list'' r1)
         | Some c \<Rightarrow>
             if c = CHR 0x00 then Inr r1
             else (case bson_element f is_array (char_nat c) r1 of
                     Inl e \<Rightarrow> Inl e
                   | Inr r2 \<Rightarrow> bson_element_loop f is_array n r2))"

definition parse_bson_element_list ::
  "(bool \<Rightarrow> binary_reader \<Rightarrow> binary_reader outcome) \<Rightarrow> bool \<Rightarrow> binary_reader \<Rightarrow> binary_reader outcome" where
  "parse_bson_element_list f is_array r = bson_element_loop f is_array (turns r) r"

definition bson_document ::
  "(bool \<Rightarrow> binary_reader \<Rightarrow> binary_reader outcome) \<Rightarrow> bool \<Rightarrow> binary_reader \<Rightarrow> binary_reader outcome" where
  "bson_document f is_array r =
     (case rd_number_le 4 r of
        Inl e \<Rightarrow> Inl e
      | Inr (document_size, r1) \<Rightarrow>
          (if is_array then rd_array unknown_size (parse_bson_element_list f True) r1
           else rd_object unknown_size (parse_bson_element_list f False) r1))"

text \<open>\<^verbatim>\<open>parse_bson_internal\<close>, and \<^verbatim>\<open>parse_bson_array\<close> for an array.\<close>

fun parse_bson_internal :: "nat \<Rightarrow> bool \<Rightarrow> binary_reader \<Rightarrow> binary_reader outcome" where
  "parse_bson_internal 0 is_array r = Inl (Undefined_behaviour ''stack overflow'')"
| "parse_bson_internal (Suc depth) is_array r = bson_document (parse_bson_internal depth) is_array r"

text \<open>Where the reader returns false the result is a discarded value.\<close>

definition from_bson :: "nat \<Rightarrow> bool \<Rightarrow> string \<Rightarrow> json outcome" where
  "from_bson depth strict input =
     (let res = binary_sax_parse Format_bson (parse_bson_internal depth False) strict input
      in if res = Inl Returned_false then Inr JDiscarded else res)"

end
