(* ===== verification/Bson_Roundtrip.thy ===== *)
theory Bson_Roundtrip
  imports Bson Binary_Facts
begin

text \<open>
  The BSON writer and reader: the sizes the writer computes are those of the text it writes, the reader
  gives the value back, and what it does on any input.
\<close>

section \<open>The sizes\<close>

lemma all_outcomes_Inr: "all_outcomes xs = Inr ys \<longleftrightarrow> xs = map Inr ys"
proof
  show "all_outcomes xs = Inr ys \<Longrightarrow> xs = map Inr ys"
    by (induction xs arbitrary: ys) (auto split: sum.splits)
  have "all_outcomes (map Inr zs) = Inr zs" for zs :: "'a list" by (induction zs) simp_all
  then show "xs = map Inr ys \<Longrightarrow> all_outcomes xs = Inr ys" by simp
qed

lemma length_write_number_le [simp]: "length (write_number_le k n) = k"
  by (simp add: write_number_le_def)

lemma length_header [simp]: "length (write_bson_entry_header name t) = 1 + length name + 1"
  by (simp add: write_bson_entry_header_def)

lemma bson_entry_size_Inr:
  "bson_entry_size name value_size = Inr n \<longleftrightarrow>
     CHR 0x00 \<notin> set name \<and> (\<exists>m. value_size = Inr m \<and> n = 1 + length name + 1 + m)"
  by (auto simp: bson_entry_size_def calc_bson_entry_header_size_def split: sum.split)

lemma bson_document_size_Inr:
  "bson_document_size sizes = Inr n \<longleftrightarrow> (\<exists>ns. sizes = map Inr ns \<and> n = 4 + sum_list ns + 1)"
  by (auto simp: bson_document_size_def all_outcomes_Inr split: sum.split)
    (metis all_outcomes_Inr sum.distinct(1) sum.inject(2))+

lemma write_bson_document_Inr:
  "write_bson_document document_size entries = Inr t \<longleftrightarrow>
     (\<exists>n ts. document_size = Inr n \<and> entries = map Inr ts \<and> t = write_number_le 4 n @ concat ts @ [CHR 0x00])"
  by (auto simp: write_bson_document_def all_outcomes_Inr split: sum.split)
    (metis all_outcomes_Inr sum.distinct(1) sum.inject(2))+

lemma map_Inr_lengths:
  assumes "map f kvs = map Inr ns" and "map g kvs = map Inr ts"
    and "\<And>kv n t. kv \<in> set kvs \<Longrightarrow> f kv = Inr n \<Longrightarrow> g kv = Inr t \<Longrightarrow> length t = n"
  shows "sum_list ns = length (concat ts)"
  using assms
proof (induction kvs arbitrary: ns ts)
  case (Cons kv kvs)
  from Cons.prems(1) obtain n ns' where n: "ns = n # ns'" "f kv = Inr n" "map f kvs = map Inr ns'"
    by (cases ns) auto
  from Cons.prems(2) obtain t ts' where t: "ts = t # ts'" "g kv = Inr t" "map g kvs = map Inr ts'"
    by (cases ts) auto
  have "length u = m" if "kv' \<in> set kvs" "f kv' = Inr m" "g kv' = Inr u" for kv' m u
    using Cons.prems(3) [of kv' m u] that by simp
  then have "sum_list ns' = length (concat ts')" using Cons.IH [OF n(3) t(3)] by blast
  moreover have "length t = n" using Cons.prems(3) [of kv n t] n(2) t(2) by simp
  ultimately show ?case using n(1) t(1) by simp
qed simp

lemma bson_element_length:
  "calc_bson_element_size name j = Inr n \<Longrightarrow> write_bson_element name j = Inr t \<Longrightarrow> length t = n"
proof (induction name j arbitrary: n t rule: write_bson_element.induct)
  case (1 name kvs)
  then show ?case
    by (auto simp: bson_entry_size_Inr bson_document_size_Inr write_bson_nested_def write_bson_document_Inr
        split: sum.splits dest: map_Inr_lengths)
next
  case (2 name xs)
  then show ?case
    by (auto simp: bson_entry_size_Inr bson_document_size_Inr write_bson_nested_def write_bson_document_Inr
        split: sum.splits dest: map_Inr_lengths)
next
  case (6 name i)
  then show ?case
    by (auto simp: bson_entry_size_Inr write_bson_integer_def write_signed_def calc_bson_integer_size_def)
next
  case (7 name u)
  then show ?case
    by (auto simp: bson_entry_size_Inr write_bson_unsigned_def calc_bson_unsigned_size_def split: if_splits)
qed (auto simp: bson_entry_size_Inr write_bson_binary_def write_bson_boolean_def write_bson_double_def
      write_bson_string_def write_bson_null_def calc_bson_binary_size_def calc_bson_string_size_def)

lemma bson_object_length:
  assumes "calc_bson_object_size kvs = Inr n" and "write_bson_object kvs = Inr t"
  shows "length t = n"
  using assms bson_element_length
  by (fastforce simp: calc_bson_object_size_def bson_document_size_Inr write_bson_object_def write_bson_document_Inr
      dest: map_Inr_lengths)

section \<open>What can be written\<close>

text \<open>
  Lengths are below \<open>2\<^sup>3\<^sup>1\<close>, unsigned numbers fit into the signed type, keys hold no zero byte.
  Numbers come back as signed ones, every binary with a subtype of one byte.
\<close>

fun bson_ok :: "json \<Rightarrow> bool" where
  "bson_ok (JString s) = (length s + 1 < 2 ^ 31)"
| "bson_ok (JFloat d) = double_wf d"
| "bson_ok (JUnsigned u) = (unat u < 2 ^ 63)"
| "bson_ok (JBinary bytes subtype) = (length bytes < 2 ^ 31)"
| "bson_ok JDiscarded = False"
| "bson_ok (JArray xs) = list_all bson_ok xs"
| "bson_ok (JObject kvs) =
     (sorted_wrt (<) (map fst kvs) \<and> list_all (\<lambda>kv. CHR 0x00 \<notin> set (fst kv) \<and> bson_ok (snd kv)) kvs)"
| "bson_ok _ = True"

fun bson_image :: "json \<Rightarrow> json" where
  "bson_image (JUnsigned u) = JInteger u"
| "bson_image (JBinary bytes subtype) = JBinary bytes (Some (case subtype of None \<Rightarrow> 0 | Some t \<Rightarrow> t mod 256))"
| "bson_image (JArray xs) = JArray (map bson_image xs)"
| "bson_image (JObject kvs) = JObject (map (\<lambda>kv. (fst kv, bson_image (snd kv))) kvs)"
| "bson_image j = j"

lemma map_Inr_exists: "(\<And>x. x \<in> set xs \<Longrightarrow> \<exists>y. f x = Inr y) \<Longrightarrow> \<exists>ys. map f xs = map Inr ys"
proof (induction xs)
  case (Cons x xs)
  obtain y ys where "f x = Inr y" "map f xs = map Inr ys" using Cons by (metis list.set_intros)
  then show ?case by (intro exI [of _ "y # ys"]) simp
qed simp

lemma numbered_names: "kv \<in> set (numbered xs) \<Longrightarrow> CHR 0x00 \<notin> set (fst kv)"
proof
  assume "kv \<in> set (numbered xs)" and 0: "CHR 0x00 \<in> set (fst kv)"
  then have "fst kv \<in> to_string ` set [0..<length xs]"
    unfolding numbered_def by (metis list.set_map prod.collapse set_zip_leftD)
  then have "is_digit (CHR 0x00)" using 0 to_string_digits by auto
  then show False by (simp add: is_digit_def char_nat_def)
qed

lemma bson_element_written:
  assumes "bson_ok j" and "CHR 0x00 \<notin> set name"
  shows "(\<exists>n. calc_bson_element_size name j = Inr n) \<and> (\<exists>t. write_bson_element name j = Inr t)"
  using assms
proof (induction name j rule: write_bson_element.induct)
  case (1 name kvs)
  have "(\<exists>n. calc_bson_element_size (fst kv) (snd kv) = Inr n) \<and> (\<exists>t. write_bson_element (fst kv) (snd kv) = Inr t)"
    if "kv \<in> set kvs" for kv
    using 1 that by (simp add: list_all_iff)
  then obtain ns ts where
    "map (\<lambda>kv. calc_bson_element_size (fst kv) (snd kv)) kvs = map Inr ns"
    "map (\<lambda>kv. write_bson_element (fst kv) (snd kv)) kvs = map Inr ts"
    using map_Inr_exists [of kvs "\<lambda>kv. calc_bson_element_size (fst kv) (snd kv)"]
      map_Inr_exists [of kvs "\<lambda>kv. write_bson_element (fst kv) (snd kv)"] by blast
  then show ?case using 1(3)
    by (simp add: bson_entry_size_def calc_bson_entry_header_size_def calc_bson_object_size_def bson_document_size_def
        write_bson_nested_def write_bson_document_def all_outcomes_Inr [THEN iffD2, OF refl])
next
  case (2 name xs)
  have "(\<exists>n. calc_bson_element_size (fst kv) (snd kv) = Inr n) \<and> (\<exists>t. write_bson_element (fst kv) (snd kv) = Inr t)"
    if "kv \<in> set (numbered xs)" for kv
    using 2 that numbered_set [OF that] numbered_names [OF that] by (simp add: list_all_iff)
  then obtain ns ts where
    "map (\<lambda>kv. calc_bson_element_size (fst kv) (snd kv)) (numbered xs) = map Inr ns"
    "map (\<lambda>kv. write_bson_element (fst kv) (snd kv)) (numbered xs) = map Inr ts"
    using map_Inr_exists [of "numbered xs" "\<lambda>kv. calc_bson_element_size (fst kv) (snd kv)"]
      map_Inr_exists [of "numbered xs" "\<lambda>kv. write_bson_element (fst kv) (snd kv)"] by blast
  then show ?case using 2(3)
    by (simp add: bson_entry_size_def calc_bson_entry_header_size_def calc_bson_array_size_def calc_bson_object_size_def
        bson_document_size_def write_bson_nested_def write_bson_document_def all_outcomes_Inr [THEN iffD2, OF refl])
qed (auto simp: bson_entry_size_def calc_bson_entry_header_size_def write_bson_unsigned_def)

section \<open>Reading what was written\<close>

lemma rd_number_le_at:
  assumes "rd_at r (write_number_le k n @ s) d"
  obtains r' where "rd_number_le k r = Inr (n mod 256 ^ k, r')" "rd_at r' s d"
proof -
  obtain r' where "rd_bytes Format_bson ''number'' k r = Inr (write_number_le k n, r')" "rd_at r' s d"
    using rd_bytes_at [OF assms, of Format_bson "''number''"] by auto
  then show ?thesis using that by (simp add: rd_number_le_def write_number_le_def bytes_value_write)
qed

lemma bson_number_value_at:
  assumes "rd_at r (write_number_le k n @ s) d" and "slot d q F"
  shows "\<exists>r' d'. bson_number_value k g r = Inr r' \<and> rd_at r' s d' \<and> dom_root d' = F (g (n mod 256 ^ k)) \<and> dom_stack d' = dom_stack d"
proof -
  obtain r1 where 1: "rd_number_le k r = Inr (n mod 256 ^ k, r1)" "rd_at r1 s d" using rd_number_le_at [OF assms(1)] .
  then show ?thesis using rd_sax_at [OF 1(2) assms(2), of "g (n mod 256 ^ k)"] by (simp add: bson_number_value_def)
qed

lemma cstr_at:
  assumes "rd_at r (name @ CHR 0x00 # s) d" and "CHR 0x00 \<notin> set name"
  shows "\<exists>r'. get_bson_cstr r = Inr (name, r') \<and> rd_at r' s d"
proof -
  have "\<exists>r'. bson_cstr_loop n r = Inr (name, r') \<and> rd_at r' s d" if "length name < n" for n
    using assms that
  proof (induction name arbitrary: n r)
    case Nil
    then obtain m where n: "n = Suc m" by (cases n) auto
    have "rd_at (rd_get r) s d \<and> rd_current (rd_get r) = Some (CHR 0x00)" using Nil(1) by (intro rd_at_get) simp
    then show ?case by (simp add: n Let_def)
  next
    case (Cons c cs)
    then obtain m where n: "n = Suc m" by (cases n) auto
    have g: "rd_at (rd_get r) (cs @ CHR 0x00 # s) d \<and> rd_current (rd_get r) = Some c"
      using Cons.prems(1) by (intro rd_at_get) simp
    then obtain r' where "bson_cstr_loop m (rd_get r) = Inr (cs, r')" "rd_at r' s d"
      using Cons.IH [of "rd_get r" m] Cons.prems(2,3) n by auto
    then show ?case using g Cons.prems(2) by (auto simp: n Let_def)
  qed
  moreover have "length name < turns r" using assms(1) by (simp add: turns_def rd_at_def)
  ultimately show ?thesis unfolding get_bson_cstr_def by blast
qed

text \<open>An entry: its type and its name, then its value.\<close>

lemma header_at:
  assumes at: "rd_at r (write_bson_entry_header name ty @ s) d" and ty: "0 < ty" "ty < 256" and name: "CHR 0x00 \<notin> set name"
  obtains r1 where "get_bson_cstr (rd_get r) = Inr (name, r1)" "rd_at r1 s d"
    "bson_element_loop f is_array (Suc n) r =
       (case bson_element f is_array ty (rd_get r) of Inl e \<Rightarrow> Inl e | Inr r2 \<Rightarrow> bson_element_loop f is_array n r2)"
proof -
  have g: "rd_at (rd_get r) (name @ CHR 0x00 # s) d" "rd_current (rd_get r) = Some (char_of ty)"
    using rd_at_get [of r "char_of ty" "name @ CHR 0x00 # s" d] at by (simp_all add: write_bson_entry_header_def)
  have c: "char_nat (char_of ty) = ty" using ty(2) by simp
  have ne: "char_of ty \<noteq> CHR 0x00"
  proof
    assume "char_of ty = CHR 0x00"
    then have "char_nat (char_of ty) = char_nat (CHR 0x00)" by (rule arg_cong)
    then show False using ty(1) unfolding c by (simp add: char_nat_def)
  qed
  obtain r1 where 1: "get_bson_cstr (rd_get r) = Inr (name, r1)" "rd_at r1 s d" using cstr_at [OF g(1) name] by blast
  show ?thesis by (rule that [OF 1]) (simp only: bson_element_loop.simps Let_def g(2) option.case c ne if_False)
qed

definition bson_reads :: "nat \<Rightarrow> nat \<Rightarrow> string \<Rightarrow> json \<Rightarrow> bool" where
  "bson_reads depth ty body v \<longleftrightarrow>
     (\<forall>r pos s d q F. rd_at r (body @ s) d \<longrightarrow> slot d q F \<longrightarrow>
        (\<exists>r' d'. parse_bson_element_internal (parse_bson_internal depth) ty pos r = Inr r' \<and> rd_at r' s d'
           \<and> dom_root d' = F v \<and> dom_stack d' = dom_stack d))"

definition bson_readable :: "nat \<Rightarrow> string \<times> json \<Rightarrow> string \<Rightarrow> bool" where
  "bson_readable depth kv t \<longleftrightarrow>
     (\<exists>ty body. t = write_bson_entry_header (fst kv) ty @ body \<and> 0 < ty \<and> ty < 256
        \<and> bson_reads depth ty body (bson_image (snd kv)))"

lemma array_loop:
  assumes F: "\<And>v. json_at q (F v) = Some v" "\<And>v w. json_modify q (\<lambda>_. w) (F v) = F w"
    and "list_all2 (bson_readable depth) kvs ts" and "\<forall>kv \<in> set kvs. CHR 0x00 \<notin> set (fst kv)"
    and "rd_at r (concat ts @ CHR 0x00 # s) d" and "length ts < n"
    and "dom_stack d = q # st" "dom_root d = F (JArray ys)"
  shows "\<exists>r' d'. bson_element_loop (parse_bson_internal depth) True n r = Inr r' \<and> rd_at r' s d'
    \<and> dom_root d' = F (JArray (ys @ map (\<lambda>kv. bson_image (snd kv)) kvs)) \<and> dom_stack d' = q # st"
  using assms(3-)
proof (induction kvs arbitrary: ts r d n ys)
  case Nil
  then obtain m where n: "n = Suc m" by (cases n) auto
  have "rd_at (rd_get r) s d \<and> rd_current (rd_get r) = Some (CHR 0x00)" using Nil(1,3) by (intro rd_at_get) simp
  then show ?case using Nil by (auto simp: n Let_def)
next
  case (Cons kv kvs)
  obtain t ts' where t: "ts = t # ts'" "bson_readable depth kv t" "list_all2 (bson_readable depth) kvs ts'"
    using Cons.prems(1) by (cases ts) auto
  obtain ty body where b: "t = write_bson_entry_header (fst kv) ty @ body" "0 < ty" "ty < 256"
    "bson_reads depth ty body (bson_image (snd kv))" using t(2) unfolding bson_readable_def by blast
  obtain m where n: "n = Suc m" using Cons.prems(4) by (cases n) auto
  have at: "rd_at r (write_bson_entry_header (fst kv) ty @ body @ concat ts' @ CHR 0x00 # s) d"
    using Cons.prems(3) t(1) b(1) by simp
  have name: "CHR 0x00 \<notin> set (fst kv)" using Cons.prems(2) by simp
  obtain r1 where 1: "get_bson_cstr (rd_get r) = Inr (fst kv, r1)" "rd_at r1 (body @ concat ts' @ CHR 0x00 # s) d"
    "bson_element_loop (parse_bson_internal depth) True (Suc m) r =
       (case bson_element (parse_bson_internal depth) True ty (rd_get r) of
          Inl e \<Rightarrow> Inl e | Inr r2 \<Rightarrow> bson_element_loop (parse_bson_internal depth) True m r2)"
    using header_at [OF at b(2,3) name] by metis
  obtain r2 d2 where 2: "parse_bson_element_internal (parse_bson_internal depth) ty (rd_chars (rd_get r)) r1 = Inr r2"
    "rd_at r2 (concat ts' @ CHR 0x00 # s) d2" "dom_root d2 = F (JArray (ys @ [bson_image (snd kv)]))" "dom_stack d2 = q # st"
    using b(4) 1(2) slot_element [OF F Cons.prems(5,6)] Cons.prems(5) unfolding bson_reads_def by metis
  obtain r' d' where "bson_element_loop (parse_bson_internal depth) True m r2 = Inr r'" "rd_at r' s d'"
    "dom_root d' = F (JArray ((ys @ [bson_image (snd kv)]) @ map (\<lambda>kv. bson_image (snd kv)) kvs))" "dom_stack d' = q # st"
    using Cons.IH [OF t(3) _ 2(2) _ 2(4,3), of m] Cons.prems(2,4) t(1) n by auto
  then show ?case using 1(1,3) 2(1) n by (auto simp: bson_element_def)
qed

lemma object_loop:
  assumes F: "\<And>v. json_at q (F v) = Some v" "\<And>v w. json_modify q (\<lambda>_. w) (F v) = F w"
    and "list_all2 (bson_readable depth) kvs ts" and "\<forall>kv \<in> set kvs. CHR 0x00 \<notin> set (fst kv)"
    and "rd_at r (concat ts @ CHR 0x00 # s) d" and "length ts < n"
    and "dom_stack d = q # st" "dom_root d = F (JObject ys)" and "sorted_wrt (<) (map fst ys @ map fst kvs)"
  shows "\<exists>r' d'. bson_element_loop (parse_bson_internal depth) False n r = Inr r' \<and> rd_at r' s d'
    \<and> dom_root d' = F (JObject (ys @ map (\<lambda>kv. (fst kv, bson_image (snd kv))) kvs)) \<and> dom_stack d' = q # st"
  using assms(3-)
proof (induction kvs arbitrary: ts r d n ys)
  case Nil
  then obtain m where n: "n = Suc m" by (cases n) auto
  have "rd_at (rd_get r) s d \<and> rd_current (rd_get r) = Some (CHR 0x00)" using Nil(1,3) by (intro rd_at_get) simp
  then show ?case using Nil by (auto simp: n Let_def)
next
  case (Cons kv kvs)
  obtain t ts' where t: "ts = t # ts'" "bson_readable depth kv t" "list_all2 (bson_readable depth) kvs ts'"
    using Cons.prems(1) by (cases ts) auto
  obtain ty body where b: "t = write_bson_entry_header (fst kv) ty @ body" "0 < ty" "ty < 256"
    "bson_reads depth ty body (bson_image (snd kv))" using t(2) unfolding bson_readable_def by blast
  obtain m where n: "n = Suc m" using Cons.prems(4) by (cases n) auto
  let ?rest = "concat ts' @ CHR 0x00 # s"
  have at: "rd_at r (write_bson_entry_header (fst kv) ty @ body @ ?rest) d"
    using Cons.prems(3) t(1) b(1) by simp
  have name: "CHR 0x00 \<notin> set (fst kv)" using Cons.prems(2) by simp
  obtain r1 where 1: "get_bson_cstr (rd_get r) = Inr (fst kv, r1)" "rd_at r1 (body @ ?rest) d"
    "bson_element_loop (parse_bson_internal depth) False (Suc m) r =
       (case bson_element (parse_bson_internal depth) False ty (rd_get r) of
          Inl e \<Rightarrow> Inl e | Inr r2 \<Rightarrow> bson_element_loop (parse_bson_internal depth) False m r2)"
    using header_at [OF at b(2,3) name] by metis
  have "\<forall>k' \<in> set (map fst ys). k' < fst kv" using Cons.prems(7) by (auto simp: sorted_wrt_append)
  then obtain r2 d1 where 2: "on_handler r1 (dom_key (fst kv) (rd_dom r1)) = Inr r2" "rd_at r2 (body @ ?rest) d1"
    "slot d1 (q @ [Key (fst kv)]) (\<lambda>w. F (JObject (ys @ [(fst kv, w)])))" "dom_stack d1 = q # st"
    using new_key_at [OF F 1(2) Cons.prems(5,6)] by blast
  obtain r3 d3 where 3: "parse_bson_element_internal (parse_bson_internal depth) ty (rd_chars (rd_get r)) r2 = Inr r3"
    "rd_at r3 ?rest d3" "dom_root d3 = F (JObject (ys @ [(fst kv, bson_image (snd kv))]))" "dom_stack d3 = q # st"
    using b(4) 2(2-4) unfolding bson_reads_def by metis
  have "sorted_wrt (<) (map fst (ys @ [(fst kv, bson_image (snd kv))]) @ map fst kvs)"
    using Cons.prems(7) by simp
  then obtain r' d' where "bson_element_loop (parse_bson_internal depth) False m r3 = Inr r'" "rd_at r' s d'"
    "dom_root d' = F (JObject ((ys @ [(fst kv, bson_image (snd kv))]) @ map (\<lambda>kv. (fst kv, bson_image (snd kv))) kvs))"
    "dom_stack d' = q # st"
    using Cons.IH [OF t(3) _ 3(2) _ 3(4,3), of m] Cons.prems(2,4) t(1) n by auto
  then show ?case using 1(1,3) 2(1) 3(1) n by (auto simp: bson_element_def)
qed

text \<open>A document; the handler starts the container without a length, and the size is not looked at.\<close>

lemma turns_enough:
  assumes "rd_at r (concat ts @ CHR 0x00 # s) d" and "list_all2 (bson_readable depth) kvs ts"
  shows "length ts < turns r"
proof -
  have "length ts \<le> length (concat ts)" if "\<forall>t \<in> set ts. t \<noteq> []"
    using that
  proof (induction ts)
    case (Cons t ts)
    then show ?case by (cases t) auto
  qed simp
  moreover have "\<forall>t \<in> set ts. t \<noteq> []"
    using assms(2) by (fastforce simp: list_all2_conv_all_nth in_set_conv_nth bson_readable_def write_bson_entry_header_def)
  ultimately show ?thesis using assms(1) by (simp add: rd_at_def turns_def)
qed

lemma bson_object_at:
  assumes "list_all2 (bson_readable depth) kvs ts" and "\<forall>kv \<in> set kvs. CHR 0x00 \<notin> set (fst kv)"
    and "sorted_wrt (<) (map fst kvs)"
    and "rd_at r (write_number_le 4 n @ concat ts @ CHR 0x00 # s) d" and slot: "slot d q F"
  shows "\<exists>r' d'. parse_bson_internal (Suc depth) False r = Inr r' \<and> rd_at r' s d'
    \<and> dom_root d' = F (bson_image (JObject kvs)) \<and> dom_stack d' = dom_stack d"
proof -
  obtain r1 where 1: "rd_number_le 4 r = Inr (n mod 256 ^ 4, r1)" "rd_at r1 (concat ts @ CHR 0x00 # s) d"
    using rd_number_le_at [OF assms(4)] .
  have "\<exists>r' d'. rd_object unknown_size (parse_bson_element_list (parse_bson_internal depth) False) r1 = Inr r' \<and> rd_at r' s d'
      \<and> dom_root d' = F (JObject (map (\<lambda>kv. (fst kv, bson_image (snd kv))) kvs)) \<and> dom_stack d' = dom_stack d"
  proof (rule rd_object_at [OF 1(2) slot])
    fix r2
    assume r2: "rd_at r2 (concat ts @ CHR 0x00 # s) (d\<lparr>dom_root := F (JObject []), dom_stack := q # dom_stack d\<rparr>)"
    show "\<exists>r3 d3. parse_bson_element_list (parse_bson_internal depth) False r2 = Inr r3 \<and> rd_at r3 s d3
        \<and> dom_root d3 = F (JObject (map (\<lambda>kv. (fst kv, bson_image (snd kv))) kvs)) \<and> dom_stack d3 = q # dom_stack d"
      using object_loop [OF slotD(2,3) [OF slot] assms(1,2) r2 turns_enough [OF r2 assms(1)], of "dom_stack d" "[]"] assms(3)
      by (simp add: parse_bson_element_list_def)
  qed simp
  then show ?thesis using 1(1) by (simp add: bson_document_def)
qed

lemma bson_array_at:
  assumes "list_all2 (bson_readable depth) kvs ts" and "\<forall>kv \<in> set kvs. CHR 0x00 \<notin> set (fst kv)"
    and "rd_at r (write_number_le 4 n @ concat ts @ CHR 0x00 # s) d" and slot: "slot d q F"
  shows "\<exists>r' d'. parse_bson_internal (Suc depth) True r = Inr r' \<and> rd_at r' s d'
    \<and> dom_root d' = F (JArray (map (\<lambda>kv. bson_image (snd kv)) kvs)) \<and> dom_stack d' = dom_stack d"
proof -
  obtain r1 where 1: "rd_number_le 4 r = Inr (n mod 256 ^ 4, r1)" "rd_at r1 (concat ts @ CHR 0x00 # s) d"
    using rd_number_le_at [OF assms(3)] .
  have "\<exists>r' d'. rd_array unknown_size (parse_bson_element_list (parse_bson_internal depth) True) r1 = Inr r' \<and> rd_at r' s d'
      \<and> dom_root d' = F (JArray (map (\<lambda>kv. bson_image (snd kv)) kvs)) \<and> dom_stack d' = dom_stack d"
  proof (rule rd_array_at [OF 1(2) slot])
    fix r2
    assume r2: "rd_at r2 (concat ts @ CHR 0x00 # s) (d\<lparr>dom_root := F (JArray []), dom_stack := q # dom_stack d\<rparr>)"
    show "\<exists>r3 d3. parse_bson_element_list (parse_bson_internal depth) True r2 = Inr r3 \<and> rd_at r3 s d3
        \<and> dom_root d3 = F (JArray (map (\<lambda>kv. bson_image (snd kv)) kvs)) \<and> dom_stack d3 = q # dom_stack d"
      using array_loop [OF slotD(2,3) [OF slot] assms(1,2) r2 turns_enough [OF r2 assms(1)], of "dom_stack d" "[]"]
      by (simp add: parse_bson_element_list_def)
  qed simp
  then show ?thesis using 1(1) by (simp add: bson_document_def)
qed

text \<open>The values, from the byte after the name.\<close>

lemma to_signed_mod:
  assumes "- (256 ^ k) \<le> 2 * i" and "2 * i < 256 ^ k"
  shows "to_signed k (nat (i mod 256 ^ k) mod 256 ^ k) = i"
proof (cases "i < 0")
  case True
  then show ?thesis using to_signed_write [OF True assms(1)] by simp
next
  case False
  then obtain m where m: "i = int m" by (metis not_less zero_le_imp_eq_int)
  have "int (2 * m) < int (256 ^ k)" using assms(2) m by simp
  then have n: "2 * m < 256 ^ k" by (simp only: of_nat_less_iff)
  have "int m mod 256 ^ k = int (m mod 256 ^ k)" by (simp add: of_nat_mod)
  then show ?thesis using n m by (simp add: to_signed_def)
qed

lemma bson_number_reads:
  assumes "\<And>f pos r. parse_bson_element_internal f ty pos r = bson_number_value k g r" and "v = g (n mod 256 ^ k)"
  shows "bson_reads depth ty (write_number_le k n) v"
  unfolding bson_reads_def assms using bson_number_value_at by blast

text \<open>The string of the given length, and one byte more, which may be any.\<close>

lemma bson_string_value_at:
  assumes at: "rd_at r (write_number_le 4 (length s + 1) @ s @ rest) d" and "length s + 1 < 2 ^ 31"
  obtains r2 where "rd_at r2 rest d"
    "bson_string_value r = (if rd_current (rd_get r2) = None then Inl Returned_false else rd_sax (JString s) (rd_get r2))"
proof -
  have len: "(length s + 1) mod 256 ^ 4 = length s + 1" using assms(2) by (intro mod_less) simp
  obtain r1 where 1: "rd_number_le 4 r = Inr (length s + 1, r1)" "rd_at r1 (s @ rest) d"
    using rd_number_le_at [OF at] unfolding len by blast
  obtain r2 where 2: "rd_string Format_bson (length s) r1 = Inr (s, r2)" "rd_at r2 rest d"
    using rd_string_at [OF 1(2)] .
  have "to_signed 4 (length s + 1) = int (length s) + 1" using assms(2) by (simp add: to_signed_def)
  then show ?thesis using that [OF 2(2)] 1(1) 2(1)
    by (simp add: bson_string_value_def get_bson_string_def Let_def)
qed

lemma bson_string_at:
  assumes at: "rd_at r (write_number_le 4 (length s + 1) @ s @ c # rest) d" and "length s + 1 < 2 ^ 31" and slot: "slot d q F"
  shows "\<exists>r' d'. parse_bson_element_internal f 2 pos r = Inr r' \<and> rd_at r' rest d'
    \<and> dom_root d' = F (JString s) \<and> dom_stack d' = dom_stack d"
proof -
  obtain r2 where 2: "rd_at r2 (c # rest) d"
    "bson_string_value r = (if rd_current (rd_get r2) = None then Inl Returned_false else rd_sax (JString s) (rd_get r2))"
    by (rule bson_string_value_at [OF at assms(2)])
  have 3: "rd_at (rd_get r2) rest d" "rd_current (rd_get r2) = Some c" using rd_at_get [OF 2(1)] by simp_all
  then show ?thesis using 2(2) rd_sax_at [OF 3(1) slot, of "JString s"] by (simp add: parse_bson_element_internal_def)
qed

lemma bson_string_reads:
  assumes "length s + 1 < 2 ^ 31"
  shows "bson_reads depth 2 (write_number_le 4 (length s + 1) @ s @ [CHR 0x00]) (JString s)"
  unfolding bson_reads_def using bson_string_at [OF _ assms] by simp

lemma bson_binary_reads:
  assumes "length bs < 2 ^ 31"
  shows "bson_reads depth 5 (write_number_le 4 (length bs) @ write_number 1 t @ bs) (JBinary bs (Some (t mod 256)))"
  unfolding bson_reads_def
proof (intro allI impI)
  fix r pos s d q F
  assume at: "rd_at r ((write_number_le 4 (length bs) @ write_number 1 t @ bs) @ s) d" and slot: "slot d q F"
  have at': "rd_at r (write_number_le 4 (length bs) @ write_number 1 (t mod 256) @ bs @ s) d"
    using at by (simp add: char_of_mod_256)
  have len: "length bs mod 256 ^ 4 = length bs" using assms by (intro mod_less) simp
  obtain r1 where 1: "rd_number_le 4 r = Inr (length bs, r1)" "rd_at r1 (write_number 1 (t mod 256) @ bs @ s) d"
    using rd_number_le_at [OF at'] unfolding len by blast
  obtain r2 where 2: "rd_number Format_bson 1 r1 = Inr (t mod 256, r2)" "rd_at r2 (bs @ s) d"
    by (rule rd_number_at [OF 1(2)]) simp_all
  obtain r3 where 3: "rd_binary Format_bson (length bs) r2 = Inr (bs, r3)" "rd_at r3 s d" using rd_binary_at [OF 2(2)] .
  have "to_signed 4 (length bs) = int (length bs)" using assms by (simp add: to_signed_def)
  then have "bson_binary_value r = rd_sax (JBinary bs (Some (t mod 256))) r3"
    using 1(1) 2(1) 3(1) by (simp add: bson_binary_value_def get_bson_binary_def)
  then show "\<exists>r' d'. parse_bson_element_internal (parse_bson_internal depth) 5 pos r = Inr r' \<and> rd_at r' s d'
      \<and> dom_root d' = F (JBinary bs (Some (t mod 256))) \<and> dom_stack d' = dom_stack d"
    using rd_sax_at [OF 3(2) slot, of "JBinary bs (Some (t mod 256))"] by (simp add: parse_bson_element_internal_def)
qed

lemma bson_small_reads:
  "bson_reads depth 10 [] JNull" "bson_reads depth 8 [if b then CHR 0x01 else CHR 0x00] (JBoolean b)"
proof -
  show "bson_reads depth 10 [] JNull"
    using rd_sax_at by (auto simp: bson_reads_def parse_bson_element_internal_def)
  show "bson_reads depth 8 [if b then CHR 0x01 else CHR 0x00] (JBoolean b)"
    unfolding bson_reads_def
  proof (intro allI impI)
    fix r pos s d q F
    assume at: "rd_at r ([if b then CHR 0x01 else CHR 0x00] @ s) d" and slot: "slot d q F"
    have g: "rd_at (rd_get r) s d" "rd_current (rd_get r) = Some (if b then CHR 0x01 else CHR 0x00)"
      using rd_at_get [of r "if b then CHR 0x01 else CHR 0x00" s d] at by simp_all
    have "(rd_current (rd_get r) \<noteq> Some CHR 0x00) = b" using g(2) by simp
    then show "\<exists>r' d'. parse_bson_element_internal (parse_bson_internal depth) 8 pos r = Inr r' \<and> rd_at r' s d'
        \<and> dom_root d' = F (JBoolean b) \<and> dom_stack d' = dom_stack d"
      using rd_sax_at [OF g(1) slot, of "JBoolean b"] by (simp add: parse_bson_element_internal_def Let_def)
  qed
qed

lemma bson_readableI:
  "0 < ty \<Longrightarrow> ty < 256 \<Longrightarrow> bson_reads depth ty body (bson_image v) \<Longrightarrow> t = write_bson_entry_header name ty @ body
    \<Longrightarrow> bson_readable depth (name, v) t"
  unfolding bson_readable_def by auto

lemma bson_integer_readable:
  "bson_image v = JInteger (of_int i) \<Longrightarrow> - (2 ^ 63) \<le> i \<Longrightarrow> i < 2 ^ 63 \<Longrightarrow> bson_readable depth (name, v) (write_bson_integer name i)"
proof -
  assume v: "bson_image v = JInteger (of_int i)" and i: "- (2 ^ 63) \<le> i" "i < 2 ^ 63"
  show ?thesis
  proof (cases "- (2 ^ 31) \<le> i \<and> i \<le> 2 ^ 31 - 1")
    case True
    have "bson_reads depth 16 (write_number_le 4 (nat (i mod 256 ^ 4))) (bson_image v)"
      using True to_signed_mod [of 4 i]
      by (intro bson_number_reads [where g = "\<lambda>n. JInteger (of_int (to_signed 4 n))"])
        (simp_all add: parse_bson_element_internal_def v)
    then show ?thesis using True
      by (intro bson_readableI [of 16]) (simp_all add: write_bson_integer_def write_signed_def write_number_le_def)
  next
    case False
    have "bson_reads depth 18 (write_number_le 8 (nat (i mod 256 ^ 8))) (bson_image v)"
      using i to_signed_mod [of 8 i]
      by (intro bson_number_reads [where g = "\<lambda>n. JInteger (of_int (to_signed 8 n))"])
        (simp_all add: parse_bson_element_internal_def v)
    then show ?thesis using False
      by (intro bson_readableI [of 18]) (auto simp: write_bson_integer_def write_signed_def write_number_le_def)
  qed
qed

lemma write_bson_unsigned_integer:
  "n < 2 ^ 63 \<Longrightarrow> write_bson_unsigned name n = Inr (write_bson_integer name (int n))"
  by (simp add: write_bson_unsigned_def write_bson_integer_def write_signed_def write_number_le_def)

lemma texts_readable:
  assumes "map (\<lambda>kv. write_bson_element (fst kv) (snd kv)) kvs = map Inr ts"
    and "\<And>kv t. kv \<in> set kvs \<Longrightarrow> write_bson_element (fst kv) (snd kv) = Inr t \<Longrightarrow> bson_readable depth kv t"
  shows "list_all2 (bson_readable depth) kvs ts"
  unfolding list_all2_conv_all_nth
proof (intro conjI allI impI)
  show len: "length kvs = length ts" using assms(1) by (metis length_map)
  fix i
  assume i: "i < length kvs"
  then have "write_bson_element (fst (kvs ! i)) (snd (kvs ! i)) = Inr (ts ! i)"
    using arg_cong [OF assms(1), of "\<lambda>xs. xs ! i"] len by simp
  then show "bson_readable depth (kvs ! i) (ts ! i)" using i by (intro assms(2)) simp_all
qed

lemma numbered_images: "map (\<lambda>kv. bson_image (snd kv)) (numbered xs) = map bson_image xs"
proof -
  have "map snd (numbered xs) = xs" by (simp add: numbered_def)
  then have "map bson_image (map snd (numbered xs)) = map bson_image xs" by (rule arg_cong)
  then show ?thesis by (simp add: comp_def)
qed

lemma bson_object_reads:
  assumes "list_all2 (bson_readable depth) kvs ts" and "bson_ok (JObject kvs)"
  shows "bson_reads (Suc depth) 3 (write_number_le 4 n @ concat ts @ [CHR 0x00]) (bson_image (JObject kvs))"
  unfolding bson_reads_def
proof (intro allI impI)
  fix r pos s d q F
  assume "rd_at r ((write_number_le 4 n @ concat ts @ [CHR 0x00]) @ s) d" and slot: "slot d q F"
  then have at: "rd_at r (write_number_le 4 n @ concat ts @ CHR 0x00 # s) d" by simp
  have "\<forall>kv \<in> set kvs. CHR 0x00 \<notin> set (fst kv)" "sorted_wrt (<) (map fst kvs)"
    using assms(2) by (simp_all add: list_all_iff)
  from bson_object_at [OF assms(1) this at slot]
  show "\<exists>r' d'. parse_bson_element_internal (parse_bson_internal (Suc depth)) 3 pos r = Inr r' \<and> rd_at r' s d'
      \<and> dom_root d' = F (bson_image (JObject kvs)) \<and> dom_stack d' = dom_stack d"
    by (simp add: parse_bson_element_internal_def)
qed

lemma bson_array_reads:
  assumes "list_all2 (bson_readable depth) (numbered xs) ts"
  shows "bson_reads (Suc depth) 4 (write_number_le 4 n @ concat ts @ [CHR 0x00]) (bson_image (JArray xs))"
  unfolding bson_reads_def
proof (intro allI impI)
  fix r pos s d q F
  assume "rd_at r ((write_number_le 4 n @ concat ts @ [CHR 0x00]) @ s) d" and slot: "slot d q F"
  then have at: "rd_at r (write_number_le 4 n @ concat ts @ CHR 0x00 # s) d" by simp
  have "\<forall>kv \<in> set (numbered xs). CHR 0x00 \<notin> set (fst kv)" using numbered_names by blast
  from bson_array_at [OF assms this at slot]
  show "\<exists>r' d'. parse_bson_element_internal (parse_bson_internal (Suc depth)) 4 pos r = Inr r' \<and> rd_at r' s d'
      \<and> dom_root d' = F (bson_image (JArray xs)) \<and> dom_stack d' = dom_stack d"
    by (simp add: parse_bson_element_internal_def numbered_images)
qed

lemma bson_element_readable:
  assumes "bson_ok j" and "write_bson_element name j = Inr t" and "json_depth j < depth"
  shows "bson_readable depth (name, j) t"
  using assms
proof (induction name j arbitrary: t depth rule: write_bson_element.induct)
  case (1 name kvs)
  then obtain d where d: "depth = Suc d" by (cases depth) auto
  obtain n ts where w: "map (\<lambda>kv. write_bson_element (fst kv) (snd kv)) kvs = map Inr ts"
    "t = write_bson_entry_header name 3 @ write_number_le 4 n @ concat ts @ [CHR 0x00]"
    using "1.prems"(2) by (auto simp: write_bson_nested_def write_bson_document_Inr split: sum.splits)
  have "bson_readable d kv u" if "kv \<in> set kvs" "write_bson_element (fst kv) (snd kv) = Inr u" for kv u
  proof -
    have "bson_ok (snd kv)" using "1.prems"(1) that(1) by (simp add: list_all_iff)
    moreover have "json_depth (snd kv) < d"
      using json_depth_element(2) [OF that(1)] "1.prems"(3) unfolding d .
    ultimately show ?thesis using "1.IH" [OF that(1), of u d] that(2) by simp
  qed
  then have "list_all2 (bson_readable d) kvs ts" by (rule texts_readable [OF w(1)])
  from bson_readableI [OF _ _ bson_object_reads [OF this "1.prems"(1)] w(2)] show ?case unfolding d by simp
next
  case (2 name xs)
  then obtain d where d: "depth = Suc d" by (cases depth) auto
  obtain n ts where w: "map (\<lambda>kv. write_bson_element (fst kv) (snd kv)) (numbered xs) = map Inr ts"
    "t = write_bson_entry_header name 4 @ write_number_le 4 n @ concat ts @ [CHR 0x00]"
    using "2.prems"(2) by (auto simp: write_bson_nested_def write_bson_document_Inr split: sum.splits)
  have "bson_readable d kv u" if "kv \<in> set (numbered xs)" "write_bson_element (fst kv) (snd kv) = Inr u" for kv u
  proof -
    have x: "snd kv \<in> set xs" using numbered_set that(1) .
    then have "bson_ok (snd kv)" using "2.prems"(1) by (simp add: list_all_iff)
    moreover have "json_depth (snd kv) < d"
      using json_depth_element(1) [OF x] "2.prems"(3) unfolding d .
    ultimately show ?thesis using "2.IH" [OF that(1), of u d] that(2) by simp
  qed
  then have "list_all2 (bson_readable d) (numbered xs) ts" by (rule texts_readable [OF w(1)])
  from bson_readableI [OF _ _ bson_array_reads [OF this] w(2)] show ?case unfolding d by simp
next
  case (3 name bs subtype)
  let ?t = "case subtype of None \<Rightarrow> 0 | Some t \<Rightarrow> t"
  have image: "bson_image (JBinary bs subtype) = JBinary bs (Some (?t mod 256))" by (cases subtype) simp_all
  have "bson_reads depth 5 (write_number_le 4 (length bs) @ write_number 1 ?t @ bs) (JBinary bs (Some (?t mod 256)))"
    using "3.prems"(1) by (intro bson_binary_reads) simp
  then have reads: "bson_reads depth 5 (write_number_le 4 (length bs) @ write_number 1 ?t @ bs) (bson_image (JBinary bs subtype))"
    by (simp only: image)
  have "t = write_bson_entry_header name 5 @ write_number_le 4 (length bs) @ write_number 1 ?t @ bs"
    using "3.prems"(2) by (simp only: write_bson_element.simps write_bson_binary_def sum.inject)
  from bson_readableI [OF _ _ reads this] show ?case by simp
next
  case (4 name b)
  then show ?case using bson_small_reads(2)
    by (intro bson_readableI [of 8]) (auto simp: write_bson_boolean_def)
next
  case (5 name x)
  have "bson_reads depth 1 (write_number_le 8 (double_bits x)) (bson_image (JFloat x))"
    using "5.prems"(1) double_bits_less [of x] double_of_bits_bits [of x]
    by (intro bson_number_reads [where g = "\<lambda>n. JFloat (double_of_bits n)"]) (simp_all add: parse_bson_element_internal_def)
  then show ?case using "5.prems"(2) by (intro bson_readableI [of 1]) (auto simp: write_bson_double_def)
next
  case (6 name i)
  have "sint i < 2 ^ 63" "- (2 ^ 63) \<le> sint i" using sint_ge [of i] sint_less [of i] by simp_all
  then show ?case using "6.prems"(2) bson_integer_readable [of "JInteger i" "sint i" depth name] by auto
next
  case (7 name u)
  have u: "unat u < 2 ^ 63" using "7.prems"(1) by simp
  then have t: "t = write_bson_integer name (int (unat u))"
    using "7.prems"(2) write_bson_unsigned_integer [OF u, of name] by simp
  have "int (unat u) < int (2 ^ 63)" using u by (simp only: of_nat_less_iff)
  then have n: "int (unat u) < 2 ^ 63" by simp
  have m: "- (2 ^ 63) \<le> int (unat u)" by (rule order_trans [of _ 0]) simp_all
  show ?case unfolding t using m n by (intro bson_integer_readable) (simp, assumption+)
next
  case (8 name s)
  then show ?case using bson_string_reads [of s depth]
    by (intro bson_readableI [of 2]) (auto simp: write_bson_string_def)
next
  case (9 name)
  then show ?case using bson_small_reads(1) by (intro bson_readableI [of 10]) (auto simp: write_bson_null_def)
qed simp

text \<open>
  C14: \<^verbatim>\<open>to_bson\<close> succeeds on every object of the kinds it can carry; the size in the first four bytes,
  which is computed before anything is written, is the number of bytes written in all, and reading them
  with enough stack gives the value back, with signed numbers and with subtypes of one byte.
\<close>

theorem bson_roundtrip:
  assumes "bson_ok (JObject kvs)" and "json_depth (JObject kvs) < depth"
  shows "\<exists>t. to_bson (JObject kvs) = Inr t \<and> take 4 t = write_number_le 4 (length t)
    \<and> from_bson depth strict t = Inr (bson_image (JObject kvs))"
proof -
  have w: "(\<exists>n. calc_bson_element_size [] (JObject kvs) = Inr n) \<and> (\<exists>t. write_bson_element [] (JObject kvs) = Inr t)"
    using bson_element_written [OF assms(1)] by simp
  then obtain u where u: "write_bson_element [] (JObject kvs) = Inr u" by blast
  then obtain t where t: "write_bson_object kvs = Inr t"
    by (auto simp: write_bson_nested_def write_bson_object_def split: sum.splits)
  then obtain n ts where n: "calc_bson_object_size kvs = Inr n"
    "map (\<lambda>kv. write_bson_element (fst kv) (snd kv)) kvs = map Inr ts" "t = write_number_le 4 n @ concat ts @ [CHR 0x00]"
    by (auto simp: write_bson_object_def write_bson_document_Inr)
  have "length t = n" by (rule bson_object_length [OF n(1) t])
  moreover have "take 4 t = write_number_le 4 n" by (simp add: n(3))
  ultimately have size: "take 4 t = write_number_le 4 (length t)" by simp
  obtain d where d: "depth = Suc d" using assms(2) by (cases depth) auto
  have "bson_readable d kv v" if "kv \<in> set kvs" "write_bson_element (fst kv) (snd kv) = Inr v" for kv v
  proof -
    have "bson_ok (snd kv)" using assms(1) that(1) by (simp add: list_all_iff)
    moreover have "json_depth (snd kv) < d" using json_depth_element(2) [OF that(1)] assms(2) unfolding d .
    ultimately show ?thesis using bson_element_readable [of "snd kv" "fst kv" v d] that(2) by simp
  qed
  then have "list_all2 (bson_readable d) kvs ts" by (rule texts_readable [OF n(2)])
  moreover have "rd_at (new_reader t) (write_number_le 4 n @ concat ts @ CHR 0x00 # []) (new_dom JNull)"
    by (simp add: rd_at_def new_reader_def n(3))
  moreover have "slot (new_dom JNull) [] (\<lambda>v. v)" by (rule slot_top) (simp add: new_dom_def)
  ultimately obtain r' d' where "parse_bson_internal depth False (new_reader t) = Inr r'" "rd_at r' [] d'"
    "dom_root d' = bson_image (JObject kvs)"
    using bson_object_at [of d kvs ts] assms(1) unfolding d by (fastforce simp: list_all_iff)
  then have "from_bson depth strict t = Inr (bson_image (JObject kvs))"
    by (simp add: from_bson_def binary_sax_parse_def rd_finish_def rd_at_def rd_get_def get_character_def Let_def)
  then show ?thesis using t size by (simp add: to_bson_def)
qed

theorem bson_roundtrip_witness:
  "\<exists>t. to_bson (JObject [(''a'', JArray [JNull, JString ''x'']), (''b'', JUnsigned 7)]) = Inr t
    \<and> take 4 t = write_number_le 4 (length t)
    \<and> from_bson 3 True t = Inr (bson_image (JObject [(''a'', JArray [JNull, JString ''x'']), (''b'', JUnsigned 7)]))"
  by (rule bson_roundtrip) simp_all

section \<open>Any input\<close>

definition bson_error :: "cpp_error \<Rightarrow> bool" where
  "bson_error e \<longleftrightarrow> reader_error e \<or> (\<exists>m. e = Json_parse_error 114 m) \<or> e = Returned_false"

interpretation bse: error_class bson_error
  by unfold_locales (simp add: bson_error_def)

lemma keeps_number_le: "keeps r (rd_number_le k r)"
  unfolding rd_number_le_def by (intro keeps_bind keeps_bytes keeps_Inr)

lemma rd_bytes_less: "rd_bytes fmt ctx (Suc k) r = Inr (bs, r1) \<Longrightarrow> rd_left r1 < rd_left r"
proof -
  assume b: "rd_bytes fmt ctx (Suc k) r = Inr (bs, r1)"
  then obtain c cs where c: "rd_current (rd_get r) = Some c" "rd_bytes fmt ctx k (rd_get r) = Inr (cs, r1)"
    by (auto simp: Let_def split: option.splits sum.splits)
  then have "rd_left r1 \<le> rd_left (rd_get r)" using keeps_bytes [of "rd_get r" fmt ctx k] by (simp add: keeps_def)
  then show ?thesis using rd_get_left(3) [OF c(1)] by simp
qed

lemma rd_number_le_less: "rd_number_le 4 r = Inr (n, r1) \<Longrightarrow> rd_left r1 < rd_left r"
  using rd_bytes_less [of Format_bson "''number''" 3 r]
  by (auto simp: rd_number_le_def numeral_eq_Suc split: sum.splits simp del: rd_bytes.simps)

lemma cstr_loop_keeps:
  "rd_left r < n \<Longrightarrow> keeps r (bson_cstr_loop n r) \<and> (\<forall>x r1. bson_cstr_loop n r = Inr (x, r1) \<longrightarrow> rd_left r1 < rd_left r)"
proof (induction n arbitrary: r)
  case (Suc n)
  show ?case
  proof (cases "rd_current (rd_get r)")
    case None
    then show ?thesis by (simp add: keeps_def reader_errorI Let_def)
  next
    case (Some c)
    then have less: "rd_left (rd_get r) < rd_left r" by (rule rd_get_left)
    show ?thesis
    proof (cases "c = CHR 0x00")
      case True
      then show ?thesis using Some less by (simp add: keeps_def Let_def rd_get_left)
    next
      case False
      have IH: "keeps (rd_get r) (bson_cstr_loop n (rd_get r))"
        "\<And>x r1. bson_cstr_loop n (rd_get r) = Inr (x, r1) \<Longrightarrow> rd_left r1 < rd_left (rd_get r)"
        using Suc.IH [of "rd_get r"] Suc.prems less by auto
      show ?thesis
      proof (cases "bson_cstr_loop n (rd_get r)")
        case (Inl e)
        then show ?thesis using IH(1) Some False by (simp add: keeps_def Let_def)
      next
        case (Inr p)
        obtain cs r1 where p: "p = (cs, r1)" by (cases p)
        then have "rd_left r1 < rd_left r" "rd_dom r1 = rd_dom r"
          using IH(2) [of cs r1] IH(1) Inr less rd_get_left(1) [of r] by (simp_all add: keeps_def)
        then show ?thesis using Inr p Some False by (simp add: keeps_def Let_def)
      qed
    qed
  qed
qed simp

lemma bson_key: "key_below n get_bson_cstr"
proof -
  have "keeps r (get_bson_cstr (rd_get r))
      \<and> (\<forall>x r1. get_bson_cstr (rd_get r) = Inr (x, r1) \<longrightarrow> rd_left r1 < rd_left r)" for r
  proof -
    have "rd_left (rd_get r) < turns (rd_get r)" by (simp add: rd_left_def turns_def)
    from cstr_loop_keeps [OF this] show ?thesis
      using keeps_get [of r] rd_get_left(2) [of r] unfolding get_bson_cstr_def by (meson less_le_trans)
  qed
  then show ?thesis unfolding key_below_def by blast
qed

text \<open>Two reads in sequence, and a value from what they give.\<close>

lemma case_outcome_case:
  "(case (case a of Inl e \<Rightarrow> Inl e | Inr (x, r1) \<Rightarrow> g x r1) of Inl e \<Rightarrow> Inl e | Inr (y, r2) \<Rightarrow> h y r2)
     = (case a of Inl e \<Rightarrow> Inl e | Inr (x, r1) \<Rightarrow> (case g x r1 of Inl e \<Rightarrow> Inl e | Inr (y, r2) \<Rightarrow> h y r2))"
  by (auto split: sum.split)

lemma bson_string_ends:
  assumes "slot (rd_dom r) q F"
  shows "bse.ends (value_inv F (dom_stack (rd_dom r))) (Suc (rd_left r))
    (case get_bson_string len r of Inl e \<Rightarrow> Inl e | Inr (s, r2) \<Rightarrow> rd_sax (JString s) r2)"
proof (cases "len < 1")
  case True
  then show ?thesis by (simp add: get_bson_string_def bson_error_def reader_errorI)
next
  case False
  have "bse.ends (value_inv F (dom_stack (rd_dom r))) (Suc (rd_left r))
    (case rd_string Format_bson (nat (len - 1)) r of
       Inl e \<Rightarrow> Inl e
     | Inr (s, r1) \<Rightarrow> (case (let r2 = rd_get r1 in if rd_current r2 = None then Inl Returned_false else Inr (s, r2)) of
                       Inl e \<Rightarrow> Inl e | Inr (s, r2) \<Rightarrow> rd_sax (JString s) r2))"
  proof (rule bse.ends_bind [OF keeps_string(1)])
    fix s and r1 :: binary_reader
    assume "rd_dom r1 = rd_dom r"
    then have "slot (rd_dom (rd_get r1)) q F" "dom_stack (rd_dom (rd_get r1)) = dom_stack (rd_dom r)"
      using assms by (simp_all add: rd_get_left)
    then have "bse.ends (value_inv F (dom_stack (rd_dom r))) (Suc (rd_left (rd_get r1))) (rd_sax (JString s) (rd_get r1))"
      using bse.sax_ends [of "rd_get r1" q F "JString s"] by simp
    then show "bse.ends (value_inv F (dom_stack (rd_dom r))) (Suc (rd_left r1))
        (case (let r2 = rd_get r1 in if rd_current r2 = None then Inl Returned_false else Inr (s, r2)) of
           Inl e \<Rightarrow> Inl e | Inr (s, r2) \<Rightarrow> rd_sax (JString s) r2)"
      using rd_get_left(2) [of r1] bse.ends_mono [of _ "Suc (rd_left (rd_get r1))" _ "Suc (rd_left r1)"]
      by (simp add: Let_def bson_error_def)
  qed
  then show ?thesis using False by (simp add: get_bson_string_def case_outcome_case)
qed

lemma keeps_bson_binary: "keeps r (get_bson_binary len r)"
  unfolding get_bson_binary_def
  by (auto simp: keeps_Inl reader_errorI intro!: keeps_bind keeps_number keeps_string)

lemma get_bson_binary_wf: "get_bson_binary len r = Inr (v, r1) \<Longrightarrow> json_wf v"
  by (auto simp: get_bson_binary_def split: if_splits sum.splits)

lemma bson_number_ends:
  assumes "slot (rd_dom r) q F" and "\<And>n. json_wf (g n)"
  shows "bse.ends (value_inv F (dom_stack (rd_dom r))) (Suc (rd_left r)) (bson_number_value k g r)"
  unfolding bson_number_value_def
proof (rule bse.ends_bind [OF keeps_number_le])
  fix n and r1 :: binary_reader
  assume "rd_dom r1 = rd_dom r"
  then show "bse.ends (value_inv F (dom_stack (rd_dom r))) (Suc (rd_left r1)) (rd_sax (g n) r1)"
    using bse.sax_ends [of r1 q F "g n"] assms by simp
qed

lemma bson_internal_ends:
  assumes f: "\<And>b. bse.reads_below n (f b)"
  shows "bse.reads_upto n (parse_bson_element_internal f ty pos)"
  unfolding bse.reads_upto_def
proof (intro allI impI)
  fix r q F
  assume slot: "slot (rd_dom r) q F" and n: "rd_left r < n"
  let ?S = "bse.ends (value_inv F (dom_stack (rd_dom r))) (Suc (rd_left r))"
  have doc: "?S (f b r)" for b
    using bse.reads_below_upto [OF f, of b] slot n unfolding bse.reads_upto_def by blast
  have str: "?S (bson_string_value r)"
    unfolding bson_string_value_def
  proof (rule bse.ends_bind [OF keeps_number_le])
    fix len and r1 :: binary_reader
    assume "rd_dom r1 = rd_dom r"
    then show "bse.ends (value_inv F (dom_stack (rd_dom r))) (Suc (rd_left r1))
        (case get_bson_string (to_signed 4 len) r1 of Inl e \<Rightarrow> Inl e | Inr (s, r2) \<Rightarrow> rd_sax (JString s) r2)"
      using bson_string_ends [of r1 q F "to_signed 4 len"] slot by simp
  qed
  have bin: "?S (bson_binary_value r)"
    unfolding bson_binary_value_def
  proof (rule bse.ends_bind [OF keeps_number_le])
    fix len and r1 :: binary_reader
    assume r1: "rd_dom r1 = rd_dom r"
    show "bse.ends (value_inv F (dom_stack (rd_dom r))) (Suc (rd_left r1))
        (case get_bson_binary (to_signed 4 len) r1 of Inl e \<Rightarrow> Inl e | Inr (v, r2) \<Rightarrow> rd_sax v r2)"
    proof (rule bse.ends_bind [OF keeps_bson_binary])
      fix v and r2 :: binary_reader
      assume "get_bson_binary (to_signed 4 len) r1 = Inr (v, r2)" "rd_dom r2 = rd_dom r1"
      then show "bse.ends (value_inv F (dom_stack (rd_dom r))) (Suc (rd_left r2)) (rd_sax v r2)"
        using bse.sax_ends [of r2 q F v] get_bson_binary_wf slot r1 by simp
    qed
  qed
  have bool: "?S (let r1 = rd_get r in rd_sax (JBoolean (rd_current r1 \<noteq> Some CHR 0x00)) r1)"
  proof -
    have "slot (rd_dom (rd_get r)) q F" using slot by (simp add: rd_get_left)
    from bse.sax_ends [OF this, of "JBoolean (rd_current (rd_get r) \<noteq> Some CHR 0x00)"] show ?thesis
      using rd_get_left(2) [of r] bse.ends_mono [of _ "Suc (rd_left (rd_get r))" _ "Suc (rd_left r)"]
      by (simp add: Let_def rd_get_left(1))
  qed
  have err: "?S (Inl (parse_error_at 114 p m))" for p m by (simp add: bson_error_def parse_error_at_def)
  have branch: "?S (if c then x else y)" if "c \<Longrightarrow> ?S x" "?S y" for c x y using that by simp
  show "?S (parse_bson_element_internal f ty pos r)"
    unfolding parse_bson_element_internal_def
    by (intro branch bse.sax_ends [OF slot] bson_number_ends [OF slot] doc str bin bool err) simp_all
qed

text \<open>An entry is read like a value after a key, in an array without the key.\<close>

lemma bson_element_member:
  "bson_element f False ty r = rd_member get_bson_cstr (parse_bson_element_internal f ty (rd_chars r)) r"
  "bson_element f True ty r =
     (case get_bson_cstr r of Inl e \<Rightarrow> Inl e | Inr (key, r1) \<Rightarrow> parse_bson_element_internal f ty (rd_chars r) r1)"
  by (auto simp: bson_element_def rd_member_def split: sum.split)

lemma bson_loop_ends:
  assumes step: "\<And>ty pos. bse.steps_below n P (g ty pos)"
    and entry: "\<And>ty r. bson_element f is_array ty (rd_get r) = g ty (rd_chars (rd_get r)) r"
    and "P (rd_dom r)" and "rd_left r < n" and "rd_left r < m"
  shows "bse.ends P (Suc (rd_left r)) (bson_element_loop f is_array m r)"
  using assms(3-)
proof (induction m arbitrary: r)
  case (Suc m)
  show ?case
  proof (cases "rd_current (rd_get r)")
    case None
    then show ?thesis by (simp add: Let_def bse.is_error reader_errorI)
  next
    case (Some c)
    then have less: "rd_left (rd_get r) < rd_left r" by (rule rd_get_left)
    show ?thesis
    proof (cases "c = CHR 0x00")
      case True
      then show ?thesis using Some rd_get_left(2) [of r] Suc.prems(1) by (simp add: Let_def rd_get_left(1) le_imp_less_Suc)
    next
      case False
      have s: "bse.ends P (rd_left r) (bson_element f is_array (char_nat c) (rd_get r))"
        unfolding entry using step Suc.prems(1,2) unfolding bse.steps_below_def by blast
      show ?thesis
      proof (cases "bson_element f is_array (char_nat c) (rd_get r)")
        case (Inl e)
        then show ?thesis using s Some False by (simp add: Let_def)
      next
        case (Inr r1)
        then have r1: "P (rd_dom r1)" "rd_left r1 < rd_left r" using s by simp_all
        then have "bse.ends P (Suc (rd_left r1)) (bson_element_loop f is_array m r1)"
          using Suc.prems(2,3) by (intro Suc.IH) simp_all
        then show ?thesis using Inr Some False r1(2) bse.ends_mono [of P "Suc (rd_left r1)" _ "Suc (rd_left r)"]
          by (simp add: Let_def)
      qed
    qed
  qed
qed simp

lemma bson_document_ends:
  assumes f: "\<And>b. bse.reads_below n (f b)" and slot: "slot (rd_dom r) q F" and n: "rd_left r < Suc n"
  shows "bse.ends (value_inv F (dom_stack (rd_dom r))) (rd_left r) (bson_document f is_array r)"
proof (cases "rd_number_le 4 r")
  case (Inl e)
  then show ?thesis using keeps_number_le [of r 4] by (simp add: bson_document_def keeps_def bse.is_error)
next
  case (Inr p)
  obtain x r1 where p: "p = (x, r1)" by (cases p)
  have r1: "rd_dom r1 = rd_dom r" "rd_left r1 < rd_left r"
    using keeps_number_le [of r 4] rd_number_le_less [of r x r1] Inr p by (simp_all add: keeps_def)
  have slot1: "slot (rd_dom r1) q F" and n1: "rd_left r1 < n" using slot n r1 by simp_all
  note internal = bson_internal_ends [OF f]
  have arr: "bse.ends (value_inv F (dom_stack (rd_dom r1))) (Suc (rd_left r1))
      (rd_array unknown_size (parse_bson_element_list f True) r1)"
  proof (rule bse.array_ends [OF slot1])
    fix r2
    assume inv: "array_inv F (q # dom_stack (rd_dom r1)) (rd_dom r2)" and left: "rd_left r2 = rd_left r1"
    have turns: "rd_left r2 < turns r2" and n2: "rd_left r2 < n" using left n1 by (simp_all add: turns_def rd_left_def)
    show "bse.ends (array_inv F (q # dom_stack (rd_dom r1))) (Suc (rd_left r2)) (parse_bson_element_list f True r2)"
      unfolding parse_bson_element_list_def
      by (rule bson_loop_ends [OF bse.element_step [OF bse.reads_after_key [OF internal bson_key] slot_laws [OF slot1]]
            bson_element_member(2) inv n2 turns])
  qed simp
  have obj: "bse.ends (value_inv F (dom_stack (rd_dom r1))) (Suc (rd_left r1))
      (rd_object unknown_size (parse_bson_element_list f False) r1)"
  proof (rule bse.object_ends [OF slot1])
    fix r2
    assume inv: "object_inv F (q # dom_stack (rd_dom r1)) (rd_dom r2)" and left: "rd_left r2 = rd_left r1"
    have turns: "rd_left r2 < turns r2" and n2: "rd_left r2 < n" using left n1 by (simp_all add: turns_def rd_left_def)
    show "bse.ends (object_inv F (q # dom_stack (rd_dom r1))) (Suc (rd_left r2)) (parse_bson_element_list f False r2)"
      unfolding parse_bson_element_list_def
      by (rule bson_loop_ends [OF bse.member_step [OF internal slot_laws [OF slot1] bson_key]
            bson_element_member(1) inv n2 turns])
  qed simp
  show ?thesis using arr obj Inr p r1 bse.ends_mono [of _ "Suc (rd_left r1)" _ "rd_left r"]
    by (simp add: bson_document_def)
qed

lemma bson_parse_below: "bse.reads_below n (parse_bson_internal n b)"
proof (induction n arbitrary: b)
  case 0
  then show ?case by (simp add: bse.reads_below_def)
next
  case (Suc n)
  show ?case unfolding bse.reads_below_def using bson_document_ends [OF Suc.IH] by simp
qed

text \<open>
  The BSON reader returns on every input, with more levels of stack than the input has bytes: a well
  formed value, a discarded one where it gave up without an error, or a parse error with one of its
  numbers. No assertion of the handler fails, and the turns of the loops are enough.
\<close>

theorem bson_any_input:
  assumes "length input < depth"
  shows "case from_bson depth strict input of
      Inl e \<Rightarrow> reader_error e \<or> (\<exists>m. e = Json_parse_error 114 m)
    | Inr j \<Rightarrow> json_wf j"
  using bse.parse_ends [OF bson_parse_below [of depth False] assms, of Format_bson strict]
  by (auto simp: from_bson_def Let_def bson_error_def split: sum.splits)

theorem bson_any_input_witness:
  "case from_bson 3 True [CHR 0x05, CHR 0x00] of
      Inl e \<Rightarrow> reader_error e \<or> (\<exists>m. e = Json_parse_error 114 m)
    | Inr j \<Rightarrow> json_wf j"
  by (rule bson_any_input) simp

text \<open>A document with one entry, up to the value of the entry.\<close>

lemma one_entry:
  assumes name: "CHR 0x00 \<notin> set name" and ty: "0 < ty" "ty < 256"
  obtains r d m pos where "rd_at r body d" "slot d [Key name] (\<lambda>w. JObject [(name, w)])" "dom_stack d = [[]]" "0 < m"
    "parse_bson_internal (Suc depth) False (new_reader (write_number_le 4 n @ write_bson_entry_header name ty @ body)) =
       (case parse_bson_element_internal (parse_bson_internal depth) ty pos r of
          Inl e \<Rightarrow> Inl e
        | Inr r1 \<Rightarrow>
            (case bson_element_loop (parse_bson_internal depth) False m r1 of
               Inl e \<Rightarrow> Inl e
             | Inr r2 \<Rightarrow> on_handler r2 (dom_end_object (rd_dom r2))))"
proof -
  let ?r0 = "new_reader (write_number_le 4 n @ write_bson_entry_header name ty @ body)"
  let ?d1 = "(new_dom JNull)\<lparr>dom_root := JObject [], dom_stack := [] # dom_stack (new_dom JNull)\<rparr>"
  have slot: "slot (new_dom JNull) [] (\<lambda>v. v)" by (rule slot_top) (simp add: new_dom_def)
  have "rd_at ?r0 (write_number_le 4 n @ write_bson_entry_header name ty @ body) (new_dom JNull)"
    by (simp add: rd_at_def new_reader_def)
  then obtain r1 where 1: "rd_number_le 4 ?r0 = Inr (n mod 256 ^ 4, r1)"
    "rd_at r1 (write_bson_entry_header name ty @ body) (new_dom JNull)" by (rule rd_number_le_at)
  obtain r2 where 2: "rd_start_object unknown_size r1 = Inr r2" "rd_at r2 (write_bson_entry_header name ty @ body) ?d1"
    using rd_start_object_at [OF 1(2) slot, of unknown_size] by auto
  obtain m where m: "turns r2 = Suc m" "0 < m" using 2(2) by (auto simp: turns_def rd_at_def write_bson_entry_header_def)
  obtain r3 where 3: "get_bson_cstr (rd_get r2) = Inr (name, r3)" "rd_at r3 body ?d1"
    "bson_element_loop (parse_bson_internal depth) False (Suc m) r2 =
       (case bson_element (parse_bson_internal depth) False ty (rd_get r2) of
          Inl e \<Rightarrow> Inl e | Inr r \<Rightarrow> bson_element_loop (parse_bson_internal depth) False m r)"
    using header_at [OF 2(2) ty name] by metis
  have d1: "dom_stack ?d1 = [] # []" "dom_root ?d1 = JObject []" "\<forall>k' \<in> set (map fst []). k' < name"
    by (simp_all add: new_dom_def)
  obtain r4 d4 where "on_handler r3 (dom_key name (rd_dom r3)) = Inr r4" "rd_at r4 body d4"
    "slot d4 ([] @ [Key name]) (\<lambda>w. JObject ([] @ [(name, w)]))" "dom_stack d4 = [] # []"
    by (rule new_key_at [OF slotD(2) [OF slot] slotD(3) [OF slot] 3(2) d1])
  then have 4: "on_handler r3 (dom_key name (rd_dom r3)) = Inr r4" "rd_at r4 body d4"
    "slot d4 [Key name] (\<lambda>w. JObject [(name, w)])" "dom_stack d4 = [[]]" by simp_all
  show ?thesis
    by (rule that [OF 4(2-4) m(2), of "rd_chars (rd_get r2)"])
      (use 1(1) 2(1) 3(1,3) 4(1) m(1) in \<open>simp add: bson_document_def rd_object_def parse_bson_element_list_def
        bson_element_def split: sum.split\<close>)
qed

text \<open>
  C39: What the BSON reader lets pass. A document that ends where the zero byte of a string should be gives a
  discarded value and no exception, though exceptions are on; and neither the size of the document nor
  that last byte of a string is looked at.
\<close>

theorem bson_cut_string:
  assumes "CHR 0x00 \<notin> set name" and "length s + 1 < 2 ^ 31"
  shows "from_bson (Suc depth) strict
      (write_number_le 4 n @ write_bson_entry_header name 2 @ write_number_le 4 (length s + 1) @ s) = Inr JDiscarded
    \<and> from_bson (Suc depth) strict
      (write_number_le 4 n @ write_bson_entry_header name 2 @ write_number_le 4 (length s + 1) @ s @ [c, CHR 0x00])
      = Inr (JObject [(name, JString s)])"
proof
  let ?f = "parse_bson_internal depth"
  have ty: "0 < (2 :: nat)" "(2 :: nat) < 256" by simp_all
  obtain r d m pos where 1: "rd_at r (write_number_le 4 (length s + 1) @ s) d"
    "parse_bson_internal (Suc depth) False
       (new_reader (write_number_le 4 n @ write_bson_entry_header name 2 @ write_number_le 4 (length s + 1) @ s)) =
       (case parse_bson_element_internal ?f 2 pos r of
          Inl e \<Rightarrow> Inl e
        | Inr r1 \<Rightarrow>
            (case bson_element_loop ?f False m r1 of
               Inl e \<Rightarrow> Inl e
             | Inr r2 \<Rightarrow> on_handler r2 (dom_end_object (rd_dom r2))))"
    by (rule one_entry [OF assms(1) ty])
  have "rd_at r (write_number_le 4 (length s + 1) @ s @ []) d" using 1(1) by simp
  then obtain r2 where "rd_at r2 [] d"
    "bson_string_value r = (if rd_current (rd_get r2) = None then Inl Returned_false else rd_sax (JString s) (rd_get r2))"
    by (rule bson_string_value_at [OF _ assms(2)])
  then have "parse_bson_element_internal ?f 2 pos r = Inl Returned_false"
    by (simp add: parse_bson_element_internal_def rd_get_def get_character_def rd_at_def)
  then show "from_bson (Suc depth) strict
      (write_number_le 4 n @ write_bson_entry_header name 2 @ write_number_le 4 (length s + 1) @ s) = Inr JDiscarded"
    using 1(2) by (simp add: from_bson_def binary_sax_parse_def del: parse_bson_internal.simps)
  obtain r d m pos where 3: "rd_at r (write_number_le 4 (length s + 1) @ s @ [c, CHR 0x00]) d"
    "slot d [Key name] (\<lambda>w. JObject [(name, w)])" "dom_stack d = [[]]" "0 < m"
    "parse_bson_internal (Suc depth) False
       (new_reader (write_number_le 4 n @ write_bson_entry_header name 2 @ write_number_le 4 (length s + 1) @ s @ [c, CHR 0x00])) =
       (case parse_bson_element_internal ?f 2 pos r of
          Inl e \<Rightarrow> Inl e
        | Inr r1 \<Rightarrow>
            (case bson_element_loop ?f False m r1 of
               Inl e \<Rightarrow> Inl e
             | Inr r2 \<Rightarrow> on_handler r2 (dom_end_object (rd_dom r2))))"
    by (rule one_entry [OF assms(1) ty])
  obtain r4 d4 where 4: "parse_bson_element_internal ?f 2 pos r = Inr r4" "rd_at r4 [CHR 0x00] d4"
    "dom_root d4 = JObject [(name, JString s)]" "dom_stack d4 = [[]]"
    using bson_string_at [OF 3(1) assms(2) 3(2), of ?f pos] 3(3) by auto
  have 5: "rd_at (rd_get r4) [] d4" "rd_current (rd_get r4) = Some (CHR 0x00)" using rd_at_get [OF 4(2)] by simp_all
  obtain k where "m = Suc k" using 3(4) by (cases m) auto
  then have "bson_element_loop ?f False m r4 = Inr (rd_get r4)" using 5(2) by (simp add: Let_def)
  moreover have "on_handler (rd_get r4) (dom_end_object (rd_dom (rd_get r4))) = Inr ((rd_get r4)\<lparr>rd_dom := d4\<lparr>dom_stack := []\<rparr>\<rparr>)"
    using 5(1) 4(3,4) by (simp add: on_handler_def dom_end_object_def rd_at_def)
  ultimately show "from_bson (Suc depth) strict
      (write_number_le 4 n @ write_bson_entry_header name 2 @ write_number_le 4 (length s + 1) @ s @ [c, CHR 0x00])
      = Inr (JObject [(name, JString s)])"
    using 3(5) 4(1,3) 5(1)
    by (simp add: from_bson_def binary_sax_parse_def rd_finish_def rd_at_def rd_get_def get_character_def Let_def
        del: parse_bson_internal.simps)
qed

theorem bson_cut_string_witness:
  "from_bson 1 True (write_number_le 4 0 @ write_bson_entry_header ''k'' 2 @ write_number_le 4 (length ''v'' + 1) @ ''v'') = Inr JDiscarded
    \<and> from_bson 1 True
      (write_number_le 4 0 @ write_bson_entry_header ''k'' 2 @ write_number_le 4 (length ''v'' + 1) @ ''v'' @ [CHR ''x'', CHR 0x00])
      = Inr (JObject [(''k'', JString ''v'')])"
  using bson_cut_string [of "''k''" "''v''" 0 True 0 "CHR ''x''"] by simp

end
