(* ===== verification/Spec2Isabelle.thy ===== *)
theory Spec2Isabelle
  imports System_Threads Json_Roundtrip Json_Patch Msgpack_Roundtrip Cbor_Roundtrip Bson_Roundtrip
begin

text \<open>
  A verification development for the market data client of this repository: a program that
  subscribes to order books over web sockets and polls them over a REST interface, merges both into
  one cache, and hands them to callbacks from one consumer loop. The JSON library it uses is vendored
  (\<^verbatim>\<open>include/nlohmann/json.hpp\<close>), so the parts of it the program runs are modelled too.

  \<^bold>\<open>How the program works.\<close> \<^verbatim>\<open>Client::setup\<close> creates per subscription an io context and a
  \<^verbatim>\<open>ConnectionManager\<close> with REST and web socket handlers; \<^verbatim>\<open>Client::run\<close> starts the handlers, a
  thread per io context, and the \<^verbatim>\<open>Consumer\<close> on the main thread. A handler posts \<^verbatim>\<open>on_data\<close> for
  each text it receives; \<^verbatim>\<open>on_data\<close> parses the text into a \<^verbatim>\<open>Msg\<close> and offers it to the shared
  \<^verbatim>\<open>Cache\<close>, which filters web socket messages by their update id and stores them in a lock-free
  ring buffer. The consumer polls the cache and posts a delivery task for each message it gets.

  \<^bold>\<open>Theories.\<close>
  \<^item> \<^verbatim>\<open>Prelude\<close>: machine integers, the ways an operation can fail (\<open>cpp_error\<close>), outcomes
    as sums, word lemmas.
  \<^item> \<^verbatim>\<open>Lock_Free_Queue\<close>: \<^verbatim>\<open>include/utils/queue.h\<close>, one thread. \<open>lfq\<close> is the object,
    \<open>q_list\<close> its abstract value; the locale \<open>bounded_queue\<close> is the interface.
  \<^item> \<^verbatim>\<open>Queue_Threads\<close>: the same code at single atomic accesses, interleaved.
  \<^item> \<^verbatim>\<open>Cpp_Numbers\<close>: \<^verbatim>\<open>std::to_string\<close>, \<^verbatim>\<open>stoi\<close>, \<^verbatim>\<open>strtod\<close> and doubles.
  \<^item> \<^verbatim>\<open>Json_Lexer\<close>, \<^verbatim>\<open>Json_Value\<close>, \<^verbatim>\<open>Json_Parser\<close>, \<^verbatim>\<open>Json_Dom\<close>: the JSON library's
    scanner, value type and access, parse loop with its SAX handler, and the proof that its
    assertions hold.
  \<^item> \<^verbatim>\<open>Json_Float\<close>, \<^verbatim>\<open>Json_Escape\<close>, \<^verbatim>\<open>Json_Serializer\<close>: the JSON library's printing of
    doubles, string escaping and serializer.
  \<^item> \<^verbatim>\<open>Json_Utf8\<close>, \<^verbatim>\<open>Json_Dump\<close>, \<^verbatim>\<open>Json_Scan\<close>, \<^verbatim>\<open>Json_Roundtrip\<close>: their correctness,
    up to the round trip through \<^verbatim>\<open>dump\<close> and \<^verbatim>\<open>parse\<close>. \<open>json_text\<close> is the reference text of a value.
  \<^item> \<^verbatim>\<open>Json_Powers\<close>, \<^verbatim>\<open>Json_Grisu\<close>, \<^verbatim>\<open>Json_Double\<close>: the accuracy of the cached powers of ten, of
    the digits of Grisu2, and of the text written for a double, which \<^verbatim>\<open>strtod\<close> reads back.
  \<^item> \<^verbatim>\<open>Json_Access\<close>, \<^verbatim>\<open>Json_Compare\<close>, \<^verbatim>\<open>Json_Objects\<close>: element access, modifiers, \<^verbatim>\<open>update\<close> and
    \<^verbatim>\<open>merge_patch\<close> of values; the comparison operators; objects as finite maps (the locale
    \<open>key_map\<close>) with the theorems on the operations.
  \<^item> \<^verbatim>\<open>Json_Pointer\<close>, \<^verbatim>\<open>Json_Patch\<close>: \<^verbatim>\<open>class json_pointer\<close>, \<^verbatim>\<open>flatten\<close> and \<^verbatim>\<open>unflatten\<close>;
    \<^verbatim>\<open>patch\<close> and \<^verbatim>\<open>diff\<close>. A reference into a value is a path (\<open>json_at\<close>, \<open>json_modify\<close>).
  \<^item> \<^verbatim>\<open>Binary_Format\<close>, \<^verbatim>\<open>Msgpack\<close>, \<^verbatim>\<open>Cbor\<close>, \<^verbatim>\<open>Bson\<close>: \<^verbatim>\<open>class binary_writer\<close> and
    \<^verbatim>\<open>class binary_reader\<close> for MessagePack, CBOR and BSON; \<open>binary_reader\<close> holds the rest of the input and the state of the handler.
  \<^item> \<^verbatim>\<open>Binary_Facts\<close>, \<^verbatim>\<open>Msgpack_Roundtrip\<close>, \<^verbatim>\<open>Cbor_Roundtrip\<close>, \<^verbatim>\<open>Bson_Roundtrip\<close>: what they share, as the locales
    \<open>binary_codec\<close> (a format whose reader takes back what its writer wrote) and \<open>error_class\<close> (a reader
    on any input), and the theorems on each.
  \<^item> \<^verbatim>\<open>Message\<close>: \<^verbatim>\<open>include/utils/parser.h\<close> and \<^verbatim>\<open>include/common.h\<close>.
  \<^item> \<^verbatim>\<open>Message_Cache\<close>: \<^verbatim>\<open>include/cache.h\<close> and \<^verbatim>\<open>src/cache.cpp\<close>, with the specification
    \<open>spec_cache\<close> it refines and the locale \<open>message_cache\<close>.
  \<^item> \<^verbatim>\<open>Connection_Handler\<close>, \<^verbatim>\<open>Web_Socket\<close>, \<^verbatim>\<open>Rest_Api\<close>, \<^verbatim>\<open>Connection_Manager\<close>:
    \<^verbatim>\<open>include/connection.h\<close>, \<^verbatim>\<open>websocket.h\<close>, \<^verbatim>\<open>restapi.h\<close> and their sources. A handler is a state
    machine whose events are completions of asynchronous operations.
  \<^item> \<^verbatim>\<open>Consumer\<close>, \<^verbatim>\<open>Client\<close>: \<^verbatim>\<open>consumer.h\<close>, \<^verbatim>\<open>client.h\<close> and their sources, and the
    callbacks of \<^verbatim>\<open>app/main.cpp\<close>.
  \<^item> \<^verbatim>\<open>System\<close>: all handlers, the cache and the consumer together, in the schedules in which no
    posted task is interrupted.
  \<^item> \<^verbatim>\<open>System_Threads\<close>: the same with a thread per io context and the main thread, interleaved at
    single accesses to what they share: \<^verbatim>\<open>U_\<close> of the cache, and \<^verbatim>\<open>head_\<close>, \<^verbatim>\<open>tail_\<close> and the slots of its queue.
    \<^verbatim>\<open>Cache::encache\<close> takes no lock, so a thread can be interrupted between its comparison with \<^verbatim>\<open>U_\<close>
    and the assignment, and inside \<^verbatim>\<open>enqueue\<close>. The simulation \<open>threads_rel\<close> relates the two systems.

  \<^bold>\<open>What is shown.\<close> With one subscription (any number of replicas), in any interleaving of the single
  accesses of its two threads, every order book that reaches a callback is the parse of a text that a
  handler of its source and symbol received, and the web socket callback sees strictly increasing
  update ids; every such interleaving has the effects of a schedule of \<^verbatim>\<open>System\<close>. With more subscriptions
  the callbacks can come out of order, since the io threads race on \<^verbatim>\<open>U_\<close> (\<open>two_subscriptions_reorder\<close>),
  and messages can be lost, since they race on the queue (\<open>two_producers_lose\<close>). For any number of
  subscriptions there is a schedule in which a fresh frame reaches the callback. The cache refines its
  specification; the queue is FIFO for one producer and one consumer thread. The
  JSON parser never fails an assertion, and it gives back what the serializer wrote, doubles included. A patch made by
  \<^verbatim>\<open>diff\<close> turns the first value into one equal to the second, and \<^verbatim>\<open>merge_patch\<close> follows RFC 7396.
  The binary readers take back what the writers wrote, and end on every input with a value or an error of
  theirs as long as the stack has a level per byte of it. The
  remaining properties state what each component does on every branch, among them a number of defects,
  each exhibited by a theorem.

  \<^bold>\<open>Modelling decisions.\<close> An exception, a failed assertion, undefined behaviour and a function that
  returned false without an error are left values of a sum type. Uninitialised members are arguments. Loops are total functions with a termination
  measure (the lexer and the parser: the number of characters left), without fuel. Two bounds are arguments
  because the code has no measure of its own: the readers of binary formats get the depth of the
  call stack, and run out of it like the code (one level more than the input has bytes is enough); their
  loops up to a break or a zero byte get one turn more than there are bytes left, which is always enough. Memory
  allocation always succeeds. Interleavings are sequentially consistent.

  \<^bold>\<open>Parameters.\<close> The INI reader \<^verbatim>\<open>ini_parse\<close>, the standard string hash and the overriders of the
  client's callbacks are arguments. The network (boost) is the nondeterminism of the step relations.

  \<^bold>\<open>Not modelled.\<close> Logging and console output; \<^verbatim>\<open>WebSocketHandler::close\<close>, which nothing calls; the
  parts of the JSON library for UBJSON and BJData, iterators and conversions from containers. A double
  is an infinity, a NaN with its payload, or a finite number; the parser makes finite ones only.
\<close>

text \<open>
  C1: In every run of the threads of a started client with one subscription, whatever the network does and
  however the accesses of the io thread and of the main thread interleave, the web socket callback sees strictly
  increasing update ids: replicas of a connection may deliver the same updates in any order, and yet
  no update reaches the callback twice or after a newer one. With more subscriptions this fails
  (\<open>two_subscriptions_reorder\<close>).
\<close>

theorem callbacks_ordered:
  assumes "Client n0 u0 cfg = Inr c0" and "client_setup f_ws f_rest c0 = Inr c1"
    and "client_run c1 = Inr c2" and "length (cfg_subscriptions cfg) = 1"
    and "thread_steps (threads_start c2) es s"
  shows "sorted_wrt (<) (call_ids (co_log (sy_consumer s)))"
  by (rule one_subscription_inv(1) [OF assms])

theorem callbacks_ordered_witness:
  "\<exists>c2 es s. thread_steps (threads_start c2) es s \<and> call_ids (co_log (sy_consumer s)) = [5, 6]
    \<and> sorted_wrt (<) (call_ids (co_log (sy_consumer s)))"
proof -
  obtain c0 c1 c2 es s where r: "Client 5 0 one_config = Inr c0"
    "client_setup (\<lambda>_. Inr ()) (\<lambda>_. Inr ()) c0 = Inr c1" "client_run c1 = Inr c2"
    "thread_steps (threads_start c2) es s"
    "co_log (sy_consumer s) = [update_book ''btcusdt'' 5, update_book ''btcusdt'' 6]"
    using one_config_run by blast
  from callbacks_ordered [OF r(1-3) one_config_length r(4)] r(4,5) show ?thesis by fastforce
qed

text \<open>
  C2: Nothing is made up on the way: in every run of the threads of a started client with one subscription,
  whatever the network does and however the accesses of its two threads interleave, each order book
  handed to a callback has the symbol of a handler of the matching source, and its data is the parse
  of a text that this very handler received in the run.
\<close>

theorem callbacks_have_origin:
  assumes "Client n0 u0 cfg = Inr c0" and "client_setup f_ws f_rest c0 = Inr c1"
    and "client_run c1 = Inr c2" and "length (cfg_subscriptions cfg) = 1"
    and "thread_steps (threads_start c2) es s" and "x \<in> set (co_log (sy_consumer s))"
  shows "origin (sy_handlers (sys_start c2)) (completions es) x"
  by (rule one_subscription_inv(2) [OF assms])

theorem callbacks_have_origin_witness:
  "\<exists>c2 es s. thread_steps (threads_start c2) es s
    \<and> co_log (sy_consumer s) = [update_book ''btcusdt'' 5, update_book ''btcusdt'' 6]
    \<and> origin (sy_handlers (sys_start c2)) (completions es) (update_book ''btcusdt'' 6)"
proof -
  obtain c0 c1 c2 es s where r: "Client 5 0 one_config = Inr c0"
    "client_setup (\<lambda>_. Inr ()) (\<lambda>_. Inr ()) c0 = Inr c1" "client_run c1 = Inr c2"
    "thread_steps (threads_start c2) es s"
    "co_log (sy_consumer s) = [update_book ''btcusdt'' 5, update_book ''btcusdt'' 6]"
    using one_config_run by blast
  from callbacks_have_origin [OF r(1-3) one_config_length r(4), of "update_book ''btcusdt'' 6"] r(4,5)
  show ?thesis by fastforce
qed

text \<open>
  C4: The program works: from the start of a client, for each of its web socket handlers there is a run
  in which the first frame that handler receives, if it has an update id above the initial one, ends
  as a call of the callback with the handler's symbol and the frame's data.
\<close>

theorem first_frame_delivered:
  assumes "Client n0 u0 cfg = Inr c0" and "client_setup (\<lambda>_. Inr ()) f_rest c0 = Inr c1"
    and "client_run c1 = Inr c2" and "length (cfg_subscriptions cfg) < 2 ^ 31"
    and "i < length (sy_handlers (sys_start c2))"
    and "conn_source (sy_handlers (sys_start c2) ! i) = MS_WebSocket"
    and "parseJsonString t = Inr j" and "fst (json_uint64_at ''U'' j) = Inr u" and "u0 < u"
  shows "\<exists>es s. sys_steps (sys_start c2) es s \<and> co_log (sy_consumer s) =
    [(MS_WebSocket, \<lparr>ob_symbol = conn_symbol (sy_handlers (sys_start c2) ! i), ob_data = j\<rparr>)]"
  by (rule first_frame_run [OF assms])

theorem first_frame_delivered_witness:
  "\<exists>c2 es s. sys_steps (sys_start c2) es s \<and> co_log (sy_consumer s) =
    [(MS_WebSocket, \<lparr>ob_symbol = ''btcusdt'', ob_data = JObject [(''U'', JUnsigned 5)]\<rparr>)]"
proof -
  obtain c0 c1 c2 where c: "Client 5 0 sample_config = Inr c0"
    "client_setup (\<lambda>_. Inr ()) (\<lambda>_. Inr ()) c0 = Inr c1" "client_run c1 = Inr c2"
    using sample_client by blast
  note h = sample_handlers [OF c]
  have "1 < length (sy_handlers (sys_start c2))" "(0::uint64_t) < 5" using h by simp_all
  from first_frame_delivered [OF c sample_config_small this(1) _ sample_frame_parse this(2)] h
  show ?thesis by metis
qed

text \<open>
  The demo client does not survive a null order book, which is what a malformed or chunked REST
  response becomes: the two tasks that poll and deliver it end with the type error 305 of the const
  element access, thrown out of the consumer's io context.
\<close>

theorem null_book_stops_demo:
  assumes "co_tasks s = [Poll]" and "co_cache s = Some c" and "c_wf c"
    and "c_items c = order_msg MS_RestApi symb JNull # ms" and "co_rest s = Some (quiet onOrderBookREST)"
  shows "consumer_events [Exec 0, Exec 0] s =
    Inl (type_error 305 ''cannot use operator[] with a string argument with null'')"
proof -
  let ?s = "s\<lparr>co_tasks := []\<rparr>"
  have c: "co_cache ?s = Some c" using assms(2) by simp
  obtain c' where "consumer_task Poll ?s =
      Inr (post Poll (post (Deliver (order_msg MS_RestApi symb JNull)) (?s\<lparr>co_cache := Some c'\<rparr>)))"
    by (rule Poll_task [OF c assms(3)]) (use assms(4) that in auto)
  then show ?thesis
    using assms(1,5)
    by (simp add: consumer_exec_def remove_nth_def post_def onData_def call_back_def order_msg_def
        quiet_def demo_null)
qed

theorem null_book_stops_demo_witness:
  "consumer_events [Exec 0, Exec 0]
     ((polling (small_cache [order_msg MS_RestApi ''btcusdt'' JNull, update_msg ''btcusdt'' 1, update_msg ''btcusdt'' 2] 2))
        \<lparr>co_rest := Some (quiet onOrderBookREST)\<rparr>)
   = Inl (type_error 305 ''cannot use operator[] with a string argument with null'')"
proof -
  let ?ms = "[update_msg ''btcusdt'' 1, update_msg ''btcusdt'' 2]"
  let ?c = "small_cache (order_msg MS_RestApi ''btcusdt'' JNull # ?ms) 2"
  let ?s = "(polling ?c)\<lparr>co_rest := Some (quiet onOrderBookREST)\<rparr>"
  have "c_wf ?c" by (rule small_cache_wf) simp
  from null_book_stops_demo [of ?s ?c, OF _ _ this, of "''btcusdt''" ?ms] show ?thesis
    by (simp add: polling_def small_cache_items)
qed

end
